(* ===== verification/Fraise_Prelude.thy ===== *)
theory Fraise_Prelude
  imports Main "HOL-Library.Multiset"
begin

text \<open>
  Shared vocabulary of the development: the collections that proofs of several components
  add to, exchange of two slots of a Go slice, and sorting by an explicit order (Go's
  \<open>sort.Slice\<close> and \<open>slices.SortFunc\<close> take the order as an argument, so the library's
  \<open>sort\<close> on a type class does not fit).
\<close>

named_theorems loop_defs \<comment> \<open>equations of loops, unfolded by hand\<close>
named_theorems preserves \<comment> \<open>operations that keep a length, a multiset or an invariant\<close>

section \<open>Exchanging two slots of a slice\<close>

definition swap_slots :: "'a list \<Rightarrow> nat \<Rightarrow> nat \<Rightarrow> 'a list" where
  "swap_slots xs i j = xs[i := xs ! j, j := xs ! i]"

lemma length_swap_slots [simp]: "length (swap_slots xs i j) = length xs"
  by (simp add: swap_slots_def)

lemma mset_swap_slots [simp]:
  "i < length xs \<Longrightarrow> j < length xs \<Longrightarrow> mset (swap_slots xs i j) = mset xs"
  by (simp add: swap_slots_def mset_swap)

lemma nth_swap_slots:
  "i < length xs \<Longrightarrow> j < length xs \<Longrightarrow> a < length xs \<Longrightarrow>
   swap_slots xs i j ! a = (if a = j then xs ! i else if a = i then xs ! j else xs ! a)"
  by (auto simp: swap_slots_def nth_list_update)

lemma map_swap_slots:
  "i < length xs \<Longrightarrow> j < length xs \<Longrightarrow> map f (swap_slots xs i j) = swap_slots (map f xs) i j"
  by (simp add: swap_slots_def map_update)

lemma mset_butlast_last: "xs \<noteq> [] \<Longrightarrow> add_mset (last xs) (mset (butlast xs)) = mset xs"
  by (cases xs rule: rev_cases) auto

section \<open>Sorting by an order given as an argument\<close>

fun insort_by :: "('a \<Rightarrow> 'a \<Rightarrow> bool) \<Rightarrow> 'a \<Rightarrow> 'a list \<Rightarrow> 'a list" where
  "insort_by le x [] = [x]"
| "insort_by le x (y # ys) = (if le x y then x # y # ys else y # insort_by le x ys)"

definition sort_by :: "('a \<Rightarrow> 'a \<Rightarrow> bool) \<Rightarrow> 'a list \<Rightarrow> 'a list" where
  "sort_by le xs = foldr (insort_by le) xs []"

lemma sort_by_simps [simp]:
  "sort_by le [] = []"
  "sort_by le (x # xs) = insort_by le x (sort_by le xs)"
  by (simp_all add: sort_by_def)

lemma mset_insort_by [simp]: "mset (insort_by le x xs) = add_mset x (mset xs)"
  by (induction xs) auto

lemma mset_sort_by [simp]: "mset (sort_by le xs) = mset xs"
  by (induction xs) auto

lemma set_sort_by [simp]: "set (sort_by le xs) = set xs"
  by (metis mset_sort_by set_mset_mset)

lemma length_insort_by [simp]: "length (insort_by le x xs) = Suc (length xs)"
  by (induction xs) auto

lemma length_sort_by [simp]: "length (sort_by le xs) = length xs"
  by (metis mset_sort_by size_mset)

lemma take_insort_by: "take k (insort_by le x (take k ys)) = take k (insort_by le x ys)"
proof (induction ys arbitrary: k)
  case (Cons y ys)
  then show ?case by (cases k) (auto simp: take_Cons')
qed simp

lemma set_insort_by [simp]: "set (insort_by le x xs) = insert x (set xs)"
  by (metis mset_insort_by set_mset_add_mset_insert set_mset_mset)

text \<open>A total preorder given as a relation: what a comparison function must promise.\<close>

locale total_preorder =
  fixes le :: "'a \<Rightarrow> 'a \<Rightarrow> bool"
  assumes total: "le x y \<or> le y x"
    and trans: "le x y \<Longrightarrow> le y z \<Longrightarrow> le x z"
begin

lemma refl: "le x x"
  using total by blast

lemma sorted_insort_by: "sorted_wrt le xs \<Longrightarrow> sorted_wrt le (insort_by le x xs)"
proof (induction xs)
  case (Cons y ys)
  show ?case
  proof (cases "le x y")
    case True
    with Cons.prems show ?thesis by (auto intro: trans)
  next
    case False
    with total have "le y x" by blast
    with False Cons show ?thesis by auto
  qed
qed simp

lemma sorted_sort_by: "sorted_wrt le (sort_by le xs)"
  by (induction xs) (auto intro: sorted_insort_by)

end

text \<open>When equivalent elements are equal, the sorted list is unique.\<close>

locale total_order_rel = total_preorder le for le :: "'a \<Rightarrow> 'a \<Rightarrow> bool" +
  assumes antisym: "le x y \<Longrightarrow> le y x \<Longrightarrow> x = y"
begin

lemma sorted_unique:
  "sorted_wrt le xs \<Longrightarrow> sorted_wrt le ys \<Longrightarrow> mset xs = mset ys \<Longrightarrow> xs = ys"
proof (induction xs arbitrary: ys)
  case (Cons x xs)
  then obtain y ys' where ys: "ys = y # ys'"
    by (cases ys) auto
  have "x \<in> set ys" "y \<in> set (x # xs)"
    using Cons.prems(3) ys by (metis list.set_intros(1) set_mset_mset)+
  with Cons.prems ys have "x = y"
    by (auto intro: antisym)
  with Cons ys show ?case by auto
qed simp

lemma sort_by_eqI: "sorted_wrt le ys \<Longrightarrow> mset ys = mset xs \<Longrightarrow> sort_by le xs = ys"
  by (rule sorted_unique) (auto intro: sorted_sort_by)

lemma sort_by_mset_cong: "mset xs = mset ys \<Longrightarrow> sort_by le xs = sort_by le ys"
  by (rule sort_by_eqI) (auto intro: sorted_sort_by)

text \<open>
  Inserting into a full list of the best \<open>k\<close> and keeping \<open>k\<close>: the new element takes the place of
  the last one \<open>r\<close>, or is dropped when \<open>r\<close> is already better.
\<close>

lemma take_insort_full:
  assumes s: "sorted_wrt le zs" and r: "r \<in> set zs" "\<forall>y \<in> set zs. le y r"
  shows "mset (take (length zs) (insort_by le x zs)) =
    (if le r x then mset zs else add_mset x (mset zs) - {#r#})"
proof -
  let ?ys = "insort_by le x zs"
  have ne: "?ys \<noteq> []" and len: "length ?ys = Suc (length zs)"
    by (metis mset_insort_by mset_zero_iff add_mset_not_empty)
      (metis mset_insort_by size_add_mset size_mset)
  then have t: "take (length zs) ?ys = butlast ?ys" by (simp add: butlast_conv_take)
  have "sorted_wrt le ?ys" by (rule sorted_insort_by [OF s])
  then have "sorted_wrt le (butlast ?ys @ [last ?ys])" using ne by simp
  then have top: "\<forall>y \<in> set (butlast ?ys). le y (last ?ys)" by (simp add: sorted_wrt_append)
  have "set ?ys = set (butlast ?ys @ [last ?ys])" using ne by simp
  then have split: "insert x (set zs) = insert (last ?ys) (set (butlast ?ys))" by simp
  have top': "le y (last ?ys)" if "y \<in> insert x (set zs)" for y
    using that top refl split by auto
  have last_in: "last ?ys \<in> insert x (set zs)" using split by blast
  have m: "mset (butlast ?ys) = add_mset x (mset zs) - {#last ?ys#}"
    using mset_butlast_last [OF ne] by (metis add_mset_remove_trivial mset_insort_by)
  show ?thesis
  proof (cases "le r x")
    case True
    then have "le y x" if "y \<in> set zs" for y using that r(2) trans by blast
    then have "le (last ?ys) x" using last_in refl by auto
    then have "last ?ys = x" using top' [of x] antisym by blast
    then show ?thesis using True t m by simp
  next
    case False
    then have "le x r" using total by blast
    then have "le (last ?ys) r" using last_in r(2) by auto
    then have "last ?ys = r" using top' [of r] r(1) antisym by blast
    then show ?thesis using False t m by simp
  qed
qed

end

end
