(* ===== verification/Sift.thy ===== *)
theory Sift
  imports Fraise_Prelude
begin

text \<open>
  Binary heaps in a slice, for any order \<open>ab\<close> (\<open>ab x y\<close>: \<open>x\<close> belongs above \<open>y\<close>). \<open>internal/containers\<close> writes the same
  sifting loops twice, in \<open>heap.go\<close> (larger priority above) and in \<open>topk.go\<close> (worse pair
  above); this theory proves the facts about them once. Slot \<open>i\<close> has its parent at
  \<open>(i - 1) div 2\<close> and its children at \<open>2 * i + 1\<close> and \<open>2 * i + 2\<close>.
\<close>

abbreviation parent_of :: "nat \<Rightarrow> nat" where
  "parent_of i \<equiv> (i - 1) div 2"

lemma parent_less: "0 < i \<Longrightarrow> parent_of i < i"
  by simp

function sift_up :: "('a \<Rightarrow> 'a \<Rightarrow> bool) \<Rightarrow> 'a list \<Rightarrow> nat \<Rightarrow> 'a list" where
  "sift_up ab xs i =
     (if 0 < i \<and> ab (xs ! i) (xs ! parent_of i)
      then sift_up ab (swap_slots xs i (parent_of i)) (parent_of i) else xs)"
  by pat_completeness auto
termination
  by (relation "measure (\<lambda>(ab, xs, i). i)") auto

definition top_child :: "('a \<Rightarrow> 'a \<Rightarrow> bool) \<Rightarrow> 'a list \<Rightarrow> nat \<Rightarrow> nat" where
  "top_child ab xs i =
     (let n = length xs; l = 2 * i + 1; r = 2 * i + 2;
          m = (if l < n \<and> ab (xs ! l) (xs ! i) then l else i)
      in if r < n \<and> ab (xs ! r) (xs ! m) then r else m)"

lemma top_child_cases:
  "top_child ab xs i = i \<or>
   (top_child ab xs i < length xs \<and> i < top_child ab xs i \<and> parent_of (top_child ab xs i) = i)"
  by (auto simp: top_child_def Let_def)

function sift_down :: "('a \<Rightarrow> 'a \<Rightarrow> bool) \<Rightarrow> 'a list \<Rightarrow> nat \<Rightarrow> 'a list" where
  "sift_down ab xs i =
     (if top_child ab xs i = i then xs
      else sift_down ab (swap_slots xs i (top_child ab xs i)) (top_child ab xs i))"
  by pat_completeness auto
termination
proof (relation "measure (\<lambda>(ab, xs, i). length xs - i)")
  fix ab :: "'a \<Rightarrow> 'a \<Rightarrow> bool" and xs i
  assume "top_child ab xs i \<noteq> i"
  with top_child_cases [of ab xs i]
  have "top_child ab xs i < length xs" "i < top_child ab xs i" by auto
  then show "((ab, swap_slots xs i (top_child ab xs i), top_child ab xs i), ab, xs, i)
      \<in> measure (\<lambda>(ab, xs, i). length xs - i)" by simp
qed simp

declare sift_up.simps [simp del, loop_defs] sift_down.simps [simp del, loop_defs]

lemma length_sift_up [simp]: "length (sift_up ab xs i) = length xs"
  by (induction ab xs i rule: sift_up.induct) (subst sift_up.simps, simp)

lemma length_sift_down [simp]: "length (sift_down ab xs i) = length xs"
  by (induction ab xs i rule: sift_down.induct) (subst sift_down.simps, simp)

lemma mset_sift_up [simp]: "i < length xs \<Longrightarrow> mset (sift_up ab xs i) = mset xs"
proof (induction ab xs i rule: sift_up.induct)
  case (1 ab xs i)
  have "parent_of i < length xs" using "1.prems" by simp
  with 1 show ?case by (subst sift_up.simps) simp
qed

lemma mset_sift_down [simp]: "mset (sift_down ab xs i) = mset xs"
proof (induction ab xs i rule: sift_down.induct)
  case (1 ab xs i)
  show ?case
  proof (cases "top_child ab xs i = i")
    case True
    then show ?thesis by (subst sift_down.simps) simp
  next
    case False
    with top_child_cases [of ab xs i]
    have "i < length xs" "top_child ab xs i < length xs" by auto
    with False 1 show ?thesis by (subst sift_down.simps) simp
  qed
qed

section \<open>Heap order\<close>

definition heap_ok_at :: "('a \<Rightarrow> 'a \<Rightarrow> bool) \<Rightarrow> 'a list \<Rightarrow> nat \<Rightarrow> bool" where
  "heap_ok_at ab xs j \<longleftrightarrow> \<not> ab (xs ! j) (xs ! parent_of j)"

text \<open>Every slot whose parent is at \<open>m\<close> or later respects the order; \<open>m = 0\<close> is the whole heap.\<close>

definition heap_from :: "('a \<Rightarrow> 'a \<Rightarrow> bool) \<Rightarrow> nat \<Rightarrow> 'a list \<Rightarrow> bool" where
  "heap_from ab m xs \<longleftrightarrow>
     (\<forall>j. 0 < j \<longrightarrow> j < length xs \<longrightarrow> m \<le> parent_of j \<longrightarrow> heap_ok_at ab xs j)"

abbreviation heap_order :: "('a \<Rightarrow> 'a \<Rightarrow> bool) \<Rightarrow> 'a list \<Rightarrow> bool" where
  "heap_order ab \<equiv> heap_from ab 0"

definition up_hole :: "('a \<Rightarrow> 'a \<Rightarrow> bool) \<Rightarrow> 'a list \<Rightarrow> nat \<Rightarrow> bool" where
  "up_hole ab xs i \<longleftrightarrow>
     (\<forall>j. 0 < j \<longrightarrow> j < length xs \<longrightarrow> j \<noteq> i \<longrightarrow> heap_ok_at ab xs j) \<and>
     (\<forall>j. 0 < j \<longrightarrow> j < length xs \<longrightarrow> parent_of j = i \<longrightarrow> 0 < i \<longrightarrow>
        \<not> ab (xs ! j) (xs ! parent_of i))"

definition down_hole :: "('a \<Rightarrow> 'a \<Rightarrow> bool) \<Rightarrow> nat \<Rightarrow> 'a list \<Rightarrow> nat \<Rightarrow> bool" where
  "down_hole ab m xs i \<longleftrightarrow> m \<le> i \<and>
     (\<forall>j. 0 < j \<longrightarrow> j < length xs \<longrightarrow> m \<le> parent_of j \<longrightarrow> parent_of j \<noteq> i \<longrightarrow> heap_ok_at ab xs j) \<and>
     (\<forall>j. 0 < j \<longrightarrow> j < length xs \<longrightarrow> parent_of j = i \<longrightarrow> 0 < i \<longrightarrow> m \<le> parent_of i \<longrightarrow>
        \<not> ab (xs ! j) (xs ! parent_of i))"

lemma heap_from_shrink: "heap_from ab m xs \<Longrightarrow> m \<le> k \<Longrightarrow> heap_from ab k xs"
  by (auto simp: heap_from_def)

lemma heap_from_leaves: "length xs div 2 \<le> m \<Longrightarrow> heap_from ab m xs"
  by (auto simp: heap_from_def)

locale sift_order =
  fixes ab :: "'a \<Rightarrow> 'a \<Rightarrow> bool"
  assumes asym: "ab a b \<Longrightarrow> \<not> ab b a"
    and neg_trans: "\<not> ab a b \<Longrightarrow> \<not> ab b c \<Longrightarrow> \<not> ab a c"
begin

lemma irrefl: "\<not> ab a a"
  using asym by blast

lemma root_is_top: "heap_order ab xs \<Longrightarrow> j < length xs \<Longrightarrow> \<not> ab (xs ! j) (xs ! 0)"
proof (induction j rule: less_induct)
  case (less j)
  show ?case
  proof (cases "j = 0")
    case True
    then show ?thesis by (simp add: irrefl)
  next
    case False
    then have p: "parent_of j < j" by simp
    with less have "\<not> ab (xs ! parent_of j) (xs ! 0)" by simp
    moreover have "\<not> ab (xs ! j) (xs ! parent_of j)"
      using False less.prems by (auto simp: heap_from_def heap_ok_at_def)
    ultimately show ?thesis by (rule neg_trans [rotated])
  qed
qed

lemma up_hole_step:
  assumes hole: "up_hole ab xs i" and i: "0 < i" "i < length xs"
    and up: "ab (xs ! i) (xs ! parent_of i)"
  shows "up_hole ab (swap_slots xs i (parent_of i)) (parent_of i)"
proof -
  let ?p = "parent_of i" and ?ys = "swap_slots xs i (parent_of i)"
  have p: "?p < length xs" "?p < i" using i by auto
  have nth: "\<And>a. a < length xs \<Longrightarrow> ?ys ! a = (if a = ?p then xs ! i else if a = i then xs ! ?p else xs ! a)"
    using i p by (simp add: nth_swap_slots)
  have ok: "\<And>j. 0 < j \<Longrightarrow> j < length xs \<Longrightarrow> j \<noteq> i \<Longrightarrow> \<not> ab (xs ! j) (xs ! parent_of j)"
    using hole by (auto simp: up_hole_def heap_ok_at_def)
  have gp: "\<And>j. 0 < j \<Longrightarrow> j < length xs \<Longrightarrow> parent_of j = i \<Longrightarrow> \<not> ab (xs ! j) (xs ! ?p)"
    using hole i by (auto simp: up_hole_def)
  have "\<not> ab (?ys ! j) (?ys ! parent_of j)" if j: "0 < j" "j < length xs" "j \<noteq> ?p" for j
  proof -
    have pj: "parent_of j < length xs" "parent_of j < j" using j by auto
    consider "j = i" | "j \<noteq> i" "parent_of j = i" | "j \<noteq> i" "parent_of j = ?p"
      | "j \<noteq> i" "parent_of j \<noteq> i" "parent_of j \<noteq> ?p" by blast
    then show ?thesis
    proof cases
      case 1
      then show ?thesis using up asym nth i p by simp
    next
      case 2
      then show ?thesis using nth [OF j(2)] nth [OF pj(1)] gp [OF j(1,2) 2(2)] j p by simp
    next
      case 3
      have "\<not> ab (xs ! j) (xs ! ?p)" using ok [OF j(1,2) 3(1)] 3(2) by simp
      then have "\<not> ab (xs ! j) (xs ! i)" using asym [OF up] neg_trans by blast
      then show ?thesis using 3 nth [OF j(2)] nth [OF pj(1)] j by simp
    next
      case 4
      then show ?thesis using nth [OF j(2)] nth [OF pj(1)] ok [OF j(1,2) 4(1)] j by simp
    qed
  qed
  moreover have "\<not> ab (?ys ! j) (?ys ! parent_of ?p)"
    if j: "0 < j" "j < length xs" "parent_of j = ?p" "0 < ?p" for j
  proof -
    have pp: "parent_of ?p < ?p" by (rule parent_less [OF j(4)])
    then have pp2: "parent_of ?p < length xs" using p by linarith
    have *: "\<not> ab (xs ! ?p) (xs ! parent_of ?p)" using ok [of ?p] j(4) p by simp
    show ?thesis
    proof (cases "j = i")
      case True
      then show ?thesis using nth [OF j(2)] nth [OF pp2] pp p * by simp
    next
      case False
      have "\<not> ab (xs ! j) (xs ! ?p)" using ok [OF j(1,2) False] j(3) by simp
      then have "\<not> ab (xs ! j) (xs ! parent_of ?p)" using * neg_trans by blast
      moreover have "j \<noteq> ?p" using j by auto
      ultimately show ?thesis using nth [OF j(2)] nth [OF pp2] pp p False by simp
    qed
  qed
  ultimately show ?thesis by (simp add: up_hole_def heap_ok_at_def)
qed

theorem sift_up_heap:
  "up_hole ab xs i \<Longrightarrow> i < length xs \<Longrightarrow> heap_order ab (sift_up ab xs i)"
proof (induction i arbitrary: xs rule: less_induct)
  case (less i)
  show ?case
  proof (cases "0 < i \<and> ab (xs ! i) (xs ! parent_of i)")
    case True
    then have i: "0 < i" and hole: "up_hole ab (swap_slots xs i (parent_of i)) (parent_of i)"
      using less.prems up_hole_step [of xs i] by blast+
    have "heap_order ab (sift_up ab (swap_slots xs i (parent_of i)) (parent_of i))"
      by (rule less.IH [OF parent_less [OF i] hole]) (use less.prems in simp)
    with True show ?thesis by (subst sift_up.simps) simp
  next
    case False
    with less.prems show ?thesis
      by (subst sift_up.simps) (auto simp: up_hole_def heap_from_def heap_ok_at_def)
  qed
qed

lemma top_child_is_top:
  assumes "i < length xs" "0 < j" "j < length xs" "parent_of j = i"
  shows "\<not> ab (xs ! j) (xs ! top_child ab xs i)"
proof -
  let ?l = "2 * i + 1" and ?r = "2 * i + 2" and ?t = "top_child ab xs i"
  define m where "m = (if ?l < length xs \<and> ab (xs ! ?l) (xs ! i) then ?l else i)"
  have t: "?t = (if ?r < length xs \<and> ab (xs ! ?r) (xs ! m) then ?r else m)"
    by (simp add: top_child_def m_def Let_def)
  have mt: "\<not> ab (xs ! m) (xs ! ?t)"
    unfolding t using asym irrefl by auto
  have "\<not> ab (xs ! ?l) (xs ! m)" if "?l < length xs"
    unfolding m_def using that irrefl by auto
  then have l: "?l < length xs \<Longrightarrow> \<not> ab (xs ! ?l) (xs ! ?t)"
    using mt neg_trans by blast
  have r: "?r < length xs \<Longrightarrow> \<not> ab (xs ! ?r) (xs ! ?t)"
    unfolding t using irrefl by auto
  have "j = ?l \<or> j = ?r" using assms by arith
  then show ?thesis using l r assms(3) by blast
qed

lemma top_child_above: "top_child ab xs i \<noteq> i \<Longrightarrow> ab (xs ! top_child ab xs i) (xs ! i)"
  by (auto simp: top_child_def Let_def split: if_splits dest: asym) (meson asym neg_trans)

lemma down_hole_step:
  assumes hole: "down_hole ab m xs i" and c: "top_child ab xs i \<noteq> i"
  shows "down_hole ab m (swap_slots xs i (top_child ab xs i)) (top_child ab xs i)"
proof -
  let ?c = "top_child ab xs i" let ?ys = "swap_slots xs i ?c"
  have cc: "?c < length xs" "i < ?c" "parent_of ?c = i" using top_child_cases [of ab xs i] c by auto
  then have i: "i < length xs" by simp
  have nth: "\<And>a. a < length xs \<Longrightarrow> ?ys ! a = (if a = ?c then xs ! i else if a = i then xs ! ?c else xs ! a)"
    using i cc by (simp add: nth_swap_slots)
  have mi: "m \<le> i" using hole by (simp add: down_hole_def)
  have ok: "\<And>j. 0 < j \<Longrightarrow> j < length xs \<Longrightarrow> m \<le> parent_of j \<Longrightarrow> parent_of j \<noteq> i \<Longrightarrow>
      \<not> ab (xs ! j) (xs ! parent_of j)"
    using hole by (auto simp: down_hole_def heap_ok_at_def)
  have gp: "\<And>j. 0 < j \<Longrightarrow> j < length xs \<Longrightarrow> parent_of j = i \<Longrightarrow> 0 < i \<Longrightarrow> m \<le> parent_of i \<Longrightarrow>
      \<not> ab (xs ! j) (xs ! parent_of i)"
    using hole by (auto simp: down_hole_def)
  have "\<not> ab (?ys ! j) (?ys ! parent_of j)"
    if j: "0 < j" "j < length xs" "m \<le> parent_of j" "parent_of j \<noteq> ?c" for j
  proof -
    have pj: "parent_of j < length xs" "parent_of j < j" using j by auto
    consider "j = ?c" | "j \<noteq> ?c" "parent_of j = i" | "j = i" | "j \<noteq> ?c" "j \<noteq> i" "parent_of j \<noteq> i"
      by blast
    then show ?thesis
    proof cases
      case 1
      then show ?thesis using asym [OF top_child_above [OF c]] nth i cc by simp
    next
      case 2
      then show ?thesis
        using nth [OF j(2)] nth [OF pj(1)] top_child_is_top [OF i j(1,2) 2(2)] pj cc(2) by simp
    next
      case 3
      then show ?thesis using nth [OF j(2)] nth [OF pj(1)] gp [of ?c] cc j pj by auto
    next
      case 4
      then show ?thesis using nth [OF j(2)] nth [OF pj(1)] ok [OF j(1,2,3)] j by simp
    qed
  qed
  moreover have "\<not> ab (?ys ! j) (?ys ! parent_of ?c)"
    if j: "0 < j" "j < length xs" "parent_of j = ?c" for j
  proof -
    have "\<not> ab (xs ! j) (xs ! ?c)" using ok [OF j(1,2)] j(3) cc mi by simp
    then show ?thesis using nth [OF j(2)] nth [OF i] j cc by auto
  qed
  ultimately show ?thesis using mi cc by (auto simp: down_hole_def heap_ok_at_def)
qed

theorem sift_down_heap:
  "down_hole ab m xs i \<Longrightarrow> i < length xs \<Longrightarrow> heap_from ab m (sift_down ab xs i)"
proof (induction "length xs - i" arbitrary: xs i rule: less_induct)
  case less
  show ?case
  proof (cases "top_child ab xs i = i")
    case True
    have "heap_ok_at ab xs j" if "0 < j" "j < length xs" "m \<le> parent_of j" for j
    proof (cases "parent_of j = i")
      case True
      then show ?thesis
        using top_child_is_top [OF less.prems(2) that(1,2)] \<open>top_child ab xs i = i\<close>
        by (simp add: heap_ok_at_def)
    next
      case False
      then show ?thesis using less.prems(1) that by (simp add: down_hole_def)
    qed
    then show ?thesis using True by (subst sift_down.simps) (simp add: heap_from_def)
  next
    case False
    then show ?thesis
      using less.hyps [OF _ down_hole_step [OF less.prems(1) False]] top_child_cases [of ab xs i]
      by (subst sift_down.simps) auto
  qed
qed

lemma down_hole_from: "heap_from ab (Suc i) xs \<Longrightarrow> down_hole ab i xs i"
  by (auto simp: down_hole_def heap_from_def)

lemma sift_down_from: "heap_from ab (Suc i) xs \<Longrightarrow> i < length xs \<Longrightarrow> heap_from ab i (sift_down ab xs i)"
  by (rule sift_down_heap [OF down_hole_from])

text \<open>Replacing the item of one slot of a heap leaves a hole that one of the sifts mends.\<close>

lemma replace_hole_up:
  assumes h: "heap_order ab xs" and i: "0 < i" "i < length xs" and up: "ab x (xs ! parent_of i)"
  shows "up_hole ab (xs[i := x]) i"
proof -
  have ok: "\<And>j. 0 < j \<Longrightarrow> j < length xs \<Longrightarrow> \<not> ab (xs ! j) (xs ! parent_of j)"
    using h by (simp add: heap_from_def heap_ok_at_def)
  have le: "\<not> ab (xs ! j) (xs ! parent_of i)" if "0 < j" "j < length xs" "parent_of j = i" for j
    using neg_trans [of "xs ! j" "xs ! i" "xs ! parent_of i"] ok [OF that(1,2)] ok [OF i] that(3) by simp
  have "\<not> ab (xs[i := x] ! j) (xs[i := x] ! parent_of j)"
    if j: "0 < j" "j < length xs" "j \<noteq> i" for j
  proof (cases "parent_of j = i")
    case True
    have "\<not> ab (xs ! j) x" using le [OF j(1,2) True] asym [OF up] neg_trans by blast
    with True j i show ?thesis by simp
  next
    case False
    with j i ok [OF j(1,2)] show ?thesis by (simp add: nth_list_update)
  qed
  moreover have "xs[i := x] ! j = xs ! j \<and> xs[i := x] ! parent_of i = xs ! parent_of i"
    if j: "0 < j" "parent_of j = i" for j
    using parent_less [OF i(1)] parent_less [OF j(1)] j(2) by auto
  ultimately show ?thesis using le by (auto simp: up_hole_def heap_ok_at_def)
qed

lemma replace_hole_down:
  assumes h: "heap_order ab xs" and i: "i < length xs"
    and dn: "0 < i \<Longrightarrow> \<not> ab x (xs ! parent_of i)"
  shows "down_hole ab 0 (xs[i := x]) i"
proof -
  have ok: "\<And>j. 0 < j \<Longrightarrow> j < length xs \<Longrightarrow> \<not> ab (xs ! j) (xs ! parent_of j)"
    using h by (simp add: heap_from_def heap_ok_at_def)
  have "\<not> ab (xs[i := x] ! j) (xs[i := x] ! parent_of j)"
    if j: "0 < j" "j < length xs" "parent_of j \<noteq> i" for j
    using ok [OF j(1,2)] dn j i by (cases "j = i") (auto simp: nth_list_update)
  moreover have "\<not> ab (xs[i := x] ! j) (xs[i := x] ! parent_of i)"
    if j: "0 < j" "j < length xs" "parent_of j = i" "0 < i" for j
  proof -
    have "\<not> ab (xs ! j) (xs ! parent_of i)"
      using neg_trans [of "xs ! j" "xs ! i" "xs ! parent_of i"] ok [OF j(1,2)] ok [OF j(4) i] j(3) by simp
    moreover have "j \<noteq> i" "parent_of i \<noteq> i" using j parent_less [OF j(1)] parent_less [OF j(4)] by auto
    ultimately show ?thesis by simp
  qed
  ultimately show ?thesis by (simp add: down_hole_def heap_ok_at_def)
qed

lemma append_hole: "heap_order ab xs \<Longrightarrow> up_hole ab (xs @ [x]) (length xs)"
  by (auto simp: up_hole_def heap_from_def heap_ok_at_def nth_append)

lemma heap_butlast: "heap_order ab xs \<Longrightarrow> heap_order ab (butlast xs)"
  by (auto simp: heap_from_def heap_ok_at_def nth_butlast)

end

end
