(* ===== verification/Containers_Heap.thy ===== *)
theory Containers_Heap
  imports Sift "HOL-Library.Word"
begin

text \<open>
  \<open>internal/containers/heap.go\<close>: a max-heap of items ordered by a \<open>uint64\<close> priority, with a
  map from each key to the slot its item sits in. The model keeps both fields, slot by slot,
  as every operation of the code writes them. \<open>Cap\<close> reports the capacity of a Go slice and
  has no model. Reads and writes of slots are in range at every call (\<open>percolate\<close> stops at the
  slice's ends, \<open>remove\<close> runs on a slice of at least two items).
\<close>

record ('k, 't) Item =
  Key :: 'k
  Value :: 't
  Priority :: "64 word"

record ('k, 't) Heap =
  items :: "('k, 't) Item list"
  lookup :: "'k \<rightharpoonup> nat"

definition Swap :: "('k, 't) Heap \<Rightarrow> nat \<Rightarrow> nat \<Rightarrow> ('k, 't) Heap" where
  "Swap h i j =
     (let xs = swap_slots (items h) i j
      in h\<lparr>items := xs, lookup := (lookup h)(Key (xs ! i) \<mapsto> i, Key (xs ! j) \<mapsto> j)\<rparr>)"

lemma items_Swap [simp]: "items (Swap h i j) = swap_slots (items h) i j"
  by (simp add: Swap_def Let_def)

function percolateUp :: "('k, 't) Heap \<Rightarrow> nat \<Rightarrow> ('k, 't) Heap" where
  "percolateUp h i =
     (if 0 < i then
        (let parent = (i - 1) div 2
         in if Priority (items h ! parent) \<ge> Priority (items h ! i) then h
            else percolateUp (Swap h i parent) parent)
      else h)"
  by pat_completeness auto
termination
  by (relation "measure (\<lambda>(h, i). i)") auto

definition largest_child :: "('k, 't) Heap \<Rightarrow> nat \<Rightarrow> nat" where
  "largest_child h i =
     (let n = length (items h); left = 2 * i + 1; right = 2 * i + 2;
          largest = i;
          largest = (if left < n \<and> Priority (items h ! left) > Priority (items h ! largest)
                     then left else largest);
          largest = (if right < n \<and> Priority (items h ! right) > Priority (items h ! largest)
                     then right else largest)
      in largest)"

abbreviation prio_above :: "('k, 't) Item \<Rightarrow> ('k, 't) Item \<Rightarrow> bool" where
  "prio_above a b \<equiv> Priority a > Priority b"

lemma largest_child_top: "largest_child h i = top_child prio_above (items h) i"
  by (simp add: largest_child_def top_child_def Let_def)

function percolateDown :: "('k, 't) Heap \<Rightarrow> nat \<Rightarrow> ('k, 't) Heap" where
  "percolateDown h i =
     (if i < length (items h) then
        (if largest_child h i = i then h
         else percolateDown (Swap h i (largest_child h i)) (largest_child h i))
      else h)"
  by pat_completeness auto
termination
proof (relation "measure (\<lambda>(h, i). length (items h) - i)")
  fix h :: "('k, 't) Heap" and i
  assume "i < length (items h)" "largest_child h i \<noteq> i"
  with top_child_cases [of prio_above "items h" i]
  show "((Swap h i (largest_child h i), largest_child h i), h, i)
      \<in> measure (\<lambda>(h, i). length (items h) - i)"
    by (auto simp: largest_child_top)
qed simp

declare percolateUp.simps [simp del, loop_defs] percolateDown.simps [simp del, loop_defs]

fun heapify :: "('k, 't) Heap \<Rightarrow> nat \<Rightarrow> ('k, 't) Heap" where
  "heapify h 0 = h"
| "heapify h (Suc i) = heapify (percolateDown h i) i"

fun index_keys :: "('k, 't) Item list \<Rightarrow> nat \<Rightarrow> ('k \<rightharpoonup> nat) \<Rightarrow> ('k \<rightharpoonup> nat)" where
  "index_keys [] i m = m"
| "index_keys (x # xs) i m = index_keys xs (Suc i) (m(Key x \<mapsto> i))"

definition NewHeapCap :: "nat \<Rightarrow> ('k, 't) Item list \<Rightarrow> ('k, 't) Heap" where
  "NewHeapCap capacity xs =
     heapify \<lparr>items = xs, lookup = index_keys xs 0 Map.empty\<rparr> (length xs div 2)"

definition NewHeap :: "('k, 't) Item list \<Rightarrow> ('k, 't) Heap" where
  "NewHeap xs = NewHeapCap (length xs) xs"

definition heap_Len :: "('k, 't) Heap \<Rightarrow> nat" where
  "heap_Len h = length (items h)"

definition Peek :: "('k, 't) Heap \<Rightarrow> ('k, 't) Item option" where
  "Peek h = (if heap_Len h = 0 then None else Some (items h ! 0))"

definition Has :: "('k, 't) Heap \<Rightarrow> 'k \<Rightarrow> bool" where
  "Has h k = (lookup h k \<noteq> None)"

definition heap_Clear :: "('k, 't) Heap \<Rightarrow> ('k, 't) Heap" where
  "heap_Clear h = (if length (items h) > 0 then h\<lparr>items := [], lookup := Map.empty\<rparr> else h)"

text \<open>\<open>remove\<close> moves the last item into slot \<open>index\<close> and drops the last slot.\<close>

definition remove_slot :: "('k, 't) Heap \<Rightarrow> nat \<Rightarrow> nat \<Rightarrow> ('k, 't) Heap" where
  "remove_slot h index n =
     (let xs = butlast ((items h)[index := items h ! (n - 1)])
      in h\<lparr>items := xs, lookup := (lookup h)(Key (xs ! index) \<mapsto> index)\<rparr>)"

definition Pop :: "('k, 't) Heap \<Rightarrow> ('k, 't) Item option \<times> ('k, 't) Heap" where
  "Pop h =
     (let n = heap_Len h
      in if n = 0 then (None, h)
         else
           let first = items h ! 0;
               h1 = h\<lparr>lookup := (lookup h)(Key first := None)\<rparr>
           in if n = 1 then (Some first, h1\<lparr>items := []\<rparr>)
              else (Some first, percolateDown (remove_slot h1 0 n) 0))"

definition Remove :: "('k, 't) Heap \<Rightarrow> 'k \<Rightarrow> bool \<times> ('k, 't) Heap" where
  "Remove h k =
     (case lookup h k of
        None \<Rightarrow> (False, h)
      | Some index \<Rightarrow>
          if index = 0 then (let (i, h') = Pop h in (i \<noteq> None, h'))
          else
            let h1 = h\<lparr>lookup := (lookup h)(k := None)\<rparr>;
                n = length (items h1)
            in if index = n - 1 then (True, h1\<lparr>items := butlast (items h1)\<rparr>)
               else
                 let h2 = remove_slot h1 index n;
                     parent = (index - 1) div 2
                 in if Priority (items h2 ! index) > Priority (items h2 ! parent)
                    then (True, percolateUp h2 index)
                    else (True, percolateDown h2 index))"

definition Push :: "('k, 't) Heap \<Rightarrow> ('k, 't) Item \<Rightarrow> ('k, 't) Heap" where
  "Push h item =
     (let add = (\<lambda>h. let h1 = h\<lparr>items := items h @ [item]\<rparr>;
                         n = heap_Len h1
                     in percolateUp (h1\<lparr>lookup := (lookup h1)(Key item \<mapsto> n - 1)\<rparr>) (n - 1))
      in case lookup h (Key item) of
           Some i \<Rightarrow> (if Priority (items h ! i) > Priority item then h
                      else add (snd (Remove h (Key item))))
         | None \<Rightarrow> add h)"

section \<open>Sifting keeps the heap order and the key index\<close>

interpretation prio: sift_order "prio_above :: ('k, 't) Item \<Rightarrow> ('k, 't) Item \<Rightarrow> bool"
  by unfold_locales auto

lemma items_percolateUp: "items (percolateUp h i) = sift_up prio_above (items h) i"
proof (induction h i rule: percolateUp.induct)
  case (1 h i)
  then show ?case
    by (subst percolateUp.simps, subst sift_up.simps) (auto simp: Let_def not_le)
qed

lemma items_percolateDown: "items (percolateDown h i) = sift_down prio_above (items h) i"
proof (induction h i rule: percolateDown.induct)
  case (1 h i)
  show ?case
  proof (cases "i < length (items h)")
    case True
    with 1 show ?thesis
      by (subst percolateDown.simps, subst sift_down.simps) (auto simp: largest_child_top)
  next
    case False
    then have "top_child prio_above (items h) i = i" by (auto simp: top_child_def Let_def)
    with False show ?thesis by (subst percolateDown.simps, subst sift_down.simps) simp
  qed
qed

text \<open>
  The key index is right when the keys are distinct and \<open>lookup\<close> answers with the slot of
  each, and with nothing for a key that is not stored.
\<close>

definition lookup_ok :: "('k, 't) Heap \<Rightarrow> bool" where
  "lookup_ok h \<longleftrightarrow> distinct (map Key (items h)) \<and>
     (\<forall>k i. lookup h k = Some i \<longleftrightarrow> i < length (items h) \<and> Key (items h ! i) = k)"

definition wf_heap :: "('k, 't) Heap \<Rightarrow> bool" where
  "wf_heap h \<longleftrightarrow> heap_order prio_above (items h) \<and> lookup_ok h"

lemma lookup_ok_Swap:
  assumes ok: "lookup_ok h" and ij: "i < length (items h)" "j < length (items h)"
  shows "lookup_ok (Swap h i j)"
proof -
  have d: "distinct (map Key (items h))" using ok by (simp add: lookup_ok_def)
  then have inj: "\<And>a b. a < length (items h) \<Longrightarrow> b < length (items h) \<Longrightarrow>
      Key (items h ! a) = Key (items h ! b) \<Longrightarrow> a = b"
    by (simp add: distinct_conv_nth) metis
  have "distinct (map Key (swap_slots (items h) i j))"
    using d ij by (metis mset_map mset_swap_slots mset_eq_imp_distinct_iff)
  then show ?thesis
    using ok ij by (auto simp: lookup_ok_def Swap_def Let_def nth_swap_slots dest: inj split: if_splits)
qed

lemma lookup_ok_percolateUp: "lookup_ok h \<Longrightarrow> i < length (items h) \<Longrightarrow> lookup_ok (percolateUp h i)"
proof (induction h i rule: percolateUp.induct)
  case (1 h i)
  then show ?case
    by (subst percolateUp.simps) (auto simp: Let_def intro!: "1.IH" lookup_ok_Swap)
qed

lemma lookup_ok_percolateDown: "lookup_ok h \<Longrightarrow> lookup_ok (percolateDown h i)"
proof (induction h i rule: percolateDown.induct)
  case (1 h i)
  then show ?case
    using top_child_cases [of prio_above "items h" i]
    by (subst percolateDown.simps) (auto simp: largest_child_top intro!: "1.IH" lookup_ok_Swap)
qed

lemmas percolate_facts [simp] = items_percolateUp items_percolateDown

lemmas lookup_ok_percolate [preserves] = lookup_ok_percolateUp lookup_ok_percolateDown lookup_ok_Swap

section \<open>Every operation keeps a heap well formed\<close>

lemma wf_empty: "wf_heap \<lparr>items = [], lookup = Map.empty\<rparr>"
  by (simp add: wf_heap_def lookup_ok_def heap_from_def)

lemma index_keys_other: "k \<notin> Key ` set xs \<Longrightarrow> index_keys xs i m k = m k"
  by (induction xs i m rule: index_keys.induct) auto

lemma index_keys_nth:
  "distinct (map Key xs) \<Longrightarrow> j < length xs \<Longrightarrow> index_keys xs i m (Key (xs ! j)) = Some (i + j)"
proof (induction xs i m arbitrary: j rule: index_keys.induct)
  case (2 x xs i m)
  show ?case
  proof (cases j)
    case 0
    with "2.prems" show ?thesis by (auto simp: index_keys_other)
  next
    case (Suc j')
    with "2.prems" "2.IH" [of j'] show ?thesis by (simp add: fun_upd_def)
  qed
qed simp

lemma lookup_ok_index:
  assumes d: "distinct (map Key xs)"
  shows "lookup_ok \<lparr>items = xs, lookup = index_keys xs 0 Map.empty\<rparr>"
proof -
  have "index_keys xs 0 Map.empty k = Some i \<longleftrightarrow> i < length xs \<and> Key (xs ! i) = k" for k i
  proof (cases "k \<in> Key ` set xs")
    case True
    then obtain j where j: "j < length xs" "k = Key (xs ! j)"
      by (auto simp: in_set_conv_nth)
    have at: "\<And>a. a < length xs \<Longrightarrow> index_keys xs 0 Map.empty (Key (xs ! a)) = Some a"
      using index_keys_nth [OF d, of _ 0 Map.empty] by simp
    from at [OF j(1)] j show ?thesis by (metis at option.inject)
  next
    case False
    then show ?thesis using nth_mem [of i xs] by (auto simp: index_keys_other)
  qed
  then show ?thesis using d by (simp add: lookup_ok_def)
qed

lemma heapify_wf:
  "heap_from prio_above i (items h) \<Longrightarrow> lookup_ok h \<Longrightarrow> i \<le> length (items h) \<Longrightarrow>
   wf_heap (heapify h i) \<and> mset (items (heapify h i)) = mset (items h)"
proof (induction h i rule: heapify.induct)
  case (2 h i)
  then have "heap_from prio_above i (items (percolateDown h i))"
    by (simp add: prio.sift_down_from)
  with 2 show ?case by (simp add: preserves)
qed (simp add: wf_heap_def)

lemma NewHeapCap_wf:
  assumes "distinct (map Key xs)"
  shows "wf_heap (NewHeapCap c xs)" and "mset (items (NewHeapCap c xs)) = mset xs"
  using heapify_wf [of "length xs div 2" "\<lparr>items = xs, lookup = index_keys xs 0 Map.empty\<rparr>"] assms
  by (auto simp: NewHeapCap_def lookup_ok_index heap_from_leaves)

lemma nth_remove_slot:
  "n = length (items h) \<Longrightarrow> i < n - 1 \<Longrightarrow> a < n - 1 \<Longrightarrow>
   items (remove_slot h i n) ! a = (if a = i then items h ! (n - 1) else items h ! a)"
  by (simp add: remove_slot_def Let_def nth_butlast nth_list_update)

lemma length_remove_slot [simp]: "length (items (remove_slot h i n)) = length (items h) - 1"
  by (simp add: remove_slot_def Let_def)

lemma items_remove_slot:
  "n = length (items h) \<Longrightarrow> i < n - 1 \<Longrightarrow>
   items (remove_slot h i n) = (butlast (items h))[i := items h ! (n - 1)]"
  by (rule nth_equalityI) (auto simp: nth_remove_slot nth_butlast nth_list_update)

lemma mset_remove_slot:
  assumes "n = length (items h)" "i < n - 1"
  shows "add_mset (items h ! i) (mset (items (remove_slot h i n))) = mset (items h)"
proof -
  have "items h \<noteq> []" and l: "last (items h) = items h ! (n - 1)"
    using assms last_conv_nth [of "items h"] by fastforce+
  then have A: "mset (items h) = add_mset (items h ! (n - 1)) (mset (butlast (items h)))"
    using mset_butlast_last [of "items h"] by simp
  have i: "butlast (items h) ! i = items h ! i" "i < length (butlast (items h))"
    using assms by (auto simp: nth_butlast)
  then have B: "add_mset (items h ! i) (mset (butlast (items h)) - {#items h ! i#}) = mset (butlast (items h))"
    by (metis insert_DiffM nth_mem_mset)
  have "mset (items (remove_slot h i n)) =
      add_mset (items h ! (n - 1)) (mset (butlast (items h)) - {#items h ! i#})"
    unfolding items_remove_slot [OF assms] by (simp only: mset_update [OF i(2)] i(1))
  then have "add_mset (items h ! i) (mset (items (remove_slot h i n))) =
      add_mset (items h ! (n - 1)) (add_mset (items h ! i) (mset (butlast (items h)) - {#items h ! i#}))"
    by (simp only: add_mset_commute)
  then show ?thesis using A B by simp
qed

lemma lookup_ok_remove_slot:
  assumes ok: "lookup_ok h" and n: "n = length (items h)" and i: "i < n - 1"
  shows "lookup_ok (remove_slot (h\<lparr>lookup := (lookup h)(Key (items h ! i) := None)\<rparr>) i n)"
proof -
  let ?h1 = "h\<lparr>lookup := (lookup h)(Key (items h ! i) := None)\<rparr>"
  have d: "distinct (map Key (items h))" using ok by (simp add: lookup_ok_def)
  then have inj: "\<And>a b. a < n \<Longrightarrow> b < n \<Longrightarrow> Key (items h ! a) = Key (items h ! b) \<Longrightarrow> a = b"
    using n by (simp add: distinct_conv_nth) metis
  have "mset (map Key (items h)) = mset (map Key (items h ! i # items (remove_slot ?h1 i n)))"
    using mset_remove_slot [of n ?h1 i] n i
    by (metis (no_types, lifting) Heap.ext_inject Heap.surjective Heap.update_convs(2) mset.simps(2) mset_map)
  then have "distinct (map Key (items h ! i # items (remove_slot ?h1 i n)))"
    using d mset_eq_imp_distinct_iff by blast
  then have "distinct (map Key (items (remove_slot ?h1 i n)))"
    by simp
  moreover have "lookup (remove_slot ?h1 i n) k = Some a \<longleftrightarrow>
      a < n - 1 \<and> Key (items (remove_slot ?h1 i n) ! a) = k" for k a
  proof -
    have look: "lookup (remove_slot ?h1 i n) k =
        (if k = Key (items h ! (n - 1)) then Some i else if k = Key (items h ! i) then None else lookup h k)"
      using nth_remove_slot [of n ?h1 i i] n i by (simp add: remove_slot_def Let_def)
    have nth: "a < n - 1 \<Longrightarrow> items (remove_slot ?h1 i n) ! a = (if a = i then items h ! (n - 1) else items h ! a)"
      using nth_remove_slot [of n ?h1 i a] n i by simp
    have lk: "\<And>k a. lookup h k = Some a \<longleftrightarrow> a < n \<and> Key (items h ! a) = k"
      using ok n by (simp add: lookup_ok_def)
    have in1: "i < n" "n - 1 < n" "a < n - 1 \<Longrightarrow> a < n" using i by auto
    have inj1: "a < n \<Longrightarrow> Key (items h ! a) = Key (items h ! (n - 1)) \<Longrightarrow> a = n - 1"
      and inj2: "a < n \<Longrightarrow> Key (items h ! a) = Key (items h ! i) \<Longrightarrow> a = i"
      and inj3: "Key (items h ! i) \<noteq> Key (items h ! (n - 1))"
      using inj in1 i by (blast, blast, fastforce)
    consider "a = n - 1" | "a < n - 1" | "n \<le> a" by linarith
    then show ?thesis
      by cases (use nth inj1 inj2 inj3 i in1 in \<open>auto simp: look lk\<close>)
  qed
  ultimately show ?thesis using n by (simp add: lookup_ok_def)
qed

text \<open>What a heap stores, as a map: the abstraction the operations are specified by.\<close>

definition stored :: "('k, 't) Heap \<Rightarrow> 'k \<Rightarrow> ('k, 't) Item option" where
  "stored h k = map_option (\<lambda>i. items h ! i) (lookup h k)"

lemma stored_iff: "lookup_ok h \<Longrightarrow> stored h k = Some x \<longleftrightarrow> x \<in> set (items h) \<and> Key x = k"
  by (auto simp: stored_def lookup_ok_def in_set_conv_nth)

lemma stored_None: "lookup_ok h \<Longrightarrow> stored h k = None \<longleftrightarrow> k \<notin> Key ` set (items h)"
  by (metis (no_types, lifting) image_iff option.exhaust option.distinct(1) stored_iff)

lemma keys_distinct_add:
  "add_mset x (mset ys) = mset xs \<Longrightarrow> distinct (map Key (x # ys)) \<longleftrightarrow> distinct (map Key xs)"
  by (rule mset_eq_imp_distinct_iff) (metis mset.simps(2) mset_map)

lemma stored_remove:
  assumes "lookup_ok h" "lookup_ok h'" and m: "add_mset x (mset (items h')) = mset (items h)"
  shows "stored h' = (stored h)(Key x := None)"
proof
  fix k
  have d: "distinct (map Key (x # items h'))"
    using assms(1) keys_distinct_add [OF m] by (simp add: lookup_ok_def)
  have s: "set (items h) = insert x (set (items h'))"
    using m by (metis set_mset_add_mset_insert set_mset_mset)
  show "stored h' k = ((stored h)(Key x := None)) k"
  proof (cases "k = Key x")
    case True
    with d assms(2) show ?thesis by (simp add: stored_None)
  next
    case False
    then have "stored h' k = Some y \<longleftrightarrow> stored h k = Some y" for y
      using s assms(1,2) by (auto simp: stored_iff)
    then have "stored h' k = stored h k" by (metis option.exhaust)
    with False show ?thesis by simp
  qed
qed

lemma stored_add:
  assumes "lookup_ok h" "lookup_ok h'" and m: "mset (items h') = add_mset x (mset (items h))"
  shows "stored h' = (stored h)(Key x \<mapsto> x)"
proof -
  have "stored h = (stored h')(Key x := None)"
    using stored_remove [OF assms(2,1)] m by simp
  moreover have "x \<in> set (items h')" using m by (metis set_mset_mset union_single_eq_member)
  then have "stored h' (Key x) = Some x" using assms(2) by (simp add: stored_iff)
  ultimately show ?thesis by (simp add: fun_upd_idem)
qed

lemma Pop_empty: "items h = [] \<Longrightarrow> Pop h = (None, h)"
  by (simp add: Pop_def heap_Len_def)

lemma Pop_nonempty:
  assumes wf: "wf_heap h" and ne: "items h \<noteq> []"
  obtains h' where "Pop h = (Some (items h ! 0), h')" "wf_heap h'"
    "add_mset (items h ! 0) (mset (items h')) = mset (items h)"
proof (cases "length (items h) = 1")
  case True
  then obtain x where x: "items h = [x]" by (cases "items h") auto
  have "wf_heap (h\<lparr>lookup := (lookup h)(Key x := None), items := []\<rparr>)"
    using wf x by (auto simp: wf_heap_def lookup_ok_def heap_from_def) (metis not_Some_eq nth_Cons_0)
  then show ?thesis using True x that by (simp add: Pop_def heap_Len_def Let_def)
next
  case False
  let ?n = "length (items h)" and ?h1 = "h\<lparr>lookup := (lookup h)(Key (items h ! 0) := None)\<rparr>"
  let ?h2 = "remove_slot ?h1 0 ?n"
  have n: "0 < ?n - 1" using False ne by (cases "items h") auto
  have "items ?h2 = (butlast (items h))[0 := items h ! (?n - 1)]"
    using items_remove_slot [of ?n ?h1 0] n by simp
  moreover have "down_hole prio_above 0 ((butlast (items h))[0 := items h ! (?n - 1)]) 0"
    using wf n by (intro prio.replace_hole_down prio.heap_butlast) (auto simp: wf_heap_def)
  ultimately have "heap_order prio_above (sift_down prio_above (items ?h2) 0)"
    using n by (intro prio.sift_down_heap) auto
  moreover have "lookup_ok ?h2"
    using lookup_ok_remove_slot [of h ?n 0] wf n by (simp add: wf_heap_def)
  ultimately have "wf_heap (percolateDown ?h2 0)"
    by (simp add: wf_heap_def preserves)
  moreover have "add_mset (items h ! 0) (mset (items (percolateDown ?h2 0))) = mset (items h)"
    using mset_remove_slot [of ?n ?h1 0] n by simp
  ultimately show ?thesis using False ne that by (simp add: Pop_def heap_Len_def Let_def)
qed

lemma lookup_ok_drop_last:
  assumes ok: "lookup_ok h" and ne: "items h \<noteq> []"
  shows "lookup_ok (h\<lparr>lookup := (lookup h)(Key (last (items h)) := None), items := butlast (items h)\<rparr>)"
proof -
  have "add_mset (last (items h)) (mset (butlast (items h))) = mset (items h)"
    by (rule mset_butlast_last [OF ne])
  then have "distinct (map Key (last (items h) # butlast (items h)))"
    using ok keys_distinct_add by (auto simp: lookup_ok_def)
  then have d: "distinct (map Key (butlast (items h)))" "Key (last (items h)) \<notin> Key ` set (butlast (items h))"
    by auto
  have at: "i < length (items h) - 1 \<Longrightarrow> items h ! i = butlast (items h) ! i" for i
    by (simp add: nth_butlast)
  have lst: "items h ! (length (items h) - 1) = last (items h)"
    using ne by (simp add: last_conv_nth)
  have ok': "lookup h k = Some i \<longleftrightarrow> i < length (items h) \<and> Key (items h ! i) = k" for k i
    using ok by (simp add: lookup_ok_def)
  have "((lookup h)(Key (last (items h)) := None)) k = Some i \<longleftrightarrow>
      i < length (items h) - 1 \<and> Key (butlast (items h) ! i) = k" for k i
  proof (cases "i = length (items h) - 1")
    case True
    then show ?thesis using ok' [of k i] lst by auto
  next
    case False
    then have i: "i < length (items h) \<longleftrightarrow> i < length (items h) - 1" by arith
    have "i < length (items h) - 1 \<Longrightarrow> Key (butlast (items h) ! i) \<noteq> Key (last (items h))"
      by (metis d(2) image_eqI length_butlast nth_mem)
    then show ?thesis using ok' [of k i] i at [of i] by auto
  qed
  then show ?thesis using d by (simp add: lookup_ok_def)
qed

lemma Remove_spec:
  assumes wf: "wf_heap h"
  shows "wf_heap (snd (Remove h k)) \<and> fst (Remove h k) = (stored h k \<noteq> None) \<and>
    (case stored h k of None \<Rightarrow> snd (Remove h k) = h
     | Some x \<Rightarrow> add_mset x (mset (items (snd (Remove h k)))) = mset (items h))"
proof (cases "lookup h k")
  case None
  then show ?thesis using wf by (simp add: Remove_def stored_def)
next
  case (Some i)
  let ?n = "length (items h)"
  have ok: "lookup_ok h" and heap: "heap_order prio_above (items h)"
    using wf by (auto simp: wf_heap_def)
  have i: "i < ?n" and k: "k = Key (items h ! i)"
    using ok Some by (auto simp: lookup_ok_def)
  have st: "stored h k = Some (items h ! i)" using Some by (simp add: stored_def)
  consider "i = 0" | "0 < i" "i = ?n - 1" | "0 < i" "i < ?n - 1" using i by linarith
  then show ?thesis
  proof cases
    case 1
    have "items h \<noteq> []" using i by auto
    from Pop_nonempty [OF wf this] obtain h' where "Pop h = (Some (items h ! 0), h')" "wf_heap h'"
      "add_mset (items h ! 0) (mset (items h')) = mset (items h)" .
    then show ?thesis using 1 Some st by (simp add: Remove_def)
  next
    case 2
    have ne: "items h \<noteq> []" using i by auto
    then have l: "last (items h) = items h ! i" using 2 by (simp add: last_conv_nth)
    have "add_mset (items h ! i) (mset (butlast (items h))) = mset (items h)"
      using mset_butlast_last [OF ne] l by simp
    moreover have "Remove h k = (True, h\<lparr>lookup := (lookup h)(k := None), items := butlast (items h)\<rparr>)"
      using Some 2 by (simp add: Remove_def)
    moreover have "lookup_ok (h\<lparr>lookup := (lookup h)(k := None), items := butlast (items h)\<rparr>)"
      using lookup_ok_drop_last [OF ok ne] by (simp only: l k [symmetric])
    ultimately show ?thesis using st prio.heap_butlast [OF heap] by (simp add: wf_heap_def)
  next
    case 3
    let ?h1 = "h\<lparr>lookup := (lookup h)(k := None)\<rparr>"
    let ?h2 = "remove_slot ?h1 i ?n" and ?p = "parent_of i"
    have ok2: "lookup_ok ?h2" using lookup_ok_remove_slot [OF ok refl 3(2)] k by simp
    have m: "add_mset (items h ! i) (mset (items ?h2)) = mset (items h)"
      using mset_remove_slot [of ?n ?h1 i] 3 by simp
    have it: "items ?h2 = (butlast (items h))[i := items h ! (?n - 1)]"
      using items_remove_slot [of ?n ?h1 i] 3 by simp
    have hb: "heap_order prio_above (butlast (items h))" by (rule prio.heap_butlast [OF heap])
    have il: "i < length (butlast (items h))" using 3 by simp
    have at: "items ?h2 ! i = items h ! (?n - 1)" "items ?h2 ! ?p = butlast (items h) ! ?p"
      using il parent_less [OF 3(1)] unfolding it by auto
    show ?thesis
    proof (cases "Priority (items ?h2 ! i) > Priority (items ?h2 ! ?p)")
      case True
      then have "heap_order prio_above (sift_up prio_above (items ?h2) i)"
        using prio.replace_hole_up [OF hb 3(1) il] at il unfolding it
        by (intro prio.sift_up_heap) auto
      then show ?thesis
        using True 3 Some st m ok2 by (simp add: Remove_def Let_def wf_heap_def preserves)
    next
      case False
      then have "heap_order prio_above (sift_down prio_above (items ?h2) i)"
        using prio.replace_hole_down [OF hb il] at il unfolding it
        by (intro prio.sift_down_heap) auto
      then show ?thesis
        using False 3 Some st m ok2 by (simp add: Remove_def Let_def wf_heap_def preserves)
    qed
  qed
qed

lemma append_spec:
  assumes wf: "wf_heap h" and new: "stored h (Key x) = None"
  defines "h' \<equiv> percolateUp (h\<lparr>items := items h @ [x], lookup := (lookup h)(Key x \<mapsto> length (items h))\<rparr>)
      (length (items h))"
  shows "wf_heap h'" and "mset (items h') = add_mset x (mset (items h))"
proof -
  let ?h1 = "h\<lparr>items := items h @ [x], lookup := (lookup h)(Key x \<mapsto> length (items h))\<rparr>"
  have ok: "lookup_ok h" using wf by (simp add: wf_heap_def)
  then have k: "Key x \<notin> Key ` set (items h)" using new by (simp add: stored_None)
  then have ne: "i < length (items h) \<Longrightarrow> Key (items h ! i) \<noteq> Key x" for i
    by (metis image_eqI nth_mem)
  have "lookup_ok ?h1"
    using ok k ne by (auto simp: lookup_ok_def nth_append less_Suc_eq)
  then show "wf_heap h'"
    using wf prio.append_hole [of "items h" x]
    by (simp add: h'_def wf_heap_def preserves prio.sift_up_heap)
  show "mset (items h') = add_mset x (mset (items h))" by (simp add: h'_def)
qed

lemma Push_spec:
  assumes wf: "wf_heap h"
  shows "wf_heap (Push h x) \<and>
    stored (Push h x) = (case stored h (Key x) of
        Some old \<Rightarrow> if Priority old > Priority x then stored h else (stored h)(Key x \<mapsto> x)
      | None \<Rightarrow> (stored h)(Key x \<mapsto> x))"
proof (cases "lookup h (Key x)")
  case None
  then have new: "stored h (Key x) = None" by (simp add: stored_def)
  note a = append_spec [OF wf new]
  show ?thesis
    using a None new wf stored_add [OF _ _ a(2)]
    by (simp add: Push_def Let_def heap_Len_def wf_heap_def)
next
  case (Some i)
  then have st: "stored h (Key x) = Some (items h ! i)" by (simp add: stored_def)
  let ?h = "snd (Remove h (Key x))"
  have r: "wf_heap ?h" "add_mset (items h ! i) (mset (items ?h)) = mset (items h)"
    using Remove_spec [OF wf, of "Key x"] st by auto
  have k: "Key (items h ! i) = Key x"
    using Some wf by (auto simp: wf_heap_def lookup_ok_def)
  have rem: "stored ?h = (stored h)(Key x := None)"
    using stored_remove [OF _ _ r(2)] wf r(1) k by (simp add: wf_heap_def)
  then have new: "stored ?h (Key x) = None" by simp
  note a = append_spec [OF r(1) new]
  show ?thesis
    using a Some st wf r(1) stored_add [OF _ _ a(2)] rem
    by (simp add: Push_def Let_def heap_Len_def wf_heap_def)
qed

lemma wf_heap_root: "wf_heap h \<Longrightarrow> y \<in> set (items h) \<Longrightarrow> Priority y \<le> Priority (items h ! 0)"
  using prio.root_is_top [of "items h"] by (auto simp: wf_heap_def in_set_conv_nth not_less)

lemma Pop_stored:
  assumes wf: "wf_heap h"
  shows "case Pop h of
      (None, h') \<Rightarrow> h' = h \<and> stored h = Map.empty
    | (Some x, h') \<Rightarrow> wf_heap h' \<and> stored h (Key x) = Some x \<and> stored h' = (stored h)(Key x := None) \<and>
        (\<forall>y \<in> ran (stored h). Priority y \<le> Priority x)"
proof (cases "items h = []")
  case True
  then have "stored h k = None" for k using wf by (simp add: stored_None wf_heap_def)
  then show ?thesis using True by (auto simp: Pop_empty)
next
  case False
  have ok: "lookup_ok h" using wf by (simp add: wf_heap_def)
  from Pop_nonempty [OF wf False] obtain h' where p: "Pop h = (Some (items h ! 0), h')" "wf_heap h'"
    "add_mset (items h ! 0) (mset (items h')) = mset (items h)" .
  have "stored h' = (stored h)(Key (items h ! 0) := None)"
    using stored_remove [OF ok _ p(3)] p(2) by (simp add: wf_heap_def)
  moreover have "\<forall>y \<in> ran (stored h). Priority y \<le> Priority (items h ! 0)"
    using wf_heap_root [OF wf] stored_iff [OF ok] by (auto simp: ran_def)
  moreover have "stored h (Key (items h ! 0)) = Some (items h ! 0)"
    using False stored_iff [OF ok] by simp
  ultimately show ?thesis using p by simp
qed

lemma Remove_stored:
  assumes wf: "wf_heap h"
  shows "wf_heap (snd (Remove h k)) \<and> fst (Remove h k) = Has h k \<and>
    stored (snd (Remove h k)) = (stored h)(k := None)"
proof -
  have ok: "lookup_ok h" using wf by (simp add: wf_heap_def)
  have "(stored h k \<noteq> None) = Has h k" by (simp add: stored_def Has_def)
  moreover have "stored (snd (Remove h k)) = (stored h)(k := None)"
  proof (cases "stored h k")
    case None
    then show ?thesis using Remove_spec [OF wf, of k] by (simp add: fun_upd_idem)
  next
    case (Some x)
    then have x: "Key x = k" using stored_iff [OF ok] by simp
    have m: "add_mset x (mset (items (snd (Remove h k)))) = mset (items h)"
      and w: "wf_heap (snd (Remove h k))"
      using Remove_spec [OF wf, of k] Some by auto
    show ?thesis using stored_remove [OF ok _ m] w x by (simp add: wf_heap_def)
  qed
  ultimately show ?thesis using Remove_spec [OF wf, of k] by simp
qed

section \<open>Properties\<close>

text \<open>C1: A well-formed heap is a map from keys to items: \<open>Push\<close> stores the new item unless the key holds
  one of higher priority, \<open>Remove\<close> deletes a key and reports whether it was there, \<open>Pop\<close> takes out an
  item of the highest priority and leaves the rest, \<open>Peek\<close> returns what \<open>Pop\<close> would; every operation
  keeps the heap well formed.\<close>

theorem heap_is_priority_map:
  assumes wf: "wf_heap h"
  shows "wf_heap (Push h x) \<and>
      stored (Push h x) = (case stored h (Key x) of
          Some old \<Rightarrow> if Priority old > Priority x then stored h else (stored h)(Key x \<mapsto> x)
        | None \<Rightarrow> (stored h)(Key x \<mapsto> x)) \<and>
      wf_heap (snd (Remove h k)) \<and> fst (Remove h k) = Has h k \<and>
      stored (snd (Remove h k)) = (stored h)(k := None) \<and>
      (case Pop h of
        (None, h') \<Rightarrow> h' = h \<and> stored h = Map.empty
      | (Some y, h') \<Rightarrow> wf_heap h' \<and> stored h (Key y) = Some y \<and> stored h' = (stored h)(Key y := None) \<and>
          (\<forall>z \<in> ran (stored h). Priority z \<le> Priority y)) \<and>
      Peek h = fst (Pop h)"
  using Push_spec [OF wf, of x] Remove_stored [OF wf, of k] Pop_stored [OF wf]
  by (simp add: Peek_def Pop_def Let_def)

theorem heap_is_priority_map_witness:
  "let h = NewHeap [\<lparr>Key = 3, Value = CHR ''a'', Priority = 2\<rparr>, \<lparr>Key = (5::nat), Value = CHR ''b'', Priority = 8\<rparr>]
   in wf_heap h \<and> stored (Push h \<lparr>Key = 5, Value = CHR ''c'', Priority = 7\<rparr>) = stored h \<and>
      stored (snd (Remove h 5)) = (stored h)(5 := None)"
proof -
  let ?h = "NewHeap [\<lparr>Key = 3, Value = CHR ''a'', Priority = 2\<rparr>, \<lparr>Key = (5::nat), Value = CHR ''b'', Priority = 8\<rparr>]"
  have wf: "wf_heap ?h" by (simp add: NewHeap_def NewHeapCap_wf)
  have old: "stored ?h 5 = Some \<lparr>Key = 5, Value = CHR ''b'', Priority = 8\<rparr>" by code_simp
  show ?thesis
    using heap_is_priority_map [OF wf, of "\<lparr>Key = 5, Value = CHR ''c'', Priority = 7\<rparr>" 5] wf
    by (simp add: old Let_def)
qed

end
