(* ===== verification/Containers_PriorityQueue.thy ===== *)
theory Containers_PriorityQueue
  imports Containers_Heap
begin

text \<open>
  \<open>internal/containers/priority_queue.go\<close>: a queue over the heap that guards the two calls the
  heap leaves open, a zero capacity and a dequeue of nothing, with errors. The mutex of the
  code serialises the calls, so each is one step of the model. The locale \<open>max_queue\<close> is the
  contract the queue's client (the nearest-neighbour search of the random-projection tree)
  relies on.
\<close>

datatype pq_error = ErrPriorityQueueCapacity | ErrEmptyPriorityQueue

record ('k, 't) PriorityQueue =
  pq_h :: "('k, 't) Heap"
  pq_capacity :: nat

definition NewPriorityQueue :: "nat \<Rightarrow> ('k, 't) Item list \<Rightarrow> pq_error + ('k, 't) PriorityQueue" where
  "NewPriorityQueue cap its =
     (if cap = 0 then Inl ErrPriorityQueueCapacity
      else Inr \<lparr>pq_h = NewHeapCap cap its, pq_capacity = cap\<rparr>)"

definition pq_Len :: "('k, 't) PriorityQueue \<Rightarrow> nat" where
  "pq_Len p = heap_Len (pq_h p)"

definition pq_Empty :: "('k, 't) PriorityQueue \<Rightarrow> bool" where
  "pq_Empty p = (heap_Len (pq_h p) = 0)"

definition pq_Peek :: "('k, 't) PriorityQueue \<Rightarrow> ('k, 't) Item option" where
  "pq_Peek p = (case Peek (pq_h p) of None \<Rightarrow> None | Some first \<Rightarrow> Some first)"

definition pq_Less :: "('k, 't) PriorityQueue \<Rightarrow> nat \<Rightarrow> nat \<Rightarrow> bool" where
  "pq_Less p i j = (Priority (items (pq_h p) ! i) < Priority (items (pq_h p) ! j))"

definition Enqueue :: "('k, 't) PriorityQueue \<Rightarrow> ('k, 't) Item \<Rightarrow> ('k, 't) PriorityQueue" where
  "Enqueue p i = p\<lparr>pq_h := Push (pq_h p) i\<rparr>"

definition Dequeue ::
    "('k, 't) PriorityQueue \<Rightarrow> pq_error + (('k, 't) Item option \<times> ('k, 't) PriorityQueue)" where
  "Dequeue p =
     (if heap_Len (pq_h p) = 0 then Inl ErrEmptyPriorityQueue
      else let (i, h) = Pop (pq_h p) in Inr (i, p\<lparr>pq_h := h\<rparr>))"

text \<open>Dequeuing \<open>n\<close> times, the items in the order they come out; stops at the first error.\<close>

fun dequeue_all :: "('q \<Rightarrow> 'e + ('i option \<times> 'q)) \<Rightarrow> nat \<Rightarrow> 'q \<Rightarrow> 'i list" where
  "dequeue_all deq 0 q = []"
| "dequeue_all deq (Suc n) q =
     (case deq q of Inr (Some x, q') \<Rightarrow> x # dequeue_all deq n q' | _ \<Rightarrow> [])"

section \<open>The queue's contract\<close>

locale max_queue =
  fixes inv :: "'q \<Rightarrow> bool"
    and bag :: "'q \<Rightarrow> 'k \<Rightarrow> 'i option"
    and key :: "'i \<Rightarrow> 'k"
    and prio :: "'i \<Rightarrow> 'p::linorder"
    and len :: "'q \<Rightarrow> nat"
    and enq :: "'q \<Rightarrow> 'i \<Rightarrow> 'q"
    and deq :: "'q \<Rightarrow> 'e + ('i option \<times> 'q)"
  assumes enq_inv: "inv q \<Longrightarrow> inv (enq q x)"
    and enq_bag: "inv q \<Longrightarrow> bag (enq q x) =
      (case bag q (key x) of
         Some old \<Rightarrow> if prio old > prio x then bag q else (bag q)(key x \<mapsto> x)
       | None \<Rightarrow> (bag q)(key x \<mapsto> x))"
    and deq_empty: "inv q \<Longrightarrow> len q = 0 \<Longrightarrow> \<exists>e. deq q = Inl e"
    and deq_max: "inv q \<Longrightarrow> len q = Suc n \<Longrightarrow>
      \<exists>x q'. deq q = Inr (Some x, q') \<and> inv q' \<and> len q' = n \<and> bag q (key x) = Some x \<and>
        bag q' = (bag q)(key x := None) \<and> (\<forall>y \<in> ran (bag q). prio y \<le> prio x)"
    and len_zero: "inv q \<Longrightarrow> len q = 0 \<Longrightarrow> bag q = Map.empty"
    and bag_key: "inv q \<Longrightarrow> bag q k = Some x \<Longrightarrow> key x = k"
begin

text \<open>
  Dequeuing everything empties the bag in descending priority, each stored item once.
\<close>

lemma drain:
  "inv q \<Longrightarrow> set (dequeue_all deq (len q) q) = ran (bag q) \<and>
     sorted_wrt (\<lambda>x y. prio y \<le> prio x) (dequeue_all deq (len q) q) \<and>
     distinct (map key (dequeue_all deq (len q) q)) \<and> length (dequeue_all deq (len q) q) = len q"
proof (induction "len q" arbitrary: q)
  case 0
  then show ?case using len_zero by simp
next
  case (Suc n)
  from deq_max [OF Suc.prems Suc.hyps(2) [symmetric]]
  obtain x q' where d: "deq q = Inr (Some x, q')" "inv q'" "len q' = n" "bag q (key x) = Some x"
    "bag q' = (bag q)(key x := None)" "\<forall>y \<in> ran (bag q). prio y \<le> prio x" by blast
  have sub: "ran (bag q') \<subseteq> ran (bag q)" using d(5) by (auto simp: ran_def)
  have ran: "ran (bag q) = insert x (ran (bag q'))"
  proof -
    have "y \<in> ran (bag q) \<Longrightarrow> y = x \<or> y \<in> ran (bag q')" for y
      using d(4,5) unfolding ran_def by (auto split: if_splits) (metis option.inject)
    moreover have "x \<in> ran (bag q)" using d(4) by (auto simp: ran_def)
    ultimately show ?thesis using sub by blast
  qed
  have nk: "key x \<notin> key ` ran (bag q')"
  proof
    assume "key x \<in> key ` ran (bag q')"
    then obtain y k where "key y = key x" "bag q' k = Some y" by (auto simp: ran_def)
    with bag_key [OF d(2)] have "bag q' (key x) = Some y" by metis
    then show False using d(5) by simp
  qed
  from Suc.hyps(1) [of q'] d(2,3)
  have IH: "set (dequeue_all deq n q') = ran (bag q')"
    "sorted_wrt (\<lambda>x y. prio y \<le> prio x) (dequeue_all deq n q')"
    "distinct (map key (dequeue_all deq n q'))" "length (dequeue_all deq n q') = n" by auto
  have e: "dequeue_all deq (len q) q = x # dequeue_all deq n q'"
    using d(1) by (simp add: Suc.hyps(2) [symmetric])
  have le: "\<forall>y \<in> set (dequeue_all deq n q'). prio y \<le> prio x" "key x \<notin> key ` set (dequeue_all deq n q')"
    using IH(1) d(6) sub nk by auto
  show ?case
    unfolding e using IH ran le Suc.hyps(2) by simp
qed

lemma enq_all_inv: "inv q \<Longrightarrow> inv (foldl enq q xs)"
  by (induction xs arbitrary: q) (auto intro: enq_inv)

end

text \<open>The queue keeps its heap well formed, and its bag is what the heap stores.\<close>

definition wf_pq :: "('k, 't) PriorityQueue \<Rightarrow> bool" where
  "wf_pq p \<longleftrightarrow> wf_heap (pq_h p)"

definition pq_bag :: "('k, 't) PriorityQueue \<Rightarrow> 'k \<Rightarrow> ('k, 't) Item option" where
  "pq_bag p = stored (pq_h p)"

lemma NewPriorityQueue_spec:
  "NewPriorityQueue cap its = Inr p \<Longrightarrow> distinct (map Key its) \<Longrightarrow>
   wf_pq p \<and> mset (items (pq_h p)) = mset its"
  by (auto simp: NewPriorityQueue_def wf_pq_def NewHeapCap_wf split: if_splits)

lemma Dequeue_max:
  assumes wf: "wf_pq q" and n: "pq_Len q = Suc n"
  shows "\<exists>x q'. Dequeue q = Inr (Some x, q') \<and> wf_pq q' \<and> pq_Len q' = n \<and>
      pq_bag q (Key x) = Some x \<and> pq_bag q' = (pq_bag q)(Key x := None) \<and>
      (\<forall>y \<in> ran (pq_bag q). Priority y \<le> Priority x)"
proof -
  have h: "wf_heap (pq_h q)" and ne: "items (pq_h q) \<noteq> []"
    using wf n by (auto simp: wf_pq_def pq_Len_def heap_Len_def)
  then have ok: "lookup_ok (pq_h q)" by (simp add: wf_heap_def)
  from Pop_nonempty [OF h ne] obtain h' where p: "Pop (pq_h q) = (Some (items (pq_h q) ! 0), h')"
    "wf_heap h'" "add_mset (items (pq_h q) ! 0) (mset (items h')) = mset (items (pq_h q))" .
  let ?x = "items (pq_h q) ! 0" let ?q = "q\<lparr>pq_h := h'\<rparr>"
  have x: "?x \<in> set (items (pq_h q))" using ne by simp
  have "Suc (length (items h')) = length (items (pq_h q))"
    by (metis p(3) size_add_mset size_mset)
  then have "pq_Len ?q = n" using n by (simp add: pq_Len_def heap_Len_def)
  moreover have "pq_bag ?q = (pq_bag q)(Key ?x := None)"
    using stored_remove [OF ok _ p(3)] p(2) by (simp add: pq_bag_def wf_heap_def)
  moreover have "\<forall>y \<in> ran (pq_bag q). Priority y \<le> Priority ?x"
    using wf_heap_root [OF h] stored_iff [OF ok] by (auto simp: pq_bag_def ran_def)
  moreover have "pq_bag q (Key ?x) = Some ?x"
    using x stored_iff [OF ok] by (simp add: pq_bag_def)
  moreover have "Dequeue q = Inr (Some ?x, ?q)" using p(1) ne by (simp add: Dequeue_def heap_Len_def)
  moreover have "wf_pq ?q" using p(2) by (simp add: wf_pq_def)
  ultimately show ?thesis by blast
qed

interpretation pq: max_queue wf_pq pq_bag Key Priority pq_Len Enqueue Dequeue
proof
  fix q :: "('k, 't) PriorityQueue" and x k
  assume wf: "wf_pq q"
  then have ok: "lookup_ok (pq_h q)" by (simp add: wf_pq_def wf_heap_def)
  show "wf_pq (Enqueue q x)" using wf Push_spec [of "pq_h q" x] by (simp add: wf_pq_def Enqueue_def)
  show "pq_bag (Enqueue q x) = (case pq_bag q (Key x) of
         Some old \<Rightarrow> if Priority old > Priority x then pq_bag q else (pq_bag q)(Key x \<mapsto> x)
       | None \<Rightarrow> (pq_bag q)(Key x \<mapsto> x))"
    using wf Push_spec [of "pq_h q" x] by (simp add: wf_pq_def Enqueue_def pq_bag_def split: option.split)
  show "pq_Len q = 0 \<Longrightarrow> \<exists>e. Dequeue q = Inl e"
    by (simp add: Dequeue_def pq_Len_def)
  show "pq_Len q = 0 \<Longrightarrow> pq_bag q = Map.empty"
    using stored_None [OF ok] by (auto simp: pq_Len_def heap_Len_def pq_bag_def)
  show "pq_bag q k = Some x \<Longrightarrow> Key x = k"
    using stored_iff [OF ok] by (simp add: pq_bag_def)
qed (rule Dequeue_max)

section \<open>Properties\<close>

text \<open>A queue built from items of distinct keys, after any sequence of enqueues, dequeues each
  stored item once, in descending priority, exactly \<open>Len\<close> of them.\<close>

theorem queue_drains_sorted:
  assumes new: "NewPriorityQueue cap its = Inr q0" and d: "distinct (map Key its)"
    and q: "q = foldl Enqueue q0 xs" and out: "out = dequeue_all Dequeue (pq_Len q) q"
  shows "set out = ran (pq_bag q) \<and> sorted_wrt (\<lambda>x y. Priority y \<le> Priority x) out \<and>
    distinct (map Key out) \<and> length out = pq_Len q"
proof -
  have "wf_pq q" using NewPriorityQueue_spec [OF new d] q by (simp add: pq.enq_all_inv)
  then show ?thesis using pq.drain out by simp
qed

theorem queue_drains_sorted_witness:
  "\<exists>q0. NewPriorityQueue 2 [\<lparr>Key = 4, Value = 10, Priority = 4\<rparr>] = Inr q0 \<and>
     (let q = foldl Enqueue q0 [\<lparr>Key = 2, Value = 20, Priority = 9\<rparr>, \<lparr>Key = 3, Value = 30, Priority = 7\<rparr>,
            \<lparr>Key = (2::nat), Value = (21::nat), Priority = 5\<rparr>]
      in pq_Len q = 3 \<and> map Value (dequeue_all Dequeue 3 q) = [20, 30, 10] \<and>
         set (dequeue_all Dequeue 3 q) = ran (pq_bag q))"
proof -
  let ?its = "[\<lparr>Key = (4::nat), Value = (10::nat), Priority = 4\<rparr>]"
  let ?xs = "[\<lparr>Key = 2, Value = 20, Priority = 9\<rparr>, \<lparr>Key = 3, Value = 30, Priority = 7\<rparr>,
            \<lparr>Key = (2::nat), Value = (21::nat), Priority = 5\<rparr>]"
  let ?q0 = "\<lparr>pq_h = NewHeapCap 2 ?its, pq_capacity = 2\<rparr>"
  have new: "NewPriorityQueue 2 ?its = Inr ?q0" by (simp add: NewPriorityQueue_def)
  have len: "pq_Len (foldl Enqueue ?q0 ?xs) = 3" by code_simp
  have "map Value (dequeue_all Dequeue 3 (foldl Enqueue ?q0 ?xs)) = [20, 30, 10]" by code_simp
  then show ?thesis
    using queue_drains_sorted [OF new _ refl refl, of ?xs] new by (simp add: len Let_def del: foldl_Cons)
qed

end
