(* ===== verification/Comparator.thy ===== *)
theory Comparator
  imports Fraise_Prelude
begin

text \<open>
  \<open>internal/comparator/comparator.go\<close>: a \<open>Comparator\<close> orders two values and answers with a
  negative number, zero or a positive one. The locale \<open>weak_comparator\<close> is the contract its
  clients (the B-tree, the top-k heap, the indexes) rely on; \<open>total_comparator\<close> adds that
  only equal values compare as zero. Both comparators of the file are shown to satisfy it.
  Instants are nanoseconds counted from the zero time (see \<open>Time_Value\<close>).
\<close>

type_synonym 'a comparator = "'a \<Rightarrow> 'a \<Rightarrow> int"

definition OrderedComparator :: "'a::linorder comparator" where
  "OrderedComparator a b = (if a < b then -1 else if b < a then 1 else 0)"

definition TimeComparator :: "int comparator" where
  "TimeComparator a b = (if b < a then 1 else if a < b then -1 else 0)"

locale weak_comparator =
  fixes compare :: "'a comparator"
  assumes flip: "compare a b < 0 \<longleftrightarrow> 0 < compare b a"
    and less_trans: "compare a b < 0 \<Longrightarrow> compare b c < 0 \<Longrightarrow> compare a c < 0"
    and equiv_less: "compare a b = 0 \<Longrightarrow> compare b c < 0 \<Longrightarrow> compare a c < 0"
begin

lemma same [simp]: "compare a a = 0"
  using flip [of a a] by linarith

lemma less_asym: "compare a b < 0 \<Longrightarrow> \<not> compare b a < 0"
  using flip [of a b] flip [of b a] by linarith

lemma zero_sym: "compare a b = 0 \<longleftrightarrow> compare b a = 0"
  using flip [of a b] flip [of b a] by linarith

lemma pos_iff: "0 < compare a b \<longleftrightarrow> compare b a < 0"
  using flip [of b a] by simp

lemma less_equiv: "compare a b < 0 \<Longrightarrow> compare b c = 0 \<Longrightarrow> compare a c < 0"
  by (metis equiv_less flip less_trans linorder_neqE_linordered_idom zero_sym)

lemma leq_trans: "compare a b \<le> 0 \<Longrightarrow> compare b c \<le> 0 \<Longrightarrow> compare a c \<le> 0"
  by (metis equiv_less flip less_equiv less_trans linorder_not_le order_le_less)

lemma zero_trans: "compare a b = 0 \<Longrightarrow> compare b c = 0 \<Longrightarrow> compare a c = 0"
  by (metis leq_trans order_antisym_conv order_refl pos_iff zero_sym linorder_not_le)

end

locale total_comparator = weak_comparator compare for compare :: "'a comparator" +
  assumes zero_eq: "compare a b = 0 \<Longrightarrow> a = b"

interpretation ordered_cmp: total_comparator OrderedComparator
  by unfold_locales (auto simp: OrderedComparator_def split: if_splits)

interpretation time_cmp: total_comparator TimeComparator
  by unfold_locales (auto simp: TimeComparator_def split: if_splits)

end
