(* ===== verification/Containers_TopK.thy ===== *)
theory Containers_TopK
  imports Comparator Sift
begin

text \<open>
  \<open>internal/containers/topk.go\<close>: the bounded heap that keeps the \<open>k\<close> best scored keys. The
  worst kept pair sits at the root, so an offer can evict it. Scores are values of a linear
  order, which the code's floats are as long as none is NaN. \<open>sort.Slice\<close> is not stable; its
  model is the sort by the same order, which is the only result it can have when distinct
  keys never compare as equal.
\<close>

record ('k, 'p) topKEntry =
  te_key :: 'k
  te_score :: 'p

record ('k, 'p) TopK =
  tk_k :: int
  tk_compare :: "'k comparator"
  tk_entries :: "('k, 'p) topKEntry list"

definition NewTopK :: "int \<Rightarrow> 'k comparator \<Rightarrow> ('k, 'p) TopK" where
  "NewTopK k cmp = \<lparr>tk_k = k, tk_compare = cmp, tk_entries = []\<rparr>"

definition worseThan :: "('k, 'p::linorder) TopK \<Rightarrow> nat \<Rightarrow> nat \<Rightarrow> bool" where
  "worseThan t i j =
     (let a = tk_entries t ! i; b = tk_entries t ! j
      in if te_score a \<noteq> te_score b then te_score a < te_score b
         else tk_compare t (te_key a) (te_key b) > 0)"

definition topk_swap :: "('k, 'p) TopK \<Rightarrow> nat \<Rightarrow> nat \<Rightarrow> ('k, 'p) TopK" where
  "topk_swap t i j = t\<lparr>tk_entries := swap_slots (tk_entries t) i j\<rparr>"

function topk_percolateUp :: "('k, 'p::linorder) TopK \<Rightarrow> nat \<Rightarrow> ('k, 'p) TopK" where
  "topk_percolateUp t index =
     (if 0 < index then
        (let parent = (index - 1) div 2
         in if \<not> worseThan t index parent then t
            else topk_percolateUp (topk_swap t index parent) parent)
      else t)"
  by pat_completeness auto
termination
  by (relation "measure (\<lambda>(t, i). i)") auto

definition worst_child :: "('k, 'p::linorder) TopK \<Rightarrow> nat \<Rightarrow> nat" where
  "worst_child t index =
     (let n = length (tk_entries t); left = 2 * index + 1; right = 2 * index + 2;
          worst = index;
          worst = (if left < n \<and> worseThan t left worst then left else worst);
          worst = (if right < n \<and> worseThan t right worst then right else worst)
      in worst)"

text \<open>The order of the bounded heap, on entries.\<close>

definition entry_worse :: "'k comparator \<Rightarrow> ('k, 'p::linorder) topKEntry \<Rightarrow> ('k, 'p) topKEntry \<Rightarrow> bool" where
  "entry_worse cmp a b =
     (if te_score a \<noteq> te_score b then te_score a < te_score b else cmp (te_key a) (te_key b) > 0)"

lemma worseThan_entry:
  "worseThan t i j = entry_worse (tk_compare t) (tk_entries t ! i) (tk_entries t ! j)"
  by (simp add: worseThan_def entry_worse_def Let_def)

lemma worst_child_top: "worst_child t i = top_child (entry_worse (tk_compare t)) (tk_entries t) i"
  by (simp add: worst_child_def top_child_def Let_def worseThan_entry)

function topk_percolateDown :: "('k, 'p::linorder) TopK \<Rightarrow> nat \<Rightarrow> ('k, 'p) TopK" where
  "topk_percolateDown t index =
     (if worst_child t index = index then t
      else topk_percolateDown (topk_swap t index (worst_child t index)) (worst_child t index))"
  by pat_completeness auto
termination
proof (relation "measure (\<lambda>(t, i). length (tk_entries t) - i)")
  fix t :: "('k, 'p::linorder) TopK" and i
  assume "worst_child t i \<noteq> i"
  with top_child_cases [of "entry_worse (tk_compare t)" "tk_entries t" i]
  show "((topk_swap t i (worst_child t i), worst_child t i), t, i)
      \<in> measure (\<lambda>(t, i). length (tk_entries t) - i)"
    by (auto simp: worst_child_top topk_swap_def)
qed simp

declare topk_percolateUp.simps [simp del, loop_defs] topk_percolateDown.simps [simp del, loop_defs]

definition Offer :: "('k, 'p::linorder) TopK \<Rightarrow> 'k \<Rightarrow> 'p \<Rightarrow> ('k, 'p) TopK" where
  "Offer t key score =
     (let e = \<lparr>te_key = key, te_score = score\<rparr>
      in if tk_k t \<le> 0 \<or> int (length (tk_entries t)) < tk_k t then
           let t1 = t\<lparr>tk_entries := tk_entries t @ [e]\<rparr>
           in if tk_k t > 0 then topk_percolateUp t1 (length (tk_entries t1) - 1) else t1
         else
           let root = tk_entries t ! 0;
               better = (score > te_score root \<or>
                 (score = te_score root \<and> tk_compare t key (te_key root) < 0))
           in if \<not> better then t
              else topk_percolateDown (t\<lparr>tk_entries := (tk_entries t)[0 := e]\<rparr>) 0)"

definition drain_less :: "'k comparator \<Rightarrow> ('k, 'p::linorder) topKEntry \<Rightarrow> ('k, 'p) topKEntry \<Rightarrow> bool" where
  "drain_less cmp a b =
     (if te_score a \<noteq> te_score b then te_score a > te_score b else cmp (te_key a) (te_key b) < 0)"

definition Drain :: "('k, 'p::linorder) TopK \<Rightarrow> ('k list \<times> 'p list) \<times> ('k, 'p) TopK" where
  "Drain t =
     (let es = sort_by (\<lambda>a b. \<not> drain_less (tk_compare t) b a) (tk_entries t)
      in ((map te_key es, map te_score es), t\<lparr>tk_entries := []\<rparr>))"

section \<open>The rank of an entry\<close>

text \<open>Score descending, then key ascending: the order a drain promises.\<close>

abbreviation rank_le :: "'k comparator \<Rightarrow> ('k, 'p::linorder) topKEntry \<Rightarrow> ('k, 'p) topKEntry \<Rightarrow> bool" where
  "rank_le cmp a b \<equiv> \<not> drain_less cmp b a"

context total_comparator
begin

lemma rank_order: "total_order_rel (rank_le compare :: ('a, 'p::linorder) topKEntry \<Rightarrow> _)"
proof
  fix x y z :: "('a, 'p) topKEntry"
  show "rank_le compare x y \<or> rank_le compare y x"
    by (auto simp: drain_less_def dest: less_asym)
  show "rank_le compare x y \<Longrightarrow> rank_le compare y z \<Longrightarrow> rank_le compare x z"
    using leq_trans [of "te_key x" "te_key y" "te_key z"]
    by (auto simp: drain_less_def flip split: if_splits)
  show "rank_le compare x y \<Longrightarrow> rank_le compare y x \<Longrightarrow> x = y"
    by (auto simp: drain_less_def flip not_less zero_sym [of "te_key x"] split: if_splits intro!: topKEntry.equality zero_eq)
qed

lemma worse_sift: "sift_order (entry_worse compare :: ('a, 'p::linorder) topKEntry \<Rightarrow> _)"
proof
  fix a b c :: "('a, 'p) topKEntry"
  show "entry_worse compare a b \<Longrightarrow> \<not> entry_worse compare b a"
    by (auto simp: entry_worse_def pos_iff dest: less_asym split: if_splits)
  show "\<not> entry_worse compare a b \<Longrightarrow> \<not> entry_worse compare b c \<Longrightarrow> \<not> entry_worse compare a c"
    using leq_trans [of "te_key a" "te_key b" "te_key c"]
    by (auto simp: entry_worse_def not_less split: if_splits)
qed

lemma worse_rank: "entry_worse compare a b \<longleftrightarrow> \<not> rank_le compare a b"
  by (auto simp: entry_worse_def drain_less_def pos_iff)

end

lemma topk_swap_fields [simp]:
  "tk_k (topk_swap t i j) = tk_k t" "tk_compare (topk_swap t i j) = tk_compare t"
  "tk_entries (topk_swap t i j) = swap_slots (tk_entries t) i j"
  by (simp_all add: topk_swap_def)

lemma percolateUp_sift:
  "topk_percolateUp t i = t\<lparr>tk_entries := sift_up (entry_worse (tk_compare t)) (tk_entries t) i\<rparr>"
proof (induction t i rule: topk_percolateUp.induct)
  case (1 t i)
  then show ?case
    by (subst topk_percolateUp.simps, subst sift_up.simps) (auto simp: Let_def worseThan_entry topk_swap_def)
qed

lemma percolateDown_sift:
  "topk_percolateDown t i = t\<lparr>tk_entries := sift_down (entry_worse (tk_compare t)) (tk_entries t) i\<rparr>"
proof (induction t i rule: topk_percolateDown.induct)
  case (1 t i)
  then show ?case
    by (subst topk_percolateDown.simps, subst sift_down.simps) (auto simp: worst_child_top topk_swap_def)
qed

section \<open>The kept pairs are the best ones offered\<close>

definition best :: "'k comparator \<Rightarrow> int \<Rightarrow> ('k, 'p::linorder) topKEntry list \<Rightarrow> ('k, 'p) topKEntry list" where
  "best cmp k es =
     (if k \<le> 0 then sort_by (rank_le cmp) es else take (nat k) (sort_by (rank_le cmp) es))"

definition keeps_best :: "('k, 'p::linorder) TopK \<Rightarrow> ('k, 'p) topKEntry list \<Rightarrow> bool" where
  "keeps_best t es \<longleftrightarrow> mset (tk_entries t) = mset (best (tk_compare t) (tk_k t) es) \<and>
     (tk_k t > 0 \<longrightarrow> heap_order (entry_worse (tk_compare t)) (tk_entries t))"

lemma NewTopK_best: "keeps_best (NewTopK k cmp) []"
  by (simp add: keeps_best_def NewTopK_def best_def heap_from_def)

lemma length_best: "length (best cmp k es) = (if k \<le> 0 then length es else min (nat k) (length es))"
  by (auto simp: best_def)

lemma keeps_best_length: "keeps_best t es \<Longrightarrow>
    length (tk_entries t) = (if tk_k t \<le> 0 then length es else min (nat (tk_k t)) (length es))"
  unfolding keeps_best_def by (metis length_best size_mset)

lemma Offer_fields [simp]:
  "tk_k (Offer t key s) = tk_k t" "tk_compare (Offer t key s) = tk_compare t"
  by (simp_all add: Offer_def Let_def percolateUp_sift percolateDown_sift)

lemma sorted_best:
  "total_comparator cmp \<Longrightarrow> sorted_wrt (rank_le cmp) (best cmp k es)"
  using total_preorder.sorted_sort_by [OF total_order_rel.axioms(1) [OF total_comparator.rank_order]]
  by (auto simp: best_def sorted_wrt_take)

lemma Offer_room:
  assumes cmp: "total_comparator (tk_compare t)" and t: "keeps_best t es"
    and room: "tk_k t \<le> 0 \<or> int (length (tk_entries t)) < tk_k t"
  shows "keeps_best (Offer t key s) (\<lparr>te_key = key, te_score = s\<rparr> # es)"
proof -
  let ?e = "\<lparr>te_key = key, te_score = s\<rparr>" and ?c = "tk_compare t"
  have all: "mset (best ?c (tk_k t) es) = mset es"
    "mset (best ?c (tk_k t) (?e # es)) = add_mset ?e (mset es)"
    using keeps_best_length [OF t] room
    by (auto simp: best_def min_def split: if_splits)
  have m: "mset (tk_entries (Offer t key s)) = add_mset ?e (mset (tk_entries t))"
    using room by (auto simp: Offer_def Let_def percolateUp_sift)
  have "heap_order (entry_worse ?c) (tk_entries (Offer t key s))" if k: "tk_k t > 0"
  proof -
    have "up_hole (entry_worse ?c) (tk_entries t @ [?e]) (length (tk_entries t))"
      using t k by (intro sift_order.append_hole [OF total_comparator.worse_sift [OF cmp]])
        (simp add: keeps_best_def)
    then have "heap_order (entry_worse ?c) (sift_up (entry_worse ?c) (tk_entries t @ [?e]) (length (tk_entries t)))"
      by (intro sift_order.sift_up_heap [OF total_comparator.worse_sift [OF cmp]]) auto
    then show ?thesis using room k by (simp add: Offer_def Let_def percolateUp_sift)
  qed
  then show ?thesis using t all m by (simp add: keeps_best_def)
qed

lemma Offer_full:
  assumes cmp: "total_comparator (tk_compare t)" and t: "keeps_best t es"
    and full: "tk_k t > 0" "int (length (tk_entries t)) \<ge> tk_k t"
  shows "keeps_best (Offer t key s) (\<lparr>te_key = key, te_score = s\<rparr> # es)"
proof -
  let ?e = "\<lparr>te_key = key, te_score = s\<rparr>" and ?c = "tk_compare t" and ?xs = "tk_entries t"
  let ?r = "?xs ! 0" and ?zs = "best (tk_compare t) (tk_k t) es"
  note sift = total_comparator.worse_sift [OF cmp] and ord = total_comparator.rank_order [OF cmp]
  have len: "length ?xs = nat (tk_k t)" "?xs \<noteq> []"
    using keeps_best_length [OF t] full by auto
  have heap: "heap_order (entry_worse ?c) ?xs" and m: "mset ?xs = mset ?zs"
    using t full by (auto simp: keeps_best_def)
  have lz: "length ?zs = nat (tk_k t)" using m len(1) by (metis size_mset)
  have sz: "set ?zs = set ?xs" using m by (metis set_mset_mset)
  have r: "?r \<in> set ?zs" "\<forall>y \<in> set ?zs. rank_le ?c y ?r"
    using sift_order.root_is_top [OF sift heap] len(2)
    by (auto simp: sz in_set_conv_nth total_comparator.worse_rank [OF cmp])
  have sorted: "sorted_wrt (rank_le ?c) ?zs" by (rule sorted_best [OF cmp])
  have zs: "best ?c (tk_k t) (?e # es) = take (length ?zs) (insort_by (rank_le ?c) ?e ?zs)"
    unfolding lz using full(1) by (simp add: best_def take_insort_by)
  have new: "mset (best ?c (tk_k t) (?e # es)) =
      (if rank_le ?c ?r ?e then mset ?xs else add_mset ?e (mset ?xs) - {#?r#})"
    unfolding zs by (simp add: total_order_rel.take_insort_full [OF ord sorted r] m)
  have better: "(s > te_score ?r \<or> (s = te_score ?r \<and> ?c key (te_key ?r) < 0)) = (\<not> rank_le ?c ?r ?e)"
    by (auto simp: drain_less_def)
  show ?thesis
  proof (cases "rank_le ?c ?r ?e")
    case True
    then have "Offer t key s = t" using full better by (simp add: Offer_def Let_def)
    then show ?thesis using t True new by (simp add: keeps_best_def m)
  next
    case False
    then have o: "tk_entries (Offer t key s) = sift_down (entry_worse ?c) (?xs[0 := ?e]) 0"
      using full better by (auto simp: Offer_def Let_def percolateDown_sift)
    have "down_hole (entry_worse ?c) 0 (?xs[0 := ?e]) 0"
      using sift_order.replace_hole_down [OF sift heap] len(2) by simp
    then have "heap_order (entry_worse ?c) (tk_entries (Offer t key s))"
      unfolding o using len(2) by (intro sift_order.sift_down_heap [OF sift]) auto
    moreover have "mset (tk_entries (Offer t key s)) = add_mset ?e (mset ?xs) - {#?r#}"
      unfolding o using len(2) by (simp add: mset_update nth_mem_mset add_mset_commute diff_union_swap2)
    ultimately show ?thesis using new False by (simp add: keeps_best_def)
  qed
qed

lemma Offer_keeps_best [preserves]:
  "total_comparator (tk_compare t) \<Longrightarrow> keeps_best t es \<Longrightarrow>
   keeps_best (Offer t key s) (\<lparr>te_key = key, te_score = s\<rparr> # es)"
  by (cases "tk_k t \<le> 0 \<or> int (length (tk_entries t)) < tk_k t") (auto intro: Offer_room Offer_full)

lemma entry_eta [simp]: "\<lparr>te_key = te_key e, te_score = te_score e\<rparr> = e"
  by simp

lemma Offer_all:
  assumes cmp: "total_comparator cmp"
  shows "let t = foldl (\<lambda>t e. Offer t (te_key e) (te_score e)) (NewTopK k cmp) es
    in tk_k t = k \<and> tk_compare t = cmp \<and> keeps_best t (rev es)"
proof (induction es rule: rev_induct)
  case Nil
  then show ?case by (simp add: NewTopK_best) (simp add: NewTopK_def)
next
  case (snoc e es)
  then have "keeps_best (Offer (foldl (\<lambda>t e. Offer t (te_key e) (te_score e)) (NewTopK k cmp) es)
      (te_key e) (te_score e)) (\<lparr>te_key = te_key e, te_score = te_score e\<rparr> # rev es)"
    using cmp by (intro Offer_keeps_best) (auto simp: Let_def)
  with snoc show ?case by (simp add: Let_def)
qed

lemma best_sorted_id:
  assumes cmp: "total_comparator cmp" and m: "mset xs = mset (best cmp k es)"
  shows "sort_by (rank_le cmp) xs = best cmp k es"
proof -
  note ord = total_comparator.rank_order [OF cmp]
  have "sorted_wrt (rank_le cmp) (best cmp k es)" by (rule sorted_best [OF cmp])
  then show ?thesis using total_order_rel.sort_by_eqI [OF ord] m by metis
qed

lemma best_mset:
  assumes "total_comparator cmp" "mset es = mset es'"
  shows "best cmp k es = best cmp k es'"
  using total_order_rel.sort_by_mset_cong [OF total_comparator.rank_order [OF assms(1)] assms(2)]
  by (simp add: best_def)

lemma Drain_offers:
  assumes cmp: "total_comparator cmp"
  shows "Drain (foldl (\<lambda>t e. Offer t (te_key e) (te_score e)) (NewTopK k cmp) es) =
    ((map te_key (best cmp k es), map te_score (best cmp k es)), NewTopK k cmp)"
proof -
  let ?t = "foldl (\<lambda>t e. Offer t (te_key e) (te_score e)) (NewTopK k cmp) es"
  have t: "tk_k ?t = k" "tk_compare ?t = cmp" "keeps_best ?t (rev es)"
    using Offer_all [OF cmp, of k es] by (auto simp: Let_def)
  have "best cmp k (rev es) = best cmp k es" by (intro best_mset [OF cmp]) simp
  then have "mset (tk_entries ?t) = mset (best cmp k es)"
    using t by (simp add: keeps_best_def)
  then have "sort_by (rank_le cmp) (tk_entries ?t) = best cmp k es"
    by (rule best_sorted_id [OF cmp])
  then show ?thesis using t by (simp add: Drain_def NewTopK_def Let_def)
qed

section \<open>Properties\<close>

text \<open>C2: Draining a \<open>TopK\<close> after any sequence of offers returns the \<open>k\<close> best pairs offered (all of
  them for \<open>k \<le> 0\<close>), score descending and then key ascending, whatever the order of the offers,
  and leaves it empty.\<close>

theorem topk_drains_best:
  assumes cmp: "total_comparator cmp" and perm: "mset es' = mset es"
  shows "Drain (foldl (\<lambda>t e. Offer t (te_key e) (te_score e)) (NewTopK k cmp) es') =
    ((map te_key (best cmp k es), map te_score (best cmp k es)), NewTopK k cmp)"
  unfolding Drain_offers [OF cmp] best_mset [OF cmp perm] ..

theorem topk_drains_best_witness:
  "fst (Drain (foldl (\<lambda>t e. Offer t (te_key e) (te_score e)) (NewTopK 2 OrderedComparator)
     [\<lparr>te_key = 1, te_score = 5\<rparr>, \<lparr>te_key = 4, te_score = 7\<rparr>,
      \<lparr>te_key = 3, te_score = 7\<rparr>, \<lparr>te_key = (2::nat), te_score = (6::nat)\<rparr>])) = ([3, 4], [7, 7])"
  using topk_drains_best [OF ordered_cmp.total_comparator_axioms refl, of 2
    "[\<lparr>te_key = 1, te_score = 5\<rparr>, \<lparr>te_key = 4, te_score = 7\<rparr>,
      \<lparr>te_key = 3, te_score = 7\<rparr>, \<lparr>te_key = (2::nat), te_score = (6::nat)\<rparr>]"]
  by (simp add: best_def drain_less_def OrderedComparator_def numeral_2_eq_2 del: foldl_Cons)

end
