(* ===== verification/Lexer_Tokens.thy ===== *)
theory Lexer_Tokens
  imports Fraise_Prelude "HOL-Library.Word"
begin

text \<open>
  \<open>internal/query/lexer/token.go\<close> and the text the lexer works on. A Go string of valid UTF-8 is
  its list of code points (\<open>rune\<close>s are natural numbers here). The classes and the lower case of
  ASCII are written out; those of the other characters belong to Go's Unicode tables and come as
  a record of functions, so every result holds for every version of the tables.
\<close>

type_synonym rune = nat

type_synonym runes = "rune list"

definition str :: "string \<Rightarrow> runes" where
  "str s = map of_char s"

record unicode =
  wide_letter :: "rune \<Rightarrow> bool"
  wide_digit :: "rune \<Rightarrow> bool"
  wide_symbol :: "rune \<Rightarrow> bool" \<comment> \<open>category So\<close>
  wide_lower :: "rune \<Rightarrow> rune"

definition IsLetter :: "unicode \<Rightarrow> rune \<Rightarrow> bool" where
  "IsLetter u ch = (if ch < 128 then 65 \<le> ch \<and> ch \<le> 90 \<or> 97 \<le> ch \<and> ch \<le> 122 else wide_letter u ch)"

definition IsDigit :: "unicode \<Rightarrow> rune \<Rightarrow> bool" where
  "IsDigit u ch = (if ch < 128 then 48 \<le> ch \<and> ch \<le> 57 else wide_digit u ch)"

definition lower_rune :: "unicode \<Rightarrow> rune \<Rightarrow> rune" where
  "lower_rune u ch =
     (if ch < 128 then (if 65 \<le> ch \<and> ch \<le> 90 then ch + 32 else ch) else wide_lower u ch)"

definition ToLower :: "unicode \<Rightarrow> runes \<Rightarrow> runes" where
  "ToLower u s = map (lower_rune u) s"

text \<open>Tables that know no character beyond ASCII, for examples.\<close>

definition ascii :: unicode where
  "ascii = \<lparr>wide_letter = (\<lambda>_. False), wide_digit = (\<lambda>_. False), wide_symbol = (\<lambda>_. False),
     wide_lower = (\<lambda>c. c)\<rparr>"

section \<open>Token types\<close>

datatype (plugins only: code) TokenType =
    ILLEGAL | LITERAL | PHRASE
  | DESCRIBE | EXPLAIN
  | RECALL | REMEMBER | FORGET | UPDATE
  | PLUS | TILDE | MINUS
  | LPAREN | RPAREN
  | AT | COLON | DOLLAR
  | WHITESPACE | NUL | SPECIAL
  | EOL | NEWLINE
  | TOPIC | ENTITY | SINCE | UNTIL | TOP | DEPTH | VEC

record Token =
  Type :: TokenType
  Literal :: runes
  Pos :: nat

definition KeywordsMap :: "(runes \<times> TokenType) list" where
  "KeywordsMap =
     [(str ''recall'', RECALL), (str ''remember'', REMEMBER), (str ''forget'', FORGET),
      (str ''update'', UPDATE), (str ''explain'', EXPLAIN), (str ''describe'', DESCRIBE),
      (str ''topic'', TOPIC), (str ''entity'', ENTITY), (str ''since'', SINCE),
      (str ''until'', UNTIL), (str ''top'', TOP), (str ''depth'', DEPTH), (str ''vec'', VEC)]"

definition keyword :: "runes \<Rightarrow> TokenType option" where
  "keyword w = map_of KeywordsMap w"

fun TokenMap :: "TokenType \<Rightarrow> string" where
  "TokenMap DESCRIBE = ''describe''"
| "TokenMap EXPLAIN = ''explain''"
| "TokenMap RECALL = ''recall''"
| "TokenMap REMEMBER = ''remember''"
| "TokenMap FORGET = ''forget''"
| "TokenMap UPDATE = ''update''"
| "TokenMap COLON = '':''"
| "TokenMap LPAREN = ''(''"
| "TokenMap RPAREN = '')''"
| "TokenMap DOLLAR = ''$''"
| "TokenMap PHRASE = ''phrase''"
| "TokenMap NEWLINE = [CHR 0x0A]"
| "TokenMap NUL = [CHR 0x00]"
| "TokenMap PLUS = ''+''"
| "TokenMap TILDE = ''~''"
| "TokenMap MINUS = ''-''"
| "TokenMap TOPIC = ''topic''"
| "TokenMap ENTITY = ''entity''"
| "TokenMap SINCE = ''since''"
| "TokenMap UNTIL = ''until''"
| "TokenMap TOP = ''top''"
| "TokenMap DEPTH = ''depth''"
| "TokenMap LITERAL = ''literal''"
| "TokenMap VEC = ''vec''"
| "TokenMap EOL = ''eol''"
| "TokenMap AT = ''@''"
| "TokenMap WHITESPACE = ''whitespace''"
| "TokenMap SPECIAL = ''special''"
| "TokenMap ILLEGAL = ''''"

fun IsKeyword :: "TokenType \<Rightarrow> bool" where
  "IsKeyword t = (t \<in> {RECALL, REMEMBER, FORGET, UPDATE, TOPIC, ENTITY, SINCE, UNTIL, TOP, DEPTH,
     VEC, EXPLAIN, DESCRIBE})"

fun IsCommand :: "TokenType \<Rightarrow> bool" where
  "IsCommand t = (t \<in> {RECALL, REMEMBER, FORGET, UPDATE})"

fun IsPrefix :: "TokenType \<Rightarrow> bool" where
  "IsPrefix t = (t \<in> {EXPLAIN, DESCRIBE})"

fun IsBlank :: "TokenType \<Rightarrow> bool" where
  "IsBlank t = (t \<in> {WHITESPACE, NUL})"

fun IsEndOfLine :: "TokenType \<Rightarrow> bool" where
  "IsEndOfLine t = (t \<in> {EOL, NEWLINE})"

fun IsSeparator :: "TokenType \<Rightarrow> bool" where
  "IsSeparator t = (t \<in> {AT, COLON, DOLLAR})"

definition IsMisCasedKeyword :: "unicode \<Rightarrow> Token \<Rightarrow> bool" where
  "IsMisCasedKeyword u t = (Type t = LITERAL \<and> keyword (ToLower u (Literal t)) \<noteq> None)"

section \<open>Facts about keywords\<close>

text \<open>The keyword table and the names of the types agree: a reserved word spells its own type.\<close>

lemma distinct_KeywordsMap: "distinct (map fst KeywordsMap)"
  by code_simp

lemma set_KeywordsMap: "(w, t) \<in> set KeywordsMap \<longleftrightarrow> IsKeyword t \<and> w = str (TokenMap t)"
  by (cases t) (simp_all add: KeywordsMap_def)

lemma keyword_TokenMap: "keyword w = Some t \<longleftrightarrow> IsKeyword t \<and> w = str (TokenMap t)"
  by (simp add: keyword_def distinct_KeywordsMap set_KeywordsMap)

lemma keyword_IsKeyword: "keyword w = Some t \<Longrightarrow> IsKeyword t"
  by (simp add: keyword_TokenMap)

end
