(* ===== verification/Config.thy ===== *)
theory Config
  imports Lexer_Tokens Complex_Main
begin

text \<open>
  \<open>internal/config\<close>: the settings, their defaults, and the two passes over them at startup: \<open>adjust\<close>
  replaces zero values by defaults, \<open>validate\<close> rewrites the settings of a fixed vocabulary to their
  canonical spelling and rejects what the server cannot honour. Durations are nanoseconds; the
  two floating-point settings are rational numbers (a NaN, which \<open>validate\<close> rejects, is not among
  them). Reading the TOML file and the command line is left to the libraries the program uses;
  \<open>procs\<close> is \<open>runtime.GOMAXPROCS(0)\<close>.
\<close>

record SchedulerConfig =
  Workers :: int
  BufferSize :: nat
  EnqueueTimeout :: int

record ServerConfig =
  Port :: int
  ReadTimeout :: int
  ReadHeaderTimeout :: int
  WriteTimeout :: int
  IdleTimeout :: int
  ShutdownGrace :: int
  MaxBodyBytes :: int

record LogConfig =
  Level :: runes
  Format :: runes
  DisableTimestamp :: bool

record EngineConfig =
  Halflife :: int
  CacheCapacity :: int

record HashingFunction =
  hf_Name :: runes
  hf_Seed :: "64 word"

record VectorSearch =
  ProjectionDimension :: int
  NumberTrees :: int
  vs_Seed :: "64 word"
  FlushFactor :: int
  LeafSize :: int
  Overfetch :: int

record DBConfig =
  Precision :: runes
  NumGraphs :: int
  DefaultTop :: int
  DefaultDepth :: int
  MaxTop :: int
  MaxDepth :: int
  MaxVectorDimension :: int
  SeedSize :: int
  MinScoreRatio :: rat
  WindowGamma :: rat
  HashingFn :: HashingFunction
  SearchAlgorithm :: runes
  ScoringAlgorithm :: runes
  RelevanceModel :: runes
  VectorSearchOf :: VectorSearch

record ConfigSet =
  Scheduler :: SchedulerConfig
  Server :: ServerConfig
  Log :: LogConfig
  Engine :: EngineConfig
  DB :: DBConfig
  Address :: runes

datatype config_error = InvalidSetting string

definition seconds :: "int \<Rightarrow> int" where
  "seconds n = n * 1000000000"

text \<open>\<open>New\<close>: the built-in defaults.\<close>

definition default_config :: "int \<Rightarrow> ConfigSet" where
  "default_config procs =
     \<lparr>Scheduler = \<lparr>Workers = max 2 procs, BufferSize = 200, EnqueueTimeout = seconds 2\<rparr>,
      Server = \<lparr>Port = 9876, ReadTimeout = seconds 15, ReadHeaderTimeout = seconds 5,
        WriteTimeout = seconds 15, IdleTimeout = seconds 60, ShutdownGrace = seconds 10,
        MaxBodyBytes = 1048576\<rparr>,
      Log = \<lparr>Level = str ''INFO'', Format = str ''text'', DisableTimestamp = False\<rparr>,
      Engine = \<lparr>Halflife = seconds (90 * 24 * 3600), CacheCapacity = 1000\<rparr>,
      DB = \<lparr>Precision = str ''float32'', NumGraphs = 8, DefaultTop = 10, DefaultDepth = 0,
        MaxTop = 1000, MaxDepth = 2, MaxVectorDimension = 4096, SeedSize = 10, MinScoreRatio = 0,
        WindowGamma = 3 / 10, HashingFn = \<lparr>hf_Name = str ''xxhash'', hf_Seed = 0\<rparr>,
        SearchAlgorithm = str ''excess'', ScoringAlgorithm = str ''information'',
        RelevanceModel = str ''bm25'',
        VectorSearchOf = \<lparr>ProjectionDimension = 128, NumberTrees = 16, vs_Seed = 4, FlushFactor = 2,
          LeafSize = 32, Overfetch = 32\<rparr>\<rparr>,
      Address = []\<rparr>"

definition Adjust :: "'a \<Rightarrow> 'a \<Rightarrow> 'a \<Rightarrow> 'a" where
  "Adjust zero v def = (if v = zero then def else v)"

definition address_of :: "(int \<Rightarrow> runes) \<Rightarrow> int \<Rightarrow> runes" where
  "address_of show_int port = str ''http://127.0.0.1:'' @ show_int port"

definition adjust :: "int \<Rightarrow> (int \<Rightarrow> runes) \<Rightarrow> ConfigSet \<Rightarrow> ConfigSet" where
  "adjust procs show_int c =
     (let d = default_config procs;
          sc = Scheduler c; sv = Server c; lg = Log c; en = Engine c; db = DB c;
          vs = VectorSearchOf db; port = Adjust 0 (Port sv) 9876
      in c\<lparr>
        Scheduler := sc\<lparr>Workers := Adjust 0 (Workers sc) (max 2 procs),
          BufferSize := Adjust 0 (BufferSize sc) 200,
          EnqueueTimeout := Adjust 0 (EnqueueTimeout sc) (seconds 2)\<rparr>,
        Server := sv\<lparr>Port := port, ReadTimeout := Adjust 0 (ReadTimeout sv) (seconds 15),
          ReadHeaderTimeout := Adjust 0 (ReadHeaderTimeout sv) (seconds 5),
          WriteTimeout := Adjust 0 (WriteTimeout sv) (seconds 15),
          IdleTimeout := Adjust 0 (IdleTimeout sv) (seconds 60),
          ShutdownGrace := Adjust 0 (ShutdownGrace sv) (seconds 10),
          MaxBodyBytes := Adjust 0 (MaxBodyBytes sv) 1048576\<rparr>,
        Log := lg\<lparr>Level := Adjust [] (Level lg) (str ''INFO''), Format := Adjust [] (Format lg) (str ''text'')\<rparr>,
        Address := Adjust [] (Address c) (address_of show_int port),
        Engine := en\<lparr>Halflife := Adjust 0 (Halflife en) (Halflife (Engine d)),
          CacheCapacity := Adjust 0 (CacheCapacity en) 1000\<rparr>,
        DB := db\<lparr>NumGraphs := Adjust 0 (NumGraphs db) 8, DefaultTop := Adjust 0 (DefaultTop db) 10,
          MaxTop := Adjust 0 (MaxTop db) 1000, MaxDepth := Adjust 0 (MaxDepth db) 2,
          MaxVectorDimension := Adjust 0 (MaxVectorDimension db) 4096,
          Precision := Adjust [] (Precision db) (str ''float32''),
          SeedSize := Adjust 0 (SeedSize db) 10,
          WindowGamma := Adjust 0 (WindowGamma db) (3 / 10),
          HashingFn := (HashingFn db)\<lparr>hf_Name := Adjust [] (hf_Name (HashingFn db)) (str ''xxhash'')\<rparr>,
          SearchAlgorithm := Adjust [] (SearchAlgorithm db) (str ''excess''),
          ScoringAlgorithm := Adjust [] (ScoringAlgorithm db) (str ''information''),
          RelevanceModel := Adjust [] (RelevanceModel db) (str ''bm25''),
          VectorSearchOf := vs\<lparr>ProjectionDimension := Adjust 0 (ProjectionDimension vs) 128,
            NumberTrees := Adjust 0 (NumberTrees vs) 16, vs_Seed := Adjust 0 (vs_Seed vs) 4,
            FlushFactor := Adjust 0 (FlushFactor vs) 2, LeafSize := Adjust 0 (LeafSize vs) 32,
            Overfetch := Adjust 0 (Overfetch vs) 32\<rparr>\<rparr>\<rparr>)"

section \<open>Validation\<close>

definition LogLevels :: "runes list" where
  "LogLevels = [str ''DEBUG'', str ''INFO'', str ''WARN'', str ''ERROR'']"

definition LogFormats :: "runes list" where
  "LogFormats = [str ''text'', str ''json'']"

definition Precisions :: "runes list" where
  "Precisions = [str ''float32'', str ''float64'']"

definition HashingFunctions :: "runes list" where
  "HashingFunctions = [str ''xxhash'', str ''t1ha'']"

definition SearchAlgorithms :: "runes list" where
  "SearchAlgorithms = [str ''none'', str ''bfs'', str ''excess'']"

definition ScoringAlgorithms :: "runes list" where
  "ScoringAlgorithms = [str ''information'', str ''excess'', str ''rrf'']"

definition RelevanceModels :: "runes list" where
  "RelevanceModels = [str ''bm25'', str ''matchcount'']"

text \<open>
  Unicode's simple folding of the characters that occur in a vocabulary: the two cases of a letter, the
  long s and the Kelvin sign.
\<close>

definition fold_rune :: "rune \<Rightarrow> rune" where
  "fold_rune c =
     (if 65 \<le> c \<and> c \<le> 90 then c + 32 else if c = 0x17F then 115 else if c = 0x212A then 107 else c)"

definition EqualFold :: "runes \<Rightarrow> runes \<Rightarrow> bool" where
  "EqualFold a b = (map fold_rune a = map fold_rune b)"

fun Canonical :: "runes \<Rightarrow> string \<Rightarrow> runes list \<Rightarrow> config_error + runes" where
  "Canonical v name [] = Inl (InvalidSetting name)"
| "Canonical v name (want # accepted) = (if EqualFold v want then Inr want else Canonical v name accepted)"

definition and_also :: "config_error + 'a \<Rightarrow> ('a \<Rightarrow> config_error + 'b) \<Rightarrow> config_error + 'b" where
  "and_also x f = (case x of Inl e \<Rightarrow> Inl e | Inr y \<Rightarrow> f y)"

definition validate :: "ConfigSet \<Rightarrow> config_error + ConfigSet" where
  "validate c =
     and_also (Canonical (Level (Log c)) ''log.level'' LogLevels) (\<lambda>level.
     and_also (Canonical (Format (Log c)) ''log.format'' LogFormats) (\<lambda>fmt.
     and_also (Canonical (Precision (DB c)) ''db.precision'' Precisions) (\<lambda>prec.
     and_also (Canonical (hf_Name (HashingFn (DB c))) ''db.hashing-function.name'' HashingFunctions) (\<lambda>hf.
     and_also (Canonical (SearchAlgorithm (DB c)) ''db.search-algorithm.name'' SearchAlgorithms) (\<lambda>sa.
     and_also (Canonical (ScoringAlgorithm (DB c)) ''db.scoring-algorithm.name'' ScoringAlgorithms) (\<lambda>so.
     and_also (Canonical (RelevanceModel (DB c)) ''db.relevance-model.name'' RelevanceModels) (\<lambda>rm.
     let c = c\<lparr>Log := (Log c)\<lparr>Level := level, Format := fmt\<rparr>,
               DB := (DB c)\<lparr>Precision := prec, HashingFn := (HashingFn (DB c))\<lparr>hf_Name := hf\<rparr>,
                 SearchAlgorithm := sa, ScoringAlgorithm := so, RelevanceModel := rm\<rparr>\<rparr>
     in if \<not> (0 \<le> MinScoreRatio (DB c) \<and> MinScoreRatio (DB c) \<le> 1) then Inl (InvalidSetting ''db.min-score-ratio'')
        else if \<not> WindowGamma (DB c) \<le> 1 then Inl (InvalidSetting ''db.window-gamma'')
        else if Workers (Scheduler c) < 1 then Inl (InvalidSetting ''scheduler.workers'')
        else if MaxDepth (DB c) < 0 \<or> MaxDepth (DB c) > 2 then Inl (InvalidSetting ''db.max-depth'')
        else if MaxTop (DB c) < 1 then Inl (InvalidSetting ''db.max-top'')
        else if NumGraphs (DB c) < 1 \<or> NumGraphs (DB c) > 256 then Inl (InvalidSetting ''db.num-graphs'')
        else Inr c)))))))"

section \<open>What startup guarantees\<close>

definition config_ok :: "ConfigSet \<Rightarrow> bool" where
  "config_ok c \<longleftrightarrow> Level (Log c) \<in> set LogLevels \<and> Format (Log c) \<in> set LogFormats \<and>
     Precision (DB c) \<in> set Precisions \<and> hf_Name (HashingFn (DB c)) \<in> set HashingFunctions \<and>
     SearchAlgorithm (DB c) \<in> set SearchAlgorithms \<and> ScoringAlgorithm (DB c) \<in> set ScoringAlgorithms \<and>
     RelevanceModel (DB c) \<in> set RelevanceModels \<and>
     0 \<le> MinScoreRatio (DB c) \<and> MinScoreRatio (DB c) \<le> 1 \<and> WindowGamma (DB c) \<le> 1 \<and>
     1 \<le> Workers (Scheduler c) \<and> 0 \<le> MaxDepth (DB c) \<and> MaxDepth (DB c) \<le> 2 \<and> 1 \<le> MaxTop (DB c) \<and>
     1 \<le> NumGraphs (DB c) \<and> NumGraphs (DB c) \<le> 256"

lemma Canonical_Inr: "Canonical v name ws = Inr w \<Longrightarrow> w \<in> set ws \<and> EqualFold v w"
  by (induction v name ws rule: Canonical.induct) (auto split: if_splits)

lemma Canonical_self:
  "distinct (map (map fold_rune) ws) \<Longrightarrow> w \<in> set ws \<Longrightarrow> Canonical w name ws = Inr w"
  by (induction w name ws rule: Canonical.induct) (auto simp: EqualFold_def, metis image_eqI)

lemma and_also_Inr: "and_also x f = Inr z \<longleftrightarrow> (\<exists>y. x = Inr y \<and> f y = Inr z)"
  by (cases x) (auto simp: and_also_def)

lemma validate_Inr: "validate c = Inr c' \<Longrightarrow> config_ok c'"
  by (auto simp: validate_def and_also_Inr Let_def config_ok_def split: if_splits dest!: Canonical_Inr)

lemma vocabularies_distinct:
  "distinct (map (map fold_rune) LogLevels)" "distinct (map (map fold_rune) LogFormats)"
  "distinct (map (map fold_rune) Precisions)" "distinct (map (map fold_rune) HashingFunctions)"
  "distinct (map (map fold_rune) SearchAlgorithms)" "distinct (map (map fold_rune) ScoringAlgorithms)"
  "distinct (map (map fold_rune) RelevanceModels)"
  by (simp_all add: LogLevels_def LogFormats_def Precisions_def HashingFunctions_def SearchAlgorithms_def
      ScoringAlgorithms_def RelevanceModels_def str_def fold_rune_def)

lemma validate_ok: "config_ok c \<Longrightarrow> validate c = Inr c"
  by (simp add: validate_def and_also_def Let_def config_ok_def Canonical_self vocabularies_distinct)

section \<open>Properties\<close>



text \<open>The ceiling on a recall's depth cannot be lowered to 0: \<open>adjust\<close> takes the 0 for an absent
  setting and puts 2 in its place, though \<open>validate\<close> accepts it as it stands.\<close>

theorem max_depth_zero_becomes_two:
  "let c = default_config procs; c0 = c\<lparr>DB := (DB c)\<lparr>MaxDepth := 0\<rparr>\<rparr>
   in validate c0 = Inr c0 \<and> MaxDepth (DB (adjust procs show_int c0)) = 2"
proof -
  let ?c = "default_config procs" let ?c0 = "?c\<lparr>DB := (DB ?c)\<lparr>MaxDepth := 0\<rparr>\<rparr>"
  have "config_ok ?c0"
    by (simp add: config_ok_def default_config_def LogLevels_def LogFormats_def Precisions_def HashingFunctions_def
        SearchAlgorithms_def ScoringAlgorithms_def RelevanceModels_def)
  then show ?thesis using validate_ok by (simp add: adjust_def Adjust_def Let_def)
qed

end
