(* ===== verification/Lexer_Scan.thy ===== *)
theory Lexer_Scan
  imports Lexer_Tokens
begin

text \<open>
  \<open>internal/query/lexer/lexer.go\<close>: the scanner, with the four fields of its state and the
  one-character reads of the code. \<open>rest l\<close> is the input still to read; the lemmas show what
  each scan takes from it. The properties: the tokens of a query spell it out exactly, each
  token's position is the number of characters read when it ends, and a phrase's text is
  recovered from its quoted form whatever characters it holds.
\<close>

record Lexer =
  Input :: runes
  Character :: rune
  CurrentPos :: nat
  NextPos :: nat

definition readCharacter :: "Lexer \<Rightarrow> Lexer" where
  "readCharacter l =
     l\<lparr>Character := (if CurrentPos l \<ge> length (Input l) then 0 else Input l ! CurrentPos l),
       CurrentPos := NextPos l, NextPos := NextPos l + 1\<rparr>"

definition New :: "runes \<Rightarrow> Lexer" where
  "New input =
     (let l = readCharacter \<lparr>Input = input, Character = 0, CurrentPos = 0, NextPos = 0\<rparr>
      in l\<lparr>CurrentPos := 0, NextPos := 1\<rparr>)"

definition peek :: "Lexer \<Rightarrow> rune" where
  "peek l = (if CurrentPos l \<ge> length (Input l) then 0 else Input l ! CurrentPos l)"

definition isBlank :: "rune \<Rightarrow> bool" where
  "isBlank ch = (ch = 32 \<or> ch = 9 \<or> ch = 13)"

definition isWordCharacter :: "unicode \<Rightarrow> rune \<Rightarrow> bool" where
  "isWordCharacter u ch = (IsLetter u ch \<or> IsDigit u ch)"

lemma fields_readCharacter [simp]:
  "Input (readCharacter l) = Input l" "CurrentPos (readCharacter l) = NextPos l"
  "NextPos (readCharacter l) = Suc (NextPos l)"
  by (simp_all add: readCharacter_def)

text \<open>Every loop of the scanner reads a character that is there: the measure of its termination.\<close>

definition unread :: "Lexer \<Rightarrow> nat" where
  "unread l = (length (Input l) - NextPos l) + (if CurrentPos l < length (Input l) then 1 else 0)"

lemma unread_readCharacter:
  "CurrentPos l < length (Input l) \<Longrightarrow> unread (readCharacter l) < unread l"
  by (auto simp: unread_def)

lemma peek_nonzero: "peek l \<noteq> 0 \<Longrightarrow> CurrentPos l < length (Input l)"
  by (auto simp: peek_def split: if_splits)

lemma blank_unread: "isBlank (peek l) \<Longrightarrow> unread (readCharacter l) < unread l"
  by (rule unread_readCharacter, rule peek_nonzero) (auto simp: isBlank_def)

lemma word_unread: "isWordCharacter u (peek l) \<Longrightarrow> unread (readCharacter l) < unread l"
  by (rule unread_readCharacter, rule peek_nonzero)
    (auto simp: isWordCharacter_def IsLetter_def IsDigit_def split: if_splits)

function SkipBlank :: "Lexer \<Rightarrow> Lexer" where
  "SkipBlank l = (if isBlank (peek l) then SkipBlank (readCharacter l) else l)"
  by pat_completeness auto
termination
  by (relation "measure unread") (simp_all add: blank_unread)

function scanWhitespace :: "runes \<Rightarrow> Lexer \<Rightarrow> runes \<times> Lexer" where
  "scanWhitespace res l =
     (if isBlank (peek l) then scanWhitespace (res @ [peek l]) (readCharacter l) else (res, l))"
  by pat_completeness auto
termination
  by (relation "measure (\<lambda>(res, l). unread l)") (simp_all add: blank_unread)

function scanString :: "unicode \<Rightarrow> runes \<Rightarrow> Lexer \<Rightarrow> runes \<times> Lexer" where
  "scanString u res l =
     (if isWordCharacter u (peek l) then scanString u (res @ [peek l]) (readCharacter l) else (res, l))"
  by pat_completeness auto
termination
  by (relation "measure (\<lambda>(u, res, l). unread l)") (simp_all add: word_unread)

text \<open>The loop of \<open>scanPhrase\<close>, after the opening quote.\<close>

function phrase_loop :: "runes \<Rightarrow> Lexer \<Rightarrow> (TokenType \<times> runes) \<times> Lexer" where
  "phrase_loop res l =
     (if CurrentPos l \<ge> length (Input l) then ((ILLEGAL, res), l)
      else if peek l = 39 then
        (let l1 = readCharacter l
         in if peek l1 = 39 then phrase_loop (res @ [39]) (readCharacter l1)
            else ((PHRASE, res), l1))
      else phrase_loop (res @ [peek l]) (readCharacter l))"
  by pat_completeness auto
termination
proof (relation "measure (\<lambda>(res, l). unread l)")
  fix res l l1
  assume c: "\<not> length (Input l) \<le> CurrentPos l" and l1: "l1 = readCharacter l" "peek l1 = 39"
  then have "CurrentPos l1 < length (Input l1)" using peek_nonzero [of l1] by linarith
  then have "unread (readCharacter l1) < unread l1" by (rule unread_readCharacter)
  moreover have "unread l1 < unread l" using c l1 by (simp add: unread_readCharacter)
  ultimately show "((res @ [39], readCharacter l1), res, l) \<in> measure (\<lambda>(res, l). unread l)" by simp
qed (auto intro: unread_readCharacter)

declare SkipBlank.simps [simp del, loop_defs] scanWhitespace.simps [simp del, loop_defs]
  scanString.simps [simp del, loop_defs] phrase_loop.simps [simp del, loop_defs]

definition scanPhrase :: "Lexer \<Rightarrow> (TokenType \<times> runes) \<times> Lexer" where
  "scanPhrase l = phrase_loop [] (readCharacter l)"

definition read_one :: "TokenType \<Rightarrow> Lexer \<Rightarrow> (TokenType \<times> runes) \<times> Lexer" where
  "read_one t l = (let l1 = readCharacter l in ((t, [Character l1]), l1))"

definition word_type :: "unicode \<Rightarrow> runes \<Rightarrow> Lexer \<Rightarrow> TokenType" where
  "word_type u w l =
     (case keyword w of
        Some t \<Rightarrow> t
      | None \<Rightarrow>
          if peek l = 58 then (case keyword (ToLower u w) of Some t \<Rightarrow> t | None \<Rightarrow> LITERAL)
          else LITERAL)"

definition scan :: "unicode \<Rightarrow> Lexer \<Rightarrow> (TokenType \<times> runes) \<times> Lexer" where
  "scan u l =
     (let ch = peek l
      in if ch = 58 then read_one COLON l
         else if ch = 39 then scanPhrase l
         else if ch = 40 then read_one LPAREN l
         else if ch = 41 then read_one RPAREN l
         else if ch = 36 then read_one DOLLAR l
         else if ch = 43 then read_one PLUS l
         else if ch = 45 then read_one MINUS l
         else if ch = 126 then read_one TILDE l
         else if ch = 64 then read_one AT l
         else if ch = 10 then read_one NEWLINE l
         else if ch = 32 \<or> ch = 9 \<or> ch = 13 then
           (let (w, l1) = scanWhitespace [] l in ((WHITESPACE, w), l1))
         else if ch = 0 then
           (if CurrentPos l < length (Input l) then read_one NUL l else ((EOL, []), l))
         else if \<not> isWordCharacter u ch then read_one SPECIAL l
         else (let (w, l1) = scanString u [] l in ((word_type u w l1, w), l1)))"

definition Next :: "unicode \<Rightarrow> Lexer \<Rightarrow> Token \<times> Lexer" where
  "Next u l =
     (let ((t, lit), l1) = scan u l
      in (\<lparr>Type = t, Literal = lit, Pos = CurrentPos l1\<rparr>, l1))"

section \<open>What the scans take from the input\<close>

text \<open>The two positions run in step; \<open>rest l\<close> is the input from the current one.\<close>

definition lexer_ok :: "Lexer \<Rightarrow> bool" where
  "lexer_ok l \<longleftrightarrow> NextPos l = Suc (CurrentPos l) \<and> CurrentPos l \<le> length (Input l)"

definition rest :: "Lexer \<Rightarrow> runes" where
  "rest l = drop (CurrentPos l) (Input l)"

text \<open>\<open>l'\<close> is \<open>l\<close> after reading \<open>w\<close>.\<close>

definition reads :: "runes \<Rightarrow> Lexer \<Rightarrow> Lexer \<Rightarrow> bool" where
  "reads w l l' \<longleftrightarrow> lexer_ok l' \<and> Input l' = Input l \<and> rest l = w @ rest l' \<and>
     CurrentPos l' = CurrentPos l + length w"

lemma New_ok: "lexer_ok (New s)" "rest (New s) = s" "Input (New s) = s" "CurrentPos (New s) = 0"
  by (simp_all add: New_def lexer_ok_def rest_def Let_def readCharacter_def)

lemma reads_refl: "lexer_ok l \<Longrightarrow> reads [] l l"
  by (simp add: reads_def)

lemma reads_trans: "reads v l l1 \<Longrightarrow> reads w l1 l2 \<Longrightarrow> reads (v @ w) l l2"
  by (simp add: reads_def)

lemma peek_rest: "peek l = (case rest l of [] \<Rightarrow> 0 | ch # _ \<Rightarrow> ch)"
  by (auto simp: peek_def rest_def Cons_nth_drop_Suc [symmetric] split: list.split)

lemma at_end: "CurrentPos l \<ge> length (Input l) \<longleftrightarrow> rest l = []"
  by (simp add: rest_def)

lemma reads_one:
  assumes "lexer_ok l" "rest l = ch # s"
  shows "reads [ch] l (readCharacter l)" "Character (readCharacter l) = ch" "rest (readCharacter l) = s"
proof -
  have lt: "CurrentPos l < length (Input l)" using assms(2) by (simp add: rest_def) (metis list.distinct(1) drop_eq_Nil leI)
  then have "Input l ! CurrentPos l # drop (Suc (CurrentPos l)) (Input l) = ch # s"
    using assms(2) by (simp add: rest_def Cons_nth_drop_Suc)
  then show "reads [ch] l (readCharacter l)" "Character (readCharacter l) = ch" "rest (readCharacter l) = s"
    using assms lt by (auto simp: reads_def lexer_ok_def rest_def readCharacter_def)
qed

lemma scanString_reads:
  "lexer_ok l \<Longrightarrow> \<exists>l1. scanString u res l = (res @ takeWhile (isWordCharacter u) (rest l), l1) \<and>
     reads (takeWhile (isWordCharacter u) (rest l)) l l1"
proof (induction u res l rule: scanString.induct)
  case (1 u res l)
  show ?case
  proof (cases "isWordCharacter u (peek l)")
    case True
    then have "rest l \<noteq> []" using word_unread [OF True] by (auto simp: unread_def rest_def split: if_splits)
    then obtain ch s where r: "rest l = ch # s" by (cases "rest l") auto
    note one = reads_one [OF "1.prems" r]
    have ch: "peek l = ch" using r by (simp add: peek_rest)
    from "1.IH" [OF True] one obtain l1 where
      "scanString u (res @ [ch]) (readCharacter l) = ((res @ [ch]) @ takeWhile (isWordCharacter u) s, l1)"
      "reads (takeWhile (isWordCharacter u) s) (readCharacter l) l1"
      by (auto simp: ch reads_def)
    then show ?thesis using True ch r reads_trans [OF one(1)]
      by (subst scanString.simps) auto
  next
    case False
    then have "takeWhile (isWordCharacter u) (rest l) = []"
      by (auto simp: peek_rest split: list.splits)
    then show ?thesis using False "1.prems" by (subst scanString.simps) (auto simp: reads_refl)
  qed
qed

lemma scanWhitespace_reads:
  "lexer_ok l \<Longrightarrow> \<exists>l1. scanWhitespace res l = (res @ takeWhile isBlank (rest l), l1) \<and>
     reads (takeWhile isBlank (rest l)) l l1"
proof (induction res l rule: scanWhitespace.induct)
  case (1 res l)
  show ?case
  proof (cases "isBlank (peek l)")
    case True
    then have "rest l \<noteq> []" using blank_unread [OF True] by (auto simp: unread_def rest_def split: if_splits)
    then obtain ch s where r: "rest l = ch # s" by (cases "rest l") auto
    note one = reads_one [OF "1.prems" r]
    have ch: "peek l = ch" using r by (simp add: peek_rest)
    from "1.IH" [OF True] one obtain l1 where
      "scanWhitespace (res @ [ch]) (readCharacter l) = ((res @ [ch]) @ takeWhile isBlank s, l1)"
      "reads (takeWhile isBlank s) (readCharacter l) l1"
      by (auto simp: ch reads_def)
    then show ?thesis using True ch r reads_trans [OF one(1)]
      by (subst scanWhitespace.simps) auto
  next
    case False
    then have "takeWhile isBlank (rest l) = []"
      by (auto simp: peek_rest split: list.splits)
    then show ?thesis using False "1.prems" by (subst scanWhitespace.simps) (auto simp: reads_refl)
  qed
qed

lemma SkipBlank_scan: "SkipBlank l = snd (scanWhitespace res l)"
proof (induction res l rule: scanWhitespace.induct)
  case (1 res l)
  then show ?case by (subst SkipBlank.simps, subst scanWhitespace.simps) simp
qed

lemma SkipBlank_reads:
  "lexer_ok l \<Longrightarrow> reads (takeWhile isBlank (rest l)) l (SkipBlank l) \<and>
     rest (SkipBlank l) = dropWhile isBlank (rest l)"
proof -
  assume "lexer_ok l"
  then have "reads (takeWhile isBlank (rest l)) l (SkipBlank l)"
    using scanWhitespace_reads [of l "[]"] SkipBlank_scan [of l "[]"] by auto
  moreover from this have "takeWhile isBlank (rest l) @ rest (SkipBlank l) = rest l"
    by (simp add: reads_def)
  then have "rest (SkipBlank l) = dropWhile isBlank (rest l)"
    by (metis same_append_eq takeWhile_dropWhile_id)
  ultimately show ?thesis by blast
qed

text \<open>The quoted form of a text: each quote in it doubled.\<close>

definition escape :: "runes \<Rightarrow> runes" where
  "escape w = concat (map (\<lambda>c. if c = 39 then [39, 39] else [c]) w)"

lemma escape_simps [simp]:
  "escape [] = []" "escape (c # w) = (if c = 39 then 39 # 39 # escape w else c # escape w)"
  by (simp_all add: escape_def)

lemma phrase_loop_reads:
  assumes "lexer_ok l"
  shows "\<exists>t w l1. phrase_loop res l = ((t, res @ w), l1) \<and>
     (t = PHRASE \<and> reads (escape w @ [39]) l l1 \<or> t = ILLEGAL \<and> reads (escape w) l l1 \<and> rest l1 = [])"
  using assms
proof (induction res l rule: phrase_loop.induct)
  case (1 res l)
  let ?l1 = "readCharacter l"
  show ?case
  proof (cases "rest l")
    case Nil
    then show ?thesis using "1.prems"
      by (intro exI [of _ ILLEGAL] exI [of _ "[]"] exI [of _ l], subst phrase_loop.simps)
        (simp add: at_end reads_refl)
  next
    case (Cons ch s)
    note one = reads_one [OF "1.prems" Cons]
    have ch: "peek l = ch" using Cons by (simp add: peek_rest)
    have ne: "\<not> CurrentPos l \<ge> length (Input l)" using Cons by (simp add: at_end)
    have ok1: "lexer_ok ?l1" using one(1) by (simp add: reads_def)
    consider "ch \<noteq> 39" | "ch = 39" "peek ?l1 \<noteq> 39" | "ch = 39" "peek ?l1 = 39" by blast
    then show ?thesis
    proof cases
      case 1
      from "1.IH"(2) [OF ne _ ok1] 1 ch obtain t w l2 where w: "phrase_loop (res @ [ch]) ?l1 = ((t, res @ ch # w), l2)"
        "t = PHRASE \<and> reads (escape w @ [39]) ?l1 l2 \<or> t = ILLEGAL \<and> reads (escape w) ?l1 l2 \<and> rest l2 = []"
        by auto
      have "phrase_loop res l = ((t, res @ ch # w), l2)"
        using 1 ne ch w(1) by (subst phrase_loop.simps) simp
      then show ?thesis using w(2) 1 reads_trans [OF one(1)] by fastforce
    next
      case 2
      have "phrase_loop res l = ((PHRASE, res @ []), ?l1)"
        using 2 ne ch by (subst phrase_loop.simps) (simp add: Let_def)
      then show ?thesis using one(1) 2 by fastforce
    next
      case 3
      then obtain s' where r: "rest ?l1 = 39 # s'" by (auto simp: peek_rest split: list.splits)
      note two = reads_one [OF ok1 r]
      have ok2: "lexer_ok (readCharacter ?l1)" using two(1) by (simp add: reads_def)
      from "1.IH"(1) [OF ne _ refl 3(2) ok2] 3 ch obtain t w l2 where
        w: "phrase_loop (res @ [39]) (readCharacter ?l1) = ((t, res @ 39 # w), l2)"
        "t = PHRASE \<and> reads (escape w @ [39]) (readCharacter ?l1) l2 \<or>
         t = ILLEGAL \<and> reads (escape w) (readCharacter ?l1) l2 \<and> rest l2 = []"
        by auto
      have "phrase_loop res l = ((t, res @ 39 # w), l2)"
        using 3 ne ch w(1) by (subst phrase_loop.simps) (simp add: Let_def)
      moreover have "reads [39, 39] l (readCharacter ?l1)"
        using reads_trans [OF one(1) two(1)] 3(1) by simp
      ultimately show ?thesis using w(2) reads_trans [of "[39, 39]"] by fastforce
    qed
  qed
qed

text \<open>A quoted text followed by anything but a quote is scanned back whole.\<close>

lemma phrase_loop_quoted:
  "lexer_ok l \<Longrightarrow> rest l = escape w @ 39 # s \<Longrightarrow> (\<forall>c s'. s = c # s' \<longrightarrow> c \<noteq> 39) \<Longrightarrow>
   \<exists>l1. phrase_loop res l = ((PHRASE, res @ w), l1) \<and> reads (escape w @ [39]) l l1 \<and> rest l1 = s"
proof (induction w arbitrary: res l)
  case Nil
  note one = reads_one [OF Nil(1) Nil(2) [simplified]]
  have "peek (readCharacter l) \<noteq> 39" "peek l = 39" "\<not> CurrentPos l \<ge> length (Input l)"
    using Nil one(3) by (auto simp: peek_rest at_end split: list.split)
  then have "phrase_loop res l = ((PHRASE, res @ []), readCharacter l)"
    by (subst phrase_loop.simps) (simp add: Let_def)
  then show ?case using one by auto
next
  case (Cons c w)
  show ?case
  proof (cases "c = 39")
    case True
    have r: "rest l = 39 # 39 # escape w @ 39 # s" using Cons.prems True by simp
    note one = reads_one [OF Cons.prems(1) r]
    have ok1: "lexer_ok (readCharacter l)" using one(1) by (simp add: reads_def)
    note two = reads_one [OF ok1 one(3)]
    have ok2: "lexer_ok (readCharacter (readCharacter l))" using two(1) by (simp add: reads_def)
    from Cons.IH [OF ok2 two(3) Cons.prems(3), of "res @ [39]"] obtain l1 where
      l1: "phrase_loop (res @ [39]) (readCharacter (readCharacter l)) = ((PHRASE, res @ 39 # w), l1)"
      "reads (escape w @ [39]) (readCharacter (readCharacter l)) l1" "rest l1 = s" by auto
    have "peek l = 39" "peek (readCharacter l) = 39" "\<not> CurrentPos l \<ge> length (Input l)"
      using r one(3) by (auto simp: peek_rest at_end)
    then have "phrase_loop res l = ((PHRASE, res @ 39 # w), l1)"
      using l1(1) by (subst phrase_loop.simps) (simp add: Let_def)
    then show ?thesis using l1 True reads_trans [OF reads_trans [OF one(1) two(1)] l1(2)] by auto
  next
    case False
    have r: "rest l = c # escape w @ 39 # s" using Cons.prems False by simp
    note one = reads_one [OF Cons.prems(1) r]
    have ok1: "lexer_ok (readCharacter l)" using one(1) by (simp add: reads_def)
    from Cons.IH [OF ok1 one(3) Cons.prems(3), of "res @ [c]"] obtain l1 where
      l1: "phrase_loop (res @ [c]) (readCharacter l) = ((PHRASE, res @ c # w), l1)"
      "reads (escape w @ [39]) (readCharacter l) l1" "rest l1 = s" by auto
    have "peek l = c" "\<not> CurrentPos l \<ge> length (Input l)"
      using r by (auto simp: peek_rest at_end)
    then have "phrase_loop res l = ((PHRASE, res @ c # w), l1)"
      using l1(1) False by (subst phrase_loop.simps) simp
    then show ?thesis using l1 False reads_trans [OF one(1) l1(2)] by auto
  qed
qed

section \<open>One token\<close>

definition spelling :: "Token \<Rightarrow> runes" where
  "spelling t =
     (case Type t of PHRASE \<Rightarrow> 39 # escape (Literal t) @ [39] | ILLEGAL \<Rightarrow> 39 # escape (Literal t)
      | _ \<Rightarrow> Literal t)"

definition token_at :: "Lexer \<Rightarrow> Token \<Rightarrow> Lexer \<Rightarrow> bool" where
  "token_at l t l1 \<longleftrightarrow> reads (spelling t) l l1 \<and> Pos t = CurrentPos l1 \<and>
     (Type t = EOL \<longleftrightarrow> rest l = []) \<and> (spelling t = [] \<longleftrightarrow> rest l = [])"

lemma spelling_plain:
  "t \<noteq> PHRASE \<Longrightarrow> t \<noteq> ILLEGAL \<Longrightarrow> spelling \<lparr>Type = t, Literal = w, Pos = n\<rparr> = w"
  by (cases t) (auto simp: spelling_def)

lemma token_at_read_one:
  assumes "lexer_ok l" "rest l = ch # s" "t \<noteq> PHRASE" "t \<noteq> ILLEGAL" "t \<noteq> EOL"
    "scan u l = read_one t l"
  shows "token_at l (fst (Next u l)) (snd (Next u l))"
  using assms reads_one [OF assms(1,2)]
  by (simp add: Next_def read_one_def Let_def token_at_def spelling_plain)

lemma token_at_phrase:
  assumes ok: "lexer_ok l" and r: "rest l = 39 # s"
  shows "token_at l (fst (Next u l)) (snd (Next u l))"
proof -
  note one = reads_one [OF ok r]
  have ok1: "lexer_ok (readCharacter l)" using one(1) by (simp add: reads_def)
  from phrase_loop_reads [OF ok1, of "[]"] obtain t w l1 where w: "phrase_loop [] (readCharacter l) = ((t, w), l1)"
    "t = PHRASE \<and> reads (escape w @ [39]) (readCharacter l) l1 \<or>
     t = ILLEGAL \<and> reads (escape w) (readCharacter l) l1 \<and> rest l1 = []" by auto
  have "scan u l = ((t, w), l1)"
    using w(1) r by (simp add: scan_def Let_def peek_rest scanPhrase_def)
  then show ?thesis
    using w(2) r reads_trans [OF one(1)]
    by (auto simp: Next_def token_at_def spelling_def)
qed

lemma word_type_keyword: "word_type u w l = LITERAL \<or> IsKeyword (word_type u w l)"
  using keyword_IsKeyword by (auto simp: word_type_def split: option.split)

lemma keyword_not_special: "IsKeyword t \<Longrightarrow> t \<noteq> PHRASE \<and> t \<noteq> ILLEGAL \<and> t \<noteq> EOL"
  by auto

lemma scan_single:
  assumes "peek l = ch" "CurrentPos l < length (Input l)" "ch \<noteq> 39" "\<not> isBlank ch" "\<not> isWordCharacter u ch"
  shows "\<exists>t. scan u l = read_one t l \<and> t \<noteq> PHRASE \<and> t \<noteq> ILLEGAL \<and> t \<noteq> EOL"
  using assms by (simp add: scan_def isBlank_def Let_def) (metis TokenType.distinct)

lemma Next_token_at:
  assumes ok: "lexer_ok l"
  shows "token_at l (fst (Next u l)) (snd (Next u l))"
proof (cases "rest l")
  case Nil
  then have "peek l = 0" "\<not> CurrentPos l < length (Input l)"
    using at_end [of l] by (auto simp: peek_rest)
  then have "scan u l = ((EOL, []), l)" by (simp add: scan_def)
  then show ?thesis using Nil ok by (simp add: Next_def token_at_def spelling_def reads_refl)
next
  case (Cons ch s)
  have p: "peek l = ch" using Cons by (simp add: peek_rest)
  have lt: "CurrentPos l < length (Input l)" using Cons at_end [of l] by simp
  note single = token_at_read_one [OF ok Cons]
  consider "ch = 39" | "isBlank ch" | "isWordCharacter u ch" "ch \<noteq> 39" "\<not> isBlank ch" |
    (one) t where "scan u l = read_one t l" "t \<noteq> PHRASE" "t \<noteq> ILLEGAL" "t \<noteq> EOL"
    using scan_single [OF p lt] by blast
  then show ?thesis
  proof cases
    case 1
    then show ?thesis using token_at_phrase [OF ok, of s] Cons by simp
  next
    case 2
    from scanWhitespace_reads [OF ok, of "[]"] obtain l1 where
      l1: "scanWhitespace [] l = (takeWhile isBlank (rest l), l1)" "reads (takeWhile isBlank (rest l)) l l1" by auto
    have "scan u l = ((WHITESPACE, takeWhile isBlank (rest l)), l1)"
      using 2 l1(1) by (auto simp: scan_def p isBlank_def Let_def)
    then show ?thesis
      using l1(2) 2 Cons by (simp add: Next_def token_at_def spelling_plain)
  next
    case 3
    from scanString_reads [OF ok, of u "[]"] obtain l1 where
      l1: "scanString u [] l = (takeWhile (isWordCharacter u) (rest l), l1)"
      "reads (takeWhile (isWordCharacter u) (rest l)) l l1" by auto
    let ?w = "takeWhile (isWordCharacter u) (rest l)"
    have "ch \<notin> {58, 40, 41, 36, 43, 45, 126, 64, 10, 0}"
      using 3(1) by (auto simp: isWordCharacter_def IsLetter_def IsDigit_def split: if_splits)
    then have "scan u l = ((word_type u ?w l1, ?w), l1)"
      using 3 l1(1) by (simp add: scan_def p isBlank_def Let_def)
    moreover have "word_type u ?w l1 \<noteq> PHRASE" "word_type u ?w l1 \<noteq> ILLEGAL" "word_type u ?w l1 \<noteq> EOL"
      using word_type_keyword [of u ?w l1] keyword_not_special by force+
    ultimately show ?thesis
      using l1(2) 3 Cons by (simp add: Next_def token_at_def spelling_plain)
  next
    case one
    then show ?thesis using single by blast
  qed
qed

section \<open>All the tokens of a query\<close>

text \<open>The tokens up to the end of input, at most \<open>n\<close> of them.\<close>

fun lex_tokens :: "unicode \<Rightarrow> nat \<Rightarrow> Lexer \<Rightarrow> Token list" where
  "lex_tokens u 0 l = []"
| "lex_tokens u (Suc n) l =
     (let (t, l1) = Next u l in if Type t = EOL then [t] else t # lex_tokens u n l1)"

lemma lex_tokens_spell:
  "lexer_ok l \<Longrightarrow> length (rest l) < n \<Longrightarrow>
   let ts = lex_tokens u n l
   in ts \<noteq> [] \<and> concat (map spelling ts) = rest l \<and> Type (last ts) = EOL \<and>
      (\<forall>i < length ts. Pos (ts ! i) = CurrentPos l + length (concat (map spelling (take (Suc i) ts))))"
proof (induction n arbitrary: l)
  case (Suc n)
  obtain t l1 where n: "Next u l = (t, l1)" by fastforce
  have t: "reads (spelling t) l l1" "Pos t = CurrentPos l1" "Type t = EOL \<longleftrightarrow> rest l = []"
    "spelling t = [] \<longleftrightarrow> rest l = []"
    using Next_token_at [OF Suc.prems(1), of u] by (simp_all add: n token_at_def)
  have r: "rest l = spelling t @ rest l1" "lexer_ok l1" "CurrentPos l1 = CurrentPos l + length (spelling t)"
    using t(1) by (simp_all add: reads_def)
  show ?case
  proof (cases "Type t = EOL")
    case True
    then have "lex_tokens u (Suc n) l = [t]" "rest l = []" "spelling t = []" "Pos t = CurrentPos l"
      using t(2,3,4) r(3) by (simp_all add: n)
    then show ?thesis using True by (simp add: Let_def del: lex_tokens.simps)
  next
    case False
    then have "0 < length (spelling t)" using t(3,4) by simp
    then have "length (rest l1) < n" using arg_cong [OF r(1), of length] Suc.prems(2) by (simp del: length_greater_0_conv)
    note ih = Suc.IH [OF r(2) this, unfolded Let_def]
    have IH: "lex_tokens u n l1 \<noteq> []"
      "concat (map spelling (lex_tokens u n l1)) = rest l1" "Type (last (lex_tokens u n l1)) = EOL"
      "\<And>i. i < length (lex_tokens u n l1) \<Longrightarrow> Pos (lex_tokens u n l1 ! i) =
        CurrentPos l1 + length (concat (map spelling (take (Suc i) (lex_tokens u n l1))))"
      using ih by blast+
    have "lex_tokens u (Suc n) l = t # lex_tokens u n l1" using False by (simp add: n)
    moreover have "Pos ((t # lex_tokens u n l1) ! i) =
        CurrentPos l + length (concat (map spelling (take (Suc i) (t # lex_tokens u n l1))))"
      if "i < length (t # lex_tokens u n l1)" for i
      using that t(2) r(3) IH(4) by (cases i) auto
    ultimately show ?thesis using IH r(1) by (simp add: Let_def del: lex_tokens.simps)
  qed
qed simp

section \<open>Properties\<close>

text \<open>C4: The lexer loses nothing: the tokens of a query, up to the end of input, spell out the query
  exactly, so a NUL or a stray character never drops what follows it, and each token's position
  is the column of its last character.\<close>

theorem lexer_is_lossless:
  "let ts = lex_tokens u (Suc (length s)) (New s)
   in concat (map spelling ts) = s \<and> Type (last ts) = EOL \<and>
      map Pos ts = map (\<lambda>i. length (concat (map spelling (take (Suc i) ts)))) [0..<length ts]"
proof -
  have "lexer_ok (New s)" "length (rest (New s)) < Suc (length s)" by (simp_all add: New_ok)
  from lex_tokens_spell [OF this, of u] show ?thesis
    by (auto simp: Let_def New_ok intro!: nth_equalityI)
qed

text \<open>C5: A text of any characters, quoted with each of its quotes doubled, is read back as one phrase
  holding exactly that text, when no quote follows it.\<close>

theorem quoted_phrase_roundtrip:
  assumes "\<forall>c s'. s = c # s' \<longrightarrow> c \<noteq> 39"
  shows "let (t, l) = Next u (New (39 # escape w @ 39 # s))
    in Type t = PHRASE \<and> Literal t = w \<and> Pos t = length (escape w) + 2 \<and> rest l = s"
proof -
  let ?l = "New (39 # escape w @ 39 # s)"
  note one = reads_one [of ?l 39 "escape w @ 39 # s", simplified New_ok, OF TrueI refl]
  have ok: "lexer_ok (readCharacter ?l)" using one(1) by (simp add: reads_def)
  from phrase_loop_quoted [OF ok one(3) assms, of "[]"] obtain l1 where
    l1: "phrase_loop [] (readCharacter ?l) = ((PHRASE, w), l1)" "rest l1 = s"
    "reads (escape w @ [39]) (readCharacter ?l) l1" by auto
  have "CurrentPos l1 = length (escape w) + 2"
    using one(1) l1(3) by (simp add: reads_def New_ok)
  then show ?thesis
    using l1(1,2) by (simp add: Next_def scan_def Let_def peek_rest New_ok scanPhrase_def)
qed

theorem quoted_phrase_roundtrip_witness:
  "let (t, l) = Next ascii (New (str [CHR 0x27, CHR ''d'', CHR 0x27, CHR 0x27, CHR ''a'', CHR 0x27, CHR ''+'']))
   in Type t = PHRASE \<and> Literal t = str [CHR ''d'', CHR 0x27, CHR ''a''] \<and> rest l = str ''+''"
  using quoted_phrase_roundtrip [of "str ''+''" ascii "str [CHR ''d'', CHR 0x27, CHR ''a'']"]
  by (simp add: str_def split_beta)

end
