(* ===== verification/Go_Strings.thy ===== *)
theory Go_Strings
  imports Lexer_Tokens
begin

text \<open>
  What the program uses of Go's \<open>strconv\<close>, \<open>strings\<close> and \<open>unicode\<close> packages on texts: decimal
  integers with their two errors, trimming, splitting into fields. Integers have 64 bits.
\<close>

datatype numError = ErrSyntax | ErrRange

definition maxInt64 :: int where
  "maxInt64 = 9223372036854775807"

definition maxUint64 :: nat where
  "maxUint64 = 18446744073709551615"

text \<open>\<open>strconv.ParseUint\<close>, base 10: the first bad digit or the first overflow decides the error.\<close>

fun parse_digits :: "runes \<Rightarrow> nat \<Rightarrow> numError + nat" where
  "parse_digits [] n = Inr n"
| "parse_digits (c # s) n =
     (if c < 48 \<or> 57 < c then Inl ErrSyntax
      else if 10 * n + (c - 48) > maxUint64 then Inl ErrRange
      else parse_digits s (10 * n + (c - 48)))"

definition ParseUint :: "runes \<Rightarrow> numError + nat" where
  "ParseUint s = (if s = [] then Inl ErrSyntax else parse_digits s 0)"

definition ParseInt :: "runes \<Rightarrow> numError + int" where
  "ParseInt s =
     (let (neg, ds) = (case s of c # r \<Rightarrow> if c = 43 then (False, r) else if c = 45 then (True, r) else (False, s)
                        | [] \<Rightarrow> (False, s))
      in case ParseUint ds of
           Inl e \<Rightarrow> Inl e
         | Inr un \<Rightarrow>
             if \<not> neg \<and> int un > maxInt64 then Inl ErrRange
             else if neg \<and> int un > maxInt64 + 1 then Inl ErrRange
             else Inr (if neg then - int un else int un))"

text \<open>On a 64-bit platform \<open>strconv.Atoi\<close> gives what \<open>ParseInt\<close> gives.\<close>

definition Atoi :: "runes \<Rightarrow> numError + int" where
  "Atoi s = ParseInt s"

text \<open>The decimal digits of a number, as \<open>%d\<close> prints them.\<close>

fun decimal :: "nat \<Rightarrow> runes" where
  "decimal n = (if n < 10 then [48 + n] else decimal (n div 10) @ [48 + n mod 10])"

definition print_int :: "int \<Rightarrow> runes" where
  "print_int i = (if i < 0 then 45 # decimal (nat (- i)) else decimal (nat i))"

declare decimal.simps [simp del, loop_defs]

definition IsSpace :: "rune \<Rightarrow> bool" where
  "IsSpace c = (c \<in> {9, 10, 11, 12, 13, 32, 0x85, 0xA0, 0x1680, 0x2028, 0x2029, 0x202F, 0x205F, 0x3000} \<or>
     0x2000 \<le> c \<and> c \<le> 0x200A)"

definition TrimSpace :: "runes \<Rightarrow> runes" where
  "TrimSpace s = rev (dropWhile IsSpace (rev (dropWhile IsSpace s)))"

text \<open>\<open>strings.FieldsFunc\<close>: the maximal runs of characters that are no separators.\<close>

fun FieldsFunc :: "(rune \<Rightarrow> bool) \<Rightarrow> runes \<Rightarrow> runes list" where
  "FieldsFunc sep [] = []"
| "FieldsFunc sep (c # s) =
     (if sep c then FieldsFunc sep s
      else (case s of
              [] \<Rightarrow> [[c]]
            | d # _ \<Rightarrow> if sep d then [c] # FieldsFunc sep s
                      else (case FieldsFunc sep s of w # ws \<Rightarrow> (c # w) # ws | [] \<Rightarrow> [[c]])))"

fun Join :: "runes list \<Rightarrow> runes \<Rightarrow> runes" where
  "Join [] sep = []"
| "Join [w] sep = w"
| "Join (w # v # ws) sep = w @ sep @ Join (v # ws) sep"

section \<open>Facts\<close>

lemma TrimSpace_empty: "TrimSpace s = [] \<longleftrightarrow> (\<forall>c \<in> set s. IsSpace c)"
  by (auto simp: TrimSpace_def dropWhile_eq_Nil_conv dest: set_dropWhileD)
    (metis UnE set_append set_takeWhileD takeWhile_dropWhile_id)

lemma parse_digits_append:
  "parse_digits (s @ [c]) n =
     (case parse_digits s n of Inl e \<Rightarrow> Inl e | Inr m \<Rightarrow> parse_digits [c] m)"
  by (induction s arbitrary: n) auto

lemma decimal_nonempty [simp]: "decimal n \<noteq> []"
  by (subst decimal.simps) simp

lemma decimal_digits: "c \<in> set (decimal n) \<Longrightarrow> 48 \<le> c \<and> c \<le> 57"
proof (induction n rule: decimal.induct)
  case (1 n)
  then show ?case by (subst (asm) decimal.simps) (auto split: if_splits)
qed

lemma parse_decimal: "n \<le> maxUint64 \<Longrightarrow> parse_digits (decimal n) 0 = Inr n"
proof (induction n rule: decimal.induct)
  case (1 n)
  show ?case
  proof (cases "n < 10")
    case True
    then show ?thesis by (subst decimal.simps) (simp add: maxUint64_def)
  next
    case False
    have "parse_digits (decimal (n div 10)) 0 = Inr (n div 10)"
      using 1 False by simp
    moreover have "10 * (n div 10) + n mod 10 = n" by simp
    ultimately show ?thesis
      using False "1.prems" by (subst decimal.simps) (simp add: parse_digits_append)
  qed
qed

lemma Atoi_print:
  assumes "- maxInt64 - 1 \<le> i" "i \<le> maxInt64"
  shows "Atoi (print_int i) = Inr i"
proof -
  obtain c s where c: "decimal (nat i) = c # s" by (cases "decimal (nat i)") auto
  have "48 \<le> c" using decimal_digits [of c "nat i"] c by simp
  then show ?thesis
    using assms c parse_decimal [of "nat i"] parse_decimal [of "nat (- i)"]
    by (auto simp: Atoi_def ParseInt_def print_int_def ParseUint_def maxInt64_def maxUint64_def)
qed

lemma Atoi_bounds: "Atoi s = Inr i \<Longrightarrow> - maxInt64 - 1 \<le> i \<and> i \<le> maxInt64"
  by (auto simp: Atoi_def ParseInt_def Let_def maxInt64_def split: list.splits sum.splits if_splits prod.splits)

end
