(* ===== verification/Containers_Time.thy ===== *)
theory Containers_Time
  imports Go_Strings
begin

text \<open>
  \<open>internal/containers/time.go\<close>: time bounds, relative (\<open>7d\<close>) or absolute (a date). Instants and
  durations are nanoseconds, instants counted from Go's zero time. \<open>time.Parse\<close> on the two date
  layouts, and the texts of durations and instants, are functions of the record \<open>time_lib\<close>.
  The property: a count of units is read exactly, and refused with the largest count the unit
  allows as soon as the duration would not fit 64 bits, so no bound ever wraps.
\<close>

datatype TimeValue =
    RelativeTime int
  | AbsoluteTime int
  | TimeFilter int int bool \<comment> \<open>\<open>Dur\<close>, \<open>Abs\<close>, \<open>IsAbs\<close>\<close>

datatype time_error = ErrInvalidTime | DurationRangeError runes int rune

record time_lib =
  parse_date :: "runes \<Rightarrow> int option"
  parse_rfc3339 :: "runes \<Rightarrow> int option"
  dur_string :: "int \<Rightarrow> runes"
  rfc3339nano :: "int \<Rightarrow> runes"

fun Resolve :: "TimeValue \<Rightarrow> int \<Rightarrow> int" where
  "Resolve (RelativeTime d) now = now - d"
| "Resolve (AbsoluteTime t) now = t"
| "Resolve (TimeFilter d t is_abs) now = (if is_abs then t else now - d)"

text \<open>The text a bound is hashed by; \<open>print\<close> is \<open>fmt.Sprint\<close> of a key.\<close>

fun time_Hash :: "time_lib \<Rightarrow> (runes \<Rightarrow> 'k) \<Rightarrow> ('k \<Rightarrow> runes) \<Rightarrow> TimeValue \<Rightarrow> runes" where
  "time_Hash lib h print (RelativeTime d) = print (h (str ''r'' @ dur_string lib d))"
| "time_Hash lib h print (AbsoluteTime t) = print (h (str ''a'' @ rfc3339nano lib t))"
| "time_Hash lib h print (TimeFilter d t is_abs) =
     (if is_abs then print (h (str ''fa'' @ rfc3339nano lib t))
      else print (h (str ''fr'' @ dur_string lib d)))"

fun time_Equal :: "TimeValue \<Rightarrow> TimeValue \<Rightarrow> bool" where
  "time_Equal (RelativeTime d) other = (case other of RelativeTime d' \<Rightarrow> d' = d | _ \<Rightarrow> False)"
| "time_Equal (AbsoluteTime t) other = (case other of AbsoluteTime t' \<Rightarrow> t' = t | _ \<Rightarrow> False)"
| "time_Equal (TimeFilter d t is_abs) other =
     (case other of
        TimeFilter d' t' is_abs' \<Rightarrow>
          if is_abs' \<noteq> is_abs then False else if is_abs then t' = t else d' = d
      | _ \<Rightarrow> False)"

definition second :: int where
  "second = 1000000000"

definition unitDuration :: "rune \<Rightarrow> int option" where
  "unitDuration b =
     (if b = 115 then Some second
      else if b = 109 then Some (60 * second)
      else if b = 104 then Some (3600 * second)
      else if b = 100 then Some (24 * 3600 * second)
      else if b = 119 then Some (7 * 24 * 3600 * second)
      else None)"

definition parse_absolute :: "time_lib \<Rightarrow> runes \<Rightarrow> time_error + TimeValue" where
  "parse_absolute lib s =
     (case parse_date lib s of
        Some t \<Rightarrow> Inr (AbsoluteTime t)
      | None \<Rightarrow> (case parse_rfc3339 lib s of Some t \<Rightarrow> Inr (AbsoluteTime t) | None \<Rightarrow> Inl ErrInvalidTime))"

definition ParseTimeValue :: "time_lib \<Rightarrow> runes \<Rightarrow> time_error + TimeValue" where
  "ParseTimeValue lib s =
     (if s = [] then Inl ErrInvalidTime
      else
        case unitDuration (last s) of
          Some per \<Rightarrow>
            if 48 \<le> hd s \<and> hd s \<le> 57 then
              (let limit = maxInt64 div per
               in case ParseInt (butlast s) of
                    Inr n \<Rightarrow>
                      if n > limit then Inl (DurationRangeError s limit (last s))
                      else if n \<ge> 0 then Inr (RelativeTime (n * per))
                      else parse_absolute lib s
                  | Inl ErrRange \<Rightarrow> Inl (DurationRangeError s limit (last s))
                  | Inl ErrSyntax \<Rightarrow> parse_absolute lib s)
            else parse_absolute lib s
        | None \<Rightarrow> parse_absolute lib s)"

text \<open>A calendar that reads no date, for examples.\<close>

definition no_dates :: time_lib where
  "no_dates = \<lparr>parse_date = (\<lambda>_. None), parse_rfc3339 = (\<lambda>_. None), dur_string = print_int, rfc3339nano = print_int\<rparr>"

section \<open>Facts\<close>

text \<open>Bounds that are equal resolve alike at every instant, so a plan may be shared between them.\<close>

lemma Equal_Resolve: "time_Equal a b \<Longrightarrow> Resolve a now = Resolve b now"
  by (cases a; cases b) (auto split: if_splits)

lemma Equal_refl [simp]: "time_Equal a a"
  by (cases a) auto

lemma Equal_sym: "time_Equal a b \<Longrightarrow> time_Equal b a"
  by (cases a; cases b) (auto split: if_splits)

lemma Equal_trans: "time_Equal a b \<Longrightarrow> time_Equal b c \<Longrightarrow> time_Equal a c"
  by (cases a; cases b; cases c) (auto split: if_splits)

definition digits_value :: "runes \<Rightarrow> nat" where
  "digits_value ds = foldl (\<lambda>n c. 10 * n + (c - 48)) 0 ds"

lemma foldl_digits_mono: "n \<le> foldl (\<lambda>n c. 10 * n + (c - 48)) (n :: nat) ds"
proof (induction ds arbitrary: n)
  case (Cons c ds)
  have "n \<le> 10 * n + (c - 48)" by simp
  with Cons [of "10 * n + (c - 48)"] show ?case by simp
qed simp

lemma parse_digits_value:
  "\<forall>c \<in> set ds. 48 \<le> c \<and> c \<le> 57 \<Longrightarrow> n \<le> maxUint64 \<Longrightarrow>
   parse_digits ds n =
     (let v = foldl (\<lambda>n c. 10 * n + (c - 48)) n ds in if v \<le> maxUint64 then Inr v else Inl ErrRange)"
proof (induction ds arbitrary: n)
  case (Cons c ds)
  let ?n = "10 * n + (c - 48)"
  show ?case
  proof (cases "?n \<le> maxUint64")
    case True
    then show ?thesis using Cons by (simp add: Let_def)
  next
    case False
    then have "\<not> foldl (\<lambda>n c. 10 * n + (c - 48)) ?n ds \<le> maxUint64"
      using foldl_digits_mono [of ?n ds] by linarith
    then show ?thesis using Cons.prems False by (simp add: Let_def)
  qed
qed simp

lemma ParseInt_digits:
  assumes "ds \<noteq> []" "\<forall>c \<in> set ds. 48 \<le> c \<and> c \<le> 57"
  shows "ParseInt ds =
    (if int (digits_value ds) \<le> maxInt64 then Inr (int (digits_value ds)) else Inl ErrRange)"
proof -
  obtain c s where c: "ds = c # s" "48 \<le> c" "c \<le> 57" using assms by (cases ds) auto
  have "ParseUint ds = (if digits_value ds \<le> maxUint64 then Inr (digits_value ds) else Inl ErrRange)"
    using parse_digits_value [OF assms(2), of 0] assms(1) by (simp add: ParseUint_def digits_value_def Let_def)
  then show ?thesis
    using c by (auto simp: ParseInt_def Let_def maxInt64_def maxUint64_def)
qed

lemma unitDuration_pos: "unitDuration u = Some per \<Longrightarrow> 0 < per"
  by (auto simp: unitDuration_def second_def split: if_splits)

lemma le_div_iff_int: "0 < (m::int) \<Longrightarrow> n \<le> k div m \<longleftrightarrow> n * m \<le> k"
proof -
  assume m: "0 < m"
  have k: "k = k div m * m + k mod m" "0 \<le> k mod m" "k mod m < m" using m by auto
  show ?thesis
  proof
    assume "n \<le> k div m"
    then have "n * m \<le> k div m * m" using m by simp
    then show "n * m \<le> k" using k by linarith
  next
    assume "n * m \<le> k"
    then have "n * m < (k div m + 1) * m" unfolding distrib_right using k by linarith
    then show "n \<le> k div m" using m by (simp add: mult_less_cancel_right)
  qed
qed

section \<open>Property\<close>

text \<open>C6: A count of units is read as exactly that duration when it fits 64 bits; otherwise it is refused
  with the largest count of the unit that fits, never wrapped and never read as a date.\<close>

theorem duration_exact_or_refused:
  assumes ds: "ds \<noteq> []" "\<forall>c \<in> set ds. 48 \<le> c \<and> c \<le> 57" and u: "unitDuration u = Some per"
  shows "if int (digits_value ds) * per \<le> maxInt64
    then ParseTimeValue lib (ds @ [u]) = Inr (RelativeTime (int (digits_value ds) * per))
    else \<exists>m. ParseTimeValue lib (ds @ [u]) = Inl (DurationRangeError (ds @ [u]) m u) \<and>
      m * per \<le> maxInt64 \<and> maxInt64 < (m + 1) * per"
proof -
  let ?n = "int (digits_value ds)" and ?m = "maxInt64 div per"
  have pos: "0 < per" by (rule unitDuration_pos [OF u])
  have hd: "48 \<le> hd (ds @ [u])" "hd (ds @ [u]) \<le> 57" using ds by (cases ds; auto)+
  note le = le_div_iff_int [OF pos, of _ maxInt64]
  have lim: "?m * per \<le> maxInt64" "maxInt64 < (?m + 1) * per"
    using le [of ?m] le [of "?m + 1"] by auto
  show ?thesis
  proof (cases "?n * per \<le> maxInt64")
    case True
    have "?n * 1 \<le> ?n * per" using pos by (intro mult_left_mono) auto
    then have "ParseInt ds = Inr ?n" using True ParseInt_digits [OF ds] by simp
    then show ?thesis
      using True hd u le [of ?n] by (simp add: ParseTimeValue_def Let_def)
  next
    case False
    have "ParseInt ds = Inr ?n \<or> ParseInt ds = Inl ErrRange"
      using ParseInt_digits [OF ds] by simp
    then have "ParseTimeValue lib (ds @ [u]) = Inl (DurationRangeError (ds @ [u]) ?m u)"
      using False hd u le [of ?n] by (auto simp: ParseTimeValue_def Let_def)
    then show ?thesis using False lim by auto
  qed
qed

theorem duration_exact_or_refused_witness:
  "ParseTimeValue no_dates (str ''7d'') = Inr (RelativeTime 604800000000000) \<and>
   (\<exists>m. ParseTimeValue no_dates (str ''106752d'') = Inl (DurationRangeError (str ''106752d'') m 100))"
  using duration_exact_or_refused [of "str ''7''" 100 _ no_dates]
    duration_exact_or_refused [of "str ''106752''" 100 _ no_dates]
  by (auto simp: str_def digits_value_def unitDuration_def second_def maxInt64_def)

end
