(* ===== verification/Parser_AST.thy ===== *)
theory Parser_AST
  imports Lexer_Scan Containers_Time
begin

text \<open>
  \<open>internal/query/parser/ast.go\<close>: the nodes of a parsed query, their accessors and the text they
  print as. A node keeps the tokens it was read from, as in the code: a clause that is absent has
  the zero token as its key, an absent \<open>vec:\<close> is a nil pointer (\<open>None\<close>), and an absent time
  bound a nil interface. Positions are columns.
\<close>

datatype ClauseType = MUST | MUST_NOT | LOOSE

definition zero_token :: Token where
  "zero_token = \<lparr>Type = ILLEGAL, Literal = [], Pos = 0\<rparr>"

record node =
  node_pos :: nat
  node_end :: nat

record GraphSelectorNode = node +
  gs_key :: Token
  gs_value :: "8 word"

record ClauseNode =
  cl_clause :: ClauseType
  cl_value :: Token

record TermNode = node +
  tn_token :: Token
  tn_value :: runes

record PhraseNode = node +
  ph_value :: runes

record EntityFieldNode = node +
  ef_key :: Token
  ef_token :: Token
  ef_value :: runes

record TopicFieldNode = node +
  tf_key :: Token
  tf_token :: Token
  tf_value :: runes

datatype AnchorField = EntityField EntityFieldNode | TopicField TopicFieldNode

record AnchorFieldNode =
  an_clause :: "ClauseNode option"
  an_token :: Token
  an_field :: AnchorField

record TimeFieldNode = node + \<comment> \<open>\<open>SinceFieldNode\<close> and \<open>UntilFieldNode\<close>\<close>
  tm_key :: Token
  tm_token :: Token
  tm_value :: "TimeValue option"

record IntFieldNode = node + \<comment> \<open>\<open>TopFieldNode\<close> and \<open>DepthFieldNode\<close>\<close>
  if_key :: Token
  if_value :: int

record 'p VecFieldNode = node +
  vf_key :: Token
  vf_param :: Token
  vf_value :: "'p list option"

record 'p RecallCommandNode = node +
  rc_key :: Token
  rc_selector :: GraphSelectorNode
  rc_terms :: "TermNode list"
  rc_entities :: "AnchorFieldNode list"
  rc_topics :: "AnchorFieldNode list"
  rc_top :: IntFieldNode
  rc_depth :: IntFieldNode
  rc_since :: TimeFieldNode
  rc_until :: TimeFieldNode
  rc_vec :: "'p VecFieldNode option"

record 'p RememberCommandNode = node +
  rm_key :: Token
  rm_selector :: GraphSelectorNode
  rm_value :: PhraseNode
  rm_anchors :: "AnchorFieldNode list"
  rm_vec :: "'p VecFieldNode option"

datatype 'p CommandNode = Recall "'p RecallCommandNode" | Remember "'p RememberCommandNode"

text \<open>The zero values the parser starts from.\<close>

definition zero_selector :: GraphSelectorNode where
  "zero_selector = \<lparr>node_pos = 0, node_end = 0, gs_key = zero_token, gs_value = 0\<rparr>"

definition zero_int_field :: IntFieldNode where
  "zero_int_field = \<lparr>node_pos = 0, node_end = 0, if_key = zero_token, if_value = 0\<rparr>"

definition zero_time_field :: TimeFieldNode where
  "zero_time_field = \<lparr>node_pos = 0, node_end = 0, tm_key = zero_token, tm_token = zero_token, tm_value = None\<rparr>"

definition zero_recall :: "'p RecallCommandNode" where
  "zero_recall = \<lparr>node_pos = 0, node_end = 0, rc_key = zero_token, rc_selector = zero_selector,
     rc_terms = [], rc_entities = [], rc_topics = [], rc_top = zero_int_field, rc_depth = zero_int_field,
     rc_since = zero_time_field, rc_until = zero_time_field, rc_vec = None\<rparr>"

definition zero_remember :: "'p RememberCommandNode" where
  "zero_remember = \<lparr>node_pos = 0, node_end = 0, rm_key = zero_token, rm_selector = zero_selector,
     rm_value = \<lparr>node_pos = 0, node_end = 0, ph_value = []\<rparr>, rm_anchors = [], rm_vec = None\<rparr>"

section \<open>Accessors\<close>

fun anchor_Value :: "AnchorFieldNode \<Rightarrow> runes" where
  "anchor_Value a = (case an_field a of EntityField f \<Rightarrow> ef_value f | TopicField f \<Rightarrow> tf_value f)"

definition recall_Terms :: "'p RecallCommandNode \<Rightarrow> runes list" where
  "recall_Terms r = map tn_value (rc_terms r)"

definition recall_Entities :: "'p RecallCommandNode \<Rightarrow> runes list" where
  "recall_Entities r = map anchor_Value (rc_entities r)"

definition recall_Topics :: "'p RecallCommandNode \<Rightarrow> runes list" where
  "recall_Topics r = map anchor_Value (rc_topics r)"

definition HasTop :: "'p RecallCommandNode \<Rightarrow> bool" where
  "HasTop r = (Type (if_key (rc_top r)) = TOP)"

definition recall_Top :: "'p RecallCommandNode \<Rightarrow> int \<Rightarrow> int" where
  "recall_Top r v = (if \<not> HasTop r then v else if_value (rc_top r))"

definition anchoredSearch :: "'p RecallCommandNode \<Rightarrow> bool" where
  "anchoredSearch r =
     ((rc_topics r \<noteq> [] \<or> rc_entities r \<noteq> []) \<and> (rc_terms r \<noteq> [] \<or> rc_vec r \<noteq> None))"

definition HasDepth :: "'p RecallCommandNode \<Rightarrow> bool" where
  "HasDepth r = (Type (if_key (rc_depth r)) = DEPTH)"

definition recall_Depth :: "'p RecallCommandNode \<Rightarrow> int \<Rightarrow> int" where
  "recall_Depth r v =
     (let v = (if HasDepth r then if_value (rc_depth r) else v)
      in if v < 1 \<and> anchoredSearch r then 1 else v)"

definition recall_Since :: "'p RecallCommandNode \<Rightarrow> TimeValue option" where
  "recall_Since r = tm_value (rc_since r)"

definition recall_Until :: "'p RecallCommandNode \<Rightarrow> TimeValue option" where
  "recall_Until r = tm_value (rc_until r)"

definition recall_Vector :: "'p RecallCommandNode \<Rightarrow> 'p list option" where
  "recall_Vector r = (case rc_vec r of None \<Rightarrow> None | Some v \<Rightarrow> vf_value v)"

definition recall_VecParam :: "'p RecallCommandNode \<Rightarrow> runes \<times> bool" where
  "recall_VecParam r = (case rc_vec r of None \<Rightarrow> ([], False) | Some v \<Rightarrow> (Literal (vf_param v), True))"

definition recall_Selector :: "'p RecallCommandNode \<Rightarrow> 8 word" where
  "recall_Selector r = gs_value (rc_selector r)"

definition remember_Value :: "'p RememberCommandNode \<Rightarrow> runes" where
  "remember_Value r = ph_value (rm_value r)"

fun anchor_entity :: "AnchorFieldNode \<Rightarrow> runes option" where
  "anchor_entity a = (case an_field a of EntityField f \<Rightarrow> Some (ef_value f) | TopicField _ \<Rightarrow> None)"

fun anchor_topic :: "AnchorFieldNode \<Rightarrow> runes option" where
  "anchor_topic a = (case an_field a of TopicField f \<Rightarrow> Some (tf_value f) | EntityField _ \<Rightarrow> None)"

definition remember_Entities :: "'p RememberCommandNode \<Rightarrow> runes list" where
  "remember_Entities r = List.map_filter anchor_entity (rm_anchors r)"

definition remember_Topics :: "'p RememberCommandNode \<Rightarrow> runes list" where
  "remember_Topics r = List.map_filter anchor_topic (rm_anchors r)"

definition remember_Vector :: "'p RememberCommandNode \<Rightarrow> 'p list option" where
  "remember_Vector r = (case rm_vec r of None \<Rightarrow> None | Some v \<Rightarrow> vf_value v)"

definition remember_VecParam :: "'p RememberCommandNode \<Rightarrow> runes \<times> bool" where
  "remember_VecParam r = (case rm_vec r of None \<Rightarrow> ([], False) | Some v \<Rightarrow> (Literal (vf_param v), True))"

definition remember_Selector :: "'p RememberCommandNode \<Rightarrow> 8 word" where
  "remember_Selector r = gs_value (rm_selector r)"

section \<open>Printing\<close>

definition quote :: "runes \<Rightarrow> runes" where
  "quote s = 39 # escape s @ [39]"

definition selector_String :: "GraphSelectorNode \<Rightarrow> runes" where
  "selector_String n = (if Type (gs_key n) \<noteq> AT then [] else 64 # decimal (unat (gs_value n)))"

definition term_String :: "TermNode \<Rightarrow> runes" where
  "term_String n = (if Type (tn_token n) = PHRASE then quote (tn_value n) else tn_value n)"

definition entity_String :: "EntityFieldNode \<Rightarrow> runes" where
  "entity_String n = Literal (ef_key n) @ [58] @
     (if Type (ef_token n) = PHRASE then quote (ef_value n) else ef_value n)"

definition topic_String :: "TopicFieldNode \<Rightarrow> runes" where
  "topic_String n = Literal (tf_key n) @ [58] @
     (if Type (tf_token n) = PHRASE then quote (tf_value n) else tf_value n)"

definition anchor_String :: "AnchorFieldNode \<Rightarrow> runes" where
  "anchor_String n =
     (let c = (case an_clause n of None \<Rightarrow> [] | Some cl \<Rightarrow> Literal (cl_value cl))
      in c @ Literal (an_token n) @
         (case an_field n of EntityField f \<Rightarrow> entity_String f | TopicField f \<Rightarrow> topic_String f))"

definition time_String :: "TimeFieldNode \<Rightarrow> runes" where
  "time_String n = Literal (tm_key n) @ [58] @
     (if Type (tm_token n) = PHRASE then quote (Literal (tm_token n)) else Literal (tm_token n))"

definition int_String :: "IntFieldNode \<Rightarrow> runes" where
  "int_String n = Literal (if_key n) @ [58] @ print_int (if_value n)"

definition vec_String :: "'p VecFieldNode \<Rightarrow> runes" where
  "vec_String n = Literal (vf_key n) @ [58, 36] @ Literal (vf_param n)"

definition remember_String :: "'p RememberCommandNode \<Rightarrow> runes" where
  "remember_String n =
     Join ([Literal (rm_key n) @ selector_String (rm_selector n), quote (ph_value (rm_value n))] @
           map anchor_String (rm_anchors n) @
           (case rm_vec n of None \<Rightarrow> [] | Some v \<Rightarrow> [vec_String v])) [32]"

definition recall_String :: "'p RecallCommandNode \<Rightarrow> runes" where
  "recall_String n =
     Join ([Literal (rc_key n) @ selector_String (rc_selector n)] @
           map term_String (rc_terms n) @ map anchor_String (rc_entities n) @
           map anchor_String (rc_topics n) @
           (if Type (if_key (rc_top n)) = TOP then [int_String (rc_top n)] else []) @
           (if Type (if_key (rc_depth n)) = DEPTH then [int_String (rc_depth n)] else []) @
           (if Type (tm_key (rc_since n)) = SINCE then [time_String (rc_since n)] else []) @
           (if Type (tm_key (rc_until n)) = UNTIL then [time_String (rc_until n)] else []) @
           (case rc_vec n of None \<Rightarrow> [] | Some v \<Rightarrow> [vec_String v])) [32]"

end
