(* ===== verification/Index_NLP.thy ===== *)
theory Index_NLP
  imports Go_Strings
begin

text \<open>
  \<open>internal/index/nlp\<close>: where a term begins and ends, the tokenizers, and the removal of English
  stop words. Snowball's stemmer is a third-party package: the parameter \<open>stem\<close>. Of the language
  tags of \<open>golang.org/x/text\<close> the program uses \<open>language.English\<close> alone, whose base is certain and
  has a list.
\<close>

definition isTermRune :: "unicode \<Rightarrow> rune \<Rightarrow> bool" where
  "isTermRune u r = (IsLetter u r \<or> IsDigit u r \<or> (128 \<le> r \<and> wide_symbol u r))"

definition Words :: "unicode \<Rightarrow> runes \<Rightarrow> runes list" where
  "Words u text = FieldsFunc (\<lambda>r. \<not> isTermRune u r) text"

definition SimpleTokenizer :: "unicode \<Rightarrow> runes \<Rightarrow> runes list" where
  "SimpleTokenizer u text = Words u (ToLower u text)"

definition StemmingTokenizer :: "unicode \<Rightarrow> (runes \<Rightarrow> runes) \<Rightarrow> runes \<Rightarrow> runes list" where
  "StemmingTokenizer u stem text = map stem (SimpleTokenizer u text)"

definition English :: "string list" where
  "English =
   [''a'', ''about'', ''above'', ''after'', ''again'', ''against'', ''all'', ''am'', ''an'',
    ''and'', ''any'', ''are'', ''as'', ''at'', ''be'', ''because'', ''been'', ''before'',
    ''being'', ''below'', ''between'', ''both'', ''but'', ''by'', ''could'', ''did'', ''do'',
    ''does'', ''doing'', ''down'', ''during'', ''each'', ''few'', ''for'', ''from'', ''further'',
    ''had'', ''has'', ''have'', ''having'', ''he'', ''her'', ''here'', ''hers'', ''herself'',
    ''him'', ''himself'', ''his'', ''how'', ''i'', ''if'', ''in'', ''into'', ''is'', ''it'',
    ''its'', ''itself'', ''me'', ''more'', ''most'', ''my'', ''myself'', ''of'', ''off'', ''on'',
    ''once'', ''only'', ''or'', ''other'', ''ought'', ''our'', ''ours'', ''ourselves'', ''out'',
    ''over'', ''own'', ''same'', ''she'', ''should'', ''so'', ''some'', ''such'', ''than'',
    ''that'', ''the'', ''their'', ''theirs'', ''them'', ''themselves'', ''then'', ''there'',
    ''these'', ''they'', ''this'', ''those'', ''through'', ''to'', ''too'', ''under'', ''until'',
    ''up'', ''very'', ''was'', ''we'', ''were'', ''what'', ''when'', ''where'', ''which'',
    ''while'', ''who'', ''whom'', ''why'', ''with'', ''would'', ''you'', ''your'', ''yours'',
    ''yourself'', ''yourselves'']"

definition is_stop :: "runes \<Rightarrow> bool" where
  "is_stop w = (w \<in> set (map str English))"

definition CleanContent :: "unicode \<Rightarrow> runes \<Rightarrow> runes" where
  "CleanContent u content =
     Join (filter (\<lambda>word. \<not> is_stop (ToLower u word)) (Words u content)) [32]"

section \<open>Facts\<close>

lemma FieldsFunc_no_sep: "w \<noteq> [] \<Longrightarrow> \<forall>c \<in> set w. \<not> sep c \<Longrightarrow> FieldsFunc sep w = [w]"
proof (induction w)
  case (Cons c s)
  then show ?case by (cases s) auto
qed simp

text \<open>A word of letters and digits is one term, so cleaning it leaves nothing exactly when it is a stop word.\<close>

lemma CleanContent_word:
  assumes "w \<noteq> []" "\<forall>c \<in> set w. IsLetter u c \<or> IsDigit u c"
  shows "CleanContent u w = (if is_stop (ToLower u w) then [] else w)"
proof -
  have "Words u w = [w]"
    unfolding Words_def by (rule FieldsFunc_no_sep [OF assms(1)]) (use assms(2) in \<open>auto simp: isTermRune_def\<close>)
  then show ?thesis by (simp add: CleanContent_def)
qed

text \<open>The terms of a text are non-empty runs of term characters, and together hold all of them in order.\<close>

lemma FieldsFunc_step:
  "FieldsFunc sep (c # s) =
     (if sep c then FieldsFunc sep s
      else if s = [] \<or> sep (hd s) \<or> FieldsFunc sep s = [] then [c] # FieldsFunc sep s
      else (c # hd (FieldsFunc sep s)) # tl (FieldsFunc sep s))"
  by (subst FieldsFunc.simps(2)) (auto simp del: FieldsFunc.simps(2) split: list.split)

lemma FieldsFunc_fields: "w \<in> set (FieldsFunc sep s) \<Longrightarrow> w \<noteq> [] \<and> (\<forall>c \<in> set w. \<not> sep c)"
proof (induction s arbitrary: w)
  case (Cons c s)
  show ?case
  proof (cases "FieldsFunc sep s")
    case Nil
    with Cons.prems show ?thesis unfolding FieldsFunc_step by (auto simp del: FieldsFunc.simps split: if_splits)
  next
    case (Cons v vs)
    with Cons.IH [of v] Cons.IH [of w] Cons.prems show ?thesis
      unfolding FieldsFunc_step by (auto simp del: FieldsFunc.simps split: if_splits)
  qed
qed simp

lemma FieldsFunc_concat: "concat (FieldsFunc sep s) = filter (\<lambda>c. \<not> sep c) s"
proof (induction s)
  case (Cons c s)
  then show ?case
    unfolding FieldsFunc_step by (cases "FieldsFunc sep s") (auto simp del: FieldsFunc.simps)
qed simp

end
