(* ===== verification/Parser_State.thy ===== *)
theory Parser_State
  imports Parser_AST Index_NLP
begin

text \<open>
  \<open>internal/query/parser/parser.go\<close>, first part: the two-token window over the lexer, and the errors
  and warnings. An error is its column and its message; a message is a constructor holding what
  the code formats into the text. A parsing step takes the parser's state and returns an error or
  a value with the new state; the warnings gathered so far stay in the state either way.
\<close>

datatype (plugins only: code) parse_msg =
    NotUTF8
  | UnexpectedAfterEnd Token
  | ExpectedToken TokenType Token
  | UnterminatedPhrase
  | NoGrouping Token
  | NulOutsidePhrase
  | OnlyInPhrase Token
  | UnexpectedNewline Token
  | StrayColon Token
  | SecondCommand Token
  | SecondCommandOrQuote Token runes
  | PrefixNoClause Token runes
  | KeywordNoClause Token runes runes runes
  | MisCasedKeyword runes runes runes
  | UnexpectedToken Token
  | TermIsCommand runes
  | TermIsPrefix runes
  | TermIsKeyword runes runes runes
  | MissingColon Token runes runes
  | RecallClauseOnWrite runes
  | DuplicateClause runes
  | OnlyStopWord runes
  | AllStopWords runes
  | MustNotBeEmpty string
  | ExpectedCommand Token
  | NeedsSeed
  | SecondSelector Token
  | ExpectedSpace Token
  | NoSpaceBeforeAt runes
  | NoSpaceBeforeColon
  | NoSpaceAfterColon
  | NoSpaceBeforeSelector
  | IntOutOfRange runes Token
  | InvalidInt runes Token
  | TimeOutOfRange runes Token int rune
  | InvalidTime runes Token
  | QuotedDuration runes Token runes
  | InvalidSelector Token
  | SelectorOutOfRange int
  | ExpectedPhrase Token
  | ExpectedWhitespace Token
  | ExpectedValue Token
  | ExpectedDollar Token
  | NoSpaceAfterDollar

datatype parse_error = ParseError nat parse_msg

datatype warn_msg =
    WarnMisCased runes runes
  | WarnDepthWithoutGraph runes
  | WarnAnchorsWithoutDepth runes
  | WarnStopWord runes

record Warning =
  w_msg :: warn_msg
  w_pos :: nat

text \<open>What the grammar takes from outside the query: Unicode's tables and the reading of dates.\<close>

record lang =
  uni :: unicode
  tlib :: time_lib

record 'p parser =
  pr_l :: Lexer
  pr_cur :: Token
  pr_peek :: Token
  pr_warns :: "Warning list"
  pr_params :: "runes \<rightharpoonup> 'p list"

type_synonym ('p, 'a) step = "(parse_error + 'a) \<times> 'p parser"

definition and_then :: "('p, 'a) step \<Rightarrow> ('a \<Rightarrow> 'p parser \<Rightarrow> ('p, 'b) step) \<Rightarrow> ('p, 'b) step" where
  "and_then s f = (case s of (Inl e, p) \<Rightarrow> (Inl e, p) | (Inr x, p) \<Rightarrow> f x p)"

section \<open>The window\<close>

definition next_tok :: "lang \<Rightarrow> 'p parser \<Rightarrow> 'p parser" where
  "next_tok g p =
     (let (t, l) = Next (uni g) (pr_l p) in p\<lparr>pr_cur := pr_peek p, pr_peek := t, pr_l := l\<rparr>)"

definition take_tok :: "lang \<Rightarrow> 'p parser \<Rightarrow> Token \<times> 'p parser" where
  "take_tok g p = (pr_cur p, next_tok g p)"

definition expect :: "lang \<Rightarrow> TokenType \<Rightarrow> 'p parser \<Rightarrow> ('p, Token) step" where
  "expect g t p =
     (if Type (pr_cur p) \<noteq> t then (Inl (ParseError (Pos (pr_cur p)) (ExpectedToken t (pr_cur p))), p)
      else (Inr (pr_cur p), next_tok g p))"

definition afterBlank :: "'p parser \<Rightarrow> Token" where
  "afterBlank p = (if Type (pr_cur p) = WHITESPACE then pr_peek p else pr_cur p)"

definition isAtEnd :: "'p parser \<Rightarrow> bool" where
  "isAtEnd p = (Type (pr_cur p) = EOL \<or> Type (pr_cur p) = NEWLINE)"

definition isValue :: "'p parser \<Rightarrow> bool" where
  "isValue p =
     (if Type (pr_cur p) = LITERAL \<or> Type (pr_cur p) = PHRASE then True
      else if IsKeyword (Type (pr_cur p)) then Type (pr_peek p) \<noteq> COLON
      else False)"

definition isDanglingKeyword :: "'p parser \<Rightarrow> bool" where
  "isDanglingKeyword p =
     (IsKeyword (Type (pr_cur p)) \<and> (Type (pr_peek p) = EOL \<or> Type (pr_peek p) = NEWLINE))"

section \<open>Errors and warnings\<close>

definition keyword_kind :: "lang \<Rightarrow> Token \<Rightarrow> TokenType" where
  "keyword_kind g key =
     (case keyword (ToLower (uni g) (Literal key)) of Some t \<Rightarrow> t | None \<Rightarrow> ILLEGAL)"

definition clausePlaceholder :: "lang \<Rightarrow> Token \<Rightarrow> runes" where
  "clausePlaceholder g key = (if keyword_kind g key = VEC then str ''$<name>'' else str ''<value>'')"

definition errKeywordAsClause :: "lang \<Rightarrow> Token \<Rightarrow> parse_error" where
  "errKeywordAsClause g tok =
     (if IsCommand (Type tok) then ParseError (Pos tok) (SecondCommandOrQuote tok (Literal tok))
      else if IsPrefix (Type tok) then ParseError (Pos tok) (PrefixNoClause tok (Literal tok))
      else ParseError (Pos tok) (KeywordNoClause tok (ToLower (uni g) (Literal tok))
             (clausePlaceholder g tok) (Literal tok)))"

definition errUnexpected :: "lang \<Rightarrow> Token \<Rightarrow> parse_error" where
  "errUnexpected g tok =
     (if Type tok = ILLEGAL then ParseError (Pos tok) UnterminatedPhrase
      else if Type tok = LPAREN \<or> Type tok = RPAREN then ParseError (Pos tok) (NoGrouping tok)
      else if Type tok = NUL then ParseError (Pos tok) NulOutsidePhrase
      else if Type tok \<in> {SPECIAL, PLUS, TILDE, MINUS} then ParseError (Pos tok) (OnlyInPhrase tok)
      else if Type tok = NEWLINE then ParseError (Pos tok) (UnexpectedNewline tok)
      else if Type tok = COLON then ParseError (Pos tok) (StrayColon tok)
      else if IsCommand (Type tok) then ParseError (Pos tok) (SecondCommand tok)
      else if IsKeyword (Type tok) then errKeywordAsClause g tok
      else if IsMisCasedKeyword (uni g) tok then
        ParseError (Pos tok) (MisCasedKeyword (Literal tok) (ToLower (uni g) (Literal tok)) (clausePlaceholder g tok))
      else ParseError (Pos tok) (UnexpectedToken tok))"

definition errKeywordAsTerm :: "lang \<Rightarrow> Token \<Rightarrow> runes \<Rightarrow> parse_error" where
  "errKeywordAsTerm g tok v =
     (if IsCommand (Type tok) then ParseError (Pos tok) (TermIsCommand (Literal tok))
      else if IsPrefix (Type tok) then ParseError (Pos tok) (TermIsPrefix (Literal tok))
      else ParseError (Pos tok) (TermIsKeyword (Literal tok) (ToLower (uni g) (Literal tok)) v))"

definition errMissingColon :: "lang \<Rightarrow> Token \<Rightarrow> runes \<Rightarrow> parse_error" where
  "errMissingColon g key v = ParseError (Pos key) (MissingColon key (ToLower (uni g) (Literal key)) v)"

definition clauseValue :: "lang \<Rightarrow> Token \<Rightarrow> Token \<Rightarrow> runes" where
  "clauseValue g key tok =
     (let kind = keyword_kind g key
      in if kind = VEC then clausePlaceholder g key
         else if Type tok = LITERAL then Literal tok
         else if Type tok = PHRASE \<and> (kind = SINCE \<or> kind = UNTIL) then
           (case ParseTimeValue (tlib g) (Literal tok) of
              Inr (RelativeTime d) \<Rightarrow> Literal tok
            | _ \<Rightarrow> quote (Literal tok))
         else if Type tok = PHRASE then quote (Literal tok)
         else clausePlaceholder g key)"

definition errRecallClauseOnWrite :: "lang \<Rightarrow> Token \<Rightarrow> parse_error" where
  "errRecallClauseOnWrite g tok = ParseError (Pos tok) (RecallClauseOnWrite (ToLower (uni g) (Literal tok)))"

definition errDuplicate :: "lang \<Rightarrow> Token \<Rightarrow> parse_error" where
  "errDuplicate g tok = ParseError (Pos tok) (DuplicateClause (ToLower (uni g) (Literal tok)))"

definition add_warning :: "warn_msg \<Rightarrow> nat \<Rightarrow> 'p parser \<Rightarrow> 'p parser" where
  "add_warning m c p = p\<lparr>pr_warns := pr_warns p @ [\<lparr>w_msg = m, w_pos = c\<rparr>]\<rparr>"

definition warnMisCasedKeyword :: "lang \<Rightarrow> Token \<Rightarrow> 'p parser \<Rightarrow> 'p parser" where
  "warnMisCasedKeyword g tok p =
     (let low = ToLower (uni g) (Literal tok)
      in if \<not> IsKeyword (Type tok) \<or> Literal tok = low then p
         else add_warning (WarnMisCased (Literal tok) low) (Pos tok) p)"

definition warnDepthWithoutGraph :: "'p RecallCommandNode \<Rightarrow> 'p parser \<Rightarrow> 'p parser" where
  "warnDepthWithoutGraph r p =
     (if \<not> HasDepth r \<or> if_value (rc_depth r) = 0 \<or> rc_topics r \<noteq> [] \<or> rc_entities r \<noteq> [] then p
      else add_warning (WarnDepthWithoutGraph (int_String (rc_depth r))) (Pos (if_key (rc_depth r))) p)"

definition warnAnchorsWithoutDepth :: "'p RecallCommandNode \<Rightarrow> 'p parser \<Rightarrow> 'p parser" where
  "warnAnchorsWithoutDepth r p =
     (if \<not> HasDepth r \<or> if_value (rc_depth r) \<noteq> 0 \<or> \<not> anchoredSearch r then p
      else add_warning (WarnAnchorsWithoutDepth (int_String (rc_depth r))) (Pos (if_key (rc_depth r))) p)"

text \<open>The bare terms that are stop words, and whether something else seeds the search.\<close>

fun stop_scan :: "unicode \<Rightarrow> TermNode list \<Rightarrow> bool \<Rightarrow> Token list \<Rightarrow> bool \<times> Token list" where
  "stop_scan u [] seeded stops = (seeded, stops)"
| "stop_scan u (t # ts) seeded stops =
     (if Type (tn_token t) \<noteq> LITERAL \<or> CleanContent u (Literal (tn_token t)) \<noteq> []
      then stop_scan u ts True stops
      else stop_scan u ts seeded (stops @ [tn_token t]))"

definition warnStopWords :: "lang \<Rightarrow> 'p RecallCommandNode \<Rightarrow> 'p parser \<Rightarrow> ('p, unit) step" where
  "warnStopWords g r p =
     (let (seeded, stops) = stop_scan (uni g) (rc_terms r) (rc_vec r \<noteq> None) []
      in case stops of
           [] \<Rightarrow> (Inr (), p)
         | s # _ \<Rightarrow>
             if \<not> seeded \<and> length stops = 1 then (Inl (ParseError (Pos s) (OnlyStopWord (Literal s))), p)
             else if \<not> seeded then (Inl (ParseError (Pos s) (AllStopWords (Literal s))), p)
             else (Inr (), fold (\<lambda>tok. add_warning (WarnStopWord (Literal tok)) (Pos tok)) stops p))"

definition errEmpty :: "string \<Rightarrow> runes \<Rightarrow> nat \<Rightarrow> parse_error option" where
  "errEmpty role v c = (if TrimSpace v \<noteq> [] then None else Some (ParseError c (MustNotBeEmpty role)))"

end
