(* ===== verification/Parser_Grammar.thy ===== *)
theory Parser_Grammar
  imports Parser_State
begin

text \<open>
  \<open>internal/query/parser/parser.go\<close>, second part: the productions, from the leaves to \<open>Parse\<close>. The
  two clause loops and the term loop consume a token on every round, so they end: the measure
  counts the characters and the tokens that are left.
\<close>

section \<open>Leaves\<close>

definition parseSeparator :: "lang \<Rightarrow> Token \<Rightarrow> 'p parser \<Rightarrow> ('p, unit) step" where
  "parseSeparator g key p =
     (if Type (pr_cur p) = WHITESPACE then
        (if Type (pr_peek p) = COLON then (Inl (ParseError (Pos (pr_cur p)) NoSpaceBeforeColon), p)
         else if Type (pr_peek p) \<in> {EOL, NEWLINE} then (Inl (errKeywordAsClause g key), p)
         else (Inl (errMissingColon g key (clauseValue g key (pr_peek p))), p))
      else
        case expect g COLON p of
          (Inl _, p1) \<Rightarrow>
            if IsEndOfLine (Type (pr_cur p1)) then (Inl (errKeywordAsClause g key), p1)
            else (Inl (errMissingColon g key (clauseValue g key (pr_cur p1))), p1)
        | (Inr _, p1) \<Rightarrow>
            if Type (pr_cur p1) = WHITESPACE then (Inl (ParseError (Pos (pr_cur p1)) NoSpaceAfterColon), p1)
            else (Inr (), p1))"

definition parseIntField :: "lang \<Rightarrow> 'p parser \<Rightarrow> ('p, Token \<times> int) step" where
  "parseIntField g p =
     (let key = pr_cur p
      in and_then (parseSeparator g key (next_tok g p)) (\<lambda>_ p.
         let (tok, p) = take_tok g p; clause = ToLower (uni g) (Literal key)
         in if Type tok = ILLEGAL then (Inl (errUnexpected g tok), p)
            else case Atoi (Literal tok) of
                Inl ErrRange \<Rightarrow> (Inl (ParseError (Pos tok) (IntOutOfRange clause tok)), p)
              | Inl ErrSyntax \<Rightarrow> (Inl (ParseError (Pos tok) (InvalidInt clause tok)), p)
              | Inr i \<Rightarrow> (Inr (key, i), p)))"

definition parseTimeValue :: "lang \<Rightarrow> 'p parser \<Rightarrow> ('p, Token \<times> Token \<times> TimeValue) step" where
  "parseTimeValue g p =
     (let key = pr_cur p
      in and_then (parseSeparator g key (next_tok g p)) (\<lambda>_ p.
         let (tok, p) = take_tok g p; clause = ToLower (uni g) (Literal key)
         in if Type tok = ILLEGAL then (Inl (errUnexpected g tok), p)
            else case ParseTimeValue (tlib g) (Literal tok) of
                Inl (DurationRangeError _ limit unit) \<Rightarrow>
                  (Inl (ParseError (Pos tok) (TimeOutOfRange clause tok limit unit)), p)
              | Inl ErrInvalidTime \<Rightarrow> (Inl (ParseError (Pos tok) (InvalidTime clause tok)), p)
              | Inr t \<Rightarrow>
                  (case t of
                     RelativeTime d \<Rightarrow>
                       if Type tok = PHRASE
                       then (Inl (ParseError (Pos tok) (QuotedDuration clause tok (Literal tok))), p)
                       else (Inr (key, tok, t), p)
                   | _ \<Rightarrow> (Inr (key, tok, t), p))))"

definition parseGraphSelector :: "lang \<Rightarrow> 'p parser \<Rightarrow> ('p, Token \<times> 8 word) step" where
  "parseGraphSelector g p =
     (let key = pr_cur p; p = next_tok g p
      in if Type (pr_cur p) = WHITESPACE \<and> Type (pr_peek p) = LITERAL \<and>
            (case Atoi (Literal (pr_peek p)) of Inr _ \<Rightarrow> True | Inl _ \<Rightarrow> False)
         then (Inl (ParseError (Pos (pr_cur p)) NoSpaceBeforeSelector), p)
         else
           let (tok, p) = take_tok g p
           in case Atoi (Literal tok) of
                Inl _ \<Rightarrow> (Inl (ParseError (Pos tok) (InvalidSelector tok)), p)
              | Inr i \<Rightarrow>
                  if i < 0 \<or> i > 255 then (Inl (ParseError (Pos tok) (SelectorOutOfRange i)), p)
                  else (Inr (key, word_of_int i), p))"

definition parsePhrase :: "lang \<Rightarrow> 'p parser \<Rightarrow> ('p, PhraseNode) step" where
  "parsePhrase g p =
     (if Type (pr_cur p) = ILLEGAL then (Inl (ParseError (Pos (pr_cur p)) UnterminatedPhrase), p)
      else if Type (pr_cur p) = NUL then (Inl (errUnexpected g (pr_cur p)), p)
      else
        case expect g PHRASE p of
          (Inl _, p) \<Rightarrow> (Inl (ParseError (Pos (pr_cur p)) (ExpectedPhrase (pr_cur p))), p)
        | (Inr tok, p) \<Rightarrow>
            (case errEmpty ''a remembered fact'' (Literal tok) (Pos tok) of
               Some e \<Rightarrow> (Inl e, p)
             | None \<Rightarrow>
                 if \<not> IsBlank (Type (pr_cur p)) \<and> \<not> IsEndOfLine (Type (pr_cur p))
                 then (Inl (ParseError (Pos (pr_cur p)) (ExpectedWhitespace (pr_cur p))), p)
                 else (Inr \<lparr>node_pos = Pos tok, node_end = 0, ph_value = Literal tok\<rparr>, p)))"

definition parseValue :: "lang \<Rightarrow> 'p parser \<Rightarrow> ('p, Token) step" where
  "parseValue g p =
     (if isValue p then (let (tok, p) = take_tok g p in (Inr tok, p))
      else if Type (pr_cur p) \<in> {ILLEGAL, LPAREN, RPAREN, NEWLINE, NUL, SPECIAL, PLUS, TILDE, MINUS}
      then (Inl (errUnexpected g (pr_cur p)), p)
      else (Inl (ParseError (Pos (pr_cur p)) (ExpectedValue (pr_cur p))), p))"

definition parseAnchorField :: "lang \<Rightarrow> 'p parser \<Rightarrow> ('p, Token \<times> Token \<times> runes) step" where
  "parseAnchorField g p =
     (let key = pr_cur p
      in and_then (parseSeparator g key (next_tok g p)) (\<lambda>_ p.
         and_then (parseValue g p) (\<lambda>tok p.
         case errEmpty ''an anchor value'' (Literal tok) (Pos tok) of
           Some e \<Rightarrow> (Inl e, p)
         | None \<Rightarrow> (Inr (key, tok, ToLower (uni g) (Literal tok)), p))))"

definition parseVecField :: "lang \<Rightarrow> 'p parser \<Rightarrow> ('p, 'p VecFieldNode) step" where
  "parseVecField g p =
     (let (key, p) = take_tok g p
      in and_then (parseSeparator g key p) (\<lambda>_ p.
         case expect g DOLLAR p of
           (Inl _, p) \<Rightarrow> (Inl (ParseError (Pos (pr_cur p)) (ExpectedDollar (pr_cur p))), p)
         | (Inr _, p) \<Rightarrow>
             if Type (pr_cur p) = WHITESPACE then (Inl (ParseError (Pos (pr_cur p)) NoSpaceAfterDollar), p)
             else and_then (expect g LITERAL p) (\<lambda>tok p.
               (Inr \<lparr>node_pos = 0, node_end = 0, vf_key = key, vf_param = tok,
                     vf_value = pr_params p (Literal tok)\<rparr>, p))))"

definition parseSelector :: "lang \<Rightarrow> Token \<Rightarrow> 'p parser \<Rightarrow> ('p, GraphSelectorNode) step" where
  "parseSelector g cmd p =
     and_then
       (if Type (pr_cur p) = AT then
          and_then (parseGraphSelector g p) (\<lambda>(key, v) p.
            if Type (pr_cur p) = AT then (Inl (ParseError (Pos (pr_cur p)) (SecondSelector (pr_cur p))), p)
            else (Inr \<lparr>node_pos = 0, node_end = 0, gs_key = key, gs_value = v\<rparr>, p))
        else (Inr zero_selector, p))
       (\<lambda>selector p.
          case expect g WHITESPACE p of
            (Inl _, p) \<Rightarrow> (Inl (ParseError (Pos (pr_cur p)) (ExpectedSpace (pr_cur p))), p)
          | (Inr _, p) \<Rightarrow>
              if Type (pr_cur p) = AT then (Inl (ParseError (Pos (pr_cur p)) (NoSpaceBeforeAt (Literal cmd))), p)
              else (Inr selector, p))"

section \<open>What is left to read\<close>

definition token_weight :: "Token \<Rightarrow> nat" where
  "token_weight t = (if Type t = EOL then 0 else 1)"

definition left :: "'p parser \<Rightarrow> nat" where
  "left p = unread (pr_l p) + token_weight (pr_peek p) + token_weight (pr_cur p)"

lemma unread_read_le: "unread (readCharacter l) \<le> unread l"
  by (auto simp: unread_def)

lemma scanString_le: "unread (snd (scanString u res l)) \<le> unread l"
proof (induction u res l rule: scanString.induct)
  case (1 u res l)
  then show ?case
    using unread_read_le [of l] by (subst scanString.simps) (auto intro: order_trans)
qed

lemma scanWhitespace_le: "unread (snd (scanWhitespace res l)) \<le> unread l"
proof (induction res l rule: scanWhitespace.induct)
  case (1 res l)
  then show ?case
    using unread_read_le [of l] by (subst scanWhitespace.simps) (auto intro: order_trans)
qed

lemma phrase_loop_le: "unread (snd (phrase_loop res l)) \<le> unread l"
proof (induction res l rule: phrase_loop.induct)
  case (1 res l)
  then show ?case
    using unread_read_le [of l] unread_read_le [of "readCharacter l"]
    by (subst phrase_loop.simps) (auto simp: Let_def intro: order_trans)
qed

lemma scan_progress:
  "unread (snd (scan u l)) < unread l \<or> fst (fst (scan u l)) = EOL \<and> snd (scan u l) = l"
proof -
  have one: "peek l \<noteq> 0 \<Longrightarrow> unread (snd (read_one t l)) < unread l" for t
    using peek_nonzero [of l] unread_readCharacter by (simp add: read_one_def Let_def)
  have nul: "CurrentPos l < length (Input l) \<Longrightarrow> unread (snd (read_one NUL l)) < unread l"
    using unread_readCharacter by (simp add: read_one_def Let_def)
  have phrase: "peek l = 39 \<Longrightarrow> unread (snd (scanPhrase l)) < unread l"
    using peek_nonzero [of l] unread_readCharacter [of l] phrase_loop_le [of "[]" "readCharacter l"]
    by (auto simp: scanPhrase_def)
  have ws: "isBlank (peek l) \<Longrightarrow> unread (snd (scanWhitespace [] l)) < unread l"
    using blank_unread [of l] scanWhitespace_le [of "[peek l]" "readCharacter l"]
    by (subst scanWhitespace.simps) simp
  have word: "isWordCharacter u (peek l) \<Longrightarrow> unread (snd (scanString u [] l)) < unread l"
    using word_unread [of u l] scanString_le [of u "[peek l]" "readCharacter l"]
    by (subst scanString.simps) simp
  show ?thesis
    unfolding scan_def Let_def split_beta
    using one nul phrase ws word by (simp add: isBlank_def)
qed

lemma left_next: "Type (pr_cur p) \<noteq> EOL \<Longrightarrow> left (next_tok g p) < left p"
  using scan_progress [of "uni g" "pr_l p"]
  by (auto simp: left_def next_tok_def Next_def token_weight_def split_beta)

lemma left_next_le: "left (next_tok g p) \<le> left p"
  using scan_progress [of "uni g" "pr_l p"]
  by (auto simp: left_def next_tok_def Next_def token_weight_def split_beta)

lemma left_take: "left (snd (take_tok g p)) \<le> left p"
  by (simp add: take_tok_def left_next_le)

lemma left_expect: "left (snd (expect g t p)) \<le> left p"
  by (simp add: expect_def left_next_le)

lemma left_warn [simp]: "left (warnMisCasedKeyword g tok p) = left p"
  "left (add_warning m c p) = left p"
  by (simp_all add: warnMisCasedKeyword_def add_warning_def left_def Let_def)

lemma left_and_then:
  assumes "left (snd s) \<le> n" "\<And>x p. left p \<le> n \<Longrightarrow> left (snd (f x p)) \<le> n"
  shows "left (snd (and_then s f)) \<le> n"
  using assms by (auto simp: and_then_def split: prod.split sum.split)

lemma left_parseSeparator: "left (snd (parseSeparator g key p)) \<le> left p"
  using left_expect [of g COLON p]
  by (auto simp: parseSeparator_def split: prod.split sum.split)

lemma left_parseValue: "left (snd (parseValue g p)) \<le> left p"
  using left_next_le [of g p] by (auto simp: parseValue_def take_tok_def)

lemma left_after_separator:
  assumes cur: "Type (pr_cur p) \<noteq> EOL" and f: "\<And>x p. left (snd (f x p)) \<le> left p"
  shows "left (snd (and_then (parseSeparator g key (next_tok g p)) f)) < left p"
proof -
  have "left (snd (and_then (parseSeparator g key (next_tok g p)) f)) \<le> left (next_tok g p)"
    using left_parseSeparator [of g key] f by (intro left_and_then) (auto intro: order_trans)
  then show ?thesis using left_next [OF cur] by (rule order.strict_trans1)
qed

lemma left_parseIntField: "Type (pr_cur p) \<noteq> EOL \<Longrightarrow> left (snd (parseIntField g p)) < left p"
  unfolding parseIntField_def Let_def
  by (rule left_after_separator)
    (auto simp: take_tok_def left_next_le Let_def split: sum.split numError.split)

lemma left_parseTimeValue: "Type (pr_cur p) \<noteq> EOL \<Longrightarrow> left (snd (parseTimeValue g p)) < left p"
  unfolding parseTimeValue_def Let_def
  by (rule left_after_separator)
    (auto simp: take_tok_def left_next_le Let_def split: sum.split time_error.split TimeValue.split)

lemma left_parseAnchorField: "Type (pr_cur p) \<noteq> EOL \<Longrightarrow> left (snd (parseAnchorField g p)) < left p"
  unfolding parseAnchorField_def Let_def
  by (erule left_after_separator, rule left_and_then) (auto simp: left_parseValue split: option.split)

lemma left_parseVecField: "Type (pr_cur p) \<noteq> EOL \<Longrightarrow> left (snd (parseVecField g p)) < left p"
  unfolding parseVecField_def take_tok_def Let_def prod.case
proof (rule left_after_separator)
  fix x :: unit and p :: "'a parser"
  show "left (snd (case expect g DOLLAR p of (Inl _, p) \<Rightarrow>
          (Inl (ParseError (Pos (pr_cur p)) (ExpectedDollar (pr_cur p))), p)
      | (Inr _, p) \<Rightarrow> if Type (pr_cur p) = WHITESPACE
          then (Inl (ParseError (Pos (pr_cur p)) NoSpaceAfterDollar), p)
          else and_then (expect g LITERAL p) (\<lambda>tok p. (Inr \<lparr>node_pos = 0, node_end = 0, vf_key = pr_cur q,
            vf_param = tok, vf_value = pr_params p (Literal tok)\<rparr>, p)))) \<le> left p" for q
    using left_expect [of g DOLLAR p] left_expect [of g LITERAL "snd (expect g DOLLAR p)"]
    by (auto simp: and_then_def split: prod.split sum.split)
qed

lemma cur_warn [simp]:
  "pr_cur (warnMisCasedKeyword g tok p) = pr_cur p" "pr_peek (warnMisCasedKeyword g tok p) = pr_peek p"
  by (simp_all add: warnMisCasedKeyword_def add_warning_def Let_def)

text \<open>The forms in which the clause loops use these facts.\<close>

lemma left_anchor_clause:
  "(x, y) = parseAnchorField g (warnMisCasedKeyword g t p) \<Longrightarrow> \<not> isAtEnd p \<Longrightarrow> left y < left p"
  using left_parseAnchorField [of "warnMisCasedKeyword g t p" g] by (metis cur_warn(1) isAtEnd_def left_warn(1) snd_conv)

lemma left_time_clause:
  "(x, y) = parseTimeValue g (warnMisCasedKeyword g t p) \<Longrightarrow> \<not> isAtEnd p \<Longrightarrow> left y < left p"
  using left_parseTimeValue [of "warnMisCasedKeyword g t p" g] by (metis cur_warn(1) isAtEnd_def left_warn(1) snd_conv)

lemma left_int_clause:
  "(x, y) = parseIntField g (warnMisCasedKeyword g t p) \<Longrightarrow> \<not> isAtEnd p \<Longrightarrow> left y < left p"
  using left_parseIntField [of "warnMisCasedKeyword g t p" g] by (metis cur_warn(1) isAtEnd_def left_warn(1) snd_conv)

lemma left_vec_clause:
  "(x, y) = parseVecField g (warnMisCasedKeyword g t p) \<Longrightarrow> \<not> isAtEnd p \<Longrightarrow> left y < left p"
  using left_parseVecField [of "warnMisCasedKeyword g t p" g] by (metis cur_warn(1) isAtEnd_def left_warn(1) snd_conv)

lemma left_blank_clause: "\<not> isAtEnd p \<Longrightarrow> left (next_tok g (warnMisCasedKeyword g t p)) < left p"
  using left_next [of "warnMisCasedKeyword g t p" g] by (simp add: isAtEnd_def)

lemmas left_clause = left_anchor_clause left_time_clause left_int_clause left_vec_clause left_blank_clause

section \<open>Commands\<close>

function parseTerms :: "lang \<Rightarrow> TermNode list \<Rightarrow> 'p parser \<Rightarrow> ('p, TermNode list) step" where
  "parseTerms g ts p =
     (if isAtEnd p then (Inr ts, p)
      else if Type (pr_cur p) = WHITESPACE then parseTerms g ts (next_tok g p)
      else if IsMisCasedKeyword (uni g) (pr_cur p) then (Inl (errUnexpected g (pr_cur p)), p)
      else if \<not> isValue p then (Inr ts, p)
      else if IsKeyword (Type (pr_cur p)) then
        (let (key, p) = take_tok g p
         in if Type (pr_cur p) = WHITESPACE \<and> Type (pr_peek p) = COLON
            then (Inl (ParseError (Pos (pr_cur p)) NoSpaceBeforeColon), p)
            else (Inl (errKeywordAsTerm g key (clauseValue g key (afterBlank p))), p))
      else
        (case errEmpty ''a search term'' (Literal (pr_cur p)) (Pos (pr_cur p)) of
           Some e \<Rightarrow> (Inl e, next_tok g p)
         | None \<Rightarrow>
             parseTerms g
               (ts @ [\<lparr>node_pos = 0, node_end = 0, tn_token = pr_cur p,
                       tn_value = ToLower (uni g) (Literal (pr_cur p))\<rparr>])
               (next_tok g p)))"
  by pat_completeness auto
termination
  by (relation "measure (\<lambda>(g, ts, p). left p)") (auto simp: isAtEnd_def intro: left_next)

function recall_clauses :: "lang \<Rightarrow> 'p RecallCommandNode \<Rightarrow> 'p parser \<Rightarrow> ('p, 'p RecallCommandNode) step" where
  "recall_clauses g r p =
     (if isAtEnd p then (Inr r, p)
      else if isDanglingKeyword p then (Inl (errKeywordAsClause g (pr_cur p)), p)
      else
        let p = warnMisCasedKeyword g (pr_cur p) p; t = Type (pr_cur p)
        in if t = ENTITY then
             (case parseAnchorField g p of
                (Inl e, p1) \<Rightarrow> (Inl e, p1)
              | (Inr (key, tok, v), p1) \<Rightarrow>
                  recall_clauses g (r\<lparr>rc_entities := rc_entities r @
                    [\<lparr>an_clause = None, an_token = zero_token, an_field = EntityField
                      \<lparr>node_pos = 0, node_end = 0, ef_key = key, ef_token = tok, ef_value = v\<rparr>\<rparr>]\<rparr>) p1)
           else if t = TOPIC then
             (case parseAnchorField g p of
                (Inl e, p1) \<Rightarrow> (Inl e, p1)
              | (Inr (key, tok, v), p1) \<Rightarrow>
                  recall_clauses g (r\<lparr>rc_topics := rc_topics r @
                    [\<lparr>an_clause = None, an_token = zero_token, an_field = TopicField
                      \<lparr>node_pos = 0, node_end = 0, tf_key = key, tf_token = tok, tf_value = v\<rparr>\<rparr>]\<rparr>) p1)
           else if t = UNTIL then
             (if Type (tm_key (rc_until r)) = UNTIL then (Inl (errDuplicate g (pr_cur p)), p)
              else case parseTimeValue g p of
                (Inl e, p1) \<Rightarrow> (Inl e, p1)
              | (Inr (key, tok, v), p1) \<Rightarrow>
                  recall_clauses g (r\<lparr>rc_until :=
                    \<lparr>node_pos = 0, node_end = 0, tm_key = key, tm_token = tok, tm_value = Some v\<rparr>\<rparr>) p1)
           else if t = SINCE then
             (if Type (tm_key (rc_since r)) = SINCE then (Inl (errDuplicate g (pr_cur p)), p)
              else case parseTimeValue g p of
                (Inl e, p1) \<Rightarrow> (Inl e, p1)
              | (Inr (key, tok, v), p1) \<Rightarrow>
                  recall_clauses g (r\<lparr>rc_since :=
                    \<lparr>node_pos = 0, node_end = 0, tm_key = key, tm_token = tok, tm_value = Some v\<rparr>\<rparr>) p1)
           else if t = DEPTH then
             (if Type (if_key (rc_depth r)) = DEPTH then (Inl (errDuplicate g (pr_cur p)), p)
              else case parseIntField g p of
                (Inl e, p1) \<Rightarrow> (Inl e, p1)
              | (Inr (key, v), p1) \<Rightarrow>
                  recall_clauses g (r\<lparr>rc_depth :=
                    \<lparr>node_pos = 0, node_end = 0, if_key = key, if_value = v\<rparr>\<rparr>) p1)
           else if t = TOP then
             (if Type (if_key (rc_top r)) = TOP then (Inl (errDuplicate g (pr_cur p)), p)
              else case parseIntField g p of
                (Inl e, p1) \<Rightarrow> (Inl e, p1)
              | (Inr (key, v), p1) \<Rightarrow>
                  recall_clauses g (r\<lparr>rc_top :=
                    \<lparr>node_pos = 0, node_end = 0, if_key = key, if_value = v\<rparr>\<rparr>) p1)
           else if t = VEC then
             (if rc_vec r \<noteq> None then (Inl (errDuplicate g (pr_cur p)), p)
              else case parseVecField g p of
                (Inl e, p1) \<Rightarrow> (Inl e, p1)
              | (Inr vec, p1) \<Rightarrow> recall_clauses g (r\<lparr>rc_vec := Some vec\<rparr>) p1)
           else if t = WHITESPACE then recall_clauses g r (next_tok g p)
           else (Inl (errUnexpected g (pr_cur p)), p))"
  by pat_completeness auto
termination
  by (relation "measure (\<lambda>(g, r, p). left p)")
    (auto intro: left_clause)

text \<open>The clauses of a remember; \<open>anchors\<close> is the local list of the loop.\<close>

function remember_clauses ::
    "lang \<Rightarrow> AnchorFieldNode list \<Rightarrow> 'p RememberCommandNode \<Rightarrow> 'p parser \<Rightarrow> ('p, 'p RememberCommandNode) step" where
  "remember_clauses g anchors r p =
     (if isAtEnd p then (Inr (r\<lparr>rm_anchors := anchors\<rparr>), p)
      else if isDanglingKeyword p then (Inl (errKeywordAsClause g (pr_cur p)), p)
      else
        let p = warnMisCasedKeyword g (pr_cur p) p; t = Type (pr_cur p)
        in if t = ENTITY \<or> t = TOPIC then
             (case parseAnchorField g p of
                (Inl e, p1) \<Rightarrow> (Inl e, p1)
              | (Inr (key, tok, v), p1) \<Rightarrow>
                  remember_clauses g
                    (anchors @ [\<lparr>an_clause = None, an_token = zero_token, an_field =
                       (if Type key = TOPIC
                        then TopicField \<lparr>node_pos = 0, node_end = 0, tf_key = key, tf_token = tok, tf_value = v\<rparr>
                        else EntityField \<lparr>node_pos = 0, node_end = 0, ef_key = key, ef_token = tok, ef_value = v\<rparr>)\<rparr>])
                    r p1)
           else if t = VEC then
             (if rm_vec r \<noteq> None then (Inl (errDuplicate g (pr_cur p)), p)
              else case parseVecField g p of
                (Inl e, p1) \<Rightarrow> (Inl e, p1)
              | (Inr vec, p1) \<Rightarrow> remember_clauses g anchors (r\<lparr>rm_vec := Some vec\<rparr>) p1)
           else if t \<in> {SINCE, UNTIL, TOP, DEPTH} then
             (if Type (pr_peek p) = COLON then (Inl (errRecallClauseOnWrite g (pr_cur p)), p)
              else (Inl (errUnexpected g (pr_cur p)), p))
           else if t = WHITESPACE then remember_clauses g anchors r (next_tok g p)
           else (Inl (errUnexpected g (pr_cur p)), p))"
  by pat_completeness auto
termination
  by (relation "measure (\<lambda>(g, anchors, r, p). left p)") (auto intro: left_clause)

declare parseTerms.simps [simp del, loop_defs] recall_clauses.simps [simp del, loop_defs]
  remember_clauses.simps [simp del, loop_defs]

definition parseRemember :: "lang \<Rightarrow> 'p parser \<Rightarrow> ('p, 'p RememberCommandNode) step" where
  "parseRemember g p =
     (let r = zero_remember\<lparr>rm_key := pr_cur p\<rparr>
      in and_then (parseSelector g (rm_key r) (next_tok g p)) (\<lambda>selector p.
         and_then (parsePhrase g p) (\<lambda>phrase p.
         remember_clauses g [] (r\<lparr>rm_selector := selector, rm_value := phrase\<rparr>) p)))"

definition parseRecall :: "lang \<Rightarrow> 'p parser \<Rightarrow> ('p, 'p RecallCommandNode) step" where
  "parseRecall g p =
     (let r = zero_recall\<lparr>rc_key := pr_cur p\<rparr>
      in and_then (parseSelector g (rc_key r) (next_tok g p)) (\<lambda>selector p.
         and_then (parseTerms g [] p) (\<lambda>ts p.
         and_then (recall_clauses g (r\<lparr>rc_selector := selector, rc_terms := ts\<rparr>) p) (\<lambda>r p.
         if rc_terms r = [] \<and> rc_topics r = [] \<and> rc_entities r = [] \<and> rc_vec r = None
         then (Inl (ParseError (Pos (rc_key r)) NeedsSeed), p)
         else and_then (warnStopWords g r p) (\<lambda>_ p.
           (Inr r, warnAnchorsWithoutDepth r (warnDepthWithoutGraph r p)))))))"

definition parseQuery :: "lang \<Rightarrow> 'p parser \<Rightarrow> ('p, 'p CommandNode) step" where
  "parseQuery g p =
     (if Type (pr_cur p) = REMEMBER then and_then (parseRemember g p) (\<lambda>r p. (Inr (Remember r), p))
      else if Type (pr_cur p) = RECALL then and_then (parseRecall g p) (\<lambda>r p. (Inr (Recall r), p))
      else (Inl (ParseError (Pos (pr_cur p)) (ExpectedCommand (pr_cur p))), p))"

text \<open>The loop of \<open>Parse\<close> over trailing blank lines.\<close>

function skip_trailing :: "lang \<Rightarrow> 'p parser \<Rightarrow> 'p parser" where
  "skip_trailing g p =
     (if Type (pr_cur p) = NEWLINE \<or> Type (pr_cur p) = WHITESPACE then skip_trailing g (next_tok g p) else p)"
  by pat_completeness auto
termination
  by (relation "measure (\<lambda>(g, p). left p)") (auto intro: left_next)

declare skip_trailing.simps [simp del, loop_defs]

fun bad_rune :: "runes \<Rightarrow> nat \<Rightarrow> nat option" where
  "bad_rune [] col = None"
| "bad_rune (r # q) col = (if r = 0xFFFD then Some (Suc col) else bad_rune q (Suc col))"

definition Parse :: "lang \<Rightarrow> runes \<Rightarrow> (runes \<rightharpoonup> 'p list) \<Rightarrow> (parse_error + 'p CommandNode) \<times> Warning list" where
  "Parse g q params =
     (case bad_rune q 0 of
        Some col \<Rightarrow> (Inl (ParseError col NotUTF8), [])
      | None \<Rightarrow>
          let p = \<lparr>pr_l = New q, pr_cur = zero_token, pr_peek = zero_token, pr_warns = [], pr_params = params\<rparr>;
              p = next_tok g (next_tok g p)
          in case parseQuery g p of
               (Inl e, p) \<Rightarrow> (Inl e, pr_warns p)
             | (Inr command, p) \<Rightarrow>
                 let p = skip_trailing g p
                 in if Type (pr_cur p) \<noteq> EOL
                    then (Inl (ParseError (Pos (pr_cur p)) (UnexpectedAfterEnd (pr_cur p))), pr_warns p)
                    else (Inr command, pr_warns p))"

end
