(* ===== verification/Parser_Results.thy ===== *)
theory Parser_Results
  imports Parser_Grammar
begin

text \<open>
  What the parser guarantees of the commands it returns: a recall has a seed, every value is
  folded and non-empty, each modifier is absent or comes from its own clause, and the vector is
  the parameter named. Each leaf has a lemma on the value it returns; the loops carry the
  invariant from clause to clause.
\<close>

section \<open>What the leaves return\<close>

lemma and_then_Inr:
  "and_then s f = (Inr y, p1) \<longleftrightarrow> (\<exists>x p. s = (Inr x, p) \<and> f x p = (Inr y, p1))"
  by (cases s; cases "fst s") (auto simp: and_then_def)

lemma params_next [simp]: "pr_params (next_tok g p) = pr_params p"
  by (simp add: next_tok_def split_beta)

lemma params_warn [simp]: "pr_params (warnMisCasedKeyword g t p) = pr_params p"
  by (simp add: warnMisCasedKeyword_def add_warning_def Let_def)

lemma expect_Inr: "expect g t p = (Inr tok, p1) \<longleftrightarrow> Type tok = t \<and> tok = pr_cur p \<and> p1 = next_tok g p"
  by (auto simp: expect_def)

lemma case_expect_Inr:
  "(case expect g t p of (Inl _, p') \<Rightarrow> (Inl (e p'), p') | (Inr x, p') \<Rightarrow> f x p') = (Inr y, p1) \<longleftrightarrow>
     Type (pr_cur p) = t \<and> f (pr_cur p) (next_tok g p) = (Inr y, p1)"
  by (simp add: expect_def)

lemma parseSeparator_Inr: "parseSeparator g key p = (Inr x, p1) \<Longrightarrow> p1 = next_tok g p \<and> Type (pr_cur p) = COLON"
  by (auto simp: parseSeparator_def expect_def split: if_splits)

lemma errEmpty_None: "errEmpty role v c = None \<longleftrightarrow> TrimSpace v \<noteq> []"
  by (simp add: errEmpty_def)

lemma parseValue_Inr:
  "parseValue g p = (Inr tok, p1) \<Longrightarrow> tok = pr_cur p \<and> p1 = next_tok g p \<and> isValue p"
  by (auto simp: parseValue_def take_tok_def split: if_splits)

lemma parseAnchorField_Inr:
  "parseAnchorField g p = (Inr (key, tok, v), p1) \<Longrightarrow>
   key = pr_cur p \<and> TrimSpace (Literal tok) \<noteq> [] \<and> v = ToLower (uni g) (Literal tok) \<and>
   pr_params p1 = pr_params p"
  by (auto simp: parseAnchorField_def Let_def and_then_Inr errEmpty_None split: option.splits
      dest!: parseSeparator_Inr parseValue_Inr)

lemma parseIntField_Inr:
  "parseIntField g p = (Inr (key, i), p1) \<Longrightarrow>
   key = pr_cur p \<and> - maxInt64 - 1 \<le> i \<and> i \<le> maxInt64 \<and> pr_params p1 = pr_params p"
  by (auto simp: parseIntField_def and_then_Inr take_tok_def Let_def split: if_splits sum.splits numError.splits
      dest!: parseSeparator_Inr Atoi_bounds)

text \<open>A duration is written bare.\<close>

definition unquoted :: "Token \<Rightarrow> TimeValue \<Rightarrow> bool" where
  "unquoted tok t \<longleftrightarrow> (case t of RelativeTime d \<Rightarrow> Type tok \<noteq> PHRASE | _ \<Rightarrow> True)"

lemma parseTimeValue_Inr:
  "parseTimeValue g p = (Inr (key, tok, t), p1) \<Longrightarrow>
   key = pr_cur p \<and> ParseTimeValue (tlib g) (Literal tok) = Inr t \<and>
   unquoted tok t \<and> pr_params p1 = pr_params p"
  by (auto simp: parseTimeValue_def and_then_Inr take_tok_def Let_def unquoted_def
      split: if_splits sum.splits time_error.splits TimeValue.splits dest!: parseSeparator_Inr)

lemma parseVecField_Inr:
  "parseVecField g p = (Inr v, p1) \<Longrightarrow>
   vf_key v = pr_cur p \<and> Type (vf_param v) = LITERAL \<and>
   vf_value v = pr_params p (Literal (vf_param v)) \<and> pr_params p1 = pr_params p"
  by (auto simp: parseVecField_def take_tok_def and_then_Inr case_expect_Inr expect_Inr split: if_splits
      dest!: parseSeparator_Inr)

lemma unat_byte: "\<not> i < 0 \<Longrightarrow> \<not> 255 < i \<Longrightarrow> uint (word_of_int i :: 8 word) = i"
  by (simp add: uint_word_of_int)

text \<open>A selector is the number written, never that number modulo 256.\<close>

lemma parseGraphSelector_Inr:
  "parseGraphSelector g p = (Inr (key, v), p1) \<Longrightarrow>
   key = pr_cur p \<and> Atoi (Literal (pr_cur (next_tok g p))) = Inr (int (unat v)) \<and> pr_params p1 = pr_params p"
  by (auto simp: parseGraphSelector_def take_tok_def Let_def unat_byte
      split: if_splits sum.splits)

lemma parseSelector_Inr:
  "parseSelector g cmd p = (Inr sel, p1) \<Longrightarrow>
   pr_params p1 = pr_params p \<and>
   (if Type (pr_cur p) = AT
    then Type (gs_key sel) = AT \<and> Atoi (Literal (pr_cur (next_tok g p))) = Inr (int (unat (gs_value sel)))
    else sel = zero_selector)"
  by (auto simp: parseSelector_def and_then_Inr case_expect_Inr split: prod.splits if_splits
      dest!: parseGraphSelector_Inr)

section \<open>One clause\<close>

text \<open>What one round of the clause loop may do to the recall it builds.\<close>

inductive adds_clause ::
    "lang \<Rightarrow> (runes \<rightharpoonup> 'p list) \<Rightarrow> 'p RecallCommandNode \<Rightarrow> 'p RecallCommandNode \<Rightarrow> bool"
  for g ps where
  entity: "Type key = ENTITY \<Longrightarrow> TrimSpace (Literal tok) \<noteq> [] \<Longrightarrow> v = ToLower (uni g) (Literal tok) \<Longrightarrow>
    adds_clause g ps r (r\<lparr>rc_entities := rc_entities r @
      [\<lparr>an_clause = None, an_token = zero_token, an_field = EntityField
        \<lparr>node_pos = 0, node_end = 0, ef_key = key, ef_token = tok, ef_value = v\<rparr>\<rparr>]\<rparr>)"
| topic: "Type key = TOPIC \<Longrightarrow> TrimSpace (Literal tok) \<noteq> [] \<Longrightarrow> v = ToLower (uni g) (Literal tok) \<Longrightarrow>
    adds_clause g ps r (r\<lparr>rc_topics := rc_topics r @
      [\<lparr>an_clause = None, an_token = zero_token, an_field = TopicField
        \<lparr>node_pos = 0, node_end = 0, tf_key = key, tf_token = tok, tf_value = v\<rparr>\<rparr>]\<rparr>)"
| until: "Type (tm_key (rc_until r)) \<noteq> UNTIL \<Longrightarrow> Type key = UNTIL \<Longrightarrow>
    ParseTimeValue (tlib g) (Literal tok) = Inr t \<Longrightarrow> unquoted tok t \<Longrightarrow>
    adds_clause g ps r (r\<lparr>rc_until :=
      \<lparr>node_pos = 0, node_end = 0, tm_key = key, tm_token = tok, tm_value = Some t\<rparr>\<rparr>)"
| since: "Type (tm_key (rc_since r)) \<noteq> SINCE \<Longrightarrow> Type key = SINCE \<Longrightarrow>
    ParseTimeValue (tlib g) (Literal tok) = Inr t \<Longrightarrow> unquoted tok t \<Longrightarrow>
    adds_clause g ps r (r\<lparr>rc_since :=
      \<lparr>node_pos = 0, node_end = 0, tm_key = key, tm_token = tok, tm_value = Some t\<rparr>\<rparr>)"
| depth: "Type (if_key (rc_depth r)) \<noteq> DEPTH \<Longrightarrow> Type key = DEPTH \<Longrightarrow> - maxInt64 - 1 \<le> i \<Longrightarrow> i \<le> maxInt64 \<Longrightarrow>
    adds_clause g ps r (r\<lparr>rc_depth := \<lparr>node_pos = 0, node_end = 0, if_key = key, if_value = i\<rparr>\<rparr>)"
| top: "Type (if_key (rc_top r)) \<noteq> TOP \<Longrightarrow> Type key = TOP \<Longrightarrow> - maxInt64 - 1 \<le> i \<Longrightarrow> i \<le> maxInt64 \<Longrightarrow>
    adds_clause g ps r (r\<lparr>rc_top := \<lparr>node_pos = 0, node_end = 0, if_key = key, if_value = i\<rparr>\<rparr>)"
| vec: "rc_vec r = None \<Longrightarrow> Type (vf_key v) = VEC \<Longrightarrow> Type (vf_param v) = LITERAL \<Longrightarrow>
    vf_value v = ps (Literal (vf_param v)) \<Longrightarrow> adds_clause g ps r (r\<lparr>rc_vec := Some v\<rparr>)"
| blank: "adds_clause g ps r r"

text \<open>A round that does not end the loop leaves less to read and adds one clause.\<close>

lemma recall_clauses_round:
  assumes "recall_clauses g r p = (Inr r', p')" "\<not> isAtEnd p"
  shows "\<exists>r1 p1. recall_clauses g r1 p1 = (Inr r', p') \<and> left p1 < left p \<and>
    pr_params p1 = pr_params p \<and> adds_clause g (pr_params p) r r1"
proof -
  let ?p = "warnMisCasedKeyword g (pr_cur p) p" and ?t = "Type (pr_cur p)"
  note u = assms(1) [unfolded recall_clauses.simps [of g r p] Let_def]
  have nd: "\<not> isDanglingKeyword p" using u assms(2) by auto
  consider "?t = ENTITY" | "?t = TOPIC" | "?t = UNTIL" | "?t = SINCE" | "?t = DEPTH" | "?t = TOP" | "?t = VEC" | "?t = WHITESPACE"
    using u assms(2) nd by (auto split: if_splits)
  then show ?thesis
  proof cases
    case 1
    then obtain key tok v p1 where a: "parseAnchorField g ?p = (Inr (key, tok, v), p1)"
      using u assms(2) nd by (cases "parseAnchorField g ?p"; cases "fst (parseAnchorField g ?p)") auto
    with u assms(2) nd 1 show ?thesis
      using parseAnchorField_Inr [OF a] left_anchor_clause [OF a [symmetric]] by (auto intro!: exI entity)
  next
    case 2
    then obtain key tok v p1 where a: "parseAnchorField g ?p = (Inr (key, tok, v), p1)"
      using u assms(2) nd by (cases "parseAnchorField g ?p"; cases "fst (parseAnchorField g ?p)") auto
    with u assms(2) nd 2 show ?thesis
      using parseAnchorField_Inr [OF a] left_anchor_clause [OF a [symmetric]] by (auto intro!: exI topic)
  next
    case 3
    then obtain key tok t p1 where a: "parseTimeValue g ?p = (Inr (key, tok, t), p1)"
      using u assms(2) nd by (cases "parseTimeValue g ?p"; cases "fst (parseTimeValue g ?p)") (auto split: if_splits)
    with u assms(2) nd 3 show ?thesis
      using parseTimeValue_Inr [OF a] left_time_clause [OF a [symmetric]]
      by (auto intro!: exI until split: if_splits)
  next
    case 4
    then obtain key tok t p1 where a: "parseTimeValue g ?p = (Inr (key, tok, t), p1)"
      using u assms(2) nd by (cases "parseTimeValue g ?p"; cases "fst (parseTimeValue g ?p)") (auto split: if_splits)
    with u assms(2) nd 4 show ?thesis
      using parseTimeValue_Inr [OF a] left_time_clause [OF a [symmetric]]
      by (auto intro!: exI since split: if_splits)
  next
    case 5
    then obtain key i p1 where a: "parseIntField g ?p = (Inr (key, i), p1)"
      using u assms(2) nd by (cases "parseIntField g ?p"; cases "fst (parseIntField g ?p)") (auto split: if_splits)
    with u assms(2) nd 5 show ?thesis
      using parseIntField_Inr [OF a] left_int_clause [OF a [symmetric]]
      by (auto intro!: exI depth split: if_splits)
  next
    case 6
    then obtain key i p1 where a: "parseIntField g ?p = (Inr (key, i), p1)"
      using u assms(2) nd by (cases "parseIntField g ?p"; cases "fst (parseIntField g ?p)") (auto split: if_splits)
    with u assms(2) nd 6 show ?thesis
      using parseIntField_Inr [OF a] left_int_clause [OF a [symmetric]]
      by (auto intro!: exI top split: if_splits)
  next
    case 7
    then obtain v p1 where a: "parseVecField g ?p = (Inr v, p1)"
      using u assms(2) nd by (cases "parseVecField g ?p"; cases "fst (parseVecField g ?p)") (auto split: if_splits)
    with u assms(2) nd 7 show ?thesis
      using parseVecField_Inr [OF a] left_vec_clause [OF a [symmetric]]
      by (auto intro!: exI vec split: if_splits)
  next
    case 8
    with u assms(2) nd show ?thesis using left_blank_clause [of p g "pr_cur p"] by (auto intro!: exI blank)
  qed
qed

section \<open>Recalls\<close>

definition term_ok :: "lang \<Rightarrow> TermNode \<Rightarrow> bool" where
  "term_ok g t \<longleftrightarrow> Type (tn_token t) \<in> {LITERAL, PHRASE} \<and> \<not> IsMisCasedKeyword (uni g) (tn_token t) \<and>
     TrimSpace (Literal (tn_token t)) \<noteq> [] \<and> tn_value t = ToLower (uni g) (Literal (tn_token t))"

definition anchor_ok :: "lang \<Rightarrow> TokenType \<Rightarrow> AnchorFieldNode \<Rightarrow> bool" where
  "anchor_ok g ty a \<longleftrightarrow>
     (case an_field a of
        EntityField f \<Rightarrow> ty = ENTITY \<and> Type (ef_key f) = ENTITY \<and> TrimSpace (Literal (ef_token f)) \<noteq> [] \<and>
          ef_value f = ToLower (uni g) (Literal (ef_token f))
      | TopicField f \<Rightarrow> ty = TOPIC \<and> Type (tf_key f) = TOPIC \<and> TrimSpace (Literal (tf_token f)) \<noteq> [] \<and>
          tf_value f = ToLower (uni g) (Literal (tf_token f)))"

definition int_ok :: "TokenType \<Rightarrow> IntFieldNode \<Rightarrow> bool" where
  "int_ok ty f \<longleftrightarrow> f = zero_int_field \<or>
     Type (if_key f) = ty \<and> - maxInt64 - 1 \<le> if_value f \<and> if_value f \<le> maxInt64"

definition time_ok :: "lang \<Rightarrow> TokenType \<Rightarrow> TimeFieldNode \<Rightarrow> bool" where
  "time_ok g ty f \<longleftrightarrow> f = zero_time_field \<or>
     Type (tm_key f) = ty \<and>
     (\<exists>t. tm_value f = Some t \<and> ParseTimeValue (tlib g) (Literal (tm_token f)) = Inr t \<and> unquoted (tm_token f) t)"

definition vec_ok :: "(runes \<rightharpoonup> 'p list) \<Rightarrow> 'p VecFieldNode option \<Rightarrow> bool" where
  "vec_ok ps v \<longleftrightarrow> (\<forall>f. v = Some f \<longrightarrow> Type (vf_key f) = VEC \<and> Type (vf_param f) = LITERAL \<and>
     vf_value f = ps (Literal (vf_param f)))"

definition clauses_ok :: "lang \<Rightarrow> (runes \<rightharpoonup> 'p list) \<Rightarrow> 'p RecallCommandNode \<Rightarrow> bool" where
  "clauses_ok g ps r \<longleftrightarrow> (\<forall>t \<in> set (rc_terms r). term_ok g t) \<and>
     (\<forall>a \<in> set (rc_entities r). anchor_ok g ENTITY a) \<and> (\<forall>a \<in> set (rc_topics r). anchor_ok g TOPIC a) \<and>
     int_ok TOP (rc_top r) \<and> int_ok DEPTH (rc_depth r) \<and> time_ok g SINCE (rc_since r) \<and>
     time_ok g UNTIL (rc_until r) \<and> vec_ok ps (rc_vec r)"

lemma adds_clause_ok: "adds_clause g ps r r1 \<Longrightarrow> clauses_ok g ps r \<Longrightarrow> clauses_ok g ps r1"
  by (induction rule: adds_clause.induct)
    (auto simp: clauses_ok_def anchor_ok_def int_ok_def time_ok_def vec_ok_def)

lemma adds_clause_keeps:
  "adds_clause g ps r r1 \<Longrightarrow> rc_key r1 = rc_key r \<and> rc_selector r1 = rc_selector r \<and> rc_terms r1 = rc_terms r"
  by (induction rule: adds_clause.induct) auto

lemma recall_clauses_ok:
  "recall_clauses g r p = (Inr r', p') \<Longrightarrow> clauses_ok g (pr_params p) r \<Longrightarrow>
   clauses_ok g (pr_params p) r' \<and> rc_key r' = rc_key r \<and> rc_selector r' = rc_selector r \<and>
   rc_terms r' = rc_terms r"
proof (induction "left p" arbitrary: r p rule: less_induct)
  case less
  show ?case
  proof (cases "isAtEnd p")
    case True
    then have "r' = r" using less.prems(1) by (subst (asm) recall_clauses.simps) simp
    then show ?thesis using less.prems(2) by simp
  next
    case False
    from recall_clauses_round [OF less.prems(1) False] obtain r1 p1 where
      r1: "recall_clauses g r1 p1 = (Inr r', p')" "left p1 < left p" "pr_params p1 = pr_params p"
        "adds_clause g (pr_params p) r r1" by blast
    from less.hyps [OF r1(2) r1(1)] r1(3) adds_clause_ok [OF r1(4) less.prems(2)] adds_clause_keeps [OF r1(4)]
    show ?thesis by simp
  qed
qed

lemma parseTerms_ok:
  "parseTerms g ts p = (Inr ts', p') \<Longrightarrow> \<forall>t \<in> set ts. term_ok g t \<Longrightarrow>
   (\<forall>t \<in> set ts'. term_ok g t) \<and> pr_params p' = pr_params p"
proof (induction g ts p rule: parseTerms.induct)
  case (1 g ts p)
  note u = "1.prems"(1) [unfolded parseTerms.simps [of g ts p]]
  consider "isAtEnd p \<or> (Type (pr_cur p) \<noteq> WHITESPACE \<and> \<not> IsMisCasedKeyword (uni g) (pr_cur p) \<and> \<not> isValue p)" |
    "\<not> isAtEnd p" "Type (pr_cur p) = WHITESPACE" |
    "\<not> isAtEnd p" "Type (pr_cur p) \<noteq> WHITESPACE" "\<not> IsMisCasedKeyword (uni g) (pr_cur p)" "isValue p"
      "\<not> IsKeyword (Type (pr_cur p))" "errEmpty ''a search term'' (Literal (pr_cur p)) (Pos (pr_cur p)) = None"
    using u by (auto simp: take_tok_def Let_def split: if_splits option.splits)
  then show ?case
  proof cases
    case 1
    then show ?thesis using u "1.prems"(2) by (auto split: if_splits)
  next
    case 2
    then show ?thesis using u "1.IH"(1) "1.prems"(2) by simp
  next
    case 3
    have "Type (pr_cur p) \<in> {LITERAL, PHRASE}" using 3(4,5) by (auto simp: isValue_def split: if_splits)
    then have "term_ok g \<lparr>node_pos = 0, node_end = 0, tn_token = pr_cur p,
        tn_value = ToLower (uni g) (Literal (pr_cur p))\<rparr>"
      using 3(3,6) by (simp add: term_ok_def errEmpty_None)
    then show ?thesis using u 3 "1.IH"(2) "1.prems"(2) by simp
  qed
qed

text \<open>A term that can match: a phrase, or a word that is not a stop word.\<close>

definition searchable :: "lang \<Rightarrow> TermNode \<Rightarrow> bool" where
  "searchable g t \<longleftrightarrow> Type (tn_token t) \<noteq> LITERAL \<or> CleanContent (uni g) (Literal (tn_token t)) \<noteq> []"

lemma stop_scan_spec:
  "stop_scan (uni g) ts seeded stops =
     (seeded \<or> (\<exists>t \<in> set ts. searchable g t), stops @ map tn_token (filter (\<lambda>t. \<not> searchable g t) ts))"
  by (induction ts arbitrary: seeded stops) (auto simp: searchable_def)

lemma warnStopWords_Inr:
  assumes "warnStopWords g r p = (Inr x, p1)"
  shows "rc_terms r = [] \<or> rc_vec r \<noteq> None \<or> (\<exists>t \<in> set (rc_terms r). searchable g t)"
proof (rule ccontr)
  assume n: "\<not> ?thesis"
  then have "filter (\<lambda>t. \<not> searchable g t) (rc_terms r) = rc_terms r" by (auto intro!: filter_True)
  then have "stop_scan (uni g) (rc_terms r) (rc_vec r \<noteq> None) [] = (False, map tn_token (rc_terms r))"
    using n by (simp add: stop_scan_spec)
  then show False using assms n by (cases "rc_terms r") (auto simp: warnStopWords_def split: if_splits)
qed

definition recall_ok :: "lang \<Rightarrow> (runes \<rightharpoonup> 'p list) \<Rightarrow> 'p RecallCommandNode \<Rightarrow> bool" where
  "recall_ok g ps r \<longleftrightarrow> Type (rc_key r) = RECALL \<and> clauses_ok g ps r \<and>
     (rc_terms r \<noteq> [] \<or> rc_topics r \<noteq> [] \<or> rc_entities r \<noteq> [] \<or> rc_vec r \<noteq> None) \<and>
     (rc_terms r = [] \<or> rc_vec r \<noteq> None \<or> (\<exists>t \<in> set (rc_terms r). searchable g t))"

lemma parseRecall_ok:
  assumes "parseRecall g p = (Inr r, p')" "Type (pr_cur p) = RECALL"
  shows "recall_ok g (pr_params p) r"
proof -
  let ?r = "zero_recall\<lparr>rc_key := pr_cur p\<rparr>"
  from assms(1) obtain sel p1 ts p2 r1 p3 x p4 where s:
    "parseSelector g (pr_cur p) (next_tok g p) = (Inr sel, p1)"
    "parseTerms g [] p1 = (Inr ts, p2)"
    "recall_clauses g (?r\<lparr>rc_selector := sel, rc_terms := ts\<rparr>) p2 = (Inr r1, p3)"
    "rc_terms r1 \<noteq> [] \<or> rc_topics r1 \<noteq> [] \<or> rc_entities r1 \<noteq> [] \<or> rc_vec r1 \<noteq> None"
    "warnStopWords g r1 p3 = (Inr x, p4)" "r = r1"
    by (auto simp: parseRecall_def Let_def and_then_Inr split: if_splits)
  have "pr_params p1 = pr_params p" using parseSelector_Inr [OF s(1)] by simp
  moreover have ts: "\<forall>t \<in> set ts. term_ok g t" "pr_params p2 = pr_params p1"
    using parseTerms_ok [OF s(2)] by auto
  moreover have "clauses_ok g (pr_params p2) (?r\<lparr>rc_selector := sel, rc_terms := ts\<rparr>)"
    using ts(1) by (simp add: clauses_ok_def zero_recall_def int_ok_def time_ok_def vec_ok_def)
  from recall_clauses_ok [OF s(3) this] have "clauses_ok g (pr_params p2) r1" "rc_key r1 = pr_cur p" by auto
  ultimately show ?thesis
    using s(4,6) warnStopWords_Inr [OF s(5)] assms(2) by (simp add: recall_ok_def)
qed

section \<open>Remembers\<close>

definition anchor_field_type :: "AnchorFieldNode \<Rightarrow> TokenType" where
  "anchor_field_type a = (case an_field a of EntityField _ \<Rightarrow> ENTITY | TopicField _ \<Rightarrow> TOPIC)"

definition remember_ok :: "lang \<Rightarrow> (runes \<rightharpoonup> 'p list) \<Rightarrow> 'p RememberCommandNode \<Rightarrow> bool" where
  "remember_ok g ps r \<longleftrightarrow> Type (rm_key r) = REMEMBER \<and> TrimSpace (ph_value (rm_value r)) \<noteq> [] \<and>
     (\<forall>a \<in> set (rm_anchors r). anchor_ok g (anchor_field_type a) a) \<and> vec_ok ps (rm_vec r)"

lemma remember_clauses_ok:
  "remember_clauses g anchors r p = (Inr r', p') \<Longrightarrow> \<forall>a \<in> set anchors. anchor_ok g (anchor_field_type a) a \<Longrightarrow>
   vec_ok (pr_params p) (rm_vec r) \<Longrightarrow>
   (\<forall>a \<in> set (rm_anchors r'). anchor_ok g (anchor_field_type a) a) \<and> vec_ok (pr_params p) (rm_vec r') \<and>
   rm_key r' = rm_key r \<and> rm_value r' = rm_value r"
proof (induction "left p" arbitrary: anchors r p rule: less_induct)
  case less
  let ?p = "warnMisCasedKeyword g (pr_cur p) p" and ?t = "Type (pr_cur p)"
  note u = less.prems(1) [unfolded remember_clauses.simps [of g anchors r p] Let_def]
  consider "isAtEnd p" | "\<not> isAtEnd p" "\<not> isDanglingKeyword p" "?t = ENTITY \<or> ?t = TOPIC"
    | "\<not> isAtEnd p" "\<not> isDanglingKeyword p" "?t = VEC" | "\<not> isAtEnd p" "\<not> isDanglingKeyword p" "?t = WHITESPACE"
    using u by (auto split: if_splits)
  then show ?case
  proof cases
    case 1
    then show ?thesis using u less.prems(2,3) by auto
  next
    case 2
    then obtain key tok v p1 where a: "parseAnchorField g ?p = (Inr (key, tok, v), p1)"
      using u by (cases "parseAnchorField g ?p"; cases "fst (parseAnchorField g ?p)") auto
    note ok = parseAnchorField_Inr [OF a] left_anchor_clause [OF a [symmetric] 2(1)]
    let ?a = "\<lparr>an_clause = None, an_token = zero_token, an_field =
      (if Type key = TOPIC
       then TopicField \<lparr>node_pos = 0, node_end = 0, tf_key = key, tf_token = tok, tf_value = v\<rparr>
       else EntityField \<lparr>node_pos = 0, node_end = 0, ef_key = key, ef_token = tok, ef_value = v\<rparr>)\<rparr>"
    have call: "remember_clauses g (anchors @ [?a]) r p1 = (Inr r', p')" using u a 2 by auto
    have "anchor_ok g (anchor_field_type ?a) ?a"
      using ok(1) 2(3) by (auto simp: anchor_ok_def anchor_field_type_def)
    then have "\<forall>a \<in> set (anchors @ [?a]). anchor_ok g (anchor_field_type a) a" using less.prems(2) by simp
    from less.hyps [OF ok(2) call this] less.prems(3) ok(1) show ?thesis by simp
  next
    case 3
    then obtain v p1 where a: "parseVecField g ?p = (Inr v, p1)" and n: "rm_vec r = None"
      using u by (cases "parseVecField g ?p"; cases "fst (parseVecField g ?p)") (auto split: if_splits)
    note ok = parseVecField_Inr [OF a] left_vec_clause [OF a [symmetric] 3(1)]
    have "remember_clauses g anchors (r\<lparr>rm_vec := Some v\<rparr>) p1 = (Inr r', p')" using u a n 3 by simp
    from less.hyps [OF ok(2) this less.prems(2)] ok(1) 3(3) show ?thesis by (simp add: vec_ok_def)
  next
    case 4
    have l: "left (next_tok g ?p) < left p" using 4(1) by (rule left_blank_clause)
    have "remember_clauses g anchors r (next_tok g ?p) = (Inr r', p')" using u 4 by simp
    from less.hyps [OF l this less.prems(2)] less.prems(3) show ?thesis by simp
  qed
qed

lemma parsePhrase_Inr:
  "parsePhrase g p = (Inr ph, p1) \<Longrightarrow> TrimSpace (ph_value ph) \<noteq> [] \<and> pr_params p1 = pr_params p"
  by (auto simp: parsePhrase_def case_expect_Inr errEmpty_None split: if_splits option.splits)

lemma parseRemember_ok:
  assumes "parseRemember g p = (Inr r, p')" "Type (pr_cur p) = REMEMBER"
  shows "remember_ok g (pr_params p) r"
proof -
  let ?r = "zero_remember\<lparr>rm_key := pr_cur p\<rparr>"
  from assms(1) obtain sel p1 ph p2 where s:
    "parseSelector g (pr_cur p) (next_tok g p) = (Inr sel, p1)" "parsePhrase g p1 = (Inr ph, p2)"
    "remember_clauses g [] (?r\<lparr>rm_selector := sel, rm_value := ph\<rparr>) p2 = (Inr r, p')"
    by (auto simp: parseRemember_def Let_def and_then_Inr)
  have "pr_params p2 = pr_params p" "TrimSpace (ph_value ph) \<noteq> []"
    using parseSelector_Inr [OF s(1)] parsePhrase_Inr [OF s(2)] by auto
  moreover have "vec_ok (pr_params p2) (rm_vec (?r\<lparr>rm_selector := sel, rm_value := ph\<rparr>))"
    by (simp add: zero_remember_def vec_ok_def)
  ultimately show ?thesis
    using remember_clauses_ok [OF s(3)] assms(2) by (simp add: remember_ok_def)
qed

section \<open>Property\<close>

fun command_ok :: "lang \<Rightarrow> (runes \<rightharpoonup> 'p list) \<Rightarrow> 'p CommandNode \<Rightarrow> bool" where
  "command_ok g ps (Recall r) = recall_ok g ps r"
| "command_ok g ps (Remember r) = remember_ok g ps r"

lemma parseQuery_ok:
  assumes "parseQuery g p = (Inr cmd, p')"
  shows "command_ok g (pr_params p) cmd"
proof (cases "Type (pr_cur p) = REMEMBER")
  case True
  with assms obtain r where "cmd = Remember r" "parseRemember g p = (Inr r, p')"
    by (auto simp: parseQuery_def and_then_Inr)
  then show ?thesis using parseRemember_ok True by simp
next
  case False
  with assms obtain r where "cmd = Recall r" "parseRecall g p = (Inr r, p')" "Type (pr_cur p) = RECALL"
    by (auto simp: parseQuery_def and_then_Inr split: if_splits)
  then show ?thesis using parseRecall_ok by simp
qed


text \<open>The definitions a concrete parse unfolds.\<close>

lemmas lexer_unfold = next_tok_def Next_def scan_def New_def peek_def readCharacter_def scanString.simps
  scanWhitespace.simps scanPhrase_def phrase_loop.simps read_one_def isWordCharacter_def IsLetter_def
  IsDigit_def word_type_def keyword_def KeywordsMap_def str_def isBlank_def Let_def

lemmas grammar_unfold = parseQuery_def parseRecall_def parseRemember_def parseSelector_def
  expect_def take_tok_def and_then_def parseTerms.simps recall_clauses.simps remember_clauses.simps
  isAtEnd_def zero_recall_def zero_remember_def isValue_def IsMisCasedKeyword_def ToLower_def
  lower_rune_def errEmpty_def TrimSpace_def IsSpace_def warnStopWords_def CleanContent_def Words_def
  isTermRune_def is_stop_def English_def warnAnchorsWithoutDepth_def warnDepthWithoutGraph_def
  HasDepth_def anchoredSearch_def zero_int_field_def zero_time_field_def zero_selector_def
  zero_token_def skip_trailing.simps isDanglingKeyword_def warnMisCasedKeyword_def parseIntField_def
  parseSeparator_def

definition plain :: lang where
  "plain = \<lparr>uni = ascii, tlib = no_dates\<rparr>"


text \<open>A quoted number passes for a count, sign included: the parser returns \<open>top:'-5'\<close> with the value
  \<open>-5\<close>, and the recall it returns prints as a query that does not parse.\<close>

theorem quoted_count_is_signed:
  "\<exists>r. Parse plain (str ''recall x top:'' @ quote (str ''-5'')) (Map.empty :: runes \<rightharpoonup> nat list) = (Inr (Recall r), []) \<and>
     recall_Top r 10 = -5 \<and> recall_String r = str ''recall x top:-5'' \<and>
     fst (Parse plain (recall_String r) (Map.empty :: runes \<rightharpoonup> nat list)) =
       Inl (ParseError 14 (InvalidInt (str ''top'') \<lparr>Type = MINUS, Literal = [45], Pos = 14\<rparr>))"
proof -
  have a: "\<exists>r. Parse plain (str ''recall x top:'' @ quote (str ''-5'')) (Map.empty :: runes \<rightharpoonup> nat list) = (Inr (Recall r), []) \<and>
     recall_Top r 10 = -5 \<and> recall_String r = str ''recall x top:-5''"
    by (simp add: Parse_def lexer_unfold plain_def ascii_def quote_def,
      simp add: lexer_unfold grammar_unfold recall_Top_def HasTop_def recall_String_def quote_def
        Atoi_def ParseInt_def ParseUint_def maxUint64_def maxInt64_def term_String_def selector_String_def
        int_String_def print_int_def decimal.simps)
  have b: "fst (Parse plain (str ''recall x top:-5'') (Map.empty :: runes \<rightharpoonup> nat list)) =
       Inl (ParseError 14 (InvalidInt (str ''top'') \<lparr>Type = MINUS, Literal = [45], Pos = 14\<rparr>))"
    by (simp add: Parse_def lexer_unfold plain_def ascii_def,
      simp add: lexer_unfold grammar_unfold Atoi_def ParseInt_def ParseUint_def)
  from a b show ?thesis by auto
qed

end
