(* ===== verification/Query_Core.thy ===== *)
theory Query_Core
  imports Parser_Results Config
begin

text \<open>
  \<open>internal/query\<close>: the executable queries, the checks between a parsed command and a query, and the
  two notions a plan cache needs, the key of a query (\<open>Hash\<close>) and the equality that confirms a hit
  (\<open>Equal\<close>). A Go string is its code points; its length in bytes is that of its UTF-8 form. The
  hash function \<open>h\<close>, the text of a key (\<open>show_key\<close>, \<open>fmt.Sprint\<close>) and of a coordinate (\<open>hex\<close>,
  \<open>strconv.FormatFloat\<close>) are parameters of \<open>key_lib\<close>. A nil vector and an empty one differ for no
  operation, so a vector is a list.
\<close>

record QueryParameters =
  qp_Top :: int
  qp_Depth :: int
  qp_Since :: "TimeValue option"
  qp_Until :: "TimeValue option"

record 'p RecallQuery =
  rq_Keywords :: "runes list"
  rq_Vector :: "'p list"
  rq_Entities :: "runes list"
  rq_Topics :: "runes list"
  rq_Parameters :: QueryParameters
  rq_GraphID :: "8 word"

record 'p RememberQuery =
  mq_Value :: runes
  mq_Entities :: "runes list"
  mq_Topics :: "runes list"
  mq_Vector :: "'p list"
  mq_GraphID :: "8 word"

datatype 'p Query = RecallQ "'p RecallQuery" | RememberQ "'p RememberQuery"

fun GetGraphID :: "'p Query \<Rightarrow> 8 word" where
  "GetGraphID (RecallQ r) = rq_GraphID r"
| "GetGraphID (RememberQ r) = mq_GraphID r"

fun IsWrite :: "'p Query \<Rightarrow> bool" where
  "IsWrite (RecallQ r) = False"
| "IsWrite (RememberQ r) = True"

text \<open>The zero time, 0 here, means no bound.\<close>

definition rq_Since :: "'p RecallQuery \<Rightarrow> int \<Rightarrow> int" where
  "rq_Since r now = (case qp_Since (rq_Parameters r) of None \<Rightarrow> 0 | Some t \<Rightarrow> Resolve t now)"

definition rq_Until :: "'p RecallQuery \<Rightarrow> int \<Rightarrow> int" where
  "rq_Until r now = (case qp_Until (rq_Parameters r) of None \<Rightarrow> 0 | Some t \<Rightarrow> Resolve t now)"

section \<open>Equality\<close>

fun bound_Equal :: "TimeValue option \<Rightarrow> TimeValue option \<Rightarrow> bool" where
  "bound_Equal None None = True"
| "bound_Equal (Some a) (Some b) = time_Equal a b"
| "bound_Equal _ _ = False"

definition params_Equal :: "QueryParameters \<Rightarrow> QueryParameters \<Rightarrow> bool" where
  "params_Equal p q =
     (qp_Top p = qp_Top q \<and> qp_Depth p = qp_Depth q \<and>
      bound_Equal (qp_Since p) (qp_Since q) \<and> bound_Equal (qp_Until p) (qp_Until q))"

definition vector_Equal :: "'p list \<Rightarrow> 'p list \<Rightarrow> bool" where
  "vector_Equal v w = (if length v \<noteq> length w then False else list_all (\<lambda>(x, y). x = y) (zip v w))"

fun query_Equal :: "'p Query \<Rightarrow> 'p Query \<Rightarrow> bool" where
  "query_Equal (RecallQ r) (RecallQ s) =
     (rq_GraphID s = rq_GraphID r \<and> rq_Keywords s = rq_Keywords r \<and> rq_Entities s = rq_Entities r \<and>
      rq_Topics s = rq_Topics r \<and> params_Equal (rq_Parameters s) (rq_Parameters r) \<and>
      vector_Equal (rq_Vector s) (rq_Vector r))"
| "query_Equal (RememberQ r) (RememberQ s) =
     (mq_GraphID s = mq_GraphID r \<and> mq_Value s = mq_Value r \<and> mq_Entities s = mq_Entities r \<and>
      mq_Topics s = mq_Topics r \<and> vector_Equal (mq_Vector s) (mq_Vector r))"
| "query_Equal _ _ = False"

section \<open>Keys\<close>

record ('k, 'p) key_lib =
  h :: "runes \<Rightarrow> 'k"
  show_key :: "'k \<Rightarrow> runes"
  hex :: "'p \<Rightarrow> runes"
  times :: time_lib

definition utf8_len :: "rune \<Rightarrow> nat" where
  "utf8_len c = (if c < 0x80 then 1 else if c < 0x800 then 2 else if c < 0x10000 then 3 else 4)"

definition byte_len :: "runes \<Rightarrow> nat" where
  "byte_len s = sum_list (map utf8_len s)"

fun writeStrings :: "runes list \<Rightarrow> runes" where
  "writeStrings [] = []"
| "writeStrings (s # ss) = decimal (byte_len s) @ [58] @ s @ writeStrings ss"

definition vector_Hash :: "('k, 'p) key_lib \<Rightarrow> 'p list \<Rightarrow> runes" where
  "vector_Hash kl v = show_key kl (h kl (Join (map (hex kl) v) [0]))"

definition bound_text :: "('k, 'p) key_lib \<Rightarrow> TimeValue option \<Rightarrow> runes" where
  "bound_text kl b = (case b of None \<Rightarrow> [] | Some t \<Rightarrow> time_Hash (times kl) (h kl) (show_key kl) t)"

definition recall_material :: "('k, 'p) key_lib \<Rightarrow> 'p RecallQuery \<Rightarrow> runes" where
  "recall_material kl r =
     str ''g='' @ print_int (int (unat (rq_GraphID r))) @
     str ''|kw='' @ writeStrings (rq_Keywords r) @
     str ''|en='' @ writeStrings (rq_Entities r) @
     str ''|to='' @ writeStrings (rq_Topics r) @
     str ''|d='' @ print_int (qp_Depth (rq_Parameters r)) @
     str ''|t='' @ print_int (qp_Top (rq_Parameters r)) @
     str ''|s='' @ bound_text kl (qp_Since (rq_Parameters r)) @
     str ''|u='' @ bound_text kl (qp_Until (rq_Parameters r)) @
     str ''|vec='' @ vector_Hash kl (rq_Vector r)"

definition remember_material :: "('k, 'p) key_lib \<Rightarrow> 'p RememberQuery \<Rightarrow> runes" where
  "remember_material kl r =
     str ''g='' @ print_int (int (unat (mq_GraphID r))) @
     str ''|v='' @ writeStrings [mq_Value r] @
     str ''|en='' @ writeStrings (mq_Entities r) @
     str ''|to='' @ writeStrings (mq_Topics r) @
     str ''|vec='' @ vector_Hash kl (mq_Vector r)"

fun query_Hash :: "('k, 'p) key_lib \<Rightarrow> 'p Query \<Rightarrow> 'k" where
  "query_Hash kl (RecallQ r) = h kl (recall_material kl r)"
| "query_Hash kl (RememberQ r) = h kl (remember_material kl r)"

section \<open>From a command to a query\<close>

datatype query_error =
    ErrParsingFailed parse_error
  | ErrMissingParameter runes
  | VectorTooLong runes nat int
  | TopOutOfRange int int
  | DepthOutOfRange int int

fun checkVector :: "runes \<Rightarrow> 'p list option \<Rightarrow> int \<Rightarrow> query_error option" where
  "checkVector name None maxDim = Some (ErrMissingParameter name)"
| "checkVector name (Some v) maxDim =
     (if int (length v) > maxDim then Some (VectorTooLong name (length v) maxDim) else None)"

definition bind_vector :: "runes \<times> bool \<Rightarrow> 'p list option \<Rightarrow> int \<Rightarrow> query_error + 'p list" where
  "bind_vector vp v maxDim =
     (if snd vp then
        (case checkVector (fst vp) v maxDim of Some e \<Rightarrow> Inl e | None \<Rightarrow> Inr (case v of Some d \<Rightarrow> d | None \<Rightarrow> []))
      else Inr [])"

definition remember_query :: "ConfigSet \<Rightarrow> 'p RememberCommandNode \<Rightarrow> query_error + 'p Query" where
  "remember_query c n =
     (case bind_vector (remember_VecParam n) (remember_Vector n) (MaxVectorDimension (DB c)) of
        Inl e \<Rightarrow> Inl e
      | Inr v \<Rightarrow> Inr (RememberQ \<lparr>mq_Value = remember_Value n, mq_Entities = remember_Entities n,
          mq_Topics = remember_Topics n, mq_Vector = v, mq_GraphID = remember_Selector n\<rparr>))"

definition recall_query :: "ConfigSet \<Rightarrow> 'p RecallCommandNode \<Rightarrow> query_error + 'p Query" where
  "recall_query c n =
     (let topn = recall_Top n (DefaultTop (DB c)); deep = recall_Depth n (DefaultDepth (DB c))
      in if HasTop n \<and> (topn < 1 \<or> topn > MaxTop (DB c)) then Inl (TopOutOfRange topn (MaxTop (DB c)))
         else if HasDepth n \<and> deep > MaxDepth (DB c) then Inl (DepthOutOfRange deep (MaxDepth (DB c)))
         else case bind_vector (recall_VecParam n) (recall_Vector n) (MaxVectorDimension (DB c)) of
             Inl e \<Rightarrow> Inl e
           | Inr v \<Rightarrow> Inr (RecallQ \<lparr>rq_Keywords = recall_Terms n, rq_Vector = v,
               rq_Entities = recall_Entities n, rq_Topics = recall_Topics n,
               rq_Parameters = \<lparr>qp_Top = topn, qp_Depth = deep, qp_Since = recall_Since n, qp_Until = recall_Until n\<rparr>,
               rq_GraphID = recall_Selector n\<rparr>))"

definition query_Parse ::
    "lang \<Rightarrow> runes \<Rightarrow> (runes \<rightharpoonup> 'p list) \<Rightarrow> ConfigSet \<Rightarrow> (query_error + 'p Query) \<times> Warning list" where
  "query_Parse g q params c =
     (case Parse g q params of
        (Inl e, _) \<Rightarrow> (Inl (ErrParsingFailed e), [])
      | (Inr cmd, ws) \<Rightarrow>
          (case (case cmd of Remember n \<Rightarrow> remember_query c n | Recall n \<Rightarrow> recall_query c n) of
             Inl e \<Rightarrow> (Inl e, [])
           | Inr qo \<Rightarrow> (Inr qo, ws)))"

section \<open>Equality is what the search reads\<close>

lemma vector_Equal_eq [simp]: "vector_Equal v w \<longleftrightarrow> v = w"
  by (simp add: vector_Equal_def list_all2_iff [symmetric] list_all_iff) (metis list.rel_eq list_all2_iff)

lemma bound_Equal_refl [simp]: "bound_Equal b b"
  by (cases b) auto

lemma query_Equal_refl [simp]: "query_Equal q q"
  by (cases q) (auto simp: params_Equal_def)

lemma bound_Equal_Resolve:
  "bound_Equal a b \<Longrightarrow> (case a of None \<Rightarrow> 0 | Some t \<Rightarrow> Resolve t now) = (case b of None \<Rightarrow> 0 | Some t \<Rightarrow> Resolve t now)"
  by (cases "(a, b)" rule: bound_Equal.cases) (auto dest: Equal_Resolve)

text \<open>What a query does depends on these values alone: the arguments of the search, and of the write.\<close>

definition recall_reads ::
    "'p RecallQuery \<Rightarrow> int \<Rightarrow> 8 word \<times> runes list \<times> 'p list \<times> runes list \<times> runes list \<times> int \<times> int \<times> int \<times> int" where
  "recall_reads r now = (rq_GraphID r, rq_Keywords r, rq_Vector r, rq_Topics r, rq_Entities r,
     qp_Depth (rq_Parameters r), qp_Top (rq_Parameters r), rq_Since r now, rq_Until r now)"

lemma recall_Equal_reads: "query_Equal (RecallQ r) (RecallQ s) \<Longrightarrow> recall_reads r now = recall_reads s now"
  by (auto simp: recall_reads_def params_Equal_def rq_Since_def rq_Until_def intro: bound_Equal_Resolve [symmetric])

lemma remember_Equal_eq: "query_Equal (RememberQ r) (RememberQ s) \<longleftrightarrow> r = s"
  by (auto intro: RememberQuery.equality)

section \<open>The material of a key decodes back\<close>

lemma digits_value_snoc: "digits_value (ds @ [c]) = 10 * digits_value ds + (c - 48)"
  by (simp add: digits_value_def)

lemma digits_value_decimal: "digits_value (decimal n) = n"
proof (induction n rule: decimal.induct)
  case (1 n)
  then show ?case
    by (subst decimal.simps) (auto simp: digits_value_snoc, simp add: digits_value_def)
qed

lemma decimal_inj: "decimal m = decimal n \<longleftrightarrow> m = n"
  by (metis digits_value_decimal)

lemma print_int_chars: "c \<in> set (print_int i) \<Longrightarrow> c = 45 \<or> 48 \<le> c \<and> c \<le> 57"
  by (auto simp: print_int_def split: if_splits dest: decimal_digits)

lemma print_int_inj: "print_int i = print_int j \<longleftrightarrow> i = j"
proof -
  have "hd (decimal n) \<noteq> 45" for n
  proof
    assume "hd (decimal n) = 45"
    then have "45 \<in> set (decimal n)" using hd_in_set [OF decimal_nonempty, of n] by simp
    then show False using decimal_digits [of 45 n] by simp
  qed
  then have "decimal n \<noteq> 45 # s" for n s by (metis list.sel(1))
  then show ?thesis
    by (auto simp: print_int_def decimal_inj) (metis+)
qed

text \<open>A text is cut at the first character of a kind that its beginning does not hold.\<close>

lemma cut_at:
  assumes "xs @ a # s = ys @ b # t" "P a" "P b" "\<forall>c \<in> set xs. \<not> P c" "\<forall>c \<in> set ys. \<not> P c"
  shows "xs = ys \<and> a = b \<and> s = t"
proof -
  have "takeWhile (\<lambda>c. \<not> P c) (xs @ a # s) = xs" "takeWhile (\<lambda>c. \<not> P c) (ys @ b # t) = ys"
    using assms(2-5) by (simp_all add: takeWhile_append)
  then have "xs = ys" using assms(1) by metis
  then show ?thesis using assms(1) by simp
qed

lemma print_int_cut: "print_int i @ 124 # s = print_int j @ 124 # t \<longleftrightarrow> i = j \<and> s = t"
proof
  assume "print_int i @ 124 # s = print_int j @ 124 # t"
  then have "print_int i = print_int j \<and> (124::nat) = 124 \<and> s = t"
    by (rule cut_at [where P = "\<lambda>c. c = 124"]) (auto dest: print_int_chars)
  then show "i = j \<and> s = t" by (simp add: print_int_inj)
qed simp

lemma utf8_len_nz [simp]: "utf8_len c \<noteq> 0"
  by (simp add: utf8_len_def)

lemma byte_len_prefix: "s @ u = t @ v \<Longrightarrow> byte_len s = byte_len t \<Longrightarrow> s = t \<and> u = v"
  by (auto simp: append_eq_append_conv2 byte_len_def)

lemma writeStrings_cut:
  "writeStrings ss @ 124 # u = writeStrings ts @ 124 # v \<Longrightarrow> ss = ts \<and> u = v"
proof (induction ss arbitrary: ts)
  case Nil
  have "124 # u \<noteq> decimal n @ w" for n w
    using decimal_digits [of "hd (decimal n)" n] by (cases "decimal n") auto
  with Nil show ?case by (cases ts) simp_all
next
  case (Cons s ss)
  have ne: "decimal n @ w \<noteq> 124 # v" for n w
    using decimal_digits [of "hd (decimal n)" n] by (cases "decimal n") auto
  from Cons.prems obtain t ts' where ts: "ts = t # ts'"
    by (cases ts) (auto simp: ne)
  from Cons.prems have "decimal (byte_len s) @ 58 # (s @ writeStrings ss @ 124 # u) =
      decimal (byte_len t) @ 58 # (t @ writeStrings ts' @ 124 # v)" by (simp add: ts)
  then have "decimal (byte_len s) = decimal (byte_len t) \<and> (58::nat) = 58 \<and>
      s @ writeStrings ss @ 124 # u = t @ writeStrings ts' @ 124 # v"
    by (rule cut_at [where P = "\<lambda>c. c = 58"]) (auto dest: decimal_digits)
  then have "s = t" "writeStrings ss @ 124 # u = writeStrings ts' @ 124 # v"
    using byte_len_prefix [of s _ t] by (auto simp: decimal_inj)
  with Cons.IH ts show ?case by blast
qed

lemma bound_text_plain:
  assumes "\<forall>k. 124 \<notin> set (show_key kl k)"
  shows "124 \<notin> set (bound_text kl b)"
proof (cases b)
  case (Some t)
  then show ?thesis using assms by (cases t) (auto simp: bound_text_def)
qed (simp add: bound_text_def)

lemma bound_text_cut:
  assumes "\<forall>k. 124 \<notin> set (show_key kl k)"
  shows "bound_text kl b @ 124 # s = bound_text kl c @ 124 # t \<longleftrightarrow> bound_text kl b = bound_text kl c \<and> s = t"
  using cut_at [where P = "\<lambda>x. x = 124", of "bound_text kl b" 124 s "bound_text kl c" 124 t]
    bound_text_plain [OF assms] by auto

lemma writeStrings_cut_iff: "writeStrings ss @ 124 # u = writeStrings ts @ 124 # v \<longleftrightarrow> ss = ts \<and> u = v"
  using writeStrings_cut by blast

section \<open>Properties\<close>

text \<open>C9: Two recalls share key material only when they read the same graph, the same keywords, entities and
  topics in the same order, the same depth and top, and their time bounds and vectors have the same keys;
  a recall and a remember never share it. (A key prints as a number, which holds no bar.)\<close>

theorem recall_material_decodes:
  assumes plain: "\<forall>k. 124 \<notin> set (show_key kl k)" and same: "recall_material kl r = recall_material kl s"
  shows "rq_GraphID r = rq_GraphID s \<and> rq_Keywords r = rq_Keywords s \<and> rq_Entities r = rq_Entities s \<and>
    rq_Topics r = rq_Topics s \<and> qp_Depth (rq_Parameters r) = qp_Depth (rq_Parameters s) \<and>
    qp_Top (rq_Parameters r) = qp_Top (rq_Parameters s) \<and>
    bound_text kl (qp_Since (rq_Parameters r)) = bound_text kl (qp_Since (rq_Parameters s)) \<and>
    bound_text kl (qp_Until (rq_Parameters r)) = bound_text kl (qp_Until (rq_Parameters s)) \<and>
    vector_Hash kl (rq_Vector r) = vector_Hash kl (rq_Vector s) \<and> recall_material kl r \<noteq> remember_material kl m"
proof -
  note bounds = bound_text_cut [OF plain]
  have "print_int (int (unat (rq_GraphID r))) @ 124 # 107 # x \<noteq> print_int (int (unat (mq_GraphID m))) @ 124 # 118 # y" for x y
    using print_int_cut by fastforce
  then have "recall_material kl r \<noteq> remember_material kl m"
    by (simp add: recall_material_def remember_material_def str_def)
  moreover have "rq_GraphID r = rq_GraphID s \<and> rq_Keywords r = rq_Keywords s \<and> rq_Entities r = rq_Entities s \<and>
    rq_Topics r = rq_Topics s \<and> qp_Depth (rq_Parameters r) = qp_Depth (rq_Parameters s) \<and>
    qp_Top (rq_Parameters r) = qp_Top (rq_Parameters s) \<and>
    bound_text kl (qp_Since (rq_Parameters r)) = bound_text kl (qp_Since (rq_Parameters s)) \<and>
    bound_text kl (qp_Until (rq_Parameters r)) = bound_text kl (qp_Until (rq_Parameters s)) \<and>
    vector_Hash kl (rq_Vector r) = vector_Hash kl (rq_Vector s)"
    using same
    by (simp add: recall_material_def str_def print_int_cut writeStrings_cut_iff bounds word_uint_eq_iff)
  ultimately show ?thesis by blast
qed

definition plain_keys :: "(nat, nat) key_lib" where
  "plain_keys = \<lparr>h = byte_len, show_key = decimal, hex = decimal, times = no_dates\<rparr>"

theorem recall_material_decodes_witness:
  "\<exists>r. recall_material plain_keys r = recall_material plain_keys r \<and> rq_Keywords r = [str ''a|en=''] \<and>
     recall_material plain_keys r \<noteq> remember_material plain_keys \<lparr>mq_Value = [], mq_Entities = [],
       mq_Topics = [], mq_Vector = [], mq_GraphID = 0\<rparr>"
proof -
  have "\<forall>k. 124 \<notin> set (show_key plain_keys k)"
    by (auto simp: plain_keys_def dest: decimal_digits)
  from recall_material_decodes [OF this refl] show ?thesis
    by (intro exI [of _ "\<lparr>rq_Keywords = [str ''a|en=''], rq_Vector = [], rq_Entities = [], rq_Topics = [],
      rq_Parameters = \<lparr>qp_Top = 1, qp_Depth = 0, qp_Since = None, qp_Until = None\<rparr>, rq_GraphID = 0\<rparr>"]) simp
qed

end
