(* ===== verification/Cache_LRU.thy ===== *)
theory Cache_LRU
  imports Fraise_Prelude
begin

text \<open>
  \<open>internal/cache\<close>: the LRU cache. The list of the code holds elements with an identity (the
  map stores pointers to them), so the model gives each element a number, taken from a
  counter when \<open>PushFront\<close> makes it; \<open>lru_order\<close> is the list, most recent first. The mutex
  serialises the operations. The locale \<open>cache\<close> is the contract of the interface \<open>Cache\<close> that
  the query engine's plan cache relies on, and the recency list is the abstract cache that
  the concrete one refines.
\<close>

datatype cache_error = ErrCacheCapacity

record ('k, 't) Entry =
  e_key :: 'k
  e_value :: 't

record ('k, 't) LRUCache =
  lru_capacity :: int
  lru_items :: "'k \<rightharpoonup> nat"
  lru_order :: "(nat \<times> ('k, 't) Entry) list"
  next_elem :: nat

definition NewLRUCache :: "int \<Rightarrow> cache_error + ('k, 't) LRUCache" where
  "NewLRUCache capacity =
     (if capacity \<le> 0 then Inl ErrCacheCapacity
      else Inr \<lparr>lru_capacity = capacity, lru_items = Map.empty, lru_order = [], next_elem = 0\<rparr>)"

text \<open>The operations of \<open>container/list\<close> that the cache uses.\<close>

definition MoveToFront :: "nat \<Rightarrow> (nat \<times> 'e) list \<Rightarrow> (nat \<times> 'e) list" where
  "MoveToFront i l = filter (\<lambda>x. fst x = i) l @ filter (\<lambda>x. fst x \<noteq> i) l"

definition remove_elem :: "nat \<Rightarrow> (nat \<times> 'e) list \<Rightarrow> (nat \<times> 'e) list" where
  "remove_elem i l = filter (\<lambda>x. fst x \<noteq> i) l"

definition set_value :: "nat \<Rightarrow> 't \<Rightarrow> (nat \<times> ('k, 't) Entry) list \<Rightarrow> (nat \<times> ('k, 't) Entry) list" where
  "set_value i v l = map (\<lambda>(j, e). if j = i then (j, e\<lparr>e_value := v\<rparr>) else (j, e)) l"

definition elem_value :: "nat \<Rightarrow> (nat \<times> ('k, 't) Entry) list \<Rightarrow> 't option" where
  "elem_value i l = map_option e_value (map_of l i)"

definition lru_Get :: "('k, 't) LRUCache \<Rightarrow> 'k \<Rightarrow> 't option \<times> ('k, 't) LRUCache" where
  "lru_Get c key =
     (case lru_items c key of
        None \<Rightarrow> (None, c)
      | Some el \<Rightarrow> (elem_value el (lru_order c), c\<lparr>lru_order := MoveToFront el (lru_order c)\<rparr>))"

definition evict_oldest :: "('k, 't) LRUCache \<Rightarrow> ('k, 't) LRUCache" where
  "evict_oldest c =
     (if lru_order c = [] then c
      else let (i, e) = last (lru_order c)
           in c\<lparr>lru_order := remove_elem i (lru_order c), lru_items := (lru_items c)(e_key e := None)\<rparr>)"

definition lru_Put :: "('k, 't) LRUCache \<Rightarrow> 'k \<Rightarrow> 't \<Rightarrow> ('k, 't) LRUCache" where
  "lru_Put c key v =
     (case lru_items c key of
        Some el \<Rightarrow> c\<lparr>lru_order := MoveToFront el (set_value el v (lru_order c))\<rparr>
      | None \<Rightarrow>
          let el = next_elem c;
              c1 = c\<lparr>lru_order := (el, \<lparr>e_key = key, e_value = v\<rparr>) # lru_order c,
                     lru_items := (lru_items c)(key \<mapsto> el), next_elem := Suc el\<rparr>
          in if int (length (lru_order c1)) > lru_capacity c1 then evict_oldest c1 else c1)"

definition lru_Delete :: "('k, 't) LRUCache \<Rightarrow> 'k \<Rightarrow> bool \<times> ('k, 't) LRUCache" where
  "lru_Delete c key =
     (case lru_items c key of
        None \<Rightarrow> (False, c)
      | Some el \<Rightarrow> (True, c\<lparr>lru_order := remove_elem el (lru_order c),
                            lru_items := (lru_items c)(key := None)\<rparr>))"

definition lru_Len :: "('k, 't) LRUCache \<Rightarrow> nat" where
  "lru_Len c = length (lru_order c)"

definition lru_Capacity :: "('k, 't) LRUCache \<Rightarrow> int" where
  "lru_Capacity c = lru_capacity c"

definition lru_Clear :: "('k, 't) LRUCache \<Rightarrow> ('k, 't) LRUCache" where
  "lru_Clear c = c\<lparr>lru_items := Map.empty, lru_order := []\<rparr>"

text \<open>The shrinking loop of \<open>Resize\<close>; it stops when the list fits, or is empty.\<close>

function shrink :: "int \<Rightarrow> nat \<Rightarrow> ('k, 't) LRUCache \<Rightarrow> nat \<times> ('k, 't) LRUCache" where
  "shrink capacity n c =
     (if int (length (lru_order c)) > capacity \<and> lru_order c \<noteq> []
      then shrink capacity (Suc n) (evict_oldest c) else (n, c))"
  by pat_completeness auto
termination
proof (relation "measure (\<lambda>(capacity, n, c). length (lru_order c))")
  fix capacity n and c :: "('k, 't) LRUCache"
  assume "int (length (lru_order c)) > capacity \<and> lru_order c \<noteq> []"
  then have ne: "lru_order c \<noteq> []" by simp
  have "length (remove_elem (fst (last (lru_order c))) (lru_order c)) < length (lru_order c)"
    unfolding remove_elem_def by (rule length_filter_less [OF last_in_set [OF ne]]) simp
  then show "((capacity, Suc n, evict_oldest c), capacity, n, c)
      \<in> measure (\<lambda>(capacity, n, c). length (lru_order c))"
    using ne by (simp add: evict_oldest_def split_beta)
qed simp

declare shrink.simps [simp del, loop_defs]

definition lru_Resize :: "('k, 't) LRUCache \<Rightarrow> int \<Rightarrow> cache_error + nat \<times> ('k, 't) LRUCache" where
  "lru_Resize c capacity =
     (if capacity \<le> 0 then Inl ErrCacheCapacity
      else let (n, c1) =
             (if lru_capacity c < capacity then (0, c\<lparr>lru_items := \<lambda>k. lru_items c k\<rparr>)
              else if lru_capacity c > capacity then shrink capacity 0 c
              else (0, c))
           in Inr (n, c1\<lparr>lru_capacity := capacity\<rparr>))"

section \<open>The contract of \<open>Cache\<close>\<close>

text \<open>
  What a client may rely on: a hit returns the value last put under the key, lookups change no
  content, a put stores its pair and otherwise only forgets, and a deletion forgets its key.
\<close>

locale cache =
  fixes inv :: "'c \<Rightarrow> bool"
    and content :: "'c \<Rightarrow> 'k \<rightharpoonup> 't"
    and get :: "'c \<Rightarrow> 'k \<Rightarrow> 't option \<times> 'c"
    and put :: "'c \<Rightarrow> 'k \<Rightarrow> 't \<Rightarrow> 'c"
  assumes get_hit: "inv c \<Longrightarrow> fst (get c k) = content c k"
    and get_content: "inv c \<Longrightarrow> content (snd (get c k)) = content c"
    and get_inv: "inv c \<Longrightarrow> inv (snd (get c k))"
    and put_inv: "inv c \<Longrightarrow> inv (put c k v)"
    and put_stored: "inv c \<Longrightarrow> content (put c k v) k = Some v"
    and put_forgets: "inv c \<Longrightarrow> content (put c k v) \<subseteq>\<^sub>m (content c)(k \<mapsto> v)"
begin

text \<open>A property of every stored pair survives lookups, and puts of pairs that have it.\<close>

definition all_entries :: "('k \<Rightarrow> 't \<Rightarrow> bool) \<Rightarrow> 'c \<Rightarrow> bool" where
  "all_entries P c \<longleftrightarrow> (\<forall>k v. content c k = Some v \<longrightarrow> P k v)"

lemma all_entries_get: "inv c \<Longrightarrow> all_entries P c \<Longrightarrow> all_entries P (snd (get c k))"
  by (simp add: all_entries_def get_content)

lemma all_entries_hit: "inv c \<Longrightarrow> all_entries P c \<Longrightarrow> fst (get c k) = Some v \<Longrightarrow> P k v"
  by (simp add: all_entries_def get_hit)

lemma all_entries_put:
  assumes "inv c" "all_entries P c" "P k v"
  shows "all_entries P (put c k v)"
  unfolding all_entries_def
proof (intro allI impI)
  fix k' v' assume "content (put c k v) k' = Some v'"
  then have "((content c)(k \<mapsto> v)) k' = Some v'"
    using put_forgets [OF assms(1)] by (metis domI map_le_def)
  then show "P k' v'" using assms(2,3) by (auto simp: all_entries_def split: if_splits)
qed

end

section \<open>The recency list\<close>

text \<open>
  The abstract cache is the list of its pairs, most recent first. An LRU cache is well formed when
  its map points at the elements of the list, one per key, and the list fits the capacity.
\<close>

definition recency :: "('k, 't) LRUCache \<Rightarrow> ('k \<times> 't) list" where
  "recency c = map (\<lambda>(i, e). (e_key e, e_value e)) (lru_order c)"

definition elems_ok :: "('k, 't) LRUCache \<Rightarrow> bool" where
  "elems_ok c \<longleftrightarrow> distinct (map fst (lru_order c)) \<and> distinct (map fst (recency c)) \<and>
     (\<forall>k i. lru_items c k = Some i \<longleftrightarrow> (\<exists>e. (i, e) \<in> set (lru_order c) \<and> e_key e = k)) \<and>
     (\<forall>i \<in> fst ` set (lru_order c). i < next_elem c)"

definition lru_ok :: "('k, 't) LRUCache \<Rightarrow> bool" where
  "lru_ok c \<longleftrightarrow> elems_ok c \<and> 0 < lru_capacity c \<and> int (length (lru_order c)) \<le> lru_capacity c"

definition touch :: "'k \<Rightarrow> ('k \<times> 't) list \<Rightarrow> ('k \<times> 't) list" where
  "touch k l = filter (\<lambda>p. fst p = k) l @ filter (\<lambda>p. fst p \<noteq> k) l"

definition drop_key :: "'k \<Rightarrow> ('k \<times> 't) list \<Rightarrow> ('k \<times> 't) list" where
  "drop_key k l = filter (\<lambda>p. fst p \<noteq> k) l"

lemma same_elem:
  assumes ok: "elems_ok c" and k: "lru_items c k = Some i" and x: "x \<in> set (lru_order c)"
  shows "fst x = i \<longleftrightarrow> e_key (snd x) = k"
proof -
  obtain e where e: "(i, e) \<in> set (lru_order c)" "e_key e = k"
    using ok k by (auto simp: elems_ok_def)
  have d: "distinct (map fst (lru_order c))" using ok by (simp add: elems_ok_def)
  have "lru_items c (e_key (snd x)) = Some (fst x)"
    using ok x by (cases x) (auto simp: elems_ok_def)
  then show ?thesis
    using k e x eq_key_imp_eq_value [OF d, of i] by (cases x) auto
qed

lemma filter_elem:
  assumes ok: "elems_ok c" and k: "lru_items c k = Some i"
  shows "filter (\<lambda>x. fst x = i) (lru_order c) = filter (\<lambda>x. e_key (snd x) = k) (lru_order c)"
    "filter (\<lambda>x. fst x \<noteq> i) (lru_order c) = filter (\<lambda>x. e_key (snd x) \<noteq> k) (lru_order c)"
  using same_elem [OF ok k] by (auto intro!: filter_cong)

lemma recency_None: "elems_ok c \<Longrightarrow> lru_items c k = None \<longleftrightarrow> k \<notin> fst ` set (recency c)"
proof -
  assume ok: "elems_ok c"
  have "lru_items c k \<noteq> None \<longleftrightarrow> (\<exists>i e. (i, e) \<in> set (lru_order c) \<and> e_key e = k)"
    using ok by (auto simp: elems_ok_def)
  then show ?thesis by (force simp: recency_def)
qed

lemma drop_key_absent: "k \<notin> fst ` set l \<Longrightarrow> drop_key k l = l"
  by (induction l) (auto simp: drop_key_def)

lemma map_filter_recency:
  "map (\<lambda>(i, e). (e_key e, e_value e)) (filter (\<lambda>x. e_key (snd x) = k) l) =
     filter (\<lambda>p. fst p = k) (map (\<lambda>(i, e). (e_key e, e_value e)) l)"
  "map (\<lambda>(i, e). (e_key e, e_value e)) (filter (\<lambda>x. e_key (snd x) \<noteq> k) l) =
     filter (\<lambda>p. fst p \<noteq> k) (map (\<lambda>(i, e). (e_key e, e_value e)) l)"
  by (induction l) auto

lemma recency_move:
  assumes ok: "elems_ok c" and k: "lru_items c k = Some i"
  shows "recency (c\<lparr>lru_order := MoveToFront i (lru_order c)\<rparr>) = touch k (recency c)"
  by (simp add: recency_def MoveToFront_def touch_def filter_elem [OF ok k] map_filter_recency)

lemma recency_remove:
  assumes ok: "elems_ok c" and k: "lru_items c k = Some i"
  shows "recency (c\<lparr>lru_order := remove_elem i (lru_order c)\<rparr>) = drop_key k (recency c)"
  by (simp add: recency_def remove_elem_def drop_key_def filter_elem [OF ok k] map_filter_recency)

lemma elems_ok_perm:
  assumes ok: "elems_ok c" and p: "mset l = mset (lru_order c)"
  shows "elems_ok (c\<lparr>lru_order := l\<rparr>)"
proof -
  have "set l = set (lru_order c)" using p by (metis set_mset_mset)
  moreover have "mset (map f l) = mset (map f (lru_order c))" for f :: "nat \<times> ('a, 'b) Entry \<Rightarrow> 'z"
    using p by simp
  ultimately show ?thesis
    using ok mset_eq_imp_distinct_iff [of "map fst l" "map fst (lru_order c)"]
      mset_eq_imp_distinct_iff [of "map (\<lambda>x. e_key (snd x)) l" "map (\<lambda>x. e_key (snd x)) (lru_order c)"]
    by (simp add: elems_ok_def recency_def split_beta comp_def p)
qed

lemma mset_MoveToFront [simp]: "mset (MoveToFront i l) = mset l"
  by (induction l) (auto simp: MoveToFront_def)

lemma length_MoveToFront [simp]: "length (MoveToFront i l) = length l"
  by (metis mset_MoveToFront size_mset)

lemma elems_ok_remove:
  assumes ok: "elems_ok c" and k: "lru_items c k = Some i"
  shows "elems_ok (c\<lparr>lru_order := remove_elem i (lru_order c), lru_items := (lru_items c)(k := None)\<rparr>)"
proof -
  have o: "remove_elem i (lru_order c) = filter (\<lambda>x. e_key (snd x) \<noteq> k) (lru_order c)"
    by (simp add: remove_elem_def filter_elem [OF ok k])
  show ?thesis
    using ok unfolding elems_ok_def recency_def o
    by (auto simp: distinct_map_filter map_filter_recency)
qed

lemma elem_value_recency:
  assumes ok: "elems_ok c" and k: "lru_items c k = Some i"
  shows "elem_value i (lru_order c) = map_of (recency c) k"
proof -
  obtain e where e: "(i, e) \<in> set (lru_order c)" "e_key e = k"
    using ok k by (auto simp: elems_ok_def)
  have "map_of (lru_order c) i = Some e"
    using ok e(1) by (intro map_of_is_SomeI) (auto simp: elems_ok_def)
  moreover have "map_of (recency c) k = Some (e_value e)"
    using ok e by (intro map_of_is_SomeI) (force simp: elems_ok_def recency_def)+
  ultimately show ?thesis by (simp add: elem_value_def)
qed

lemma recency_hit: "elems_ok c \<Longrightarrow> lru_items c k = None \<longleftrightarrow> map_of (recency c) k = None"
  by (simp add: recency_None map_of_eq_None_iff)

lemma touch_absent: "map_of l k = None \<Longrightarrow> touch k l = l"
proof -
  assume "map_of l k = None"
  then have "filter (\<lambda>p. fst p = k) l = []" "filter (\<lambda>p. fst p \<noteq> k) l = l"
    by (auto simp: map_of_eq_None_iff filter_empty_conv image_iff intro!: filter_True)
  then show ?thesis by (simp add: touch_def)
qed

lemma lru_Get_refines:
  assumes ok: "lru_ok c"
  shows "lru_ok (snd (lru_Get c k)) \<and> fst (lru_Get c k) = map_of (recency c) k \<and>
    recency (snd (lru_Get c k)) = touch k (recency c)"
proof (cases "lru_items c k")
  case None
  then show ?thesis using ok recency_hit [of c k] by (simp add: lru_Get_def lru_ok_def touch_absent)
next
  case (Some i)
  then show ?thesis
    using ok elem_value_recency [of c k i] recency_move [of c k i]
    by (simp add: lru_Get_def lru_ok_def elems_ok_perm)
qed

definition tags :: "(nat \<times> ('k, 't) Entry) list \<Rightarrow> (nat \<times> 'k) list" where
  "tags l = map (\<lambda>(i, e). (i, e_key e)) l"

lemma elems_ok_tags:
  fixes c :: "('k, 't) LRUCache"
  shows "elems_ok c \<longleftrightarrow> distinct (map fst (tags (lru_order c))) \<and> distinct (map snd (tags (lru_order c))) \<and>
     (\<forall>k i. lru_items c k = Some i \<longleftrightarrow> (i, k) \<in> set (tags (lru_order c))) \<and>
     (\<forall>i \<in> fst ` set (tags (lru_order c)). i < next_elem c)"
proof -
  have "map fst (tags l) = map fst l" "map snd (tags l) = map (\<lambda>x. e_key (snd x)) l"
    "fst ` set (tags l) = fst ` set l" "(i, k) \<in> set (tags l) \<longleftrightarrow> (\<exists>e. (i, e) \<in> set l \<and> e_key e = k)"
    for l :: "(nat \<times> ('k, 't) Entry) list" and i k
    by (force simp: tags_def split_beta)+
  moreover have "(\<forall>i \<in> fst ` set (tags l). i < n) \<longleftrightarrow> (\<forall>i \<in> fst ` set l. i < n)"
    for l :: "(nat \<times> ('k, 't) Entry) list" and n
    by (auto simp: tags_def)
  ultimately show ?thesis by (simp add: elems_ok_def recency_def split_beta comp_def)
qed

lemma tags_set_value: "tags (set_value i v l) = tags l"
  by (induction l) (auto simp: tags_def set_value_def)

lemma elems_ok_set_value: "elems_ok c \<Longrightarrow> elems_ok (c\<lparr>lru_order := set_value i v (lru_order c)\<rparr>)"
  by (simp add: elems_ok_tags tags_set_value)

lemma filter_key_single:
  "distinct (map fst l) \<Longrightarrow> map_of l k = Some v \<Longrightarrow> filter (\<lambda>p. fst p = k) l = [(k, v)]"
proof (induction l)
  case (Cons p l)
  then show ?case
    by (cases p, cases "fst p = k") (auto simp: filter_empty_conv image_iff)
qed simp

lemma map_of_set_key:
  "map_of (map (\<lambda>(k', v'). if k' = k then (k', v) else (k', v')) l) k =
     (if map_of l k = None then None else Some v)"
  by (induction l) auto

lemma drop_set_key:
  "filter (\<lambda>p. fst p \<noteq> k) (map (\<lambda>(k', v'). if k' = k then (k', v) else (k', v')) l) = drop_key k l"
  by (induction l) (auto simp: drop_key_def split: if_splits)

lemma recency_set_value:
  assumes ok: "elems_ok c" and k: "lru_items c k = Some i"
  shows "touch k (recency (c\<lparr>lru_order := set_value i v (lru_order c)\<rparr>)) = (k, v) # drop_key k (recency c)"
proof -
  let ?c = "c\<lparr>lru_order := set_value i v (lru_order c)\<rparr>"
  have r: "recency ?c = map (\<lambda>(k', v'). if k' = k then (k', v) else (k', v')) (recency c)"
    using same_elem [OF ok k] by (auto simp: recency_def set_value_def)
  have "map_of (recency c) k \<noteq> None" using k recency_hit [OF ok] by (metis option.distinct(1))
  then obtain w where w: "map_of (recency c) k = Some w" by auto
  then have "map_of (recency ?c) k = Some v"
    unfolding r by (simp add: map_of_set_key)
  then have "filter (\<lambda>p. fst p = k) (recency ?c) = [(k, v)]"
    using elems_ok_set_value [OF ok] by (intro filter_key_single) (auto simp: elems_ok_def)
  moreover have "filter (\<lambda>p. fst p \<noteq> k) (recency ?c) = drop_key k (recency c)"
    unfolding r by (rule drop_set_key)
  ultimately show ?thesis by (simp add: touch_def)
qed

lemma drop_key_last: "distinct (map fst l) \<Longrightarrow> l \<noteq> [] \<Longrightarrow> drop_key (fst (last l)) l = butlast l"
  by (cases l rule: rev_cases) (auto simp: drop_key_def image_iff intro!: filter_True)

lemma evict_oldest_ok:
  assumes ok: "elems_ok c"
  shows "elems_ok (evict_oldest c) \<and> recency (evict_oldest c) = butlast (recency c)"
proof (cases "lru_order c = []")
  case True
  then show ?thesis using ok by (simp add: evict_oldest_def recency_def)
next
  case False
  obtain i e where l: "last (lru_order c) = (i, e)" by (cases "last (lru_order c)")
  then have "(i, e) \<in> set (lru_order c)" using False last_in_set by metis
  then have k: "lru_items c (e_key e) = Some i" using ok by (auto simp: elems_ok_def)
  have "fst (last (recency c)) = e_key e" using l False by (simp add: recency_def last_map)
  then have "drop_key (e_key e) (recency c) = butlast (recency c)"
    using drop_key_last [of "recency c"] ok False by (simp add: elems_ok_def recency_def)
  moreover have "recency (evict_oldest c) = drop_key (e_key e) (recency c)"
    using recency_remove [OF ok k] False l by (simp add: evict_oldest_def recency_def)
  ultimately show ?thesis using elems_ok_remove [OF ok k] False l by (simp add: evict_oldest_def)
qed

lemma length_recency [simp]: "length (recency c) = length (lru_order c)"
  by (simp add: recency_def)

lemma lru_Put_refines:
  assumes ok: "lru_ok c"
  shows "lru_ok (lru_Put c k v) \<and>
    recency (lru_Put c k v) = take (nat (lru_capacity c)) ((k, v) # drop_key k (recency c))"
proof (cases "lru_items c k")
  case (Some i)
  let ?c = "c\<lparr>lru_order := set_value i v (lru_order c)\<rparr>"
  have ok1: "elems_ok ?c" using ok by (simp add: lru_ok_def elems_ok_set_value)
  then have ok2: "elems_ok (?c\<lparr>lru_order := MoveToFront i (lru_order ?c)\<rparr>)"
    by (rule elems_ok_perm) simp
  have len: "length (set_value i v (lru_order c)) = length (lru_order c)" by (simp add: set_value_def)
  have rec: "recency (?c\<lparr>lru_order := MoveToFront i (lru_order ?c)\<rparr>) = (k, v) # drop_key k (recency c)"
    using recency_move [OF ok1, of k i] recency_set_value [of c k i v] ok Some
    by (simp add: lru_ok_def)
  then have "length ((k, v) # drop_key k (recency c)) = length (lru_order c)"
    by (metis len length_MoveToFront length_recency LRUCache.select_convs(3) LRUCache.surjective LRUCache.update_convs(3))
  then have "length ((k, v) # drop_key k (recency c)) \<le> nat (lru_capacity c)"
    using ok by (auto simp: lru_ok_def)
  then show ?thesis
    using ok ok2 rec len Some by (simp add: lru_Put_def lru_ok_def)
next
  case None
  let ?e = "\<lparr>e_key = k, e_value = v\<rparr>" and ?n = "nat (lru_capacity c)"
  let ?c = "c\<lparr>lru_order := (next_elem c, ?e) # lru_order c,
      lru_items := (lru_items c)(k \<mapsto> next_elem c), next_elem := Suc (next_elem c)\<rparr>"
  have eo: "elems_ok c" and cap: "0 < lru_capacity c" "length (lru_order c) \<le> ?n"
    using ok by (auto simp: lru_ok_def)
  have new: "k \<notin> fst ` set (recency c)" using recency_None [OF eo] None by simp
  then have nk: "(i, k) \<notin> set (tags (lru_order c))" for i
    by (force simp: tags_def recency_def)
  have ok1: "elems_ok ?c"
    using eo nk None unfolding elems_ok_tags by (force simp: tags_def)
  have r: "recency ?c = (k, v) # drop_key k (recency c)"
    using new by (simp add: drop_key_absent) (simp add: recency_def)
  have len: "length (lru_order c) = length (drop_key k (recency c))"
    using new by (simp add: drop_key_absent)
  show ?thesis
  proof (cases "int (length (lru_order ?c)) > lru_capacity ?c")
    case True
    then have full: "Suc (length (drop_key k (recency c))) = Suc ?n" using cap len by simp
    have "lru_Put c k v = evict_oldest ?c" using None True by (simp add: lru_Put_def Let_def)
    moreover have "lru_capacity (evict_oldest ?c) = lru_capacity c"
      by (simp add: evict_oldest_def split_beta)
    moreover have "recency (evict_oldest ?c) = take ?n ((k, v) # drop_key k (recency c))"
      using evict_oldest_ok [OF ok1] full unfolding r by (simp add: butlast_conv_take)
    moreover from this have "length (lru_order (evict_oldest ?c)) \<le> ?n"
      by (metis length_recency length_take min.cobounded2)
    ultimately show ?thesis using evict_oldest_ok [OF ok1] cap by (simp add: lru_ok_def)
  next
    case False
    then have "lru_Put c k v = ?c" using None by (simp add: lru_Put_def Let_def)
    moreover have "Suc (length (drop_key k (recency c))) \<le> ?n" using False len by simp
    ultimately show ?thesis using ok1 r False cap by (simp add: lru_ok_def)
  qed
qed

lemma lru_Delete_refines:
  assumes ok: "lru_ok c"
  shows "lru_ok (snd (lru_Delete c k)) \<and> fst (lru_Delete c k) = (map_of (recency c) k \<noteq> None) \<and>
    recency (snd (lru_Delete c k)) = drop_key k (recency c)"
proof (cases "lru_items c k")
  case None
  then have "map_of (recency c) k = None" using ok recency_hit [of c k] by (auto simp: lru_ok_def)
  then show ?thesis
    using ok None by (simp add: lru_Delete_def drop_key_absent map_of_eq_None_iff)
next
  case (Some i)
  have eo: "elems_ok c" using ok by (simp add: lru_ok_def)
  have "map_of (recency c) k \<noteq> None" using Some recency_hit [OF eo] by (metis option.distinct(1))
  moreover have "length (remove_elem i (lru_order c)) \<le> length (lru_order c)"
    by (simp add: remove_elem_def)
  moreover have "recency (snd (lru_Delete c k)) = drop_key k (recency c)"
    using Some recency_remove [OF eo Some] by (simp add: lru_Delete_def recency_def)
  ultimately show ?thesis
    using ok elems_ok_remove [OF eo Some] Some by (simp add: lru_Delete_def lru_ok_def)
qed

lemma shrink_spec:
  assumes "elems_ok c" "0 < capacity"
  shows "\<exists>c'. shrink capacity n c = (n + (length (lru_order c) - nat capacity), c') \<and>
    elems_ok c' \<and> recency c' = take (nat capacity) (recency c)"
  using assms
proof (induction capacity n c rule: shrink.induct)
  case (1 capacity n c)
  show ?case
  proof (cases "int (length (lru_order c)) > capacity")
    case True
    with "1.prems" have ne: "lru_order c \<noteq> []" by auto
    have e: "elems_ok (evict_oldest c)" "recency (evict_oldest c) = butlast (recency c)"
      using evict_oldest_ok [OF "1.prems"(1)] by auto
    then have len: "length (lru_order (evict_oldest c)) = length (lru_order c) - 1"
      by (metis length_butlast length_recency)
    from "1.IH" [OF _ e(1) "1.prems"(2)] True ne len obtain c' where
      c': "shrink capacity (Suc n) (evict_oldest c) = (Suc n + (length (lru_order c) - 1 - nat capacity), c')"
      "elems_ok c'" "recency c' = take (nat capacity) (butlast (recency c))"
      unfolding e(2) by auto
    have "take (nat capacity) (butlast (recency c)) = take (nat capacity) (recency c)"
      using True "1.prems"(2) by (simp add: butlast_conv_take min_def)
    moreover have "shrink capacity n c = shrink capacity (Suc n) (evict_oldest c)"
      using True ne by (subst shrink.simps) simp
    moreover have "Suc n + (length (lru_order c) - 1 - nat capacity) = n + (length (lru_order c) - nat capacity)"
      using True "1.prems"(2) by simp
    ultimately show ?thesis using c' by simp
  next
    case False
    then have "shrink capacity n c = (n, c)" by (subst shrink.simps) simp
    then show ?thesis using False "1.prems" by simp
  qed
qed

lemma lru_Resize_refines:
  assumes ok: "lru_ok c" and cap: "0 < capacity"
  shows "\<exists>c'. lru_Resize c capacity = Inr (lru_Len c - nat capacity, c') \<and> lru_ok c' \<and>
    lru_capacity c' = capacity \<and> recency c' = take (nat capacity) (recency c)"
proof -
  have eo: "elems_ok c" using ok by (simp add: lru_ok_def)
  consider "lru_capacity c \<le> capacity" | "capacity < lru_capacity c" by linarith
  then show ?thesis
  proof cases
    case 1
    then have "length (lru_order c) \<le> nat capacity" using ok by (auto simp: lru_ok_def)
    then show ?thesis
      using 1 cap ok by (auto simp: lru_Resize_def lru_Len_def lru_ok_def elems_ok_tags recency_def)
  next
    case 2
    obtain c1 where c1: "shrink capacity 0 c = (length (lru_order c) - nat capacity, c1)"
      "elems_ok c1" "recency c1 = take (nat capacity) (recency c)"
      using shrink_spec [OF eo cap, of 0] by auto
    have "length (lru_order c1) \<le> nat capacity"
      by (metis c1(3) length_recency length_take min.cobounded2)
    then show ?thesis
      using 2 cap c1 by (auto simp: lru_Resize_def lru_Len_def lru_ok_def elems_ok_tags recency_def)
  qed
qed

lemma map_of_drop_key: "map_of (drop_key k l) = (map_of l)(k := None)"
proof
  fix x show "map_of (drop_key k l) x = ((map_of l)(k := None)) x"
    by (induction l) (auto simp: drop_key_def)
qed

lemma map_of_keep_key: "map_of (filter (\<lambda>p. fst p = k) l) x = (if x = k then map_of l x else None)"
  by (induction l) auto

lemma map_of_touch: "map_of (touch k l) = map_of l"
proof
  fix x show "map_of (touch k l) x = map_of l x"
    using map_of_drop_key [of k l]
    by (auto simp: touch_def drop_key_def map_add_def map_of_keep_key split: option.splits)
qed

lemma map_of_take_le: "distinct (map fst l) \<Longrightarrow> map_of (take n l) \<subseteq>\<^sub>m map_of l"
  by (force simp: map_le_def dest: map_of_SomeD in_set_takeD intro: map_of_is_SomeI)

interpretation lru: cache lru_ok "\<lambda>c. map_of (recency c)" lru_Get lru_Put
proof
  fix c :: "('k, 't) LRUCache" and k v
  assume ok: "lru_ok c"
  note g = lru_Get_refines [OF ok, of k] and p = lru_Put_refines [OF ok, of k v]
  show "fst (lru_Get c k) = map_of (recency c) k" using g by simp
  show "map_of (recency (snd (lru_Get c k))) = map_of (recency c)" using g by (simp add: map_of_touch)
  show "lru_ok (snd (lru_Get c k))" using g by simp
  show "lru_ok (lru_Put c k v)" using p by simp
  let ?l = "(k, v) # drop_key k (recency c)"
  have "0 < nat (lru_capacity c)" using ok by (simp add: lru_ok_def)
  then obtain n where n: "nat (lru_capacity c) = Suc n" using gr0_conv_Suc by blast
  then show "map_of (recency (lru_Put c k v)) k = Some v" using p by simp
  have "distinct (map fst (recency c))" using ok by (simp add: lru_ok_def elems_ok_def)
  then have "distinct (map fst ?l)"
    by (auto simp: drop_key_def distinct_map_filter)
  then have "map_of (take (nat (lru_capacity c)) ?l) \<subseteq>\<^sub>m map_of ?l" by (rule map_of_take_le)
  then show "map_of (recency (lru_Put c k v)) \<subseteq>\<^sub>m (map_of (recency c))(k \<mapsto> v)"
    using p by (simp add: map_of_drop_key)
qed

section \<open>Property\<close>

text \<open>C3: The cache is its recency list: \<open>Get\<close> answers from it and moves the key to the front, \<open>Put\<close> puts
  the pair in front and keeps the first \<open>Capacity\<close> pairs (so the least recently used one goes),
  \<open>Delete\<close> drops the key, \<open>Resize\<close> keeps the first \<open>capacity\<close> pairs and counts the others; the map, the
  list and the bound on the length stay consistent throughout.\<close>

theorem lru_refines_recency_list:
  assumes ok: "lru_ok c" and cap: "0 < capacity"
  shows "lru_ok (snd (lru_Get c k)) \<and> fst (lru_Get c k) = map_of (recency c) k \<and>
      recency (snd (lru_Get c k)) = touch k (recency c) \<and>
      lru_ok (lru_Put c k v) \<and>
      recency (lru_Put c k v) = take (nat (lru_capacity c)) ((k, v) # drop_key k (recency c)) \<and>
      lru_ok (snd (lru_Delete c k)) \<and> fst (lru_Delete c k) = (map_of (recency c) k \<noteq> None) \<and>
      recency (snd (lru_Delete c k)) = drop_key k (recency c) \<and>
      (\<exists>c'. lru_Resize c capacity = Inr (lru_Len c - nat capacity, c') \<and> lru_ok c' \<and>
        lru_capacity c' = capacity \<and> recency c' = take (nat capacity) (recency c))"
  using lru_Get_refines [OF ok, of k] lru_Put_refines [OF ok, of k v] lru_Delete_refines [OF ok, of k]
    lru_Resize_refines [OF ok cap] by blast

theorem lru_refines_recency_list_witness:
  "\<exists>c. NewLRUCache 2 = Inr c \<and> lru_ok c \<and>
     (let c' = lru_Put (lru_Put (snd (lru_Get (lru_Put (lru_Put c CHR ''a'' 1) CHR ''b'' 2) CHR ''a'')) CHR ''c'' (3::nat)) CHR ''a'' 4
      in recency c' = [(CHR ''a'', 4), (CHR ''c'', 3)] \<and> (\<exists>d. lru_Resize c' 1 = Inr (1, d) \<and> recency d = [(CHR ''a'', 4)]))"
proof -
  let ?c = "\<lparr>lru_capacity = 2, lru_items = Map.empty, lru_order = [], next_elem = 0\<rparr> :: (char, nat) LRUCache"
  let ?d = "lru_Put (lru_Put (snd (lru_Get (lru_Put (lru_Put ?c CHR ''a'' 1) CHR ''b'' 2) CHR ''a'')) CHR ''c'' (3::nat)) CHR ''a'' 4"
  have ok: "lru_ok ?c" by (simp add: lru_ok_def elems_ok_def recency_def)
  then have ok': "lru_ok ?d" by (intro lru.put_inv lru.get_inv)
  have r: "recency ?d = [(CHR ''a'', 4), (CHR ''c'', 3)]" "lru_Len ?d = 2" by code_simp+
  have "\<exists>d. lru_Resize ?d 1 = Inr (lru_Len ?d - nat 1, d) \<and> lru_ok d \<and>
        lru_capacity d = 1 \<and> recency d = take (nat 1) (recency ?d)"
    using lru_refines_recency_list [OF ok', of 1] by simp
  then show ?thesis using ok r by (auto simp: NewLRUCache_def Let_def)
qed

end
