(* ===== verification/Query_Stream.thy ===== *)
theory Query_Stream
  imports Query_Core Cache_LRU
begin

text \<open>
  \<open>internal/query/optimisation\<close>, the stream of \<open>internal/query/stream.go\<close> as the planner builds it, and
  the plan cache of \<open>pkg/engine/engine.go\<close>. A stream's result and error are type parameters here;
  \<open>Commit\<close>, which fills them, is in \<open>Query_Commit\<close>. The scheduler the engine starts is modelled in
  \<open>Scheduler\<close>. The property: whatever was planned before, and whichever hashes collide, a query is
  run as the optimisation of a query equal to it.
\<close>

section \<open>Streams\<close>

record ('p, 'r, 'e) Stream =
  st_Query :: "'p Query"
  st_Result :: "'r option"
  st_Err :: "'e option"
  st_Explain :: bool
  st_IsGraphEmpty :: bool
  st_done :: bool \<comment> \<open>the channel \<open>done\<close> is closed\<close>

definition NewStream :: "'p Query \<Rightarrow> ('p, 'r, 'e) Stream" where
  "NewStream q = \<lparr>st_Query = q, st_Result = None, st_Err = None, st_Explain = False,
     st_IsGraphEmpty = False, st_done = False\<rparr>"

definition st_GraphID :: "('p, 'r, 'e) Stream \<Rightarrow> 8 word" where
  "st_GraphID s = GetGraphID (st_Query s)"

text \<open>\<open>sync.Once\<close> makes the second close a no-op.\<close>

definition Finish :: "('p, 'r, 'e) Stream \<Rightarrow> ('p, 'r, 'e) Stream" where
  "Finish s = (if st_done s then s else s\<lparr>st_done := True\<rparr>)"

section \<open>Optimisation\<close>

fun dedupe_loop :: "(runes \<rightharpoonup> bool) \<Rightarrow> runes list \<Rightarrow> runes list \<Rightarrow> runes list" where
  "dedupe_loop seen out [] = out"
| "dedupe_loop seen out (s # ss) =
     (case seen s of
        Some _ \<Rightarrow> dedupe_loop seen out ss
      | None \<Rightarrow> dedupe_loop (seen(s \<mapsto> True)) (out @ [s]) ss)"

definition dedupeStrings :: "runes list \<Rightarrow> runes list" where
  "dedupeStrings xs = (if length xs \<le> 1 then xs else dedupe_loop Map.empty [] xs)"

fun Dedupe :: "'p Query \<Rightarrow> 'p Query" where
  "Dedupe (RecallQ v) =
     RecallQ (v\<lparr>rq_Keywords := dedupeStrings (rq_Keywords v), rq_Entities := dedupeStrings (rq_Entities v),
                rq_Topics := dedupeStrings (rq_Topics v)\<rparr>)"
| "Dedupe q = q"

record 'p Pipeline =
  stages :: "('p Query \<Rightarrow> 'p Query) list"

definition NewPipeline :: "'p Pipeline" where
  "NewPipeline = \<lparr>stages = [Dedupe]\<rparr>"

definition Optimise :: "'p Pipeline \<Rightarrow> 'p Query \<Rightarrow> 'p Query" where
  "Optimise d q = foldl (\<lambda>q stage. stage q) q (stages d)"

section \<open>The plan cache\<close>

record 'p CachedQuery =
  Parsed :: "'p Query"
  Optimised :: "'p Query"

record ('k, 'p) Engine =
  en_Cache :: "('k, 'p CachedQuery) LRUCache"
  Optimisations :: "'p Pipeline"

datatype engine_error = ErrCacheInit cache_error

definition StartCache :: "ConfigSet \<Rightarrow> engine_error + ('k, 'p) Engine" where
  "StartCache c =
     (case NewLRUCache (CacheCapacity (Engine c)) of
        Inl e \<Rightarrow> Inl (ErrCacheInit e)
      | Inr lru \<Rightarrow> Inr \<lparr>en_Cache = lru, Optimisations = NewPipeline\<rparr>)"

definition Plan :: "('k, 'p) key_lib \<Rightarrow> ('k, 'p) Engine \<Rightarrow> 'p Query \<Rightarrow> ('p, 'r, 'e) Stream \<times> ('k, 'p) Engine" where
  "Plan kl e q =
     (let key = query_Hash kl q; (hit, c1) = lru_Get (en_Cache e) key
      in case (case hit of Some cached \<Rightarrow> if query_Equal (Parsed cached) q then Some cached else None | None \<Rightarrow> None) of
           Some cached \<Rightarrow> (NewStream (Optimised cached), e\<lparr>en_Cache := c1\<rparr>)
         | None \<Rightarrow>
             (let optimised = Optimise (Optimisations e) q
              in (NewStream optimised,
                  e\<lparr>en_Cache := lru_Put c1 key \<lparr>Parsed = q, Optimised = optimised\<rparr>\<rparr>)))"

text \<open>The engine after planning a list of queries, one after the other.\<close>

definition planned :: "('k, 'p) key_lib \<Rightarrow> ('k, 'p) Engine \<Rightarrow> 'p Query list \<Rightarrow> ('k, 'p) Engine" where
  "planned kl e qs = foldl (\<lambda>e q. snd (Plan kl e q :: ('p, unit, unit) Stream \<times> ('k, 'p) Engine)) e qs"

definition StopCache :: "('k, 'p) Engine \<Rightarrow> ('k, 'p) Engine" where
  "StopCache e = e\<lparr>en_Cache := lru_Clear (en_Cache e)\<rparr>"

section \<open>Deduplication\<close>

lemma filter_remdups: "remdups (filter P xs) = filter P (remdups xs)"
  by (induction xs) auto

lemma remdups_snoc: "remdups (xs @ [s]) = filter (\<lambda>x. x \<noteq> s) (remdups xs) @ [s]"
  by (induction xs) auto

lemma dedupe_loop_rev:
  "(\<forall>s. seen s \<noteq> None \<longleftrightarrow> s \<in> set out) \<Longrightarrow> dedupe_loop seen out xs = out @ filter (\<lambda>s. s \<notin> set out) (rev (remdups (rev xs)))"
proof (induction xs arbitrary: seen out)
  case (Cons s xs)
  show ?case
  proof (cases "seen s")
    case None
    then have "s \<notin> set out" using Cons.prems by (metis)
    moreover have "dedupe_loop (seen(s \<mapsto> True)) (out @ [s]) xs =
        (out @ [s]) @ filter (\<lambda>x. x \<notin> set (out @ [s])) (rev (remdups (rev xs)))"
      using Cons.prems by (intro Cons.IH) auto
    moreover have "rev (remdups (rev xs @ [s])) = s # filter (\<lambda>x. x \<noteq> s) (rev (remdups (rev xs)))"
      by (simp add: remdups_snoc rev_filter)
    ultimately show ?thesis using None by (simp add: conj_commute)
  next
    case (Some b)
    then have "s \<in> set out" using Cons.prems by (metis option.distinct(1))
    moreover have "rev (remdups (rev xs @ [s])) = s # filter (\<lambda>x. x \<noteq> s) (rev (remdups (rev xs)))"
      by (simp add: remdups_snoc rev_filter)
    ultimately show ?thesis using Some Cons by (auto intro!: filter_cong)
  qed
qed simp

lemma dedupe_reference: "dedupeStrings xs = rev (remdups (rev xs))"
proof (cases "length xs \<le> 1")
  case True
  then show ?thesis by (cases xs) (auto simp: dedupeStrings_def)
next
  case False
  then show ?thesis using dedupe_loop_rev [of Map.empty "[]" xs] by (simp add: dedupeStrings_def)
qed

text \<open>C40: The optimiser drops repetitions and nothing else: each list of a recall keeps its distinct members in
  the order of their first occurrences, a second pass changes nothing, and a remember is left as it is.\<close>

theorem dedupe_keeps_first_occurrences:
  "Optimise NewPipeline (RememberQ m) = RememberQ m \<and>
   (\<exists>s. Optimise NewPipeline (RecallQ r) = RecallQ s \<and>
      rq_Keywords s = rev (remdups (rev (rq_Keywords r))) \<and>
      rq_Entities s = rev (remdups (rev (rq_Entities r))) \<and>
      rq_Topics s = rev (remdups (rev (rq_Topics r))) \<and>
      rq_Vector s = rq_Vector r \<and> rq_Parameters s = rq_Parameters r \<and> rq_GraphID s = rq_GraphID r \<and>
      Optimise NewPipeline (RecallQ s) = RecallQ s)"
  by (simp add: Optimise_def NewPipeline_def dedupe_reference rev_filter)

section \<open>What a plan stands for\<close>

text \<open>An entry was planned for the query it holds, and is filed under that query's key.\<close>

definition entry_ok :: "('k, 'p) key_lib \<Rightarrow> 'p Pipeline \<Rightarrow> 'k \<Rightarrow> 'p CachedQuery \<Rightarrow> bool" where
  "entry_ok kl pipe k e \<longleftrightarrow> k = query_Hash kl (Parsed e) \<and> Optimised e = Optimise pipe (Parsed e)"

definition engine_ok :: "('k, 'p) key_lib \<Rightarrow> ('k, 'p) Engine \<Rightarrow> bool" where
  "engine_ok kl e \<longleftrightarrow> lru_ok (en_Cache e) \<and> lru.all_entries (entry_ok kl (Optimisations e)) (en_Cache e)"

lemma Plan_ok:
  assumes ok: "engine_ok kl e"
  shows "engine_ok kl (snd (Plan kl e q))" (is ?inv)
    and "Optimisations (snd (Plan kl e q)) = Optimisations e" (is ?pipe)
    and "\<exists>q'. query_Equal q' q \<and> query_Hash kl q' = query_Hash kl q \<and>
      fst (Plan kl e q) = NewStream (Optimise (Optimisations e) q')" (is ?run)
proof -
  let ?key = "query_Hash kl q" and ?all = "lru.all_entries (entry_ok kl (Optimisations e))"
  obtain hit c1 where get: "lru_Get (en_Cache e) ?key = (hit, c1)" by fastforce
  have c1: "lru_ok c1" "?all c1"
    using ok lru.get_inv [of "en_Cache e" ?key] lru.all_entries_get [of "en_Cache e" _ ?key] get
    by (auto simp: engine_ok_def)
  have hit: "entry_ok kl (Optimisations e) ?key v" if "hit = Some v" for v
    using ok that lru.all_entries_hit [of "en_Cache e" _ ?key v] get by (auto simp: engine_ok_def)
  have miss: "lru_ok (lru_Put c1 ?key v)" "?all (lru_Put c1 ?key v)"
    if "v = \<lparr>Parsed = q, Optimised = Optimise (Optimisations e) q\<rparr>" for v
    using c1 that by (auto intro!: lru.put_inv lru.all_entries_put simp: entry_ok_def)
  show ?inv ?pipe
    using c1 hit miss by (auto simp: Plan_def Let_def get engine_ok_def entry_ok_def split: option.splits)
  show ?run
  proof (cases "\<exists>v. hit = Some v \<and> query_Equal (Parsed v) q")
    case True
    then obtain v where "hit = Some v" "query_Equal (Parsed v) q" by blast
    moreover from this have "query_Hash kl (Parsed v) = query_Hash kl q" "Optimised v = Optimise (Optimisations e) (Parsed v)"
      using hit [of v] by (simp_all add: entry_ok_def)
    ultimately show ?thesis by (intro exI [of _ "Parsed v"]) (simp add: Plan_def get Let_def)
  next
    case False
    then show ?thesis
      by (intro exI [of _ q]) (auto simp: Plan_def get Let_def split: option.splits)
  qed
qed

lemma all_entries_empty: "recency c = [] \<Longrightarrow> lru.all_entries P c"
  by (simp add: lru.all_entries_def)

lemma StartCache_ok:
  assumes "StartCache c = Inr e"
  shows "engine_ok kl e \<and> Optimisations e = NewPipeline"
proof -
  have "lru_ok (en_Cache e)" "recency (en_Cache e) = []" "Optimisations e = NewPipeline"
    using assms by (auto simp: StartCache_def NewLRUCache_def lru_ok_def elems_ok_def recency_def split: sum.splits if_splits)
  then show ?thesis by (simp add: engine_ok_def all_entries_empty)
qed

lemma planned_ok: "engine_ok kl e \<Longrightarrow> engine_ok kl (planned kl e qs) \<and> Optimisations (planned kl e qs) = Optimisations e"
  unfolding planned_def by (induction qs rule: rev_induct) (auto intro: Plan_ok simp: Plan_ok(2))

text \<open>What running a query reads: the arguments of the search, or the write itself.\<close>

definition runs_as :: "'p Query \<Rightarrow> 'p Query \<Rightarrow> bool" where
  "runs_as q q' \<longleftrightarrow> (case (q, q') of
     (RecallQ r, RecallQ s) \<Rightarrow> (\<forall>now. recall_reads r now = recall_reads s now)
   | (RememberQ m, RememberQ n) \<Rightarrow> m = n
   | _ \<Rightarrow> False)"

lemma Optimise_Equal_runs_as:
  assumes "query_Equal q' q"
  shows "runs_as (Optimise NewPipeline q') (Optimise NewPipeline q)"
proof (cases "(q', q)" rule: query_Equal.cases)
  case (1 r s)
  then have "recall_reads r now = recall_reads s now" for now
    using assms recall_Equal_reads [of r s now] by simp
  then have "recall_reads r = recall_reads s" by blast
  then show ?thesis using 1
    by (auto simp: runs_as_def Optimise_def NewPipeline_def recall_reads_def rq_Since_def rq_Until_def fun_eq_iff)
next
  case (2 r s)
  then have "r = s" using assms remember_Equal_eq [of r s] by simp
  then show ?thesis using 2 by (simp add: runs_as_def Optimise_def NewPipeline_def)
qed (use assms in simp_all)

text \<open>C10: After any sequence of plans, whichever keys collide and whatever the cache has evicted, a query is run
  with the search arguments, or as the write, of its own optimisation; the stream is a fresh one.\<close>

theorem plan_runs_own_query:
  assumes start: "StartCache c = Inr e0"
  shows "\<exists>p. fst (Plan kl (planned kl e0 qs) q) = NewStream p \<and> runs_as p (Optimise NewPipeline q) \<and>
    (\<exists>q'. query_Equal q' q \<and> p = Optimise NewPipeline q')" (is "\<exists>p. ?s = NewStream p \<and> _")
proof -
  have e: "engine_ok kl (planned kl e0 qs)" "Optimisations (planned kl e0 qs) = NewPipeline"
    using StartCache_ok [OF start, of kl] planned_ok [of kl e0 qs] by auto
  then obtain q' where "query_Equal q' q" "?s = NewStream (Optimise NewPipeline q')"
    using Plan_ok(3) [OF e(1), of q] by auto
  then show ?thesis using Optimise_Equal_runs_as by blast
qed

definition colliding_keys :: "(nat, nat) key_lib" where
  "colliding_keys = plain_keys\<lparr>h := (\<lambda>_. 0)\<rparr>"

definition example_recall :: "8 word \<Rightarrow> nat Query" where
  "example_recall g = RecallQ \<lparr>rq_Keywords = [str ''a'', str ''b'', str ''a''], rq_Vector = [], rq_Entities = [],
     rq_Topics = [], rq_Parameters = \<lparr>qp_Top = 10, qp_Depth = 0, qp_Since = None, qp_Until = None\<rparr>, rq_GraphID = g\<rparr>"

theorem plan_runs_own_query_witness:
  "\<exists>e0 r. StartCache (default_config 4) = Inr e0 \<and>
     query_Hash colliding_keys (example_recall 0) = query_Hash colliding_keys (example_recall 1) \<and>
     (fst (Plan colliding_keys (planned colliding_keys e0 [example_recall 0]) (example_recall 1))
       :: (nat, unit, unit) Stream) = NewStream (RecallQ r) \<and>
     rq_GraphID r = 1 \<and> rq_Keywords r = [str ''a'', str ''b'']"
proof -
  obtain e0 where e0: "StartCache (default_config 4) = Inr (e0 :: (nat, nat) Engine)"
    by (simp add: StartCache_def NewLRUCache_def default_config_def)
  obtain p where p: "(fst (Plan colliding_keys (planned colliding_keys e0 [example_recall 0]) (example_recall 1))
       :: (nat, unit, unit) Stream) = NewStream p" "runs_as p (Optimise NewPipeline (example_recall 1))"
    using plan_runs_own_query [OF e0, of colliding_keys "[example_recall 0]" "example_recall 1"] by blast
  have "dedupeStrings [str ''a'', str ''b'', str ''a''] = [str ''a'', str ''b'']"
    by (simp add: dedupe_reference str_def)
  then obtain r where "p = RecallQ r" "rq_GraphID r = 1" "rq_Keywords r = [str ''a'', str ''b'']"
    using p(2) by (auto simp: runs_as_def Optimise_def NewPipeline_def example_recall_def recall_reads_def split: Query.splits)
  then show ?thesis using e0 p(1)
    by (intro exI [of _ e0] exI [of _ r]) (simp add: example_recall_def colliding_keys_def)
qed

end
