(* ===== verification/Graph_Node.thy ===== *)
theory Graph_Node
  imports Lexer_Tokens "HOL-Library.Finite_Map"
begin

text \<open>
  The nodes of \<open>internal/graph\<close> (\<open>node.go\<close>, \<open>entity.go\<close>, \<open>relationship.go\<close>): three kinds of vertex and
  two of edge, and the key each is stored under. A node carries the hasher of its graph in the code;
  here the hasher \<open>h\<close> is an argument. An edge points at its two ends, so it holds their attributes.
  \<open>Topic.ID\<close>, which nothing writes or reads, is left out. Timestamps are nanoseconds from Go's zero
  time. Go's maps are finite maps here; a loop over one runs in key order, which is one of the orders
  Go may take, and the results that depend on the order say so.
\<close>

section \<open>Maps\<close>

definition keys_of :: "('k :: linorder, 'v) fmap \<Rightarrow> 'k list" where
  "keys_of m = sorted_list_of_fset (fmdom m)"

text \<open>Reading a row of a map of maps: an absent row reads as a nil, empty, one.\<close>

definition row :: "('k, ('l, 'v) fmap) fmap \<Rightarrow> 'k \<Rightarrow> ('l, 'v) fmap" where
  "row m k = (case fmlookup m k of None \<Rightarrow> fmempty | Some r \<Rightarrow> r)"

definition delete_all :: "'k list \<Rightarrow> ('k, 'v) fmap \<Rightarrow> ('k, 'v) fmap" where
  "delete_all ks m = foldl (\<lambda>m k. fmdrop k m) m ks"

lemma set_keys_of [simp]: "set (keys_of m) = fmdom' m"
  by (simp add: keys_of_def fmdom'_alt_def)

lemma sorted_keys_of [simp]: "sorted (keys_of m)" "distinct (keys_of m)"
  by (simp_all add: keys_of_def sorted_list_of_fset.rep_eq)

lemma mem_keys_of: "k \<in> fmdom' m \<longleftrightarrow> fmlookup m k \<noteq> None"
  by (auto simp: fmlookup_dom'_iff)

lemma row_empty [simp]: "row fmempty k = fmempty"
  by (simp add: row_def)

lemma row_upd [simp]: "row (fmupd a r m) k = (if k = a then r else row m k)"
  by (simp add: row_def)

lemma row_drop [simp]: "row (fmdrop a m) k = (if k = a then fmempty else row m k)"
  by (simp add: row_def)

lemma lookup_fmdrop: "fmlookup (fmdrop a m) k = (if k = a then None else fmlookup m k)"
  by simp

lemma lookup_delete_all: "fmlookup (delete_all ks m) k = (if k \<in> set ks then None else fmlookup m k)"
  unfolding delete_all_def by (induction ks arbitrary: m) auto

section \<open>Nodes\<close>

record NodeAttributes =
  na_Value :: runes
  na_Timestamp :: int

datatype Node =
    Fact NodeAttributes
  | Topic NodeAttributes
  | NamedEntity NodeAttributes
  | Mentions NodeAttributes NodeAttributes NodeAttributes \<comment> \<open>fact, entity, the edge's own attributes\<close>
  | IsAbout NodeAttributes NodeAttributes NodeAttributes \<comment> \<open>fact, topic, the edge's own attributes\<close>

fun GetAttributes :: "Node \<Rightarrow> NodeAttributes" where
  "GetAttributes (Fact a) = a"
| "GetAttributes (Topic a) = a"
| "GetAttributes (NamedEntity a) = a"
| "GetAttributes (Mentions f e a) = a"
| "GetAttributes (IsAbout f t a) = a"

definition GetValue :: "Node \<Rightarrow> runes" where
  "GetValue n = na_Value (GetAttributes n)"

definition GetTimestamp :: "Node \<Rightarrow> int" where
  "GetTimestamp n = na_Timestamp (GetAttributes n)"

fun material :: "Node \<Rightarrow> runes" where
  "material (Fact a) = str ''fact:'' @ na_Value a"
| "material (NamedEntity a) = str ''entity:'' @ na_Value a"
| "material (Topic a) = str ''topic:'' @ na_Value a"
| "material (Mentions f e a) = str ''mentions:'' @ na_Value f @ 0 # na_Value e"
| "material (IsAbout f t a) = str ''isabout:'' @ na_Value f @ 0 # na_Value t"

definition Key :: "(runes \<Rightarrow> 'k) \<Rightarrow> Node \<Rightarrow> 'k" where
  "Key h n = h (material n)"

fun Source :: "Node \<Rightarrow> Node option" where
  "Source (Mentions f e a) = Some (Fact f)"
| "Source (IsAbout f t a) = Some (Fact f)"
| "Source _ = None"

fun Target :: "Node \<Rightarrow> Node option" where
  "Target (Mentions f e a) = Some (NamedEntity e)"
| "Target (IsAbout f t a) = Some (Topic t)"
| "Target _ = None"

text \<open>The type switches of the code: which nodes are facts, anchors and relationships.\<close>

fun is_fact :: "Node \<Rightarrow> bool" where
  "is_fact (Fact a) = True"
| "is_fact _ = False"

fun is_anchor :: "Node \<Rightarrow> bool" where
  "is_anchor (Topic a) = True"
| "is_anchor (NamedEntity a) = True"
| "is_anchor _ = False"

fun is_edge :: "Node \<Rightarrow> bool" where
  "is_edge (Mentions f e a) = True"
| "is_edge (IsAbout f t a) = True"
| "is_edge _ = False"

lemma kinds: "is_fact n \<longleftrightarrow> \<not> is_anchor n \<and> \<not> is_edge n" "is_anchor n \<Longrightarrow> \<not> is_edge n"
  by (cases n; simp)+

lemma edge_ends:
  "is_edge n \<longleftrightarrow> Source n \<noteq> None" "is_edge n \<longleftrightarrow> Target n \<noteq> None"
  "Source n = Some s \<Longrightarrow> is_fact s" "Target n = Some t \<Longrightarrow> is_anchor t"
  by (cases n; auto)+

text \<open>A node's identity: its kind and its text, or the texts of its two ends.\<close>

fun identity :: "Node \<Rightarrow> nat \<times> runes \<times> runes" where
  "identity (Fact a) = (0, na_Value a, [])"
| "identity (NamedEntity a) = (1, na_Value a, [])"
| "identity (Topic a) = (2, na_Value a, [])"
| "identity (Mentions f e a) = (3, na_Value f, na_Value e)"
| "identity (IsAbout f t a) = (4, na_Value f, na_Value t)"

lemma identity_material: "identity m = identity n \<Longrightarrow> material m = material n"
  by (cases m; cases n) simp_all

lemma identity_Key: "identity m = identity n \<Longrightarrow> Key h m = Key h n"
  unfolding Key_def by (drule identity_material) simp

lemma identity_kinds:
  "identity m = identity n \<Longrightarrow> is_fact m = is_fact n \<and> is_anchor m = is_anchor n \<and> is_edge m = is_edge n"
  by (cases m; cases n) simp_all

lemma identity_ends:
  "identity m = identity n \<Longrightarrow>
     map_option (Key h) (Source m) = map_option (Key h) (Source n) \<and>
     map_option (Key h) (Target m) = map_option (Key h) (Target n)"
  by (cases m; cases n) (simp_all add: Key_def)

text \<open>When no text holds a NUL, the material determines the identity.\<close>

definition nul_free :: "Node \<Rightarrow> bool" where
  "nul_free n \<longleftrightarrow> 0 \<notin> set (fst (snd (identity n))) \<and> 0 \<notin> set (snd (snd (identity n)))"

lemma split_at_nul:
  "0 \<notin> set xs \<Longrightarrow> 0 \<notin> set ys \<Longrightarrow> xs @ (0::nat) # us = ys @ 0 # vs \<longleftrightarrow> xs = ys \<and> us = vs"
proof (induction xs arbitrary: ys)
  case Nil
  then show ?case by (cases ys) auto
next
  case (Cons x xs)
  then show ?case by (cases ys) auto
qed

lemma material_identity:
  "nul_free m \<Longrightarrow> nul_free n \<Longrightarrow> material m = material n \<longleftrightarrow> identity m = identity n"
  by (cases m; cases n) (simp_all add: str_def nul_free_def split_at_nul)

text \<open>
  The key of an edge does not determine its ends: a text may hold the character that separates them,
  so the entity \<open>b\<close>, NUL, \<open>c\<close> of the fact \<open>a\<close> and the entity \<open>c\<close> of the fact \<open>a\<close>, NUL, \<open>b\<close> share
  one edge key, whatever the hash.
\<close>

lemma edge_key_shared:
  "Key h (Mentions \<lparr>na_Value = a, na_Timestamp = t1\<rparr> \<lparr>na_Value = b @ 0 # c, na_Timestamp = t2\<rparr> x) =
   Key h (Mentions \<lparr>na_Value = a @ 0 # b, na_Timestamp = t3\<rparr> \<lparr>na_Value = c, na_Timestamp = t4\<rparr> y)"
  by (simp add: Key_def)

end
