(* ===== verification/Graph_Store.thy ===== *)
theory Graph_Store
  imports Graph_Node Index_NLP Fraise_Prelude
begin

text \<open>
  The store of \<open>internal/graph/in_memory.go\<close>: nodes by key, the two mirrored views of the edges, the
  writes \<open>Set\<close>, \<open>Put\<close> and \<open>Delete\<close>, and the caches of each anchor's members in time order and of each
  fact's temporal neighbours. The two indexes are reached through the interface \<open>SearchIndex\<close> of
  \<open>internal/index\<close>, the record \<open>index_ops\<close>. A method that mutates the graph returns its error
  beside the new graph. A nil node is \<open>None\<close>. The locks are the callers' and are not modelled here.
\<close>

section \<open>State\<close>

datatype index_error = ErrEmptyIndex | ErrIndexNotFound | ErrInvalidDimension | ErrDuplicateValue

datatype graph_error =
    ErrNilNode
  | ErrNodeAlreadyExists
  | ErrNodeNotFound
  | ErrSourceNotFound
  | IndexError index_error

record ('k, 'v, 'i) index_ops =
  ix_Insert :: "'i \<Rightarrow> 'k \<Rightarrow> 'v \<Rightarrow> index_error option \<times> 'i"
  ix_Retrieve :: "'i \<Rightarrow> 'k \<Rightarrow> index_error + 'v"
  ix_Update :: "'i \<Rightarrow> 'k \<Rightarrow> 'v \<Rightarrow> index_error option \<times> 'i"
  ix_Delete :: "'i \<Rightarrow> 'k \<Rightarrow> index_error option \<times> 'i"
  ix_Count :: "'i \<Rightarrow> nat"
  ix_Entries :: "'i \<Rightarrow> nat"

record 'k sequence =
  seq_keys :: "'k list"
  seq_at :: "('k, nat) fmap"

record ('k, 'ti, 'vi) InMemoryGraph =
  idToNodes :: "('k, Node) fmap"
  nodeToSources :: "('k, ('k, 'k) fmap) fmap"
  nodeToTargets :: "('k, ('k, 'k) fmap) fmap"
  textIndex :: 'ti
  vectorIndex :: 'vi
  hasher :: "runes \<Rightarrow> 'k"
  sequences :: "('k, 'k sequence) fmap"
  contiguity :: "('k, 'k list) fmap"

definition empty_graph :: "(runes \<Rightarrow> 'k) \<Rightarrow> 'ti \<Rightarrow> 'vi \<Rightarrow> ('k, 'ti, 'vi) InMemoryGraph" where
  "empty_graph h ti vi = \<lparr>idToNodes = fmempty, nodeToSources = fmempty, nodeToTargets = fmempty,
     textIndex = ti, vectorIndex = vi, hasher = h, sequences = fmempty, contiguity = fmempty\<rparr>"

section \<open>Reading\<close>

definition graph_Get :: "('k, 'ti, 'vi) InMemoryGraph \<Rightarrow> 'k \<Rightarrow> Node option" where
  "graph_Get g key = fmlookup (idToNodes g) key"

definition isAnchor :: "('k, 'ti, 'vi) InMemoryGraph \<Rightarrow> 'k \<Rightarrow> bool" where
  "isAnchor g key = (case graph_Get g key of Some n \<Rightarrow> is_anchor n | None \<Rightarrow> False)"

definition isFact :: "('k, 'ti, 'vi) InMemoryGraph \<Rightarrow> 'k \<Rightarrow> bool" where
  "isFact g key = (case graph_Get g key of Some n \<Rightarrow> is_fact n | None \<Rightarrow> False)"

definition graph_Order :: "('k :: linorder, 'ti, 'vi) InMemoryGraph \<Rightarrow> nat" where
  "graph_Order g = foldl (\<lambda>n key. case graph_Get g key of
     Some node \<Rightarrow> if is_edge node then n else Suc n | None \<Rightarrow> n) 0 (keys_of (idToNodes g))"

definition graph_Size :: "('k :: linorder, 'ti, 'vi) InMemoryGraph \<Rightarrow> nat" where
  "graph_Size g = foldl (\<lambda>n key. n + length (keys_of (row (nodeToTargets g) key))) 0 (keys_of (nodeToTargets g))"

definition graph_IsEmpty :: "('k :: linorder, 'ti, 'vi) InMemoryGraph \<Rightarrow> bool" where
  "graph_IsEmpty g = (length (keys_of (idToNodes g)) = 0)"

section \<open>Sequences\<close>

definition dropSequence :: "'k \<Rightarrow> ('k, 'ti, 'vi) InMemoryGraph \<Rightarrow> ('k, 'ti, 'vi) InMemoryGraph" where
  "dropSequence anchor g =
     (case fmlookup (sequences g) anchor of
        None \<Rightarrow> g
      | Some seq \<Rightarrow> g\<lparr>contiguity := delete_all (seq_keys seq) (contiguity g),
                      sequences := fmdrop anchor (sequences g)\<rparr>)"

definition dropSequences ::
    "'k :: linorder \<Rightarrow> ('k, 'ti, 'vi) InMemoryGraph \<Rightarrow> ('k, 'ti, 'vi) InMemoryGraph" where
  "dropSequences key g =
     (let g1 = dropSequence key (g\<lparr>contiguity := fmdrop key (contiguity g)\<rparr>);
          g2 = foldl (\<lambda>g neighbour. dropSequence neighbour g) g1 (keys_of (row (nodeToTargets g) key))
      in foldl (\<lambda>g neighbour. dropSequence neighbour g) g2 (keys_of (row (nodeToSources g) key)))"

text \<open>The order of members: by write time, then by key.\<close>

definition written_at :: "('k, 'ti, 'vi) InMemoryGraph \<Rightarrow> 'k \<Rightarrow> int" where
  "written_at g key = (case graph_Get g key of Some n \<Rightarrow> GetTimestamp n | None \<Rightarrow> 0)"

definition not_later :: "('k :: linorder, 'ti, 'vi) InMemoryGraph \<Rightarrow> 'k \<Rightarrow> 'k \<Rightarrow> bool" where
  "not_later g a b = (written_at g a < written_at g b \<or> written_at g a = written_at g b \<and> a \<le> b)"

definition positions :: "'k list \<Rightarrow> ('k, nat) fmap" where
  "positions ks = foldl (\<lambda>m (i, k). fmupd k i m) fmempty (zip [0..<length ks] ks)"

definition build_sequence :: "('k :: linorder, 'ti, 'vi) InMemoryGraph \<Rightarrow> 'k \<Rightarrow> 'k sequence" where
  "build_sequence g anchor =
     (let ks = sort_by (not_later g) (filter (isFact g) (keys_of (row (nodeToSources g) anchor)))
      in \<lparr>seq_keys = ks, seq_at = positions ks\<rparr>)"

definition sequence_of ::
    "'k :: linorder \<Rightarrow> ('k, 'ti, 'vi) InMemoryGraph \<Rightarrow> 'k sequence \<times> ('k, 'ti, 'vi) InMemoryGraph" where
  "sequence_of anchor g =
     (case fmlookup (sequences g) anchor of
        Some seq \<Rightarrow> (seq, g)
      | None \<Rightarrow> let seq = build_sequence g anchor in (seq, g\<lparr>sequences := fmupd anchor seq (sequences g)\<rparr>))"

definition beside :: "'k sequence \<Rightarrow> 'k \<Rightarrow> 'k list" where
  "beside seq key =
     (case fmlookup (seq_at seq) key of
        None \<Rightarrow> []
      | Some i \<Rightarrow> (if 0 < i then [seq_keys seq ! (i - 1)] else []) @
                  (if i + 1 < length (seq_keys seq) then [seq_keys seq ! (i + 1)] else []))"

fun contiguous_loop ::
    "'k :: linorder \<Rightarrow> 'k list \<Rightarrow> 'k list \<Rightarrow> ('k, 'ti, 'vi) InMemoryGraph \<Rightarrow> 'k list \<times> ('k, 'ti, 'vi) InMemoryGraph" where
  "contiguous_loop key [] out g = (out, g)"
| "contiguous_loop key (anchor # anchors) out g =
     (if \<not> isAnchor g anchor then contiguous_loop key anchors out g
      else let (seq, g1) = sequence_of anchor g
           in contiguous_loop key anchors (out @ beside seq key) g1)"

definition contiguous ::
    "'k :: linorder \<Rightarrow> ('k, 'ti, 'vi) InMemoryGraph \<Rightarrow> 'k list \<times> ('k, 'ti, 'vi) InMemoryGraph" where
  "contiguous key g =
     (case fmlookup (contiguity g) key of
        Some out \<Rightarrow> (out, g)
      | None \<Rightarrow>
          let (out, g1) = contiguous_loop key (keys_of (row (nodeToTargets g) key)) [] g;
              out = remdups_adj (sort out)
          in (out, g1\<lparr>contiguity := fmupd key out (contiguity g1)\<rparr>))"

section \<open>Writing\<close>

definition put_entry :: "'k \<Rightarrow> 'l \<Rightarrow> 'v \<Rightarrow> ('k, ('l, 'v) fmap) fmap \<Rightarrow> ('k, ('l, 'v) fmap) fmap" where
  "put_entry a b v m = fmupd a (fmupd b v (row m a)) m"

definition link :: "Node \<Rightarrow> ('k :: linorder, 'ti, 'vi) InMemoryGraph \<Rightarrow> ('k, 'ti, 'vi) InMemoryGraph" where
  "link node g =
     (case (Source node, Target node) of
        (Some s, Some t) \<Rightarrow>
          let source = Key (hasher g) s; target = Key (hasher g) t; edge = Key (hasher g) node;
              g1 = g\<lparr>nodeToTargets := put_entry source target edge (nodeToTargets g),
                     nodeToSources := put_entry target source edge (nodeToSources g)\<rparr>
          in dropSequences source g1
      | _ \<Rightarrow> g)"

definition index_text ::
    "unicode \<Rightarrow> ('k, runes, 'ti) index_ops \<Rightarrow> 'k \<Rightarrow> Node \<Rightarrow> ('k, 'ti, 'vi) InMemoryGraph \<Rightarrow>
     graph_error option \<times> ('k, 'ti, 'vi) InMemoryGraph" where
  "index_text u T key node g =
     (if is_fact node \<and> GetValue node \<noteq> [] then
        (let write = (case ix_Retrieve T (textIndex g) key of Inr _ \<Rightarrow> ix_Update T | Inl _ \<Rightarrow> ix_Insert T);
             (err, ti) = write (textIndex g) key (CleanContent u (GetValue node))
         in (map_option IndexError err, g\<lparr>textIndex := ti\<rparr>))
      else (None, g))"

definition store ::
    "unicode \<Rightarrow> ('k, runes, 'ti) index_ops \<Rightarrow> 'k :: linorder \<Rightarrow> Node \<Rightarrow> ('k, 'ti, 'vi) InMemoryGraph \<Rightarrow>
     graph_error option \<times> ('k, 'ti, 'vi) InMemoryGraph" where
  "store u T key node g =
     index_text u T key node (link node (dropSequences key (g\<lparr>idToNodes := fmupd key node (idToNodes g)\<rparr>)))"

definition graph_Set ::
    "unicode \<Rightarrow> ('k, runes, 'ti) index_ops \<Rightarrow> Node option \<Rightarrow> ('k :: linorder, 'ti, 'vi) InMemoryGraph \<Rightarrow>
     graph_error option \<times> ('k, 'ti, 'vi) InMemoryGraph" where
  "graph_Set u T node g =
     (case node of
        None \<Rightarrow> (Some ErrNilNode, g)
      | Some n \<Rightarrow>
          if fmlookup (idToNodes g) (Key (hasher g) n) \<noteq> None then (Some ErrNodeAlreadyExists, g)
          else store u T (Key (hasher g) n) n g)"

definition graph_Put ::
    "unicode \<Rightarrow> ('k, runes, 'ti) index_ops \<Rightarrow> 'k :: linorder \<Rightarrow> Node option \<Rightarrow> ('k, 'ti, 'vi) InMemoryGraph \<Rightarrow>
     graph_error option \<times> ('k, 'ti, 'vi) InMemoryGraph" where
  "graph_Put u T key node g = (case node of None \<Rightarrow> (Some ErrNilNode, g) | Some n \<Rightarrow> store u T key n g)"

definition drop_entry :: "'k \<Rightarrow> 'l :: linorder \<Rightarrow> ('k, ('l, 'v) fmap) fmap \<Rightarrow> ('k, ('l, 'v) fmap) fmap" where
  "drop_entry a b m =
     (let r = fmdrop b (row m a) in if length (keys_of r) = 0 then fmdrop a m else fmupd a r m)"

definition unlink :: "'k :: linorder \<Rightarrow> 'k \<Rightarrow> ('k, 'ti, 'vi) InMemoryGraph \<Rightarrow> ('k, 'ti, 'vi) InMemoryGraph" where
  "unlink source target g =
     g\<lparr>nodeToTargets := drop_entry source target (nodeToTargets g),
       nodeToSources := drop_entry target source (nodeToSources g)\<rparr>"

definition dropRelationship :: "'k \<Rightarrow> ('k, 'ti, 'vi) InMemoryGraph \<Rightarrow> ('k, 'ti, 'vi) InMemoryGraph" where
  "dropRelationship key g = g\<lparr>idToNodes := fmdrop key (idToNodes g)\<rparr>"

text \<open>The two loops of \<open>Delete\<close>, over the rows as they are when each loop starts.\<close>

definition unlink_targets :: "'k :: linorder \<Rightarrow> ('k, 'ti, 'vi) InMemoryGraph \<Rightarrow> ('k, 'ti, 'vi) InMemoryGraph" where
  "unlink_targets key g =
     (let r = row (nodeToTargets g) key
      in foldl (\<lambda>g target. case fmlookup r target of
           Some edge \<Rightarrow> dropRelationship edge (unlink key target g) | None \<Rightarrow> g) g (keys_of r))"

definition unlink_sources :: "'k :: linorder \<Rightarrow> ('k, 'ti, 'vi) InMemoryGraph \<Rightarrow> ('k, 'ti, 'vi) InMemoryGraph" where
  "unlink_sources key g =
     (let r = row (nodeToSources g) key
      in foldl (\<lambda>g source. case fmlookup r source of
           Some edge \<Rightarrow> dropRelationship edge (unlink source key g) | None \<Rightarrow> g) g (keys_of r))"

definition unlink_edge :: "Node \<Rightarrow> ('k :: linorder, 'ti, 'vi) InMemoryGraph \<Rightarrow> ('k, 'ti, 'vi) InMemoryGraph" where
  "unlink_edge stored g =
     (case (Source stored, Target stored) of
        (Some s, Some t) \<Rightarrow> unlink (Key (hasher g) s) (Key (hasher g) t) g
      | _ \<Rightarrow> g)"

definition graph_Delete ::
    "('k, runes, 'ti) index_ops \<Rightarrow> ('k, 'v, 'vi) index_ops \<Rightarrow> Node option \<Rightarrow>
     ('k :: linorder, 'ti, 'vi) InMemoryGraph \<Rightarrow> graph_error option \<times> ('k, 'ti, 'vi) InMemoryGraph" where
  "graph_Delete T V node g =
     (case node of
        None \<Rightarrow> (Some ErrNilNode, g)
      | Some n \<Rightarrow>
          (let key = Key (hasher g) n
           in case fmlookup (idToNodes g) key of
                None \<Rightarrow> (Some ErrNodeNotFound, g)
              | Some stored \<Rightarrow>
                  let g1 = dropSequences key g;
                      g2 = (case Source stored of Some s \<Rightarrow> dropSequences (Key (hasher g) s) g1 | None \<Rightarrow> g1);
                      g3 = unlink_sources key (unlink_targets key g2);
                      g4 = unlink_edge stored (g3\<lparr>idToNodes := fmdrop key (idToNodes g3)\<rparr>)
                  in (None, g4\<lparr>textIndex := snd (ix_Delete T (textIndex g4) key),
                               vectorIndex := snd (ix_Delete V (vectorIndex g4) key)\<rparr>)))"

end
