(* ===== verification/Graph_Traversal.thy ===== *)
theory Graph_Traversal
  imports Graph_Store
begin

text \<open>
  The traversals of \<open>internal/graph\<close> (\<open>algorithm.go\<close>, \<open>bfs.go\<close>, \<open>excess.go\<close>). Go ranges over a map in
  any order: \<open>rank dir u\<close> numbers the keys of the row of \<open>u\<close> in the order the range yields them, and is an
  argument of every traversal. The properties hold for every rank: a breadth-first search finds
  the shortest distances, whatever the order, and the excess traversal gives the same result.
\<close>

datatype Direction = Outgoing | Incoming | Both

record 'k TraversalResult =
  tr_Order :: "'k list"
  tr_Parent :: "('k, 'k) fmap"
  tr_Parents :: "('k, 'k list) fmap"
  tr_Depth :: "('k, nat) fmap"

definition no_result :: "'k TraversalResult" where
  "no_result = \<lparr>tr_Order = [], tr_Parent = fmempty, tr_Parents = fmempty, tr_Depth = fmempty\<rparr>"

definition reachedFrom :: "'k TraversalResult \<Rightarrow> 'k \<Rightarrow> 'k list" where
  "reachedFrom r v =
     (let parents = (case fmlookup (tr_Parents r) v of Some ps \<Rightarrow> ps | None \<Rightarrow> [])
      in if length parents > 0 then parents
         else case fmlookup (tr_Parent r) v of Some parent \<Rightarrow> [parent] | None \<Rightarrow> [])"

section \<open>Breadth-first search\<close>

text \<open>The sources the graph holds, each once, at depth 0.\<close>

fun bfs_sources :: "('k :: linorder, 'ti, 'vi) InMemoryGraph \<Rightarrow> 'k list \<Rightarrow> 'k TraversalResult \<Rightarrow> 'k list \<Rightarrow> 'k TraversalResult \<times> 'k list" where
  "bfs_sources g [] r queue = (r, queue)"
| "bfs_sources g (source # ss) r queue =
     (if fmlookup (tr_Depth r) source \<noteq> None \<or> graph_Get g source = None then bfs_sources g ss r queue
      else bfs_sources g ss
        (r\<lparr>tr_Order := tr_Order r @ [source], tr_Parent := fmupd source source (tr_Parent r),
           tr_Depth := fmupd source 0 (tr_Depth r)\<rparr>) (queue @ [source]))"

type_synonym 'k rank = "Direction \<Rightarrow> 'k \<Rightarrow> 'k \<Rightarrow> nat"

definition bfs_neighbours ::
    "'k rank \<Rightarrow> Direction \<Rightarrow> ('k :: linorder, 'ti, 'vi) InMemoryGraph \<Rightarrow> 'k \<Rightarrow> 'k list" where
  "bfs_neighbours rank dir g u =
     (if dir = Outgoing \<or> dir = Both then sort_key (rank Outgoing u) (keys_of (row (nodeToTargets g) u)) else []) @
     (if dir = Incoming \<or> dir = Both then sort_key (rank Incoming u) (keys_of (row (nodeToSources g) u)) else [])"

fun bfs_visit :: "'k \<Rightarrow> 'k list \<Rightarrow> 'k TraversalResult \<Rightarrow> 'k list \<Rightarrow> 'k TraversalResult \<times> 'k list" where
  "bfs_visit u [] r queue = (r, queue)"
| "bfs_visit u (v # vs) r queue =
     (if fmlookup (tr_Depth r) v \<noteq> None then bfs_visit u vs r queue
      else bfs_visit u vs
        (r\<lparr>tr_Order := tr_Order r @ [v], tr_Parent := fmupd v u (tr_Parent r),
           tr_Depth := fmupd v (the (fmlookup (tr_Depth r) u) + 1) (tr_Depth r)\<rparr>) (queue @ [v]))"

text \<open>The loop ends: a vertex enters the queue once, and only vertices of the graph's views do.\<close>

lemma bfs_visit_enters:
  "bfs_visit u vs r queue = (r1, queue1) \<Longrightarrow>
     \<exists>new. queue1 = queue @ new \<and> fmdom' (tr_Depth r1) = fmdom' (tr_Depth r) \<union> set new \<and>
       set new \<subseteq> set vs - fmdom' (tr_Depth r)"
proof (induction vs arbitrary: r queue)
  case (Cons v vs)
  show ?case
  proof (cases "fmlookup (tr_Depth r) v")
    case (Some d)
    then have "bfs_visit u vs r queue = (r1, queue1)" using Cons.prems by simp
    then show ?thesis using Cons.IH by fastforce
  next
    case None
    let ?r = "r\<lparr>tr_Order := tr_Order r @ [v], tr_Parent := fmupd v u (tr_Parent r),
           tr_Depth := fmupd v (the (fmlookup (tr_Depth r) u) + 1) (tr_Depth r)\<rparr>"
    have "bfs_visit u vs ?r (queue @ [v]) = (r1, queue1)" using Cons.prems None by simp
    from Cons.IH [OF this] obtain new where new: "queue1 = (queue @ [v]) @ new"
      "fmdom' (tr_Depth r1) = insert v (fmdom' (tr_Depth r)) \<union> set new" "set new \<subseteq> set vs - insert v (fmdom' (tr_Depth r))"
      by auto
    have "v \<notin> fmdom' (tr_Depth r)" using None by (simp add: fmdom'_notI)
    then show ?thesis using new by (intro exI [of _ "v # new"]) auto
  qed
qed (intro exI [of _ "[]"], simp)

definition bfs_universe :: "('k :: linorder, 'ti, 'vi) InMemoryGraph \<Rightarrow> 'k set" where
  "bfs_universe g = (\<Union>u \<in> fmdom' (nodeToTargets g). fmdom' (row (nodeToTargets g) u)) \<union>
     (\<Union>u \<in> fmdom' (nodeToSources g). fmdom' (row (nodeToSources g) u))"

lemma finite_bfs_universe [simp]: "finite (bfs_universe g)"
  by (simp add: bfs_universe_def)

lemma row_dom: "v \<in> fmdom' (row m u) \<Longrightarrow> u \<in> fmdom' m"
  by (cases "fmlookup m u") (auto simp: row_def intro: fmdom'I)

lemma neighbours_in_universe: "set (bfs_neighbours rank dir g u) \<subseteq> bfs_universe g"
  unfolding bfs_neighbours_def bfs_universe_def by (cases dir) (auto dest: row_dom simp del: fmlookup_dom'_iff)

lemma bfs_decreases:
  assumes visit: "(r1, queue1) = bfs_visit u (bfs_neighbours rank dir g u) r queue"
  shows "card (bfs_universe g - fmdom' (tr_Depth r1)) < card (bfs_universe g - fmdom' (tr_Depth r)) \<or>
    card (bfs_universe g - fmdom' (tr_Depth r1)) = card (bfs_universe g - fmdom' (tr_Depth r)) \<and> length queue1 < Suc (length queue)"
proof -
  obtain new where new: "queue1 = queue @ new" "fmdom' (tr_Depth r1) = fmdom' (tr_Depth r) \<union> set new"
    "set new \<subseteq> bfs_universe g - fmdom' (tr_Depth r)"
    using bfs_visit_enters [OF visit [symmetric]] neighbours_in_universe [of rank dir g u] by blast
  show ?thesis
  proof (cases new)
    case Nil
    then show ?thesis using new by simp
  next
    case (Cons v vs)
    then have "bfs_universe g - fmdom' (tr_Depth r1) \<subset> bfs_universe g - fmdom' (tr_Depth r)"
      using new(2,3) by auto
    then show ?thesis by (intro disjI1 psubset_card_mono) simp_all
  qed
qed

function bfs_loop ::
    "'k rank \<Rightarrow> Direction \<Rightarrow> ('k :: linorder, 'ti, 'vi) InMemoryGraph \<Rightarrow> 'k TraversalResult \<Rightarrow> 'k list \<Rightarrow> 'k TraversalResult" where
  "bfs_loop rank dir g r [] = r"
| "bfs_loop rank dir g r (u # queue) =
     (case bfs_visit u (bfs_neighbours rank dir g u) r queue of (r1, queue1) \<Rightarrow> bfs_loop rank dir g r1 queue1)"
  by pat_completeness auto
termination
  by (relation "measures [\<lambda>(rank, dir, g, r, queue). card (bfs_universe g - fmdom' (tr_Depth r)),
    \<lambda>(rank, dir, g, r, queue). length queue]") (auto split: prod.splits dest: bfs_decreases [OF sym])

declare bfs_loop.simps(2) [simp del, loop_defs]

definition bfs_traverse ::
    "'k rank \<Rightarrow> Direction \<Rightarrow> ('k :: linorder, 'ti, 'vi) InMemoryGraph \<Rightarrow> 'k list \<Rightarrow> graph_error + 'k TraversalResult" where
  "bfs_traverse rank dir g sources =
     (let (r, queue) = bfs_sources g sources no_result []
      in if length queue = 0 then Inl ErrSourceNotFound else Inr (bfs_loop rank dir g r queue))"

section \<open>Breadth-first search finds shortest distances\<close>

inductive walk :: "('k \<Rightarrow> 'k set) \<Rightarrow> 'k set \<Rightarrow> nat \<Rightarrow> 'k \<Rightarrow> bool" for step S where
  here: "v \<in> S \<Longrightarrow> walk step S 0 v"
| there: "walk step S n u \<Longrightarrow> v \<in> step u \<Longrightarrow> walk step S (Suc n) v"

inductive_cases walk_0E [elim]: "walk step S 0 v"

text \<open>The vertices one edge away in the direction of the search.\<close>

definition one_edge :: "Direction \<Rightarrow> ('k, 'ti, 'vi) InMemoryGraph \<Rightarrow> 'k \<Rightarrow> 'k set" where
  "one_edge dir g u = (if dir = Incoming then {} else fmdom' (row (nodeToTargets g) u)) \<union>
     (if dir = Outgoing then {} else fmdom' (row (nodeToSources g) u))"

lemma set_bfs_neighbours: "set (bfs_neighbours rank dir g u) = one_edge dir g u"
  by (cases dir) (auto simp: bfs_neighbours_def one_edge_def)

definition depth :: "'k TraversalResult \<Rightarrow> 'k \<Rightarrow> nat" where
  "depth r v = the (fmlookup (tr_Depth r) v)"

text \<open>The invariant of the loop: the queue is the end of \<open>Order\<close>, whose depths never fall nor run ahead.\<close>

definition bfs_inv :: "('k \<Rightarrow> 'k set) \<Rightarrow> 'k set \<Rightarrow> 'k TraversalResult \<Rightarrow> 'k list \<Rightarrow> bool" where
  "bfs_inv step S r queue \<longleftrightarrow> (\<exists>seen. tr_Order r = seen @ queue \<and>
     (\<forall>u \<in> set seen. \<forall>v \<in> step u. v \<in> set (tr_Order r) \<and> depth r v \<le> Suc (depth r u))) \<and>
     distinct (tr_Order r) \<and> set (tr_Order r) = fmdom' (tr_Depth r) \<and>
     sorted (map (depth r) (tr_Order r)) \<and>
     (\<forall>v \<in> set (tr_Order r). queue \<noteq> [] \<longrightarrow> depth r v \<le> Suc (depth r (hd queue))) \<and>
     (\<forall>v \<in> set (tr_Order r). walk step S (depth r v) v) \<and>
     (\<forall>v \<in> S. v \<in> set (tr_Order r) \<and> depth r v = 0) \<and>
     (\<forall>v \<in> set (tr_Order r). \<exists>p. fmlookup (tr_Parent r) v = Some p \<and>
        (if v \<in> S then p = v else p \<in> set (tr_Order r) \<and> v \<in> step p \<and> depth r v = Suc (depth r p)))"

lemma bfs_visit_effect:
  assumes "bfs_visit u vs r queue = (r1, queue1)" "u \<in> fmdom' (tr_Depth r)"
  shows "\<exists>new. distinct new \<and> set new = set vs - fmdom' (tr_Depth r) \<and> tr_Order r1 = tr_Order r @ new \<and>
    queue1 = queue @ new \<and>
    (\<forall>x. fmlookup (tr_Depth r1) x = (if x \<in> set new then Some (Suc (depth r u)) else fmlookup (tr_Depth r) x)) \<and>
    (\<forall>x. fmlookup (tr_Parent r1) x = (if x \<in> set new then Some u else fmlookup (tr_Parent r) x))"
  using assms
proof (induction vs arbitrary: r queue)
  case (Cons v vs)
  show ?case
  proof (cases "fmlookup (tr_Depth r) v")
    case (Some d)
    then have "v \<in> fmdom' (tr_Depth r)" by (rule fmdom'I)
    moreover have "bfs_visit u vs r queue = (r1, queue1)" using Cons.prems Some by simp
    ultimately show ?thesis using Cons.IH [of r queue] Cons.prems(2) by (simp add: insert_Diff_if)
  next
    case None
    let ?r = "r\<lparr>tr_Order := tr_Order r @ [v], tr_Parent := fmupd v u (tr_Parent r),
           tr_Depth := fmupd v (the (fmlookup (tr_Depth r) u) + 1) (tr_Depth r)\<rparr>"
    have v: "v \<notin> fmdom' (tr_Depth r)" using None by (simp add: fmdom'_notI)
    then have uv: "u \<noteq> v" using Cons.prems(2) by auto
    then have d: "depth ?r u = depth r u" by (simp add: depth_def)
    have "bfs_visit u vs ?r (queue @ [v]) = (r1, queue1)" using Cons.prems None by simp
    from Cons.IH [OF this] Cons.prems(2) obtain new where new:
      "distinct new" "set new = set vs - insert v (fmdom' (tr_Depth r))" "tr_Order r1 = (tr_Order r @ [v]) @ new"
      "queue1 = (queue @ [v]) @ new"
      "\<And>x. fmlookup (tr_Depth r1) x = (if x \<in> set new then Some (Suc (depth r u)) else fmlookup (tr_Depth ?r) x)"
      "\<And>x. fmlookup (tr_Parent r1) x = (if x \<in> set new then Some u else fmlookup (tr_Parent ?r) x)"
      using d by auto
    then show ?thesis using v
      by (intro exI [of _ "v # new"]) (auto simp: depth_def)
  qed
qed (intro exI [of _ "[]"], simp)

lemma bfs_inv_step:
  assumes inv: "bfs_inv step S r (u # queue)" and vs: "set vs = step u"
    and visit: "bfs_visit u vs r queue = (r1, queue1)"
  shows "bfs_inv step S r1 queue1"
proof -
  obtain seen where order: "tr_Order r = seen @ u # queue"
    and closed: "\<And>w v. w \<in> set seen \<Longrightarrow> v \<in> step w \<Longrightarrow> v \<in> set (tr_Order r) \<and> depth r v \<le> Suc (depth r w)"
    using inv by (auto simp: bfs_inv_def)
  have i: "distinct (tr_Order r)" "set (tr_Order r) = fmdom' (tr_Depth r)" "sorted (map (depth r) (tr_Order r))"
    "\<And>v. v \<in> set (tr_Order r) \<Longrightarrow> depth r v \<le> Suc (depth r u)"
    "\<And>v. v \<in> set (tr_Order r) \<Longrightarrow> walk step S (depth r v) v"
    "\<And>v. v \<in> S \<Longrightarrow> v \<in> set (tr_Order r) \<and> depth r v = 0"
    "\<And>v. v \<in> set (tr_Order r) \<Longrightarrow> \<exists>p. fmlookup (tr_Parent r) v = Some p \<and>
        (if v \<in> S then p = v else p \<in> set (tr_Order r) \<and> v \<in> step p \<and> depth r v = Suc (depth r p))"
    using inv unfolding bfs_inv_def by auto
  have u: "u \<in> set (tr_Order r)" by (simp add: order)
  then have "u \<in> fmdom' (tr_Depth r)" using i(2) by simp
  from bfs_visit_effect [OF visit this] obtain new where new:
    "distinct new" "set new = step u - set (tr_Order r)" "tr_Order r1 = tr_Order r @ new" "queue1 = queue @ new"
    and look: "\<And>x. fmlookup (tr_Depth r1) x = (if x \<in> set new then Some (Suc (depth r u)) else fmlookup (tr_Depth r) x)"
    and parent: "\<And>x. fmlookup (tr_Parent r1) x = (if x \<in> set new then Some u else fmlookup (tr_Parent r) x)"
    using vs i(2) by auto
  have old: "depth r1 v = depth r v" if "v \<in> set (tr_Order r)" for v
    using that new(2) by (auto simp: depth_def look)
  have fresh: "depth r1 v = Suc (depth r u)" if "v \<in> set new" for v
    using that by (simp add: depth_def look)
  have mono: "depth r u \<le> depth r v" if "v \<in> set queue" for v
    using i(3) that by (auto simp: order sorted_append)
  have bound: "depth r1 v \<le> Suc (depth r u)" if "v \<in> set (tr_Order r1)" for v
    using that i(4) old fresh by (auto simp: new(3))
  have step_u: "v \<in> set (tr_Order r1) \<and> depth r1 v \<le> Suc (depth r1 u)" if "v \<in> step u" for v
    using that bound [of v] old [OF u] new(2,3) by auto
  have dom1: "set (tr_Order r1) = fmdom' (tr_Depth r1)"
  proof -
    have "x \<in> fmdom' (tr_Depth r1) \<longleftrightarrow> x \<in> set new \<or> x \<in> fmdom' (tr_Depth r)" for x
      by (auto simp: fmlookup_dom'_iff look)
    then show ?thesis using i(2) by (auto simp: new(3))
  qed
  have "sorted (map (depth r1) (tr_Order r1))"
  proof -
    have "map (depth r1) (tr_Order r1) = map (depth r) (tr_Order r) @ map (\<lambda>_. Suc (depth r u)) new"
      using old fresh by (simp add: new(3))
    moreover have "sorted (map (\<lambda>_. Suc (depth r u)) new)" by (induction new) auto
    ultimately show ?thesis using i(3,4) by (auto simp: sorted_append)
  qed
  moreover have "\<forall>v \<in> set (tr_Order r1). queue1 \<noteq> [] \<longrightarrow> depth r1 v \<le> Suc (depth r1 (hd queue1))"
  proof (intro ballI impI)
    fix v assume v: "v \<in> set (tr_Order r1)" "queue1 \<noteq> []"
    have "depth r u \<le> depth r1 (hd queue1)"
    proof (cases queue)
      case Nil
      then show ?thesis using v(2) new(4) fresh [of "hd new"] by (auto simp: hd_in_set)
    next
      case (Cons q qs)
      then show ?thesis using mono [of q] old [of q] new(4) by (simp add: order)
    qed
    then show "depth r1 v \<le> Suc (depth r1 (hd queue1))" using bound [OF v(1)] by simp
  qed
  moreover have "\<forall>v \<in> set (tr_Order r1). walk step S (depth r1 v) v"
  proof
    fix v assume v: "v \<in> set (tr_Order r1)"
    show "walk step S (depth r1 v) v"
    proof (cases "v \<in> set (tr_Order r)")
      case True
      then show ?thesis using i(5) old by simp
    next
      case False
      then have n: "v \<in> set new" using v by (simp add: new(3))
      then have "v \<in> step u" using new(2) by simp
      then show ?thesis unfolding fresh [OF n] by (rule walk.there [OF i(5) [OF u]])
    qed
  qed
  moreover have "\<forall>v \<in> S. v \<in> set (tr_Order r1) \<and> depth r1 v = 0"
    using i(6) old by (auto simp: new(3))
  moreover have "\<forall>v \<in> set (tr_Order r1). \<exists>p. fmlookup (tr_Parent r1) v = Some p \<and>
        (if v \<in> S then p = v else p \<in> set (tr_Order r1) \<and> v \<in> step p \<and> depth r1 v = Suc (depth r1 p))"
  proof
    fix v assume v: "v \<in> set (tr_Order r1)"
    show "\<exists>p. fmlookup (tr_Parent r1) v = Some p \<and>
        (if v \<in> S then p = v else p \<in> set (tr_Order r1) \<and> v \<in> step p \<and> depth r1 v = Suc (depth r1 p))"
    proof (cases "v \<in> set new")
      case True
      then have "v \<notin> S" "v \<in> step u" using i(6) new(2) by auto
      then show ?thesis using True u fresh [OF True] old [OF u] by (simp add: parent new(3))
    next
      case False
      then have vo: "v \<in> set (tr_Order r)" using v by (simp add: new(3))
      then obtain p where p: "fmlookup (tr_Parent r) v = Some p"
        "if v \<in> S then p = v else p \<in> set (tr_Order r) \<and> v \<in> step p \<and> depth r v = Suc (depth r p)"
        using i(7) by blast
      then show ?thesis using False old [OF vo] old [of p] by (auto simp: parent new(3) split: if_splits)
    qed
  qed
  moreover have "tr_Order r1 = (seen @ [u]) @ queue1" by (simp add: new(3,4) order)
  moreover have "\<forall>w \<in> set (seen @ [u]). \<forall>v \<in> step w. v \<in> set (tr_Order r1) \<and> depth r1 v \<le> Suc (depth r1 w)"
    using closed step_u old by (auto simp: new(3) order)
  moreover have "distinct (tr_Order r1)" using i(1) new(1,2) by (auto simp: new(3))
  ultimately show ?thesis using dom1 unfolding bfs_inv_def by blast
qed

lemma bfs_loop_inv:
  "bfs_inv (one_edge dir g) S r queue \<Longrightarrow> bfs_inv (one_edge dir g) S (bfs_loop rank dir g r queue) []"
proof (induction rank dir g r queue rule: bfs_loop.induct)
  case (2 rank dir g r u queue)
  obtain r1 queue1 where visit: "bfs_visit u (bfs_neighbours rank dir g u) r queue = (r1, queue1)" by fastforce
  have "bfs_inv (one_edge dir g) S r1 queue1"
    using bfs_inv_step [OF "2.prems" set_bfs_neighbours visit] .
  then show ?case using "2.IH" [OF visit [symmetric]] visit by (simp add: bfs_loop.simps(2))
qed simp

lemma bfs_sources_effect:
  assumes "bfs_sources g ss r q = (r1, q1)"
    and "tr_Order r = q" "distinct q" "fmdom' (tr_Depth r) = set q"
    and "\<forall>v \<in> set q. fmlookup (tr_Depth r) v = Some 0 \<and> fmlookup (tr_Parent r) v = Some v"
  shows "tr_Order r1 = q1 \<and> distinct q1 \<and> set q1 = set q \<union> {s \<in> set ss. graph_Get g s \<noteq> None} \<and>
    fmdom' (tr_Depth r1) = set q1 \<and>
    (\<forall>v \<in> set q1. fmlookup (tr_Depth r1) v = Some 0 \<and> fmlookup (tr_Parent r1) v = Some v)"
  using assms
proof (induction ss arbitrary: r q)
  case (Cons s ss)
  show ?case
  proof (cases "fmlookup (tr_Depth r) s \<noteq> None \<or> graph_Get g s = None")
    case True
    then have "s \<in> set q \<or> graph_Get g s = None" using Cons.prems(4) by (metis fmdom'I not_None_eq)
    then show ?thesis using Cons.IH [of r q] Cons.prems True by auto
  next
    case False
    let ?r = "r\<lparr>tr_Order := tr_Order r @ [s], tr_Parent := fmupd s s (tr_Parent r), tr_Depth := fmupd s 0 (tr_Depth r)\<rparr>"
    have s: "s \<notin> set q" using False Cons.prems(5) by auto
    have "bfs_sources g ss ?r (q @ [s]) = (r1, q1)" using Cons.prems(1) unfolding bfs_sources.simps if_not_P [OF False] .
    from Cons.IH [OF this] Cons.prems s False show ?thesis by auto
  qed
qed simp

definition stored_sources :: "('k, 'ti, 'vi) InMemoryGraph \<Rightarrow> 'k list \<Rightarrow> 'k set" where
  "stored_sources g sources = {s \<in> set sources. graph_Get g s \<noteq> None}"

lemma bfs_run_inv:
  "case bfs_traverse rank dir g sources of
      Inl e \<Rightarrow> e = ErrSourceNotFound \<and> stored_sources g sources = {}
    | Inr r \<Rightarrow> stored_sources g sources \<noteq> {} \<and> bfs_inv (one_edge dir g) (stored_sources g sources) r []"
proof -
  let ?S = "stored_sources g sources" and ?step = "one_edge dir g"
  obtain r0 q0 where src: "bfs_sources g sources no_result [] = (r0, q0)" by fastforce
  have eff: "tr_Order r0 = q0" "distinct q0" "set q0 = ?S" "fmdom' (tr_Depth r0) = set q0"
    "\<And>v. v \<in> set q0 \<Longrightarrow> fmlookup (tr_Depth r0) v = Some 0 \<and> fmlookup (tr_Parent r0) v = Some v"
    using bfs_sources_effect [OF src] by (auto simp: no_result_def stored_sources_def)
  show ?thesis
  proof (cases "q0 = []")
    case True
    then show ?thesis using src eff(3) by (auto simp: bfs_traverse_def)
  next
    case False
    have d0: "depth r0 v = 0" if "v \<in> set q0" for v using eff(5) [OF that] by (simp add: depth_def)
    have "bfs_inv ?step ?S r0 q0"
      unfolding bfs_inv_def
    proof (intro conjI exI [of _ "[]"])
      have "map (depth r0) q0 = map (\<lambda>_. 0) q0" using d0 by simp
      then show "sorted (map (depth r0) (tr_Order r0))" by (simp only: eff(1)) (induction q0; simp)
    qed (use eff d0 in \<open>auto intro: walk.here\<close>)
    then have "bfs_inv ?step ?S (bfs_loop rank dir g r0 q0) []" by (rule bfs_loop_inv)
    then show ?thesis using False src eff(3) by (auto simp: bfs_traverse_def)
  qed
qed

lemma bfs_order_distinct: "bfs_traverse rank dir g sources = Inr r \<Longrightarrow> distinct (tr_Order r)"
  using bfs_run_inv [where rank = rank and dir = dir and g = g and sources = sources] by (simp add: bfs_inv_def)

text \<open>C13: A breadth-first search finds every vertex the stored sources reach, once each, at its least number of
  edges from a source, and lists vertices by distance; each vertex but a source is the child of one that
  is one edge nearer. It fails exactly when no source is stored. The order in which the maps are ranged
  over does not matter.\<close>

theorem bfs_shortest_forest:
  "case bfs_traverse rank dir g sources of
      Inl e \<Rightarrow> e = ErrSourceNotFound \<and> stored_sources g sources = {}
    | Inr r \<Rightarrow> stored_sources g sources \<noteq> {} \<and> distinct (tr_Order r) \<and>
        set (tr_Order r) = {v. \<exists>n. walk (one_edge dir g) (stored_sources g sources) n v} \<and>
        (\<forall>v. fmlookup (tr_Depth r) v = (if \<exists>n. walk (one_edge dir g) (stored_sources g sources) n v
           then Some (LEAST n. walk (one_edge dir g) (stored_sources g sources) n v) else None)) \<and>
        sorted (map (\<lambda>v. the (fmlookup (tr_Depth r) v)) (tr_Order r)) \<and>
        (\<forall>v \<in> set (tr_Order r). \<exists>p. fmlookup (tr_Parent r) v = Some p \<and>
           (if v \<in> stored_sources g sources then p = v
            else v \<in> one_edge dir g p \<and> the (fmlookup (tr_Depth r) v) = Suc (the (fmlookup (tr_Depth r) p))))"
proof (cases "bfs_traverse rank dir g sources")
  case (Inl e)
  then show ?thesis using bfs_run_inv [where rank = rank and dir = dir and g = g and sources = sources] by simp
next
  case (Inr r)
  let ?S = "stored_sources g sources" and ?step = "one_edge dir g"
  have ne: "?S \<noteq> {}" and inv: "bfs_inv ?step ?S r []" using bfs_run_inv [where rank = rank and dir = dir and g = g and sources = sources] Inr by simp_all
  have i: "distinct (tr_Order r)" "set (tr_Order r) = fmdom' (tr_Depth r)" "sorted (map (depth r) (tr_Order r))"
    "\<And>v. v \<in> set (tr_Order r) \<Longrightarrow> walk ?step ?S (depth r v) v"
    "\<And>v. v \<in> ?S \<Longrightarrow> v \<in> set (tr_Order r) \<and> depth r v = 0"
    "\<And>w v. w \<in> set (tr_Order r) \<Longrightarrow> v \<in> ?step w \<Longrightarrow> v \<in> set (tr_Order r) \<and> depth r v \<le> Suc (depth r w)"
    "\<And>v. v \<in> set (tr_Order r) \<Longrightarrow> \<exists>p. fmlookup (tr_Parent r) v = Some p \<and>
      (if v \<in> ?S then p = v else p \<in> set (tr_Order r) \<and> v \<in> ?step p \<and> depth r v = Suc (depth r p))"
    using inv unfolding bfs_inv_def by auto
  have least: "v \<in> set (tr_Order r) \<and> depth r v \<le> n" if "walk ?step ?S n v" for n v
    using that by (induction rule: walk.induct) (use i(5,6) in fastforce)+
  have D: "fmlookup (tr_Depth r) v = (if \<exists>n. walk ?step ?S n v then Some (LEAST n. walk ?step ?S n v) else None)" for v
  proof (cases "\<exists>n. walk ?step ?S n v")
    case True
    then have v: "v \<in> set (tr_Order r)" using least by blast
    then have "(LEAST n. walk ?step ?S n v) = depth r v"
      using i(4) least by (intro Least_equality) auto
    moreover have "fmlookup (tr_Depth r) v = Some (depth r v)"
      using v i(2) by (auto simp: depth_def fmlookup_dom'_iff)
    ultimately show ?thesis using True by simp
  next
    case False
    then have "v \<notin> set (tr_Order r)" using i(4) by blast
    then show ?thesis using False i(2) by (simp add: fmdom'_notD)
  qed
  have reach: "set (tr_Order r) = {v. \<exists>n. walk ?step ?S n v}" using i(4) least by blast
  have P: "\<forall>v \<in> set (tr_Order r). \<exists>p. fmlookup (tr_Parent r) v = Some p \<and>
      (if v \<in> ?S then p = v else v \<in> ?step p \<and> the (fmlookup (tr_Depth r) v) = Suc (the (fmlookup (tr_Depth r) p)))"
    using i(7) unfolding depth_def by (metis (full_types))
  show ?thesis
    unfolding Inr sum.case using ne i(1) reach D i(3) [unfolded depth_def] P by blast
qed

text \<open>A fact under a topic and the topic under nothing else: the search from the fact finds the topic.\<close>

definition small_graph :: "(nat, unit, unit) InMemoryGraph" where
  "small_graph = (empty_graph (\<lambda>_. 0) () ())\<lparr>
     idToNodes := fmap_of_list [(1, Fact \<lparr>na_Value = [], na_Timestamp = 0\<rparr>), (2, Topic \<lparr>na_Value = [], na_Timestamp = 0\<rparr>)],
     nodeToTargets := fmap_of_list [(1, fmap_of_list [(2, 3)])], nodeToSources := fmap_of_list [(2, fmap_of_list [(1, 3)])]\<rparr>"

theorem bfs_shortest_forest_witness:
  "\<exists>r. bfs_traverse (\<lambda>_ _ v. v) Both small_graph [1, 5] = Inr r \<and> tr_Order r = [1, 2] \<and>
     (\<exists>p. fmlookup (tr_Parent r) 2 = Some p \<and> 2 \<in> one_edge Both small_graph p)"
proof -
  have "map_sum id (\<lambda>r. tr_Order r) (bfs_traverse (\<lambda>_ _ v. v) Both small_graph [1, 5]) = Inr [1, 2]" by code_simp
  then obtain r where r: "bfs_traverse (\<lambda>_ _ v. v) Both small_graph [1, 5] = Inr r" "tr_Order r = [1, 2]"
    by (cases "bfs_traverse (\<lambda>_ _ v. v) Both small_graph [1, 5]") auto
  have "2 \<notin> stored_sources small_graph [1, 5]" by (simp add: stored_sources_def)
  moreover have "2 \<in> set (tr_Order r)" by (simp add: r)
  ultimately have "\<exists>p. fmlookup (tr_Parent r) 2 = Some p \<and> 2 \<in> one_edge Both small_graph p"
    using bfs_shortest_forest [where rank = "\<lambda>_ _ v. v" and dir = Both and g = small_graph and sources = "[1, 5]"] unfolding r sum.case by metis
  then show ?thesis using r by blast
qed

end
