(* ===== verification/Graph_Excess.thy ===== *)
theory Graph_Excess
  imports Graph_Traversal
begin

text \<open>
  The traversal of \<open>internal/graph/excess.go\<close>: one step from each stored source to its neighbours of
  the other kind. The result is a function of the graph and of the sources alone: the order in which
  Go ranges over the maps (\<open>rank\<close>) does not show in it.
\<close>

definition Neighbours :: "'k rank \<Rightarrow> ('k :: linorder, 'ti, 'vi) InMemoryGraph \<Rightarrow> 'k \<Rightarrow> 'k list" where
  "Neighbours rank g key =
     sort_key (rank Outgoing key) (keys_of (row (nodeToTargets g) key)) @
     sort_key (rank Incoming key) (keys_of (row (nodeToSources g) key))"

lemma set_Neighbours: "set (Neighbours rank g key) = one_edge Both g key"
  by (simp add: Neighbours_def one_edge_def)

text \<open>The stored sources, each once, with their neighbours.\<close>

fun excess_sources ::
    "'k rank \<Rightarrow> ('k :: linorder, 'ti, 'vi) InMemoryGraph \<Rightarrow> 'k list \<Rightarrow> 'k list \<Rightarrow> ('k \<times> 'k list) list" where
  "excess_sources rank g [] seen = []"
| "excess_sources rank g (source # sources) seen =
     (if source \<in> set seen \<or> graph_Get g source = None then excess_sources rank g sources seen
      else (source, Neighbours rank g source) # excess_sources rank g sources (source # seen))"

fun excess_step ::
    "('k :: linorder, 'ti, 'vi) InMemoryGraph \<Rightarrow> bool \<Rightarrow> 'k \<Rightarrow> 'k list \<Rightarrow> 'k TraversalResult \<Rightarrow> 'k TraversalResult" where
  "excess_step g fromAnchor source [] result = result"
| "excess_step g fromAnchor source (neighbour # steps) result =
     excess_step g fromAnchor source steps
       (if isAnchor g neighbour = fromAnchor then result
        else let parents = (case fmlookup (tr_Parents result) neighbour of Some ps \<Rightarrow> ps | None \<Rightarrow> [])
             in if parents \<noteq> [] \<and> last parents = source then result
                else if parents \<noteq> [] then result\<lparr>tr_Parents := fmupd neighbour (parents @ [source]) (tr_Parents result)\<rparr>
                else result\<lparr>tr_Order := tr_Order result @ [neighbour],
                       tr_Parent := fmupd neighbour source (tr_Parent result),
                       tr_Depth := fmupd neighbour 1 (tr_Depth result),
                       tr_Parents := fmupd neighbour [source] (tr_Parents result)\<rparr>)"

fun excess_walk ::
    "('k :: linorder, 'ti, 'vi) InMemoryGraph \<Rightarrow> ('k \<times> 'k list) list \<Rightarrow> 'k TraversalResult \<Rightarrow> 'k TraversalResult" where
  "excess_walk g [] result = result"
| "excess_walk g ((source, steps) # walked) result =
     excess_walk g walked (excess_step g (isAnchor g source) source steps result)"

definition excess_traverse ::
    "'k rank \<Rightarrow> ('k :: linorder, 'ti, 'vi) InMemoryGraph \<Rightarrow> 'k list \<Rightarrow> graph_error + 'k TraversalResult" where
  "excess_traverse rank g sources =
     (let walked = excess_sources rank g sources []
      in if length walked = 0 then Inl ErrSourceNotFound
         else let result = excess_walk g walked no_result
              in Inr (result\<lparr>tr_Order := sort (tr_Order result)\<rparr>))"

section \<open>The incidence the traversal returns\<close>

text \<open>The stored sources, each at its first place in the list.\<close>

definition walked_sources :: "('k, 'ti, 'vi) InMemoryGraph \<Rightarrow> 'k list \<Rightarrow> 'k list" where
  "walked_sources g sources = filter (\<lambda>s. graph_Get g s \<noteq> None) (rev (remdups (rev sources)))"

definition crosses :: "('k, 'ti, 'vi) InMemoryGraph \<Rightarrow> 'k \<Rightarrow> 'k \<Rightarrow> bool" where
  "crosses g s v \<longleftrightarrow> v \<in> one_edge Both g s \<and> isAnchor g v \<noteq> isAnchor g s"

text \<open>A result that lists, for each vertex \<open>v\<close>, the sources \<open>f v\<close>.\<close>

definition incidence :: "'k TraversalResult \<Rightarrow> ('k \<Rightarrow> 'k list) \<Rightarrow> bool" where
  "incidence r f \<longleftrightarrow> distinct (tr_Order r) \<and> set (tr_Order r) = {v. f v \<noteq> []} \<and>
     (\<forall>v. fmlookup (tr_Parents r) v = (if f v = [] then None else Some (f v))) \<and>
     (\<forall>v. fmlookup (tr_Parent r) v = (if f v = [] then None else Some (hd (f v)))) \<and>
     (\<forall>v. fmlookup (tr_Depth r) v = (if f v = [] then None else Some 1))"

lemma excess_step_incidence:
  assumes "incidence r (\<lambda>v. P v @ (if v \<in> X then [s] else []))" "\<And>v. s \<notin> set (P v)"
  shows "incidence (excess_step g fromAnchor s vs r)
    (\<lambda>v. P v @ (if v \<in> X \<union> {v \<in> set vs. isAnchor g v \<noteq> fromAnchor} then [s] else []))"
  using assms(1)
proof (induction vs arbitrary: r X)
  case (Cons n vs)
  let ?r = "if isAnchor g n = fromAnchor then r
        else let parents = (case fmlookup (tr_Parents r) n of Some ps \<Rightarrow> ps | None \<Rightarrow> [])
             in if parents \<noteq> [] \<and> last parents = s then r
                else if parents \<noteq> [] then r\<lparr>tr_Parents := fmupd n (parents @ [s]) (tr_Parents r)\<rparr>
                else r\<lparr>tr_Order := tr_Order r @ [n], tr_Parent := fmupd n s (tr_Parent r),
                       tr_Depth := fmupd n 1 (tr_Depth r), tr_Parents := fmupd n [s] (tr_Parents r)\<rparr>"
  let ?X = "if isAnchor g n = fromAnchor then X else insert n X"
  have last_P: "P n \<noteq> [] \<Longrightarrow> last (P n) \<noteq> s" using assms(2) [of n] by (metis last_in_set)
  have "incidence ?r (\<lambda>v. P v @ (if v \<in> ?X then [s] else []))"
  proof (cases "isAnchor g n = fromAnchor \<or> n \<in> X")
    case True
    have "?X = X" if "isAnchor g n \<noteq> fromAnchor" using that True by auto
    moreover have "?r = r"
      using True Cons.prems by (auto simp: incidence_def Let_def)
    ultimately show ?thesis using Cons.prems by auto
  next
    case False
    show ?thesis
    proof (cases "P n = []")
      case True
      then have "fmlookup (tr_Parents r) n = None" "n \<notin> set (tr_Order r)"
        using False Cons.prems by (auto simp: incidence_def)
      then show ?thesis using False True Cons.prems unfolding incidence_def by auto
    next
      case ne: False
      then have "fmlookup (tr_Parents r) n = Some (P n)" using False Cons.prems by (auto simp: incidence_def)
      then show ?thesis using False ne last_P Cons.prems unfolding incidence_def by auto
    qed
  qed
  from Cons.IH [OF this] have "incidence (excess_step g fromAnchor s (n # vs) r)
    (\<lambda>v. P v @ (if v \<in> ?X \<union> {v \<in> set vs. isAnchor g v \<noteq> fromAnchor} then [s] else []))"
    by (simp only: excess_step.simps)
  moreover have "?X \<union> {v \<in> set vs. isAnchor g v \<noteq> fromAnchor} = X \<union> {v \<in> set (n # vs). isAnchor g v \<noteq> fromAnchor}"
    by auto
  ultimately show ?case by (simp only:)
qed simp

lemma excess_walk_incidence:
  assumes "incidence r (\<lambda>v. filter (\<lambda>s. crosses g s v) earlier)"
    and "distinct (earlier @ map fst walked)"
    and "\<forall>(s, steps) \<in> set walked. set steps = one_edge Both g s"
  shows "incidence (excess_walk g walked r) (\<lambda>v. filter (\<lambda>s. crosses g s v) (earlier @ map fst walked))"
  using assms
proof (induction walked arbitrary: r earlier)
  case (Cons w walked)
  obtain s steps where w: "w = (s, steps)" by fastforce
  have steps: "set steps = one_edge Both g s" using Cons.prems(3) w by simp
  have "s \<notin> set (filter (\<lambda>s. crosses g s v) earlier)" for v using Cons.prems(2) w by auto
  from excess_step_incidence [where X = "{}" and P = "\<lambda>v. filter (\<lambda>s. crosses g s v) earlier", OF _ this] Cons.prems(1)
  have "incidence (excess_step g (isAnchor g s) s steps r) (\<lambda>v. filter (\<lambda>s. crosses g s v) earlier @
      (if v \<in> {} \<union> {v \<in> set steps. isAnchor g v \<noteq> isAnchor g s} then [s] else []))" by simp
  also have "(\<lambda>v. filter (\<lambda>s. crosses g s v) earlier @
      (if v \<in> {} \<union> {v \<in> set steps. isAnchor g v \<noteq> isAnchor g s} then [s] else [])) =
    (\<lambda>v. filter (\<lambda>s. crosses g s v) (earlier @ [s]))"
    by (auto simp: crosses_def steps)
  finally show ?case using Cons.IH [of _ "earlier @ [s]"] Cons.prems(2,3) by (simp add: w)
qed simp

lemma excess_sources_walked:
  "map fst (excess_sources rank g sources seen) =
     filter (\<lambda>s. graph_Get g s \<noteq> None \<and> s \<notin> set seen) (rev (remdups (rev sources)))"
proof (induction sources arbitrary: seen)
  case (Cons s ss)
  have r: "rev (remdups (rev ss @ [s])) = s # filter (\<lambda>x. x \<noteq> s) (rev (remdups (rev ss)))"
  proof -
    have "remdups (xs @ [s]) = filter (\<lambda>x. x \<noteq> s) (remdups xs) @ [s]" for xs :: "'a list"
      by (induction xs) auto
    then show ?thesis by (simp add: rev_filter)
  qed
  show ?case
  proof (cases "s \<in> set seen \<or> graph_Get g s = None")
    case True
    then have "excess_sources rank g (s # ss) seen = excess_sources rank g ss seen" by simp
    then show ?thesis using True Cons.IH r by (auto intro!: filter_cong)
  next
    case False
    have "map fst (excess_sources rank g (s # ss) seen) = s # map fst (excess_sources rank g ss (s # seen))"
      unfolding excess_sources.simps if_not_P [OF False] by simp
    then show ?thesis using False Cons.IH r by (auto intro!: filter_cong)
  qed
qed simp

lemma excess_sources_steps:
  "(s, steps) \<in> set (excess_sources rank g sources seen) \<Longrightarrow> set steps = one_edge Both g s"
  by (induction sources arbitrary: seen) (auto simp: set_Neighbours split: if_splits)

lemma excess_run_incidence:
  "incidence (excess_walk g (excess_sources rank g sources []) no_result) (\<lambda>v. filter (\<lambda>s. crosses g s v) (walked_sources g sources))"
proof -
  let ?w = "excess_sources rank g sources []"
  have w: "map fst ?w = walked_sources g sources" by (simp add: excess_sources_walked walked_sources_def)
  have "distinct (map fst ?w)" unfolding w walked_sources_def by simp
  then show ?thesis
    using excess_walk_incidence [of no_result g "[]" ?w] excess_sources_steps
    by (fastforce simp: w incidence_def no_result_def)
qed

lemma excess_order_distinct: "excess_traverse rank g sources = Inr r \<Longrightarrow> distinct (tr_Order r)"
  using excess_run_incidence [of g rank sources] by (auto simp: excess_traverse_def incidence_def Let_def split: if_splits)

text \<open>C14: The excess traversal lists, in ascending key order and once each, the vertices of the other kind one
  edge away from a stored source; the parents of a vertex are all the sources that reach it, in the
  order the sources were given and without repetition, its parent the first of them and its depth 1.
  It fails exactly when no source is stored. The order in which Go ranges over the maps does not
  show in the result.\<close>

theorem excess_full_incidence:
  "case excess_traverse rank g sources of
      Inl e \<Rightarrow> e = ErrSourceNotFound \<and> walked_sources g sources = []
    | Inr r \<Rightarrow> walked_sources g sources \<noteq> [] \<and>
        tr_Order r = sorted_list_of_set {v. \<exists>s \<in> set (walked_sources g sources). crosses g s v} \<and>
        (\<forall>v. reachedFrom r v = filter (\<lambda>s. crosses g s v) (walked_sources g sources) \<and>
           fmlookup (tr_Parents r) v = (if reachedFrom r v = [] then None else Some (reachedFrom r v)) \<and>
           fmlookup (tr_Parent r) v = (if reachedFrom r v = [] then None else Some (hd (reachedFrom r v))) \<and>
           fmlookup (tr_Depth r) v = (if reachedFrom r v = [] then None else Some 1))"
proof -
  let ?w = "excess_sources rank g sources []" and ?s = "walked_sources g sources"
  have w: "map fst ?w = ?s" by (simp add: excess_sources_walked walked_sources_def)
  show ?thesis
  proof (cases "?w = []")
    case True
    then show ?thesis using w by (simp add: excess_traverse_def)
  next
    case False
    define r where "r = excess_walk g ?w no_result"
    have i: "distinct (tr_Order r)" "set (tr_Order r) = {v. filter (\<lambda>s. crosses g s v) ?s \<noteq> []}"
      "\<And>v. fmlookup (tr_Parents r) v = (if filter (\<lambda>s. crosses g s v) ?s = [] then None else Some (filter (\<lambda>s. crosses g s v) ?s))"
      "\<And>v. fmlookup (tr_Parent r) v = (if filter (\<lambda>s. crosses g s v) ?s = [] then None else Some (hd (filter (\<lambda>s. crosses g s v) ?s)))"
      "\<And>v. fmlookup (tr_Depth r) v = (if filter (\<lambda>s. crosses g s v) ?s = [] then None else Some 1)"
      using excess_run_incidence [of g rank sources] by (simp_all add: incidence_def r_def)
    have "sorted_list_of_set (set (tr_Order r)) = sort (tr_Order r)"
      using i(1) by (simp add: sorted_list_of_set_sort_remdups distinct_remdups_id)
    then have o: "sort (tr_Order r) = sorted_list_of_set {v. \<exists>s \<in> set ?s. crosses g s v}"
      by (simp add: i(2) filter_empty_conv)
    have f: "reachedFrom (r\<lparr>tr_Order := os\<rparr>) v = filter (\<lambda>s. crosses g s v) ?s" for v os
      by (simp add: reachedFrom_def i(3,4))
    have t: "excess_traverse rank g sources = Inr (r\<lparr>tr_Order := sort (tr_Order r)\<rparr>)"
      using False by (simp add: excess_traverse_def r_def Let_def)
    have ne: "?s \<noteq> []" using False w by (metis list.map_disc_iff)
    show ?thesis unfolding t sum.case using ne o f i(3-5) by simp
  qed
qed

end
