(* ===== verification/Scoring.thy ===== *)
theory Scoring
  imports Complex_Main "HOL-Library.Word" "HOL-Library.Finite_Map" "HOL-Library.Multiset" Graph_Node
begin

text \<open>
  \<open>internal/graph/scoring\<close>: the contributions a search pools for each candidate and the scorers that fold
  them. A float is a real number here and the arithmetic is exact: \<open>math.Sqrt\<close>, \<open>math.Log\<close> and
  \<open>math.Pow\<close> are \<open>sqrt\<close>, \<open>ln\<close> and \<open>powr\<close>, which they agree with on the arguments the code gives them.
  Ranks, degrees and counts keep their widths.
\<close>

section \<open>Contributions\<close>

datatype ScoreSource = SrcText | SrcVector | SrcGraph | SrcAnchor

fun Source_String :: "ScoreSource \<Rightarrow> string" where
  "Source_String SrcText = ''text''"
| "Source_String SrcVector = ''vector''"
| "Source_String SrcGraph = ''graph''"
| "Source_String SrcAnchor = ''anchor''"

record 'k Contribution =
  c_Src :: ScoreSource
  c_Score :: real
  c_Rank :: "16 word"
  c_Via :: "'k option"
  c_Degree :: "32 word"
  c_Count :: "16 word"
  c_Named :: bool
  c_Held :: real

text \<open>The composite literal of Go: the fields a literal leaves out are zero.\<close>

definition contribution :: "ScoreSource \<Rightarrow> real \<Rightarrow> 'k Contribution" where
  "contribution src score = \<lparr>c_Src = src, c_Score = score, c_Rank = 0, c_Via = None, c_Degree = 0, c_Count = 0,
     c_Named = False, c_Held = 0\<rparr>"

type_synonym 'k Candidates = "('k, 'k Contribution list) fmap"

record 'k Group =
  Members :: "'k list"
  Contributions :: "'k Contribution list"

record 'k Observation =
  Background :: real
  TextMissed :: real
  o_Candidates :: "'k Candidates"
  Keys :: "'k list"
  Groups :: "'k Group list"

text \<open>The value of a Go map of slices: an absent key reads as the empty slice.\<close>

definition held_by :: "'k Candidates \<Rightarrow> 'k \<Rightarrow> 'k Contribution list" where
  "held_by candidates key = (case fmlookup candidates key of Some cs \<Rightarrow> cs | None \<Rightarrow> [])"

definition ClampRank :: "int \<Rightarrow> 16 word" where
  "ClampRank rank = (if rank > 65535 then 65535 else word_of_int rank)"

definition ClampCount :: "int \<Rightarrow> 16 word" where
  "ClampCount seeds = (if seeds > 65535 then 65535 else word_of_int seeds)"

definition ClampDegree :: "int \<Rightarrow> 32 word" where
  "ClampDegree degree = (if degree > 4294967295 then 4294967295 else word_of_int degree)"

section \<open>Reciprocal rank fusion\<close>

record RRFScorer =
  rrf_k :: int

definition DefaultRRFK :: int where
  "DefaultRRFK = 60"

definition rrf_Score :: "RRFScorer \<Rightarrow> 'k Contribution list \<Rightarrow> real" where
  "rrf_Score s contributions =
     foldl (\<lambda>total c. total + 1 / (of_int (rrf_k s) + of_nat (unat (c_Rank c)))) 0 contributions"

section \<open>Excess transmission\<close>

record ExcessScorer =
  es_background :: real
  es_missed :: real

definition NewExcessScorer :: ExcessScorer where
  "NewExcessScorer = \<lparr>es_background = 0, es_missed = 0\<rparr>"

fun seed_sums :: "real \<times> real \<times> real \<Rightarrow> 'k Contribution list \<Rightarrow> real \<times> real \<times> real" where
  "seed_sums acc [] = acc"
| "seed_sums (text, vector, anchor) (c # cs) =
     seed_sums (case c_Src c of
        SrcText \<Rightarrow> (text + c_Score c, vector, anchor)
      | SrcVector \<Rightarrow> (text, vector + c_Score c, anchor)
      | SrcAnchor \<Rightarrow> (text, vector, anchor + c_Score c)
      | SrcGraph \<Rightarrow> (text, vector, anchor)) cs"

fun graph_sum :: "ExcessScorer \<Rightarrow> real \<Rightarrow> real \<Rightarrow> 'k Contribution list \<Rightarrow> real" where
  "graph_sum s mass graph [] = graph"
| "graph_sum s mass graph (c # cs) =
     (if c_Src c \<noteq> SrcGraph then graph_sum s mass graph cs
      else let deg = of_nat (unat (c_Degree c));
               deg = (if deg < 1 then 1 else deg);
               fair = (if c_Named c then 0 else deg * es_background s);
               surplus = (c_Score c - mass - fair) / deg
           in graph_sum s mass (if surplus > 0 then graph + surplus else graph) cs)"

text \<open>The parts of the fold: text mass, vector similarity, seed mass, graph term.\<close>

definition excess_fold :: "ExcessScorer \<Rightarrow> 'k Contribution list \<Rightarrow> real \<times> real \<times> real \<times> real" where
  "excess_fold s contributions =
     (let (text, vector, anchor) = seed_sums (0, 0, 0) contributions;
          mass = text + (1 + es_missed s) * vector + anchor
      in (text, vector, mass, graph_sum s mass 0 contributions))"

definition excess_Score :: "ExcessScorer \<Rightarrow> 'k Contribution list \<Rightarrow> real" where
  "excess_Score s contributions = (let (text, vector, mass, graph) = excess_fold s contributions in mass + graph)"

definition excess_Observe :: "ExcessScorer \<Rightarrow> 'k Observation \<Rightarrow> ExcessScorer" where
  "excess_Observe s obs = \<lparr>es_background = Background obs, es_missed = TextMissed obs\<rparr>"

section \<open>Information\<close>

text \<open>The three channels, text, vector and graph, in the order of the code's arrays.\<close>

type_synonym channels = "real \<times> real \<times> real"

fun channels2 :: "(real \<Rightarrow> real \<Rightarrow> real) \<Rightarrow> channels \<Rightarrow> channels \<Rightarrow> channels" where
  "channels2 f (a, b, c) (x, y, z) = (f a x, f b y, f c z)"

record InformationScorer =
  inf_excess :: ExcessScorer
  inf_pooled :: bool
  inf_mean :: channels
  inf_sd :: channels
  inf_bar :: real

definition NewInformationScorer :: InformationScorer where
  "NewInformationScorer = \<lparr>inf_excess = NewExcessScorer, inf_pooled = False, inf_mean = (0, 0, 0), inf_sd = (0, 0, 0), inf_bar = 0\<rparr>"

definition channel_values :: "ExcessScorer \<Rightarrow> 'k Contribution list \<Rightarrow> channels" where
  "channel_values s contributions = (let (text, vector, mass, graph) = excess_fold s contributions in (text, vector, graph))"

definition weighed_mean :: "real \<Rightarrow> (real \<times> channels) list \<Rightarrow> channels" where
  "weighed_mean n values = foldl (\<lambda>m (w, v). channels2 (\<lambda>a x. a + w * x / n) m v) (0, 0, 0) values"

definition weighed_spread :: "real \<Rightarrow> channels \<Rightarrow> (real \<times> channels) list \<Rightarrow> channels" where
  "weighed_spread n m values =
     foldl (\<lambda>s (w, v). channels2 (\<lambda>a x. a + x) s
       (channels2 (\<lambda>x a. w * (x - a) * (x - a) / n) v m)) (0, 0, 0) values"

definition information_Observe :: "InformationScorer \<Rightarrow> 'k Observation \<Rightarrow> InformationScorer" where
  "information_Observe s obs =
     (let excess = \<lparr>es_background = Background obs, es_missed = TextMissed obs\<rparr>;
          bound = \<lparr>inf_excess = excess, inf_pooled = False, inf_mean = (0, 0, 0), inf_sd = (0, 0, 0), inf_bar = 0\<rparr>;
          members = foldl (\<lambda>n gr. n + length (Members gr)) (length (Keys obs)) (Groups obs)
      in if members = 0 then bound
         else let n = of_nat members;
                  values = map (\<lambda>key. (1, channel_values excess (held_by (o_Candidates obs) key))) (Keys obs) @
                    map (\<lambda>gr. (of_nat (length (Members gr)), channel_values excess (Contributions gr))) (Groups obs);
                  m = weighed_mean n values;
                  deviation = (\<lambda>v. if v > 0 then sqrt v else 0)
              in (case weighed_spread n m values of (a, b, c) \<Rightarrow>
                   bound\<lparr>inf_pooled := True, inf_mean := m, inf_sd := (deviation a, deviation b, deviation c),
                     inf_bar := sqrt (2 * ln n)\<rparr>))"

definition above :: "real \<Rightarrow> real \<Rightarrow> real \<Rightarrow> real" where
  "above m d v = (if v \<le> 0 \<or> d \<le> 0 then 0 else max 0 ((v - m) / d))"

definition best_held :: "'k Contribution list \<Rightarrow> real" where
  "best_held contributions =
     foldl (\<lambda>held c. if c_Src c = SrcText \<and> c_Held c > held then c_Held c else held) 0 contributions"

definition information_Score :: "InformationScorer \<Rightarrow> 'k Contribution list \<Rightarrow> real" where
  "information_Score s contributions =
     (let (text, vector, mass, graph) = excess_fold (inf_excess s) contributions
      in if \<not> inf_pooled s \<or> inf_sd s = (0, 0, 0) then mass
         else (case (inf_mean s, inf_sd s) of ((m0, m1, m2), (d0, d1, d2)) \<Rightarrow>
           let zText = above m0 d0 text; zVector = above m1 d1 vector; zGraph = above m2 d2 graph;
               trust = (if zVector > inf_bar s then 2 - best_held contributions else 1)
           in (1 + zText) * (1 + zVector) powr trust + zGraph))"

section \<open>The interface\<close>

text \<open>\<open>Scorer\<close> is an interface with three implementations.\<close>

datatype Scorer = RRF RRFScorer | Excess ExcessScorer | Information InformationScorer

fun Score :: "Scorer \<Rightarrow> 'k Contribution list \<Rightarrow> real" where
  "Score (RRF s) cs = rrf_Score s cs"
| "Score (Excess s) cs = excess_Score s cs"
| "Score (Information s) cs = information_Score s cs"

fun Observe :: "Scorer \<Rightarrow> 'k Observation \<Rightarrow> Scorer" where
  "Observe (RRF s) obs = RRF s"
| "Observe (Excess s) obs = Excess (excess_Observe s obs)"
| "Observe (Information s) obs = Information (information_Observe s obs)"

section \<open>Excess transmission in closed form\<close>

text \<open>The seed mass of a list of contributions, and the surplus one graph observation passes on.\<close>

definition mass_from :: "ScoreSource \<Rightarrow> 'k Contribution list \<Rightarrow> real" where
  "mass_from src cs = sum_list (map c_Score (filter (\<lambda>c. c_Src c = src) cs))"

definition seed_mass :: "ExcessScorer \<Rightarrow> 'k Contribution list \<Rightarrow> real" where
  "seed_mass s cs = mass_from SrcText cs + (1 + es_missed s) * mass_from SrcVector cs + mass_from SrcAnchor cs"

definition edge_share :: "'k Contribution \<Rightarrow> real" where
  "edge_share c = max 1 (of_nat (unat (c_Degree c)))"

definition surplus :: "ExcessScorer \<Rightarrow> real \<Rightarrow> 'k Contribution \<Rightarrow> real" where
  "surplus s m c = max 0 ((c_Score c - m - (if c_Named c then 0 else edge_share c * es_background s)) / edge_share c)"

lemma seed_sums_mass:
  "seed_sums (x, y, z) cs = (x + mass_from SrcText cs, y + mass_from SrcVector cs, z + mass_from SrcAnchor cs)"
  by (induction cs arbitrary: x y z) (auto simp: mass_from_def split: ScoreSource.split)

lemma graph_sum_surplus:
  "graph_sum s m x cs = x + sum_list (map (surplus s m) (filter (\<lambda>c. c_Src c = SrcGraph) cs))"
proof (induction cs arbitrary: x)
  case (Cons c cs)
  have "(if of_nat (unat (c_Degree c)) < (1::real) then 1 else of_nat (unat (c_Degree c))) = edge_share c"
    by (simp add: edge_share_def max_def)
  then have "graph_sum s m x (c # cs) = graph_sum s m (if c_Src c = SrcGraph then x + surplus s m c else x) cs"
    by (auto simp: Let_def surplus_def max_def)
  then show ?case by (simp add: Cons.IH)
qed simp

lemma excess_fold_parts:
  "excess_fold s cs = (mass_from SrcText cs, mass_from SrcVector cs, seed_mass s cs,
     sum_list (map (surplus s (seed_mass s cs)) (filter (\<lambda>c. c_Src c = SrcGraph) cs)))"
  by (simp add: excess_fold_def seed_sums_mass graph_sum_surplus seed_mass_def Let_def)

lemma excess_Score_closed:
  "excess_Score s cs = seed_mass s cs + sum_list (map (surplus s (seed_mass s cs)) (filter (\<lambda>c. c_Src c = SrcGraph) cs))"
  by (simp add: excess_Score_def excess_fold_parts)

lemma edge_share_pos: "edge_share c > 0"
  by (simp add: edge_share_def)

text \<open>Every mass of a search multiplied by one factor.\<close>

definition rescale :: "real \<Rightarrow> 'k Contribution \<Rightarrow> 'k Contribution" where
  "rescale r c = c\<lparr>c_Score := r * c_Score c\<rparr>"

lemma rescale_mass: "mass_from src (map (rescale r) cs) = r * mass_from src cs"
  by (induction cs) (auto simp: mass_from_def rescale_def algebra_simps)

lemma rescale_surplus:
  assumes "0 \<le> r"
  shows "surplus (s\<lparr>es_background := r * es_background s\<rparr>) (r * m) (rescale r c) = r * surplus s m c"
proof -
  have e: "edge_share (rescale r c) = edge_share c" "c_Named (rescale r c) = c_Named c" "c_Score (rescale r c) = r * c_Score c"
    by (simp_all add: edge_share_def rescale_def)
  define a where "a = c_Score c - m - (if c_Named c then 0 else edge_share c * es_background s)"
  have "r * c_Score c - r * m - (if c_Named c then 0 else edge_share c * (r * es_background s)) = r * a"
    by (simp add: a_def algebra_simps)
  then have "surplus (s\<lparr>es_background := r * es_background s\<rparr>) (r * m) (rescale r c) = max 0 (r * a / edge_share c)"
    unfolding surplus_def e by (cases "c_Named c") simp_all
  also have "\<dots> = max (r * 0) (r * (a / edge_share c))" by simp
  also have "\<dots> = r * max 0 (a / edge_share c)" using assms by (simp add: max_mult_distrib_left)
  finally show ?thesis by (simp add: surplus_def a_def)
qed

text \<open>C19: Under excess transmission a candidate scores its seed mass plus the surpluses of the anchors that reach
  it, each the anchor's mass beyond the candidate's own and beyond the fair share of the anchor's
  degree, per edge. An anchor that is not named and whose mass does not exceed its fair share is silent: its
  observation can be dropped; a score is never below the seed mass; and multiplying every
  mass and the background by one factor multiplies every score by it, so no order changes.\<close>

theorem excess_surplus_and_silence:
  fixes s :: ExcessScorer and cs :: "'k Contribution list"
  shows "excess_Score s cs = seed_mass s cs + sum_list (map (surplus s (seed_mass s cs)) (filter (\<lambda>c. c_Src c = SrcGraph) cs)) \<and>
    seed_mass s cs \<le> excess_Score s cs \<and>
    (\<forall>c. c_Src c = SrcGraph \<and> \<not> c_Named c \<and> 0 \<le> seed_mass s cs \<and> c_Score c \<le> edge_share c * es_background s \<longrightarrow>
       excess_Score s (cs @ [c]) = excess_Score s cs) \<and>
    (\<forall>r \<ge> 0. excess_Score (s\<lparr>es_background := r * es_background s\<rparr>) (map (rescale r) cs) = r * excess_Score s cs)"
proof (intro conjI allI impI)
  have "0 \<le> sum_list (map (surplus s m) xs)" for m and xs :: "'k Contribution list"
    by (rule sum_list_nonneg) (auto simp: surplus_def)
  then show "seed_mass s cs \<le> excess_Score s cs" by (simp add: excess_Score_closed)
next
  fix c :: "'k Contribution"
  have seed: "seed_mass s (cs @ [c]) = seed_mass s cs" if "c_Src c = SrcGraph"
    using that by (simp add: seed_mass_def mass_from_def)
  have "surplus s (seed_mass s cs) c = 0"
    if "\<not> c_Named c" "0 \<le> seed_mass s cs" "c_Score c \<le> edge_share c * es_background s"
    using that edge_share_pos [of c] by (simp add: surplus_def max_def zero_le_divide_iff)
  moreover assume "c_Src c = SrcGraph \<and> \<not> c_Named c \<and> 0 \<le> seed_mass s cs \<and> c_Score c \<le> edge_share c * es_background s"
  ultimately show "excess_Score s (cs @ [c]) = excess_Score s cs"
    by (simp add: excess_Score_closed seed)
next
  fix r :: real assume r: "0 \<le> r"
  have seed: "seed_mass (s\<lparr>es_background := r * es_background s\<rparr>) (map (rescale r) cs) = r * seed_mass s cs"
    by (simp add: seed_mass_def rescale_mass algebra_simps)
  have graph: "filter (\<lambda>c. c_Src c = SrcGraph) (map (rescale r) cs) = map (rescale r) (filter (\<lambda>c. c_Src c = SrcGraph) cs)"
    by (simp add: filter_map o_def rescale_def)
  have "sum_list (map (\<lambda>c. surplus (s\<lparr>es_background := r * es_background s\<rparr>) (r * seed_mass s cs) (rescale r c)) xs) =
      sum_list (map (\<lambda>c. r * surplus s (seed_mass s cs) c) xs)" for xs
    using rescale_surplus [OF r, where s = s and m = "seed_mass s cs"] by (intro arg_cong [where f = sum_list] map_cong refl) blast
  then show "excess_Score (s\<lparr>es_background := r * es_background s\<rparr>) (map (rescale r) cs) = r * excess_Score s cs"
    by (simp add: excess_Score_closed seed graph o_def sum_list_const_mult distrib_left)
qed (simp add: excess_Score_closed)

text \<open>A fact with one text sighting, reached by a hub at its fair share and by an anchor above its own.\<close>

theorem excess_surplus_and_silence_witness:
  "let s = \<lparr>es_background = 2, es_missed = 0\<rparr>; text = contribution SrcText 3; hub = (contribution SrcGraph 8)\<lparr>c_Degree := 4\<rparr>;
       anchor = (contribution SrcGraph 15)\<lparr>c_Degree := 2\<rparr>
   in excess_Score s [text :: nat Contribution, anchor, hub] = 3 + (15 - 3 - 2 * 2) / 2 \<and>
      excess_Score (s\<lparr>es_background := 10 * 2\<rparr>) (map (rescale 10) [text, anchor]) = 70"
proof -
  let ?s = "\<lparr>es_background = 2, es_missed = 0\<rparr>" and ?text = "contribution SrcText 3 :: nat Contribution"
  let ?hub = "(contribution SrcGraph 8)\<lparr>c_Degree := 4\<rparr> :: nat Contribution"
  let ?anchor = "(contribution SrcGraph 15)\<lparr>c_Degree := 2\<rparr> :: nat Contribution"
  note C = excess_surplus_and_silence [of ?s "[?text, ?anchor]"]
  have m: "seed_mass ?s [?text, ?anchor] = 3" by (simp add: seed_mass_def mass_from_def contribution_def)
  have base: "excess_Score ?s [?text, ?anchor] = 7"
    using conjunct1 [OF C] unfolding m by (simp add: surplus_def edge_share_def contribution_def)
  have "excess_Score ?s ([?text, ?anchor] @ [?hub]) = excess_Score ?s [?text, ?anchor]"
    by (rule conjunct1 [OF conjunct2 [OF conjunct2 [OF C]], rule_format])
      (simp add: m, simp add: edge_share_def contribution_def)
  moreover have "excess_Score (?s\<lparr>es_background := 10 * es_background ?s\<rparr>) (map (rescale 10) [?text, ?anchor]) = 10 * excess_Score ?s [?text, ?anchor]"
    by (rule conjunct2 [OF conjunct2 [OF conjunct2 [OF C]], rule_format]) simp
  ultimately show ?thesis by (simp add: base)
qed

section \<open>Scoring a group once\<close>

text \<open>The pool with every member of a group listed as a candidate of its own.\<close>

definition lists_groups :: "'k Observation \<Rightarrow> 'k Observation \<Rightarrow> bool" where
  "lists_groups obs full \<longleftrightarrow> Background full = Background obs \<and> TextMissed full = TextMissed obs \<and> Groups full = [] \<and>
     mset (Keys full) = mset (Keys obs) + mset (concat (map Members (Groups obs))) \<and>
     (\<forall>key \<in> set (Keys obs). held_by (o_Candidates full) key = held_by (o_Candidates obs) key) \<and>
     (\<forall>gr \<in> set (Groups obs). \<forall>key \<in> set (Members gr). held_by (o_Candidates full) key = Contributions gr)"

definition part_sum :: "(channels \<Rightarrow> real) \<Rightarrow> (real \<times> channels) list \<Rightarrow> real" where
  "part_sum f vals = sum_list (map (\<lambda>(w, v). w * f v) vals)"

lemma weighed_mean_sums:
  "weighed_mean n vals = (part_sum (\<lambda>(a, b, c). a / n) vals, part_sum (\<lambda>(a, b, c). b / n) vals,
     part_sum (\<lambda>(a, b, c). c / n) vals)"
proof -
  have "foldl (\<lambda>m (w, v). channels2 (\<lambda>a x. a + w * x / n) m v) (p, q, r) vals =
      (p + part_sum (\<lambda>(a, b, c). a / n) vals, q + part_sum (\<lambda>(a, b, c). b / n) vals,
       r + part_sum (\<lambda>(a, b, c). c / n) vals)" for p q r
    by (induction vals arbitrary: p q r) (auto simp: part_sum_def)
  then show ?thesis by (simp add: weighed_mean_def)
qed

lemma weighed_spread_sums:
  "weighed_spread n (x, y, z) vals = (part_sum (\<lambda>(a, b, c). (a - x) * (a - x) / n) vals,
     part_sum (\<lambda>(a, b, c). (b - y) * (b - y) / n) vals, part_sum (\<lambda>(a, b, c). (c - z) * (c - z) / n) vals)"
proof -
  have "foldl (\<lambda>s (w, v). channels2 (\<lambda>a x. a + x) s (channels2 (\<lambda>x a. w * (x - a) * (x - a) / n) v (x, y, z))) (p, q, r) vals =
      (p + part_sum (\<lambda>(a, b, c). (a - x) * (a - x) / n) vals, q + part_sum (\<lambda>(a, b, c). (b - y) * (b - y) / n) vals,
       r + part_sum (\<lambda>(a, b, c). (c - z) * (c - z) / n) vals)" for p q r
    by (induction vals arbitrary: p q r) (auto simp: part_sum_def algebra_simps)
  then show ?thesis by (simp add: weighed_spread_def)
qed

lemma part_sum_listed:
  assumes "lists_groups obs full"
  shows "part_sum f (map (\<lambda>key. (1, g (held_by (o_Candidates obs) key))) (Keys obs) @
      map (\<lambda>gr. (of_nat (length (Members gr)), g (Contributions gr))) (Groups obs)) =
    part_sum f (map (\<lambda>key. (1, g (held_by (o_Candidates full) key))) (Keys full))"
proof -
  let ?v = "\<lambda>key. f (g (held_by (o_Candidates full) key))"
  have keys: "sum_list (map (\<lambda>key. f (g (held_by (o_Candidates obs) key))) (Keys obs)) = sum_list (map ?v (Keys obs))"
    using assms by (intro arg_cong [where f = sum_list] map_cong) (auto simp: lists_groups_def)
  have groups: "sum_list (map (\<lambda>gr. of_nat (length (Members gr)) * f (g (Contributions gr))) grs) =
      sum_list (map ?v (concat (map Members grs)))" if "set grs \<subseteq> set (Groups obs)" for grs
    using that
  proof (induction grs)
    case (Cons gr grs)
    have "map ?v (Members gr) = map (\<lambda>_. f (g (Contributions gr))) (Members gr)"
      using assms Cons.prems by (auto simp: lists_groups_def)
    then have "sum_list (map ?v (Members gr)) = sum_list (map (\<lambda>_. f (g (Contributions gr))) (Members gr))"
      by (rule arg_cong)
    also have "\<dots> = of_nat (length (Members gr)) * f (g (Contributions gr))"
      by (simp add: sum_list_triv)
    finally have "sum_list (map ?v (Members gr)) = of_nat (length (Members gr)) * f (g (Contributions gr))" .
    then show ?case using Cons by simp
  qed simp
  have "mset (map ?v (Keys full)) = mset (map ?v (Keys obs @ concat (map Members (Groups obs))))"
    using assms by (simp add: lists_groups_def)
  then have "sum_list (map ?v (Keys full)) = sum_list (map ?v (Keys obs @ concat (map Members (Groups obs))))"
    by (metis sum_mset_sum_list)
  then show ?thesis using keys groups [of "Groups obs"] by (simp add: part_sum_def o_def)
qed

lemma count_members: "foldl (\<lambda>n gr. n + length (Members gr)) k grs = k + length (concat (map Members grs))"
  by (induction grs arbitrary: k) auto

lemma Observe_listed:
  assumes "lists_groups obs full"
  shows "Observe s obs = Observe s full"
proof (cases s)
  case (Excess e)
  then show ?thesis using assms by (simp add: excess_Observe_def lists_groups_def)
next
  case (Information i)
  have len: "length (Keys full) = length (Keys obs) + length (concat (map Members (Groups obs)))"
  proof -
    have "mset (Keys full) = mset (Keys obs @ concat (map Members (Groups obs)))" using assms by (simp add: lists_groups_def)
    then have "length (Keys full) = length (Keys obs @ concat (map Members (Groups obs)))" by (rule mset_eq_length)
    then show ?thesis by simp
  qed
  note listed = part_sum_listed [OF assms]
  have same: "Background full = Background obs" "TextMissed full = TextMissed obs" "Groups full = []"
    using assms by (simp_all add: lists_groups_def)
  show ?thesis
    unfolding Information Observe.simps information_Observe_def Let_def weighed_mean_sums weighed_spread_sums
    by (simp add: same count_members len listed)
qed simp

text \<open>C18: Counting a group's members instead of listing them changes nothing any scorer observes: bound to a pool
  with groups, a scorer is the one bound to the pool that lists every member with its group's
  contributions.\<close>

theorem grouped_pool_scores_alike:
  assumes "lists_groups obs full"
  shows "Observe s obs = Observe s full \<and> Score (Observe s obs) cs = Score (Observe s full) cs"
  using Observe_listed [OF assms] by simp

text \<open>Two members of one group beside a candidate of its own.\<close>

theorem grouped_pool_scores_alike_witness:
  "let text = [contribution SrcText 3]; graph = [(contribution SrcGraph 4)\<lparr>c_Degree := 2\<rparr>];
       obs = \<lparr>Background = 1, TextMissed = 0, o_Candidates = fmap_of_list [(1, text)], Keys = [1 :: nat],
         Groups = [\<lparr>Members = [2, 3], Contributions = graph\<rparr>]\<rparr>;
       full = \<lparr>Background = 1, TextMissed = 0, o_Candidates = fmap_of_list [(1, text), (2, graph), (3, graph)],
         Keys = [1, 2, 3], Groups = []\<rparr>
   in Observe (Information NewInformationScorer) obs = Observe (Information NewInformationScorer) full"
  unfolding Let_def by (rule grouped_pool_scores_alike [THEN conjunct1]) (simp add: lists_groups_def held_by_def fmlookup_of_list)

end
