(* ===== verification/Graph_Search.thy ===== *)
theory Graph_Search
  imports Graph_Excess Scoring Containers_TopK Config "HOL-Library.List_Lexorder"
begin

text \<open>
  \<open>Search\<close> of \<open>internal/graph/in_memory.go\<close>, stage by stage: seeds from the two indexes, the anchor round
  over them, scoring, the time window and decay, the ranking and the score cutoff. The indexes'
  own searches are behind the interface \<open>index_reader\<close>; a reading is a list of keys with their scores.
  Scores are real numbers. A time is an integer and 0 is the zero time. A search runs under the read
  lock; the caches \<open>contiguous\<close> fills on the way never change an answer and are not returned.
\<close>

section \<open>The interfaces of a search\<close>

type_synonym 'k reading = "('k \<times> real) list"

text \<open>
  \<open>rd_Search\<close> is \<open>SearchIndex.Search\<close>: one reading per keep, where a nil keep, \<open>None\<close>, accepts every key.
  The text index is given the graph's temporal neighbours (\<open>SetWindow\<close>), and \<open>tx_Information\<close> is its
  \<open>Information\<close>: the information in a query, and the share of it each key holds.
\<close>

record ('k, 'i, 'v) index_reader =
  rd_Search :: "'i \<Rightarrow> 'v \<Rightarrow> int \<Rightarrow> ('k \<Rightarrow> bool) option list \<Rightarrow> index_error + 'k reading list"

record ('k, 'ti, 'vi, 'p) search_lib =
  ops_text :: "('k, runes, 'ti) index_ops"
  ops_vector :: "('k, 'p list, 'vi) index_ops"
  text_reader :: "('k \<Rightarrow> 'k list) \<Rightarrow> ('k, 'ti, runes) index_reader"
  vector_reader :: "('k, 'vi, 'p list) index_reader"
  tx_Information :: "'ti \<Rightarrow> runes \<Rightarrow> 'k list \<Rightarrow> real \<times> real list"
  ranges :: "'k rank"
  letters :: unicode

datatype traversal = BFSTraversal Direction | ExcessTraversal

text \<open>The fields of \<open>InMemoryGraph\<close> that only a search reads.\<close>

record SearchSettings =
  ss_traversal :: "traversal option"
  ss_scorer :: Scorer
  ss_config :: ConfigSet

section \<open>Window and decay\<close>

definition in_window :: "int \<Rightarrow> int \<Rightarrow> int \<Rightarrow> bool" where
  "in_window ts since until \<longleftrightarrow> (since = 0 \<or> \<not> ts < since) \<and> (until = 0 \<or> ts < until)"

definition returnable :: "('k, 'ti, 'vi) InMemoryGraph \<Rightarrow> int \<Rightarrow> int \<Rightarrow> 'k \<Rightarrow> bool" where
  "returnable g since until key =
     (case fmlookup (idToNodes g) key of
        None \<Rightarrow> False
      | Some node \<Rightarrow> is_fact node \<and> in_window (GetTimestamp node) since until)"

text \<open>Times and the half-life are in nanoseconds, so the ratio of the seconds is their ratio.\<close>

definition decay :: "SearchSettings \<Rightarrow> real \<Rightarrow> int \<Rightarrow> int \<Rightarrow> real" where
  "decay st score ts now =
     (let halflife = Halflife (Engine (ss_config st))
      in if halflife > 0 \<and> now - ts > 0 then score * (0.5 powr (of_int (now - ts) / of_int halflife)) else score)"

definition timestamp :: "('k, 'ti, 'vi) InMemoryGraph \<Rightarrow> 'k \<Rightarrow> int" where
  "timestamp g key = (case fmlookup (idToNodes g) key of Some node \<Rightarrow> GetTimestamp node | None \<Rightarrow> 0)"

fun timeFilter ::
    "SearchSettings \<Rightarrow> ('k, 'ti, 'vi) InMemoryGraph \<Rightarrow> int \<Rightarrow> int \<Rightarrow> int \<Rightarrow> 'k list \<Rightarrow> 'k list \<Rightarrow> ('k, real) fmap \<Rightarrow>
     'k list \<times> ('k, real) fmap" where
  "timeFilter st g since until now [] kept scores = (kept, scores)"
| "timeFilter st g since until now (key # keys) kept scores =
     (case fmlookup (idToNodes g) key of
        None \<Rightarrow> timeFilter st g since until now keys kept (fmdrop key scores)
      | Some node \<Rightarrow>
          if \<not> is_fact node then timeFilter st g since until now keys kept (fmdrop key scores)
          else let ts = GetTimestamp node
               in if \<not> in_window ts since until then timeFilter st g since until now keys kept (fmdrop key scores)
                  else timeFilter st g since until now keys (kept @ [key])
                    (fmupd key (decay st (case fmlookup scores key of Some x \<Rightarrow> x | None \<Rightarrow> 0) ts now) scores))"

section \<open>Seeds\<close>

fun offer_new :: "('k, real) TopK \<Rightarrow> 'k list \<Rightarrow> 'k reading \<Rightarrow> ('k, real) TopK \<times> 'k list" where
  "offer_new t offered [] = (t, offered)"
| "offer_new t offered ((key, score) # reading) =
     (if key \<in> set offered then offer_new t offered reading
      else offer_new (Offer t key score) (key # offered) reading)"

fun offer_readings :: "('k, real) TopK \<Rightarrow> 'k list \<Rightarrow> 'k reading list \<Rightarrow> ('k, real) TopK" where
  "offer_readings t offered [] = t"
| "offer_readings t offered (reading # readings) =
     (let (t1, offered1) = offer_new t offered reading in offer_readings t1 offered1 readings)"

definition mark_seeds :: "nat \<Rightarrow> 'k reading list \<Rightarrow> ('k, unit) fmap \<Rightarrow> ('k, unit) fmap" where
  "mark_seeds seedK readings seeded =
     foldl (\<lambda>m reading. foldl (\<lambda>m (key, _). fmupd key () m) m (take seedK reading)) seeded readings"

definition union_readings ::
    "'k :: linorder reading list \<Rightarrow> nat \<Rightarrow> ('k, unit) fmap \<Rightarrow> 'k reading \<times> ('k, unit) fmap" where
  "union_readings readings seedK seeded =
     (let seeded1 = mark_seeds seedK readings seeded
      in (case readings of
            [] \<Rightarrow> []
          | [reading] \<Rightarrow> reading
          | _ \<Rightarrow> (case Drain (offer_readings (NewTopK 0 OrderedComparator) [] readings) of
                   ((keys, scores), _) \<Rightarrow> zip keys scores), seeded1))"

definition sight :: "'k \<Rightarrow> 'k Contribution \<Rightarrow> 'k Candidates \<Rightarrow> 'k Candidates" where
  "sight key c candidates = fmupd key (held_by candidates key @ [c]) candidates"

definition text_sighting :: "real \<Rightarrow> real list \<Rightarrow> nat \<Rightarrow> real \<Rightarrow> 'k Contribution" where
  "text_sighting info held rank score =
     (contribution SrcText score)\<lparr>c_Rank := ClampRank (int rank), c_Count := 1,
        c_Held := (if info > 0 then held ! rank / info else 0)\<rparr>"

definition vector_sighting :: "nat \<Rightarrow> real \<Rightarrow> 'k Contribution" where
  "vector_sighting rank negated =
     (contribution SrcVector (1 / (1 - negated)))\<lparr>c_Rank := ClampRank (int rank), c_Count := 1\<rparr>"

fun sight_all :: "(nat \<Rightarrow> real \<Rightarrow> 'k Contribution) \<Rightarrow> nat \<Rightarrow> 'k reading \<Rightarrow> 'k Candidates \<Rightarrow> 'k Candidates" where
  "sight_all c rank [] candidates = candidates"
| "sight_all c rank ((key, score) # reading) candidates =
     sight_all c (Suc rank) reading (sight key (c rank score) candidates)"

definition readings_of :: "index_error + 'k reading list \<Rightarrow> 'k reading list" where
  "readings_of r = (case r of Inr readings \<Rightarrow> readings | Inl _ \<Rightarrow> [])"

definition temporal_neighbours :: "('k :: linorder, 'ti, 'vi) InMemoryGraph \<Rightarrow> 'k \<Rightarrow> 'k list" where
  "temporal_neighbours g key = fst (contiguous key g)"

definition gather_text ::
    "('k, 'ti, 'vi, 'p) search_lib \<Rightarrow> ('k :: linorder, 'ti, 'vi) InMemoryGraph \<Rightarrow> runes list \<Rightarrow> 'p list \<Rightarrow>
     ('k \<Rightarrow> bool) option list \<Rightarrow> nat \<Rightarrow> 'k Candidates \<Rightarrow> ('k, unit) fmap \<Rightarrow> 'k Candidates \<times> ('k, unit) fmap \<times> real" where
  "gather_text lib g keywords vector keeps seedK candidates seeded =
     (if length keywords > 0 then
        (let query = CleanContent (letters lib) (Join keywords [32]);
             readings = readings_of (rd_Search (text_reader lib (temporal_neighbours g)) (textIndex g) query 0 keeps);
             (reading, seeded1) = union_readings readings seedK seeded;
             (info, held) = tx_Information lib (textIndex g) query (map fst reading);
             missed = (if vector \<noteq> [] \<and> length reading > 0 \<and> held ! 0 > 0 then (info - held ! 0) / held ! 0 else 0)
         in (sight_all (text_sighting info held) 0 reading candidates, seeded1, missed))
      else (candidates, seeded, 0))"

definition gather_vector ::
    "('k, 'ti, 'vi, 'p) search_lib \<Rightarrow> ('k :: linorder, 'ti, 'vi) InMemoryGraph \<Rightarrow> 'p list \<Rightarrow>
     ('k \<Rightarrow> bool) option list \<Rightarrow> nat \<Rightarrow> 'k Candidates \<Rightarrow> ('k, unit) fmap \<Rightarrow>
     index_error + ('k Candidates \<times> ('k, unit) fmap)" where
  "gather_vector lib g vector keeps seedK candidates seeded =
     (if vector \<noteq> [] then
        (let found = rd_Search (vector_reader lib) (vectorIndex g) vector 0 keeps
         in if found = Inl ErrInvalidDimension then Inl ErrInvalidDimension
            else let nearness = map (map (\<lambda>(key, distance). (key, - distance))) (readings_of found);
                     (reading, seeded1) = union_readings nearness seedK seeded
                 in Inr (sight_all vector_sighting 0 reading candidates, seeded1))
      else Inr (candidates, seeded))"

text \<open>The seed keys, the weakness of the text, and the candidates.\<close>

definition gatherSeeds ::
    "('k, 'ti, 'vi, 'p) search_lib \<Rightarrow> SearchSettings \<Rightarrow> ('k :: linorder, 'ti, 'vi) InMemoryGraph \<Rightarrow> runes list \<Rightarrow>
     'p list \<Rightarrow> ('k \<Rightarrow> bool) option list \<Rightarrow> 'k Candidates \<Rightarrow> int \<Rightarrow> index_error + ('k list \<times> real \<times> 'k Candidates)" where
  "gatherSeeds lib st g keywords vector keeps candidates topN =
     (let seedK = nat (max topN (SeedSize (DB (ss_config st))));
          (candidates1, seeded1, missed) = gather_text lib g keywords vector keeps seedK candidates fmempty
      in case gather_vector lib g vector keeps seedK candidates1 seeded1 of
           Inl e \<Rightarrow> Inl e
         | Inr (candidates2, seeded2) \<Rightarrow> Inr (keys_of seeded2, missed, candidates2))"

section \<open>Named anchors\<close>

definition anchorKeys ::
    "('k, 'ti, 'vi) InMemoryGraph \<Rightarrow> runes list \<Rightarrow> runes list \<Rightarrow> 'k list \<times> 'k list" where
  "anchorKeys g topics entities =
     (map (\<lambda>value. Key (hasher g) (Topic \<lparr>na_Value = value, na_Timestamp = 0\<rparr>)) topics,
      map (\<lambda>value. Key (hasher g) (NamedEntity \<lparr>na_Value = value, na_Timestamp = 0\<rparr>)) entities)"

definition anchor_degree :: "('k :: linorder, 'ti, 'vi) InMemoryGraph \<Rightarrow> 'k \<Rightarrow> nat" where
  "anchor_degree g anchor = length (keys_of (row (nodeToTargets g) anchor)) + length (keys_of (row (nodeToSources g) anchor))"

fun first_named :: "'k list \<Rightarrow> 'k list \<Rightarrow> 'k list" where
  "first_named named [] = []"
| "first_named named (anchor # anchors) =
     (if anchor \<in> set named then first_named named anchors
      else anchor # first_named (anchor # named) anchors)"

fun gather_anchor ::
    "('k :: linorder, 'ti, 'vi) InMemoryGraph \<Rightarrow> 'k \<Rightarrow> 'k list \<Rightarrow> 'k Candidates \<Rightarrow> 'k Candidates" where
  "gather_anchor g anchor [] candidates = candidates"
| "gather_anchor g anchor (member # members) candidates =
     (if \<not> isFact g member then gather_anchor g anchor members candidates
      else gather_anchor g anchor members
        (sight member ((contribution SrcAnchor 1)\<lparr>c_Via := Some anchor,
           c_Degree := ClampDegree (int (anchor_degree g anchor)), c_Count := 1\<rparr>) candidates))"

definition gatherMembers ::
    "'k rank \<Rightarrow> ('k :: linorder, 'ti, 'vi) InMemoryGraph \<Rightarrow> 'k list \<Rightarrow> 'k list \<Rightarrow> 'k Candidates \<Rightarrow> 'k Candidates" where
  "gatherMembers rank g topicKeys entityKeys candidates =
     foldl (\<lambda>cs anchor. gather_anchor g anchor (Neighbours rank g anchor) cs) candidates
       (first_named [] (topicKeys @ entityKeys))"

definition filedUnder :: "('k, 'ti, 'vi) InMemoryGraph \<Rightarrow> 'k \<Rightarrow> 'k list \<Rightarrow> bool" where
  "filedUnder g key anchors \<longleftrightarrow> list_ex (\<lambda>anchor. key = anchor \<or>
     fmlookup (row (nodeToTargets g) key) anchor \<noteq> None \<or> fmlookup (row (nodeToSources g) key) anchor \<noteq> None) anchors"

definition holds :: "('k, 'v, 'i) index_ops \<Rightarrow> 'i \<Rightarrow> 'k \<Rightarrow> bool" where
  "holds ops ix key = (case ix_Retrieve ops ix key of Inr _ \<Rightarrow> True | Inl _ \<Rightarrow> False)"

definition filesEvery ::
    "('k, 'ti, 'vi, 'p) search_lib \<Rightarrow> ('k :: linorder, 'ti, 'vi) InMemoryGraph \<Rightarrow> 'k list \<Rightarrow> bool" where
  "filesEvery lib g anchors =
     (let texts = ix_Count (ops_text lib) (textIndex g); vectors = ix_Count (ops_vector lib) (vectorIndex g)
      in list_ex (\<lambda>anchor.
           let sources = row (nodeToSources g) anchor; targets = row (nodeToTargets g) anchor;
               members = keys_of sources @ filter (\<lambda>member. fmlookup sources member = None) (keys_of targets)
           in \<not> length (keys_of sources) + length (keys_of targets) < max texts vectors \<and>
              length (filter (holds (ops_text lib) (textIndex g)) members) = texts \<and>
              length (filter (holds (ops_vector lib) (vectorIndex g)) members) = vectors) anchors)"

section \<open>The anchor round\<close>

definition graph_walk ::
    "'k rank \<Rightarrow> traversal \<Rightarrow> ('k :: linorder, 'ti, 'vi) InMemoryGraph \<Rightarrow> 'k list \<Rightarrow> 'k TraversalResult option" where
  "graph_walk rank t g sources =
     (case (case t of BFSTraversal dir \<Rightarrow> bfs_traverse rank dir g sources | ExcessTraversal \<Rightarrow> excess_traverse rank g sources) of
        Inl _ \<Rightarrow> None | Inr r \<Rightarrow> Some r)"

text \<open>What pass 1 observes of the anchors.\<close>

record 'k tally =
  ty_anchorMass :: "('k, real) fmap"
  ty_anchorSeeds :: "('k, nat) fmap"
  ty_degree :: "('k, nat) fmap"
  ty_touched :: "'k list"

definition read_or :: "'v \<Rightarrow> ('k, 'v) fmap \<Rightarrow> 'k \<Rightarrow> 'v" where
  "read_or d m k = (case fmlookup m k of Some v \<Rightarrow> v | None \<Rightarrow> d)"

definition fund :: "('k, real) fmap \<Rightarrow> 'k \<Rightarrow> 'k tally \<Rightarrow> 'k \<Rightarrow> 'k tally" where
  "fund seedScores anchor t seed =
     t\<lparr>ty_anchorMass := fmupd anchor (read_or 0 (ty_anchorMass t) anchor + read_or 0 seedScores seed) (ty_anchorMass t),
       ty_anchorSeeds := fmupd anchor (read_or 0 (ty_anchorSeeds t) anchor + 1) (ty_anchorSeeds t)\<rparr>"

fun observe_anchors ::
    "('k :: linorder, 'ti, 'vi) InMemoryGraph \<Rightarrow> ('k, real) fmap \<Rightarrow> 'k TraversalResult \<Rightarrow> 'k list \<Rightarrow> 'k tally \<Rightarrow> 'k tally" where
  "observe_anchors g seedScores observed [] t = t"
| "observe_anchors g seedScores observed (anchor # order) t =
     (if fmlookup (tr_Depth observed) anchor \<noteq> Some 1 \<or> \<not> isAnchor g anchor
      then observe_anchors g seedScores observed order t
      else observe_anchors g seedScores observed order
        (foldl (fund seedScores anchor)
          (t\<lparr>ty_degree := fmupd anchor (anchor_degree g anchor) (ty_degree t), ty_touched := ty_touched t @ [anchor]\<rparr>)
          (reachedFrom observed anchor)))"

definition totals :: "'k tally \<Rightarrow> 'k list \<Rightarrow> real \<times> nat" where
  "totals t touched = foldl (\<lambda>(mass, degree) anchor.
     (mass + read_or 0 (ty_anchorMass t) anchor, degree + read_or 0 (ty_degree t) anchor)) (0, 0) touched"

definition transmission :: "'k tally \<Rightarrow> 'k list \<Rightarrow> 'k \<Rightarrow> 'k Contribution" where
  "transmission t named anchor =
     (contribution SrcGraph (read_or 0 (ty_anchorMass t) anchor))\<lparr>c_Via := Some anchor,
        c_Degree := ClampDegree (int (read_or 0 (ty_degree t) anchor)),
        c_Count := ClampCount (int (read_or 0 (ty_anchorSeeds t) anchor)),
        c_Named := anchor \<in> set named\<rparr>"

definition depthOneAdmission :: real where
  "depthOneAdmission = 2"

definition transmits :: "'k tally \<Rightarrow> 'k list \<Rightarrow> int \<Rightarrow> real \<times> nat \<Rightarrow> 'k \<Rightarrow> bool" where
  "transmits t named hops tot anchor \<longleftrightarrow>
     (let (totalMass, totalDegree) = tot; admission = (if hops = 1 then depthOneAdmission else 1)
      in anchor \<in> set named \<or>
         read_or 0 (ty_anchorMass t) anchor * of_nat totalDegree > of_nat (read_or 0 (ty_degree t) anchor) * totalMass * admission)"

text \<open>The members of the pass: those that join a group, in \<open>groups\<close>, and those listed on their own.\<close>

fun add_member :: "'k \<Rightarrow> nat \<Rightarrow> 'k Group list \<Rightarrow> 'k Group list" where
  "add_member member i groups = groups[i := (groups ! i)\<lparr>Members := Members (groups ! i) @ [member]\<rparr>]"

fun group_members ::
    "('k \<Rightarrow> 'k Contribution) \<Rightarrow> 'k Candidates \<Rightarrow> 'k TraversalResult \<Rightarrow> 'k list \<Rightarrow> 'k Group list \<Rightarrow> ('k, nat) fmap \<Rightarrow> 'k list \<Rightarrow>
     'k Group list \<times> 'k list" where
  "group_members tx candidates expanded [] groups grouped listed = (groups, listed)"
| "group_members tx candidates expanded (member # order) groups grouped listed =
     (if fmlookup (tr_Depth expanded) member \<noteq> Some 1 then group_members tx candidates expanded order groups grouped listed
      else let anchors = reachedFrom expanded member
           in if length anchors = 1 \<and> fmlookup candidates member = None then
                (case fmlookup grouped (anchors ! 0) of
                   None \<Rightarrow> group_members tx candidates expanded order
                     (add_member member (length groups) (groups @ [\<lparr>Members = [], Contributions = [tx (anchors ! 0)]\<rparr>]))
                     (fmupd (anchors ! 0) (length groups) grouped) listed
                 | Some i \<Rightarrow> group_members tx candidates expanded order (add_member member i groups) grouped listed)
              else group_members tx candidates expanded order groups grouped (listed @ [member]))"

definition list_members ::
    "('k \<Rightarrow> 'k Contribution) \<Rightarrow> 'k TraversalResult \<Rightarrow> 'k list \<Rightarrow> 'k Candidates \<Rightarrow> 'k Candidates" where
  "list_members tx expanded listed candidates =
     foldl (\<lambda>cs member. fmupd member (held_by cs member @ map tx (reachedFrom expanded member)) cs) candidates listed"

definition sort_groups :: "'k :: linorder Group list \<Rightarrow> 'k Group list" where
  "sort_groups groups =
     sort_key (\<lambda>gr. case c_Via (Contributions gr ! 0) of Some anchor \<Rightarrow> [anchor] | None \<Rightarrow> [])
       (map (\<lambda>gr. gr\<lparr>Members := sort (Members gr)\<rparr>) groups)"

definition seed_scores :: "Scorer \<Rightarrow> real \<Rightarrow> 'k Candidates \<Rightarrow> 'k list \<Rightarrow> ('k, real) fmap" where
  "seed_scores scorer missed candidates seeds =
     (let seeding = Observe scorer \<lparr>Background = 0, TextMissed = missed, o_Candidates = (fmempty :: 'k Candidates), Keys = [], Groups = []\<rparr>
      in foldl (\<lambda>m seed. fmupd seed (Score seeding (held_by candidates seed)) m) fmempty seeds)"

definition expandMembers ::
    "'k rank \<Rightarrow> traversal \<Rightarrow> ('k :: linorder, 'ti, 'vi) InMemoryGraph \<Rightarrow> ('k \<Rightarrow> 'k Contribution) \<Rightarrow> 'k list \<Rightarrow> 'k Candidates \<Rightarrow>
     'k Group list \<times> 'k Candidates" where
  "expandMembers rank t g tx transmitting candidates =
     (case graph_walk rank t g transmitting of
        None \<Rightarrow> ([], candidates)
      | Some expanded \<Rightarrow>
          (let (groups, listed) = group_members tx candidates expanded (tr_Order expanded) [] fmempty []
           in (sort_groups groups, list_members tx expanded listed candidates)))"

definition findNeighbours ::
    "'k rank \<Rightarrow> SearchSettings \<Rightarrow> ('k :: linorder, 'ti, 'vi) InMemoryGraph \<Rightarrow> 'k list \<Rightarrow> real \<Rightarrow> 'k Candidates \<Rightarrow>
     'k list \<Rightarrow> 'k list \<Rightarrow> int \<Rightarrow> real \<times> 'k Group list \<times> 'k Candidates" where
  "findNeighbours rank st g seeds missed candidates topicKeys entityKeys hops =
     (case ss_traversal st of
        None \<Rightarrow> (0, [], candidates)
      | Some t \<Rightarrow>
          if hops \<ge> 1 \<and> length seeds > 0 \<and> (length topicKeys > 0 \<or> length entityKeys > 0) then
            (case graph_walk rank t g seeds of
               None \<Rightarrow> (0, [], candidates)
             | Some observed \<Rightarrow>
                 (let seedScores = seed_scores (ss_scorer st) missed candidates seeds;
                      ty = observe_anchors g seedScores observed (tr_Order observed)
                        \<lparr>ty_anchorMass = fmempty, ty_anchorSeeds = fmempty, ty_degree = fmempty, ty_touched = []\<rparr>;
                      touched = sort (ty_touched ty);
                      (totalMass, totalDegree) = totals ty touched;
                      background = (if totalDegree > 0 then totalMass / of_nat totalDegree else 0);
                      named = topicKeys @ entityKeys;
                      transmitting = filter (transmits ty named hops (totalMass, totalDegree)) touched
                  in if length transmitting = 0 then (background, [], candidates)
                     else (background, expandMembers rank t g (transmission ty named) transmitting candidates)))
          else (0, [], candidates))"

section \<open>Collection\<close>

record 'k collected =
  co_candidates :: "'k Candidates"
  co_groups :: "'k Group list"
  co_background :: real
  co_missed :: real

definition collect ::
    "('k, 'ti, 'vi, 'p) search_lib \<Rightarrow> SearchSettings \<Rightarrow> ('k :: linorder, 'ti, 'vi) InMemoryGraph \<Rightarrow> runes list \<Rightarrow>
     'p list \<Rightarrow> runes list \<Rightarrow> runes list \<Rightarrow> int \<Rightarrow> int \<Rightarrow> int \<Rightarrow> int \<Rightarrow> index_error + 'k collected" where
  "collect lib st g keywords vector topics entities hops topN since until =
     (let (topicKeys, entityKeys) = anchorKeys g topics entities
      in if length keywords = 0 \<and> vector = [] then
           Inr \<lparr>co_candidates = gatherMembers (ranges lib) g topicKeys entityKeys fmempty, co_groups = [],
             co_background = 0, co_missed = 0\<rparr>
         else
           (let stands = (\<lambda>key. case fmlookup (idToNodes g) key of
                  Some node \<Rightarrow> in_window (GetTimestamp node) since until | None \<Rightarrow> False);
                window = (if since \<noteq> 0 \<or> until \<noteq> 0 then Some stands else None);
                named = topicKeys @ entityKeys;
                keeps = (if length named > 0 \<and> \<not> filesEvery lib g named
                  then [window, Some (\<lambda>key. stands key \<and> filedUnder g key named)] else [window])
            in case gatherSeeds lib st g keywords vector keeps fmempty topN of
                 Inl e \<Rightarrow> Inl e
               | Inr (seeds, missed, candidates) \<Rightarrow>
                   (let (background, groups, candidates1) =
                          findNeighbours (ranges lib) st g seeds missed candidates topicKeys entityKeys hops
                    in Inr \<lparr>co_candidates = candidates1, co_groups = groups, co_background = background, co_missed = missed\<rparr>)))"

section \<open>Search\<close>

record 'k Hit =
  hit_Node :: "Node option"
  hit_Score :: real
  hit_Contributions :: "'k Contribution list"

record 'k Result =
  res_Hits :: "'k Hit list"
  res_Background :: real

definition hits :: "('k, 'ti, 'vi) InMemoryGraph \<Rightarrow> 'k reading \<Rightarrow> 'k Candidates \<Rightarrow> 'k Hit list" where
  "hits g ranked candidates =
     map (\<lambda>(key, score). \<lparr>hit_Node = fmlookup (idToNodes g) key, hit_Score = score,
       hit_Contributions = held_by candidates key\<rparr>) ranked"

definition scoreCutoff :: "SearchSettings \<Rightarrow> Scorer \<Rightarrow> 'k Candidates \<Rightarrow> 'k reading \<Rightarrow> 'k reading" where
  "scoreCutoff st scorer candidates ranked =
     (let ratio = of_rat (MinScoreRatio (DB (ss_config st)))
      in if ratio \<le> 0 \<or> length ranked = 0 then ranked
         else let relevance = map (\<lambda>(key, _). Score scorer (held_by candidates key)) ranked;
                  bar = ratio * Max (set relevance)
              in map fst (filter (\<lambda>(_, r). r \<ge> bar) (zip ranked relevance)))"

text \<open>\<open>slices.BinarySearch\<close>: the smallest index whose key is not below the target, and whether it is there.\<close>

function binary_search_loop :: "'k :: linorder list \<Rightarrow> 'k \<Rightarrow> nat \<Rightarrow> nat \<Rightarrow> nat" where
  "binary_search_loop xs target i j =
     (if i < j then
        (let h = (i + j) div 2
         in if xs ! h < target then binary_search_loop xs target (h + 1) j else binary_search_loop xs target i h)
      else i)"
  by pat_completeness auto
termination by (relation "measure (\<lambda>(xs, target, i, j). j - i)") auto

declare binary_search_loop.simps [simp del, loop_defs]

definition BinarySearch :: "'k :: linorder list \<Rightarrow> 'k \<Rightarrow> bool" where
  "BinarySearch xs target =
     (let i = binary_search_loop xs target 0 (length xs) in i < length xs \<and> xs ! i = target)"

definition adopt :: "'k :: linorder Group list \<Rightarrow> 'k list \<Rightarrow> 'k Candidates \<Rightarrow> 'k Candidates" where
  "adopt groups rankedKeys candidates =
     foldl (\<lambda>cs key. if fmlookup cs key \<noteq> None then cs
        else case find (\<lambda>gr. BinarySearch (Members gr) key) groups of
               Some gr \<Rightarrow> fmupd key (Contributions gr) cs | None \<Rightarrow> cs) candidates rankedKeys"

definition offer_groups ::
    "SearchSettings \<Rightarrow> ('k, 'ti, 'vi) InMemoryGraph \<Rightarrow> int \<Rightarrow> Scorer \<Rightarrow> 'k Group list \<Rightarrow> ('k, real) TopK \<Rightarrow> ('k, real) TopK" where
  "offer_groups st g now scorer groups ranker =
     foldl (\<lambda>t gr. let relevance = Score scorer (Contributions gr)
        in foldl (\<lambda>t member. Offer t member (decay st relevance (timestamp g member) now)) t (Members gr)) ranker groups"

definition rank_collected ::
    "SearchSettings \<Rightarrow> ('k :: linorder, 'ti, 'vi) InMemoryGraph \<Rightarrow> int \<Rightarrow> int \<Rightarrow> int \<Rightarrow> int \<Rightarrow> 'k collected \<Rightarrow> 'k Result" where
  "rank_collected st g topN since until now c =
     (let candidates = co_candidates c;
          keys = filter (returnable g since until) (keys_of candidates);
          groups = map (\<lambda>gr. gr\<lparr>Members := filter (returnable g since until) (Members gr)\<rparr>) (co_groups c);
          scorer = Observe (ss_scorer st) \<lparr>Background = co_background c, TextMissed = co_missed c,
            o_Candidates = candidates, Keys = keys, Groups = groups\<rparr>;
          scores = foldl (\<lambda>m key. fmupd key (Score scorer (held_by candidates key)) m) fmempty keys;
          (kept, ranked) = timeFilter st g since until now keys [] scores;
          ranker = foldl (\<lambda>t key. Offer t key (read_or 0 ranked key)) (NewTopK topN OrderedComparator) kept;
          ((rankedKeys, rankedScores), _) = Drain (offer_groups st g now scorer groups ranker);
          candidates1 = adopt groups rankedKeys candidates
      in \<lparr>res_Hits = hits g (scoreCutoff st scorer candidates1 (zip rankedKeys rankedScores)) candidates1,
          res_Background = co_background c\<rparr>)"

definition Search ::
    "('k, 'ti, 'vi, 'p) search_lib \<Rightarrow> SearchSettings \<Rightarrow> int \<Rightarrow> ('k :: linorder, 'ti, 'vi) InMemoryGraph \<Rightarrow> runes list \<Rightarrow>
     'p list \<Rightarrow> runes list \<Rightarrow> runes list \<Rightarrow> int \<Rightarrow> int \<Rightarrow> int \<Rightarrow> int \<Rightarrow> index_error + 'k Result" where
  "Search lib st now g keywords vector topics entities hops topN since until =
     (case collect lib st g keywords vector topics entities hops topN since until of
        Inl e \<Rightarrow> Inl e
      | Inr c \<Rightarrow> Inr (rank_collected st g topN since until now c))"

end
