(* ===== verification/Graph_Ranking.thy ===== *)
theory Graph_Ranking
  imports Graph_Search
begin

text \<open>
  What \<open>Search\<close> returns: its ranking, which scores a group of candidates once and adopts them on
  the way out, equals the plain one that lists every candidate, scores each, sorts and truncates.
\<close>

section \<open>Binary search\<close>

lemma binary_search_loop_least:
  assumes "sorted xs" "i \<le> j" "j \<le> length xs"
    and "\<forall>k < i. xs ! k < target" "\<forall>k < length xs. j \<le> k \<longrightarrow> target \<le> xs ! k"
  shows "\<forall>k < length xs. xs ! k < target \<longleftrightarrow> k < binary_search_loop xs target i j"
  using assms
proof (induction xs target i j rule: binary_search_loop.induct)
  case (1 xs target i j)
  show ?case
  proof (cases "i < j")
    case False
    then have "binary_search_loop xs target i j = i" by (subst binary_search_loop.simps) simp
    moreover have "i = j" using False "1.prems"(2) by simp
    ultimately show ?thesis using "1.prems" by (auto simp: not_less [symmetric])
  next
    case True
    let ?h = "(i + j) div 2"
    have h: "i \<le> ?h" "?h < j" using True by auto
    show ?thesis
    proof (cases "xs ! ?h < target")
      case below: True
      have "xs ! k \<le> xs ! ?h" if "k \<le> ?h" for k
        using "1.prems"(1,3) h that by (intro sorted_nth_mono) auto
      then have "\<forall>k < ?h + 1. xs ! k < target" using below by (auto simp: less_Suc_eq_le intro: le_less_trans)
      then show ?thesis
        using "1.IH"(1) [OF True refl below] "1.prems" h True below
        by (simp add: binary_search_loop.simps [of xs target i j] Let_def)
    next
      case above: False
      have "xs ! ?h \<le> xs ! k" if "?h \<le> k" "k < length xs" for k
        using "1.prems"(1) that by (intro sorted_nth_mono) auto
      then have "\<forall>k < length xs. ?h \<le> k \<longrightarrow> target \<le> xs ! k" using above by (auto simp: not_less intro: order_trans)
      then show ?thesis
        using "1.IH"(2) [OF True refl above] "1.prems" h True above
        by (simp add: binary_search_loop.simps [of xs target i j] Let_def)
    qed
  qed
qed

lemma BinarySearch_mem: "sorted xs \<Longrightarrow> BinarySearch xs target \<longleftrightarrow> target \<in> set xs"
proof -
  assume s: "sorted xs"
  let ?p = "binary_search_loop xs target 0 (length xs)"
  have p: "\<And>k. k < length xs \<Longrightarrow> xs ! k < target \<longleftrightarrow> k < ?p"
    using binary_search_loop_least [OF s, of 0 "length xs" target] by simp
  show ?thesis
  proof
    assume "target \<in> set xs"
    then obtain k where k: "k < length xs" "xs ! k = target" by (auto simp: in_set_conv_nth)
    then have "?p \<le> k" using p [of k] by auto
    then have l: "?p < length xs" using k by simp
    have "xs ! ?p \<le> target" using sorted_nth_mono [OF s \<open>?p \<le> k\<close> k(1)] k(2) by simp
    then show "BinarySearch xs target" using p [OF l] l by (auto simp: BinarySearch_def Let_def)
  qed (auto simp: BinarySearch_def Let_def in_set_conv_nth)
qed

section \<open>Groups beside the candidates\<close>

text \<open>Every group lists its members in ascending order, each in one group only and not a candidate.\<close>

definition groups_ok :: "'k :: linorder Candidates \<Rightarrow> 'k Group list \<Rightarrow> bool" where
  "groups_ok candidates groups \<longleftrightarrow> distinct (concat (map Members groups)) \<and>
     (\<forall>gr \<in> set groups. sorted (Members gr)) \<and>
     (\<forall>key \<in> set (concat (map Members groups)). fmlookup candidates key = None)"

text \<open>The group a key is a member of.\<close>

definition group_of :: "'k Group list \<Rightarrow> 'k \<Rightarrow> 'k Group option" where
  "group_of groups key = find (\<lambda>gr. key \<in> set (Members gr)) groups"

definition list_group :: "'k Candidates \<Rightarrow> 'k Group \<Rightarrow> 'k Candidates" where
  "list_group candidates gr = foldl (\<lambda>cs member. fmupd member (Contributions gr) cs) candidates (Members gr)"

definition listed_pool :: "'k Candidates \<Rightarrow> 'k Group list \<Rightarrow> 'k Candidates" where
  "listed_pool candidates groups = foldl list_group candidates groups"

lemma list_group_lookup:
  "fmlookup (list_group cs gr) key = (if key \<in> set (Members gr) then Some (Contributions gr) else fmlookup cs key)"
  unfolding list_group_def
proof -
  have "fmlookup (foldl (\<lambda>cs member. fmupd member (Contributions gr) cs) cs ms) key =
      (if key \<in> set ms then Some (Contributions gr) else fmlookup cs key)" for ms
    by (induction ms arbitrary: cs) auto
  then show "fmlookup (foldl (\<lambda>cs member. fmupd member (Contributions gr) cs) cs (Members gr)) key =
      (if key \<in> set (Members gr) then Some (Contributions gr) else fmlookup cs key)" .
qed

lemma listed_pool_lookup:
  assumes "distinct (concat (map Members groups))"
  shows "fmlookup (listed_pool cs groups) key =
    (case group_of groups key of Some gr \<Rightarrow> Some (Contributions gr) | None \<Rightarrow> fmlookup cs key)"
  using assms
proof (induction groups arbitrary: cs)
  case (Cons gr groups)
  have "group_of groups key = None" if "key \<in> set (Members gr)"
    using that Cons.prems by (auto simp: group_of_def find_None_iff)
  then show ?case using Cons by (auto simp: listed_pool_def list_group_lookup group_of_def split: option.split)
qed (simp add: listed_pool_def group_of_def)

lemma group_of_Some: "group_of groups key = Some gr \<Longrightarrow> gr \<in> set groups \<and> key \<in> set (Members gr)"
  by (auto simp: group_of_def find_Some_iff)

lemma group_of_None: "group_of groups key = None \<longleftrightarrow> key \<notin> set (concat (map Members groups))"
  by (auto simp: group_of_def find_None_iff)

lemma group_of_member:
  assumes "distinct (concat (map Members groups))" "gr \<in> set groups" "key \<in> set (Members gr)"
  shows "group_of groups key = Some gr"
  using assms
proof (induction groups)
  case (Cons h groups)
  show ?case
  proof (cases "gr \<in> set groups")
    case True
    then have "key \<notin> set (Members h)" using Cons.prems by auto
    then show ?thesis using Cons True by (simp add: group_of_def)
  next
    case False
    then show ?thesis using Cons.prems by (simp add: group_of_def)
  qed
qed simp

lemma list_group_dom: "fmdom' (list_group cs gr) = fmdom' cs \<union> set (Members gr)"
  by (auto simp: fmlookup_dom'_iff list_group_lookup split: if_splits)

lemma listed_dom: "fmdom' (listed_pool cs groups) = fmdom' cs \<union> set (concat (map Members groups))"
  unfolding listed_pool_def by (induction groups arbitrary: cs) (auto simp: list_group_dom simp del: fmlookup_dom'_iff)

lemma held_listed:
  assumes "groups_ok cs groups"
  shows "key \<in> fmdom' cs \<Longrightarrow> held_by (listed_pool cs groups) key = held_by cs key"
    and "gr \<in> set groups \<Longrightarrow> key \<in> set (Members gr) \<Longrightarrow> held_by (listed_pool cs groups) key = Contributions gr"
proof -
  have d: "distinct (concat (map Members groups))" using assms by (simp add: groups_ok_def)
  show "held_by (listed_pool cs groups) key = held_by cs key" if "key \<in> fmdom' cs"
  proof -
    have "group_of groups key = None"
      using assms that by (auto simp: group_of_None groups_ok_def fmlookup_dom'_iff)
    then show ?thesis using listed_pool_lookup [OF d] by (simp add: held_by_def)
  qed
  show "held_by (listed_pool cs groups) key = Contributions gr" if "gr \<in> set groups" "key \<in> set (Members gr)"
    using listed_pool_lookup [OF d] group_of_member [OF d that] by (simp add: held_by_def)
qed

text \<open>Keeping the returnable members of each group.\<close>

lemma groups_ok_filter:
  assumes "groups_ok cs groups"
  shows "groups_ok cs (map (\<lambda>gr. gr\<lparr>Members := filter P (Members gr)\<rparr>) groups)"
proof -
  have c: "concat (map (\<lambda>gr. filter P (Members gr)) groups) = filter P (concat (map Members groups))"
    by (induction groups) auto
  show ?thesis using assms unfolding groups_ok_def
    by (auto simp: o_def c sorted_filter [where f = "\<lambda>x. x", simplified])
qed

section \<open>The plain ranking\<close>

definition aged_entry :: "SearchSettings \<Rightarrow> ('k, 'ti, 'vi) InMemoryGraph \<Rightarrow> int \<Rightarrow> ('k \<Rightarrow> real) \<Rightarrow> 'k \<Rightarrow> ('k, real) topKEntry" where
  "aged_entry st g now relevance key = \<lparr>te_key = key, te_score = decay st (relevance key) (timestamp g key) now\<rparr>"

definition above_cutoff :: "SearchSettings \<Rightarrow> ('k \<Rightarrow> real) \<Rightarrow> ('k, real) topKEntry list \<Rightarrow> ('k, real) topKEntry list" where
  "above_cutoff st relevance ranked =
     (let ratio = of_rat (MinScoreRatio (DB (ss_config st)))
      in if ratio \<le> 0 then ranked
         else filter (\<lambda>e. ratio * Max (relevance ` te_key ` set ranked) \<le> relevance (te_key e)) ranked)"

definition rank_listed ::
    "SearchSettings \<Rightarrow> ('k :: linorder, 'ti, 'vi) InMemoryGraph \<Rightarrow> int \<Rightarrow> int \<Rightarrow> int \<Rightarrow> int \<Rightarrow> real \<Rightarrow> real \<Rightarrow> 'k Candidates \<Rightarrow> 'k Result" where
  "rank_listed st g topN since until now bg weakness pool =
     (let keys = filter (returnable g since until) (keys_of pool);
          scorer = Observe (ss_scorer st) \<lparr>Background = bg, TextMissed = weakness, o_Candidates = pool, Keys = keys, Groups = []\<rparr>;
          relevance = (\<lambda>key. Score scorer (held_by pool key));
          ranked = best OrderedComparator topN (map (aged_entry st g now relevance) keys)
      in \<lparr>res_Hits = map (\<lambda>e. \<lparr>hit_Node = fmlookup (idToNodes g) (te_key e), hit_Score = te_score e,
            hit_Contributions = held_by pool (te_key e)\<rparr>) (above_cutoff st relevance ranked), res_Background = bg\<rparr>)"

section \<open>The ranking of a collection is the plain one\<close>

lemma lookup_scores:
  "fmlookup (foldl (\<lambda>m key. fmupd key (f key) m) m keys) k = (if k \<in> set keys then Some (f k) else fmlookup m k)"
  by (induction keys arbitrary: m) auto

lemma timeFilter_returnable:
  assumes "\<forall>key \<in> set keys. returnable g since until key" "distinct keys"
  shows "\<exists>scores'. timeFilter st g since until now keys kept scores = (kept @ keys, scores') \<and>
    (\<forall>k. fmlookup scores' k = (if k \<in> set keys then Some (decay st (read_or 0 scores k) (timestamp g k) now) else fmlookup scores k))"
  using assms
proof (induction keys arbitrary: kept scores)
  case (Cons key keys)
  obtain node where node: "fmlookup (idToNodes g) key = Some node" "is_fact node" "in_window (GetTimestamp node) since until"
    using Cons.prems(1) by (auto simp: returnable_def split: option.splits)
  let ?scores = "fmupd key (decay st (read_or 0 scores key) (GetTimestamp node) now) scores"
  obtain scores' where s: "timeFilter st g since until now keys (kept @ [key]) ?scores = ((kept @ [key]) @ keys, scores')"
    "\<And>k. fmlookup scores' k = (if k \<in> set keys then Some (decay st (read_or 0 ?scores k) (timestamp g k) now) else fmlookup ?scores k)"
    using Cons.IH [of "kept @ [key]" ?scores] Cons.prems by auto
  have "timeFilter st g since until now (key # keys) kept scores = (kept @ key # keys, scores')"
    using s(1) node by (simp add: Let_def read_or_def)
  moreover have "fmlookup scores' k = (if k \<in> set (key # keys) then Some (decay st (read_or 0 scores k) (timestamp g k) now) else fmlookup scores k)" for k
    using s(2) [of k] node Cons.prems(2) by (auto simp: read_or_def timestamp_def)
  ultimately show ?case by blast
qed simp

lemma adopt_lookup:
  "fmlookup (adopt groups keys cs) key =
     (if fmlookup cs key \<noteq> None then fmlookup cs key
      else if key \<in> set keys then map_option Contributions (find (\<lambda>gr. BinarySearch (Members gr) key) groups) else None)"
  unfolding adopt_def
proof (induction keys arbitrary: cs)
  case (Cons k keys)
  then show ?case
    by (cases "fmlookup cs k"; cases "find (\<lambda>gr. BinarySearch (Members gr) k) groups") auto
qed simp

lemma find_group: "\<forall>gr \<in> set groups. sorted (Members gr) \<Longrightarrow> find (\<lambda>gr. BinarySearch (Members gr) key) groups = group_of groups key"
  unfolding group_of_def by (induction groups) (auto simp: BinarySearch_mem)

lemma filter_zip_map:
  "map fst (filter (\<lambda>(_, r). b \<le> r) (zip (map f xs) (map h xs))) = map f (filter (\<lambda>x. b \<le> h x) xs)"
  by (induction xs) auto

lemma cutoff_entries:
  assumes "\<forall>e \<in> set es. Score scorer (held_by cs (te_key e)) = relevance (te_key e)"
  shows "scoreCutoff st scorer cs (map (\<lambda>e. (te_key e, te_score e)) es) = map (\<lambda>e. (te_key e, te_score e)) (above_cutoff st relevance es)"
proof -
  have r: "map ((\<lambda>(key, _). Score scorer (held_by cs key)) \<circ> (\<lambda>e. (te_key e, te_score e))) es = map (\<lambda>e. relevance (te_key e)) es"
    using assms by simp
  show ?thesis
    unfolding scoreCutoff_def above_cutoff_def Let_def map_map r filter_zip_map by (simp add: image_image)
qed

lemma offers_entries: "foldl (\<lambda>t key. Offer t key (f key)) t keys = foldl (\<lambda>t e. Offer t (te_key e) (te_score e)) t (map (\<lambda>key. \<lparr>te_key = key, te_score = f key\<rparr>) keys)"
  by (simp add: foldl_map)

lemma offer_groups_entries:
  "offer_groups st g now scorer groups t = foldl (\<lambda>t e. Offer t (te_key e) (te_score e)) t
     (concat (map (\<lambda>gr. map (aged_entry st g now (\<lambda>_. Score scorer (Contributions gr))) (Members gr)) groups))"
  unfolding offer_groups_def Let_def
proof (induction groups arbitrary: t)
  case (Cons gr groups)
  show ?case by (simp add: Cons.IH foldl_map aged_entry_def o_def)
qed simp

lemma rank_collected_listed:
  assumes ok: "groups_ok (co_candidates c) (co_groups c)"
  shows "rank_collected st g topN since until now c =
    rank_listed st g topN since until now (co_background c) (co_missed c) (listed_pool (co_candidates c) (co_groups c))"
proof -
  let ?cs = "co_candidates c" and ?ret = "returnable g since until"
  let ?grs = "map (\<lambda>gr. gr\<lparr>Members := filter ?ret (Members gr)\<rparr>) (co_groups c)" and ?pool = "listed_pool ?cs (co_groups c)"
  let ?keys = "filter ?ret (keys_of ?cs)" and ?all = "filter ?ret (keys_of ?pool)"
  let ?obs = "\<lparr>Background = co_background c, TextMissed = co_missed c, o_Candidates = ?cs, Keys = ?keys, Groups = ?grs\<rparr>"
  let ?full = "\<lparr>Background = co_background c, TextMissed = co_missed c, o_Candidates = ?pool, Keys = ?all, Groups = []\<rparr>"
  let ?members = "concat (map Members ?grs)"
  have okf: "groups_ok ?cs ?grs" by (rule groups_ok_filter [OF ok])
  have members: "set ?members = {k \<in> set (concat (map Members (co_groups c))). ?ret k}" by auto
  have "distinct ?members" using okf by (simp only: groups_ok_def)
  moreover have "set ?keys \<inter> set ?members = {}"
  proof (intro Int_emptyI)
    fix k assume "k \<in> set ?keys" "k \<in> set ?members"
    then have "k \<in> fmdom' ?cs" "fmlookup ?cs k = None" using okf unfolding groups_ok_def by auto
    then show False by (simp add: fmlookup_dom'_iff)
  qed
  ultimately have d: "distinct (?keys @ ?members)" by simp
  have all: "set ?all = set (?keys @ ?members)"
    unfolding set_append members set_filter set_keys_of listed_dom by blast
  from this have "mset ?all = mset (?keys @ ?members)"
    by (rule set_eq_iff_mset_eq_distinct [THEN iffD1, rotated 2]) (rule distinct_filter, rule sorted_keys_of, rule d)
  then have perm: "mset ?all = mset ?keys + mset ?members" by simp
  have held: "held_by ?pool key = held_by ?cs key" if "key \<in> set ?keys" for key
    using that held_listed(1) [OF ok] by simp
  have heldg: "held_by ?pool key = Contributions gr" if "gr \<in> set ?grs" "key \<in> set (Members gr)" for gr key
    using that held_listed(2) [OF ok] by auto
  have "lists_groups ?obs ?full" using perm held heldg by (simp add: lists_groups_def)
  then have scorer: "Observe (ss_scorer st) ?obs = Observe (ss_scorer st) ?full" by (rule Observe_listed)
  define scorer where "scorer = Observe (ss_scorer st) ?full"
  define relevance where "relevance = (\<lambda>key. Score scorer (held_by ?pool key))"
  let ?scores = "foldl (\<lambda>m key. fmupd key (Score scorer (held_by ?cs key)) m) fmempty ?keys"
  obtain ranked where tf: "timeFilter st g since until now ?keys [] ?scores = (?keys, ranked)"
    and ranked: "\<And>k. fmlookup ranked k = (if k \<in> set ?keys then Some (decay st (read_or 0 ?scores k) (timestamp g k) now) else fmlookup ?scores k)"
    using timeFilter_returnable [of ?keys g since until st now "[]" ?scores] by auto
  let ?E = "aged_entry st g now relevance"
  have e1: "map (\<lambda>key. \<lparr>te_key = key, te_score = read_or 0 ranked key\<rparr>) ?keys = map ?E ?keys"
    using held ranked by (intro map_cong refl) (auto simp: read_or_def lookup_scores aged_entry_def relevance_def)
  have e2: "concat (map (\<lambda>gr. map (aged_entry st g now (\<lambda>_. Score scorer (Contributions gr))) (Members gr)) ?grs) = map ?E ?members"
    unfolding map_concat map_map
    by (intro arg_cong [where f = concat] map_cong refl) (auto simp: aged_entry_def relevance_def held_listed(2) [OF ok])
  let ?B = "best OrderedComparator topN (map ?E ?all)"
  have "mset (map ?E ?keys @ map ?E ?members) = mset (map ?E ?all)" using perm by simp
  then have B: "best OrderedComparator topN (map ?E ?keys @ map ?E ?members) = ?B"
    by (rule best_mset [OF ordered_cmp.total_comparator_axioms])
  have drain: "Drain (offer_groups st g now scorer ?grs (foldl (\<lambda>t key. Offer t key (read_or 0 ranked key)) (NewTopK topN OrderedComparator) ?keys)) =
      ((map te_key ?B, map te_score ?B), NewTopK topN OrderedComparator)"
    unfolding offer_groups_entries offers_entries e1 e2 foldl_append [symmetric]
    by (simp only: Drain_offers [OF ordered_cmp.total_comparator_axioms] B)
  define adopted where "adopted = adopt ?grs (map te_key ?B) ?cs"
  have in_B: "te_key e \<in> set ?all" if "e \<in> set ?B" for e
    using that by (auto simp: best_def aged_entry_def dest!: in_set_takeD split: if_splits)
  have adopted: "held_by adopted (te_key e) = held_by ?pool (te_key e)" if e: "e \<in> set ?B" for e
  proof (cases "te_key e \<in> set ?keys")
    case True
    then show ?thesis using held [OF True] by (auto simp: held_by_def adopted_def adopt_lookup fmlookup_dom'_iff)
  next
    case False
    moreover have "te_key e \<in> set (?keys @ ?members)" using in_B [OF e] unfolding all .
    ultimately have "te_key e \<in> set ?members" unfolding set_append by blast
    then obtain gr where gr: "gr \<in> set ?grs" "te_key e \<in> set (Members gr)"
      unfolding set_concat set_map [of Members] by blast
    have "fmlookup ?cs (te_key e) = None" using okf gr unfolding groups_ok_def set_concat set_map [of Members] by blast
    moreover have "group_of ?grs (te_key e) = Some gr" using okf gr by (intro group_of_member) (simp_all add: groups_ok_def)
    ultimately have "fmlookup adopted (te_key e) = Some (Contributions gr)"
      using okf e by (simp add: adopted_def adopt_lookup find_group groups_ok_def)
    then show ?thesis using heldg [OF gr] by (simp add: held_by_def)
  qed
  have cut: "scoreCutoff st scorer adopted (map (\<lambda>e. (te_key e, te_score e)) ?B) =
      map (\<lambda>e. (te_key e, te_score e)) (above_cutoff st relevance ?B)"
    using adopted by (intro cutoff_entries) (simp add: relevance_def)
  have "set (above_cutoff st relevance ?B) \<subseteq> set ?B" by (auto simp: above_cutoff_def Let_def)
  then have hits: "hits g (map (\<lambda>e. (te_key e, te_score e)) (above_cutoff st relevance ?B)) adopted =
      map (\<lambda>e. \<lparr>hit_Node = fmlookup (idToNodes g) (te_key e), hit_Score = te_score e,
            hit_Contributions = held_by ?pool (te_key e)\<rparr>) (above_cutoff st relevance ?B)"
    using adopted by (auto simp: hits_def)
  have z: "zip (map te_key ?B) (map te_score ?B) = map (\<lambda>e. (te_key e, te_score e)) ?B"
    by (simp add: zip_map_map zip_same_conv_map)
  show ?thesis
    unfolding rank_collected_def Let_def scorer rank_listed_def
    unfolding scorer_def [symmetric] relevance_def [symmetric]
    unfolding tf prod.case drain adopted_def [symmetric] z cut hits ..
qed

section \<open>Grouping the members of an anchor\<close>

lemma add_member_mset:
  "i < length groups \<Longrightarrow>
     mset (concat (map Members (add_member member i groups))) = add_mset member (mset (concat (map Members groups)))"
proof (induction groups arbitrary: i)
  case (Cons gr groups)
  then show ?case by (cases i) auto
qed simp

text \<open>A group holds one anchor's observation and members reached from that anchor alone.\<close>

definition one_anchor :: "('k \<Rightarrow> 'k Contribution) \<Rightarrow> 'k Candidates \<Rightarrow> 'k TraversalResult \<Rightarrow> 'k Group \<Rightarrow> 'k \<Rightarrow> bool" where
  "one_anchor tx candidates expanded gr anchor \<longleftrightarrow> Contributions gr = [tx anchor] \<and>
     (\<forall>m \<in> set (Members gr). reachedFrom expanded m = [anchor] \<and> fmlookup candidates m = None)"

definition grouping ::
    "('k \<Rightarrow> 'k Contribution) \<Rightarrow> 'k Candidates \<Rightarrow> 'k TraversalResult \<Rightarrow> 'k list \<Rightarrow> 'k Group list \<Rightarrow> ('k, nat) fmap \<Rightarrow> 'k list \<Rightarrow> bool" where
  "grouping tx candidates expanded anchors groups grouped listed \<longleftrightarrow>
     list_all2 (one_anchor tx candidates expanded) groups anchors \<and>
     (\<forall>anchor i. fmlookup grouped anchor = Some i \<longrightarrow> i < length anchors \<and> anchors ! i = anchor) \<and>
     (\<forall>m \<in> set listed. length (reachedFrom expanded m) \<noteq> 1 \<or> fmlookup candidates m \<noteq> None)"

lemma grouping_add:
  assumes "grouping tx cs expanded anchors groups grouped listed"
    "reachedFrom expanded m = [anchors ! i]" "fmlookup cs m = None" "i < length groups"
  shows "grouping tx cs expanded anchors (add_member m i groups) grouped listed"
  using assms by (auto simp: grouping_def list_all2_conv_all_nth one_anchor_def nth_list_update)

lemma grouping_new:
  assumes "grouping tx cs expanded anchors groups grouped listed"
  shows "grouping tx cs expanded (anchors @ [a]) (groups @ [\<lparr>Members = [], Contributions = [tx a]\<rparr>])
    (fmupd a (length groups) grouped) listed"
proof -
  have "length groups = length anchors" using assms by (auto simp: grouping_def dest: list_all2_lengthD)
  then show ?thesis using assms
    by (auto simp: grouping_def one_anchor_def nth_append less_Suc_eq intro!: list_all2_appendI split: if_splits)
qed

lemma group_members_spec:
  assumes "grouping tx cs expanded anchors groups grouped listed"
    and "group_members tx cs expanded order groups grouped listed = (groups', listed')"
  shows "(\<exists>anchors' grouped'. grouping tx cs expanded anchors' groups' grouped' listed') \<and>
    mset (concat (map Members groups')) + mset listed' = mset (concat (map Members groups)) + mset listed +
      mset (filter (\<lambda>m. fmlookup (tr_Depth expanded) m = Some 1) order)"
  using assms
proof (induction order arbitrary: anchors groups grouped listed)
  case Nil
  then show ?case by auto
next
  case (Cons m order)
  have len: "length groups = length anchors" using Cons.prems(1) by (auto simp: grouping_def dest: list_all2_lengthD)
  show ?case
  proof (cases "fmlookup (tr_Depth expanded) m = Some 1")
    case False
    then show ?thesis using Cons by simp
  next
    case one: True
    show ?thesis
    proof (cases "length (reachedFrom expanded m) = 1 \<and> fmlookup cs m = None")
      case False
      then have run: "group_members tx cs expanded order groups grouped (listed @ [m]) = (groups', listed')"
        using Cons.prems(2) one by (auto simp: Let_def)
      moreover have "grouping tx cs expanded anchors groups grouped (listed @ [m])"
        using Cons.prems(1) False by (auto simp: grouping_def)
      ultimately show ?thesis using Cons.IH [of anchors groups grouped "listed @ [m]"] one by (simp add: ac_simps)
    next
      case single: True
      then obtain a where a: "reachedFrom expanded m = [a]" by (auto simp: length_Suc_conv)
      show ?thesis
      proof (cases "fmlookup grouped a")
        case (Some i)
        then have i: "i < length groups" "anchors ! i = a" using Cons.prems(1) len by (auto simp: grouping_def)
        have run: "group_members tx cs expanded order (add_member m i groups) grouped listed = (groups', listed')"
          using Cons.prems(2) one single a Some by (simp add: Let_def del: add_member.simps)
        have "grouping tx cs expanded anchors (add_member m i groups) grouped listed"
          using Cons.prems(1) a single i by (intro grouping_add) simp_all
        from Cons.IH [OF this run] show ?thesis
          using one add_member_mset [OF i(1), of m] by (simp del: add_member.simps)
      next
        case None
        let ?new = "groups @ [\<lparr>Members = [], Contributions = [tx a]\<rparr>]"
        have run: "group_members tx cs expanded order (add_member m (length groups) ?new) (fmupd a (length groups) grouped) listed = (groups', listed')"
          using Cons.prems(2) one single a None by (simp add: Let_def del: add_member.simps)
        have "grouping tx cs expanded (anchors @ [a]) (add_member m (length groups) ?new) (fmupd a (length groups) grouped) listed"
          using grouping_new [OF Cons.prems(1), of a] a single len by (intro grouping_add) (simp_all add: nth_append)
        from Cons.IH [OF this run] show ?thesis
          using one add_member_mset [of "length groups" ?new m] by (simp del: add_member.simps)
      qed
    qed
  qed
qed

lemma sort_groups_members: "mset (concat (map Members (sort_groups groups))) = mset (concat (map Members groups))"
proof -
  have perm: "mset (concat (map Members xs)) = mset (concat (map Members ys))" if "mset xs = mset ys" for xs ys :: "'a Group list"
  proof -
    have "mset (map (mset \<circ> Members) xs) = mset (map (mset \<circ> Members) ys)" using that by simp
    then show ?thesis by (metis (no_types) mset_concat map_map sum_mset_sum_list)
  qed
  have "mset (concat (map (\<lambda>gr. sort (Members gr)) groups)) = mset (concat (map Members groups))"
    by (induction groups) auto
  then show ?thesis unfolding sort_groups_def by (subst perm [OF mset_sort]) (simp add: o_def)
qed

lemma set_sort_groups: "gr \<in> set (sort_groups groups) \<longleftrightarrow> (\<exists>gr0 \<in> set groups. gr = gr0\<lparr>Members := sort (Members gr0)\<rparr>)"
  by (auto simp: sort_groups_def)

lemma list_members_lookup:
  "distinct listed \<Longrightarrow> fmlookup (list_members tx expanded listed cs) key =
     (if key \<in> set listed then Some (held_by cs key @ map tx (reachedFrom expanded key)) else fmlookup cs key)"
  unfolding list_members_def by (induction listed arbitrary: cs) (auto simp: held_by_def)

lemma grouped_is_listed:
  assumes order: "distinct order"
    and run: "group_members tx cs expanded order [] fmempty [] = (groups, listed)"
  shows "groups_ok (list_members tx expanded listed cs) (sort_groups groups)"
    and "listed_pool (list_members tx expanded listed cs) (sort_groups groups) =
      list_members tx expanded (filter (\<lambda>m. fmlookup (tr_Depth expanded) m = Some 1) order) cs"
proof -
  let ?reached = "filter (\<lambda>m. fmlookup (tr_Depth expanded) m = Some 1) order" and ?grs = "sort_groups groups"
  have "grouping tx cs expanded [] [] fmempty []" by (simp add: grouping_def)
  from group_members_spec [OF this run] obtain anchors grouped where g: "grouping tx cs expanded anchors groups grouped listed"
    and perm: "mset (concat (map Members groups)) + mset listed = mset ?reached" by auto
  have m: "mset (concat (map Members ?grs) @ listed) = mset ?reached" using perm by (simp add: sort_groups_members)
  have "distinct ?reached" using order by simp
  then have d: "distinct (concat (map Members ?grs) @ listed)" using mset_eq_imp_distinct_iff [OF m] by blast
  have s: "set (concat (map Members ?grs)) \<union> set listed = set ?reached" using mset_eq_setD [OF m] by (simp only: set_append)
  have member: "\<exists>a. reachedFrom expanded key = [a] \<and> fmlookup cs key = None \<and> Contributions gr = [tx a]"
    if gr: "gr \<in> set ?grs" and key: "key \<in> set (Members gr)" for gr key
  proof -
    obtain gr0 where gr0: "gr0 \<in> set groups" "key \<in> set (Members gr0)" "Contributions gr = Contributions gr0"
      using gr key by (auto simp: set_sort_groups)
    then obtain a where "one_anchor tx cs expanded gr0 a"
      using g by (auto simp: grouping_def list_all2_conv_all_nth in_set_conv_nth)
    then show ?thesis using gr0 by (auto simp: one_anchor_def)
  qed
  have absent: "fmlookup (list_members tx expanded listed cs) key = None" if k: "key \<in> set (concat (map Members ?grs))" for key
  proof -
    have "key \<notin> set listed" using k d by (simp only: distinct_append) blast
    moreover have "fmlookup cs key = None" using k member by (auto simp del: sort_groups_def)
    ultimately show ?thesis using d by (simp add: list_members_lookup)
  qed
  show ok: "groups_ok (list_members tx expanded listed cs) ?grs"
    unfolding groups_ok_def using d absent by (auto simp: set_sort_groups simp del: set_concat)
  show "listed_pool (list_members tx expanded listed cs) ?grs = list_members tx expanded ?reached cs"
  proof (rule fmap_ext)
    fix key
    have pool: "fmlookup (listed_pool (list_members tx expanded listed cs) ?grs) key =
        (case group_of ?grs key of Some gr \<Rightarrow> Some (Contributions gr) | None \<Rightarrow> fmlookup (list_members tx expanded listed cs) key)"
      using d by (intro listed_pool_lookup) simp
    show "fmlookup (listed_pool (list_members tx expanded listed cs) ?grs) key = fmlookup (list_members tx expanded ?reached cs) key"
    proof (cases "group_of ?grs key")
      case (Some gr)
      then have gr: "gr \<in> set ?grs" "key \<in> set (Members gr)" using group_of_Some [OF Some] by blast+
      then have "key \<in> set ?reached" using s by auto
      moreover obtain a where "reachedFrom expanded key = [a]" "fmlookup cs key = None" "Contributions gr = [tx a]"
        using member [OF gr] by blast
      ultimately show ?thesis using pool Some \<open>distinct ?reached\<close> by (simp add: list_members_lookup held_by_def)
    next
      case None
      then have "key \<in> set ?reached \<longleftrightarrow> key \<in> set listed" using s by (simp only: group_of_None) blast
      then show ?thesis using pool None \<open>distinct ?reached\<close> d by (simp add: list_members_lookup)
    qed
  qed
qed

lemma walk_order_distinct: "graph_walk rank t g sources = Some r \<Longrightarrow> distinct (tr_Order r)"
  by (auto simp: graph_walk_def dest: bfs_order_distinct excess_order_distinct split: traversal.splits sum.splits)

lemma groups_ok_Nil: "groups_ok cs []"
  by (simp add: groups_ok_def)

lemma expandMembers_ok: "expandMembers rank t g tx transmitting cs = (groups, cs') \<Longrightarrow> groups_ok cs' groups"
  using grouped_is_listed(1) walk_order_distinct
  by (fastforce simp: expandMembers_def groups_ok_Nil split: option.splits prod.splits)

lemma findNeighbours_ok:
  "findNeighbours rank st g seeds weakness cs topicKeys entityKeys hops = (bg, groups, cs') \<Longrightarrow> groups_ok cs' groups"
  unfolding findNeighbours_def Let_def
  by (simp split: option.splits if_splits prod.splits) (metis groups_ok_Nil expandMembers_ok)+

lemma collect_ok:
  "collect lib st g keywords vector topics entities hops topN since until = Inr c \<Longrightarrow> groups_ok (co_candidates c) (co_groups c)"
  by (auto simp: collect_def Let_def groups_ok_Nil split: prod.splits sum.splits if_splits dest!: findNeighbours_ok)

section \<open>Properties\<close>

text \<open>C15: A search fails exactly when its collection does, and otherwise returns the plain ranking of what it
  collected: every candidate and every member of a group listed on its own, those inside the window
  scored by the bound scorer, aged, sorted by score and then key, cut to the limit and then by the
  score ratio.\<close>

theorem search_is_plain_ranking:
  "Search lib st now g keywords vector topics entities hops topN since until =
     map_sum id (\<lambda>c. rank_listed st g topN since until now (co_background c) (co_missed c)
         (listed_pool (co_candidates c) (co_groups c)))
       (collect lib st g keywords vector topics entities hops topN since until)"
proof (cases "collect lib st g keywords vector topics entities hops topN since until")
  case (Inr c)
  then show ?thesis using rank_collected_listed [OF collect_ok [OF Inr]] by (simp add: Search_def)
qed (simp add: Search_def)

text \<open>The order of a ranking.\<close>

abbreviation ranks_before :: "('k :: linorder, real) topKEntry \<Rightarrow> ('k, real) topKEntry \<Rightarrow> bool" where
  "ranks_before \<equiv> rank_le OrderedComparator"

lemma best_subset: "set (best cmp k es) \<subseteq> set es"
  by (auto simp: best_def dest: in_set_takeD)

lemma distinct_best: "distinct (map f es) \<Longrightarrow> distinct (map f (best cmp k es))"
proof -
  assume d: "distinct (map f es)"
  have "mset (map f (sort_by (rank_le cmp) es)) = mset (map f es)" by simp
  then have "distinct (map f (sort_by (rank_le cmp) es))" using d mset_eq_imp_distinct_iff by blast
  then show ?thesis by (simp add: best_def take_map [symmetric] distinct_take)
qed

lemma above_cutoff_filter: "\<exists>P. above_cutoff st relevance es = filter P es"
proof (cases "real_of_rat (MinScoreRatio (DB (ss_config st))) \<le> 0")
  case True
  then have "above_cutoff st relevance es = filter (\<lambda>_. True) es" by (simp add: above_cutoff_def)
  then show ?thesis by blast
next
  case False
  then show ?thesis unfolding above_cutoff_def Let_def if_not_P [OF False] by blast
qed


text \<open>C17: Counting the members of a transmitting anchor in a group changes nothing in the pool: each group lists its
  members in ascending order, none in two groups and none a candidate already, and listing them all
  gives what appending every reached member's observations one by one gives.\<close>

theorem groups_stand_for_members:
  "case graph_walk rank t g transmitting of
      None \<Rightarrow> expandMembers rank t g tx transmitting cs = ([], cs)
    | Some expanded \<Rightarrow>
        (case expandMembers rank t g tx transmitting cs of (groups, cs') \<Rightarrow>
           groups_ok cs' groups \<and> list_all (\<lambda>gr. \<exists>anchor. Contributions gr = [tx anchor]) groups \<and>
           listed_pool cs' groups = list_members tx expanded
             (filter (\<lambda>m. fmlookup (tr_Depth expanded) m = Some 1) (tr_Order expanded)) cs)"
proof (cases "graph_walk rank t g transmitting")
  case (Some expanded)
  obtain groups listed where run: "group_members tx cs expanded (tr_Order expanded) [] fmempty [] = (groups, listed)" by fastforce
  note listed = grouped_is_listed [OF walk_order_distinct [OF Some] run]
  have "grouping tx cs expanded [] [] fmempty []" by (simp add: grouping_def)
  from group_members_spec [OF this run] have "list_all (\<lambda>gr. \<exists>anchor. Contributions gr = [tx anchor]) groups"
    by (fastforce simp: grouping_def one_anchor_def list_all2_conv_all_nth list_all_length)
  then have "list_all (\<lambda>gr. \<exists>anchor. Contributions gr = [tx anchor]) (sort_groups groups)"
    by (auto simp: list_all_iff set_sort_groups)
  then show ?thesis using listed Some run by (simp add: expandMembers_def)
qed (simp add: expandMembers_def)

end
