(* ===== verification/Graph_Invariants.thy ===== *)
theory Graph_Invariants
  imports Graph_Store
begin

text \<open>
  What the writes of the graph keep. \<open>graph_ok\<close>: the two views mirror each other and hold no empty
  row, every node is filed under its key, every edge in the views is a stored relationship and every
  stored relationship is in the views, between a stored fact and a stored anchor. \<open>caches_ok\<close>: a
  cached sequence or neighbour list is what building it afresh would give.
\<close>

section \<open>Frame lemmas\<close>

lemma dropSequence_frame [simp]:
  "idToNodes (dropSequence a g) = idToNodes g" "nodeToSources (dropSequence a g) = nodeToSources g"
  "nodeToTargets (dropSequence a g) = nodeToTargets g" "hasher (dropSequence a g) = hasher g"
  "textIndex (dropSequence a g) = textIndex g" "vectorIndex (dropSequence a g) = vectorIndex g"
  by (auto simp: dropSequence_def split: option.split)

lemma foldl_keeps: "(\<And>x g. f (step g x) = f g) \<Longrightarrow> f (foldl step g xs) = f g"
  by (induction xs arbitrary: g) auto

lemma dropSequences_frame [simp]:
  "idToNodes (dropSequences a g) = idToNodes g" "nodeToSources (dropSequences a g) = nodeToSources g"
  "nodeToTargets (dropSequences a g) = nodeToTargets g" "hasher (dropSequences a g) = hasher g"
  "textIndex (dropSequences a g) = textIndex g" "vectorIndex (dropSequences a g) = vectorIndex g"
  by (simp_all add: dropSequences_def Let_def foldl_keeps)

section \<open>The structure\<close>

definition adj :: "('k, 'ti, 'vi) InMemoryGraph \<Rightarrow> 'k \<Rightarrow> 'k \<Rightarrow> 'k option" where
  "adj g a b = fmlookup (row (nodeToTargets g) a) b"

definition rows_ok :: "('k, ('l, 'v) fmap) fmap \<Rightarrow> bool" where
  "rows_ok m \<longleftrightarrow> (\<forall>a. fmlookup m a \<noteq> Some fmempty)"

definition between :: "(runes \<Rightarrow> 'k) \<Rightarrow> Node \<Rightarrow> 'k \<Rightarrow> 'k \<Rightarrow> bool" where
  "between h n a b \<longleftrightarrow> map_option (Key h) (Source n) = Some a \<and> map_option (Key h) (Target n) = Some b"

definition mirror_ok :: "('k, 'ti, 'vi) InMemoryGraph \<Rightarrow> bool" where
  "mirror_ok g \<longleftrightarrow> (\<forall>a b. fmlookup (row (nodeToSources g) b) a = adj g a b)"

definition ends_ok :: "('k, 'ti, 'vi) InMemoryGraph \<Rightarrow> bool" where
  "ends_ok g \<longleftrightarrow> (\<forall>a b. adj g a b \<noteq> None \<longrightarrow> isFact g a \<and> isAnchor g b)"

definition filed_ok :: "('k, 'ti, 'vi) InMemoryGraph \<Rightarrow> bool" where
  "filed_ok g \<longleftrightarrow> (\<forall>k n. fmlookup (idToNodes g) k = Some n \<longrightarrow> Key (hasher g) n = k)"

definition edges_ok :: "('k, 'ti, 'vi) InMemoryGraph \<Rightarrow> bool" where
  "edges_ok g \<longleftrightarrow> (\<forall>a b e. adj g a b = Some e \<longleftrightarrow>
     (\<exists>n. fmlookup (idToNodes g) e = Some n \<and> between (hasher g) n a b))"

definition graph_ok :: "('k, 'ti, 'vi) InMemoryGraph \<Rightarrow> bool" where
  "graph_ok g \<longleftrightarrow> mirror_ok g \<and> rows_ok (nodeToTargets g) \<and> rows_ok (nodeToSources g) \<and>
     ends_ok g \<and> filed_ok g \<and> edges_ok g"

lemma graph_ok_parts:
  assumes "graph_ok g"
  shows "mirror_ok g" "rows_ok (nodeToTargets g)" "rows_ok (nodeToSources g)" "ends_ok g" "filed_ok g" "edges_ok g"
  using assms by (auto simp: graph_ok_def)

lemma lookup_put_entry: "fmlookup (row (put_entry a b v m) x) y = (if x = a \<and> y = b then Some v else fmlookup (row m x) y)"
  by (simp add: put_entry_def)

lemma fmupd_nonempty: "fmupd b v m \<noteq> fmempty"
  by (metis fmempty_lookup fmupd_lookup option.distinct(1))

lemma rows_ok_put: "rows_ok m \<Longrightarrow> rows_ok (put_entry a b v m)"
  by (simp add: rows_ok_def put_entry_def fmupd_nonempty)

lemma keys_of_Nil: "keys_of m = [] \<longleftrightarrow> m = fmempty"
proof
  assume "keys_of m = []"
  then have "fmdom' m = {}" using set_keys_of [of m] by simp
  then have "fmlookup m k = fmlookup fmempty k" for k by (metis empty_iff fmempty_lookup fmdom'_notI mem_keys_of)
  then show "m = fmempty" by (rule fmap_ext)
qed (simp add: keys_of_def sorted_list_of_fset.rep_eq)

lemma lookup_drop_entry: "fmlookup (row (drop_entry a b m) x) y = (if x = a \<and> y = b then None else fmlookup (row m x) y)"
  by (auto simp: drop_entry_def Let_def keys_of_Nil dest: arg_cong [where f = "\<lambda>m. fmlookup m y"])

lemma rows_ok_drop: "rows_ok m \<Longrightarrow> rows_ok (drop_entry a b m)"
  by (auto simp: rows_ok_def drop_entry_def Let_def keys_of_Nil)

text \<open>What the reads depend on.\<close>

lemma isFact_cong: "fmlookup (idToNodes g') k = fmlookup (idToNodes g) k \<Longrightarrow> isFact g' k = isFact g k"
  by (simp add: isFact_def graph_Get_def)

lemma isAnchor_cong: "fmlookup (idToNodes g') k = fmlookup (idToNodes g) k \<Longrightarrow> isAnchor g' k = isAnchor g k"
  by (simp add: isAnchor_def graph_Get_def)

lemma not_both: "isFact g k \<Longrightarrow> \<not> isAnchor g k"
  by (auto simp: isFact_def isAnchor_def kinds split: option.splits)

lemma sort_by_cong: "(\<And>a b. a \<in> set xs \<Longrightarrow> b \<in> set xs \<Longrightarrow> le a b = le' a b) \<Longrightarrow> sort_by le xs = sort_by le' xs"
proof -
  have ins: "(\<And>b. b \<in> set ys \<Longrightarrow> le x b = le' x b) \<Longrightarrow> insort_by le x ys = insort_by le' x ys" for x ys
    by (induction ys) auto
  show "(\<And>a b. a \<in> set xs \<Longrightarrow> b \<in> set xs \<Longrightarrow> le a b = le' a b) \<Longrightarrow> sort_by le xs = sort_by le' xs"
  proof (induction xs)
    case (Cons x xs)
    then have "sort_by le xs = sort_by le' xs" by simp
    then show ?case using ins [of "sort_by le' xs" x] Cons.prems by simp
  qed simp
qed

lemma build_sequence_cong:
  assumes r: "row (nodeToSources g') a = row (nodeToSources g) a"
    and n: "\<And>m. fmlookup (row (nodeToSources g) a) m \<noteq> None \<Longrightarrow> fmlookup (idToNodes g') m = fmlookup (idToNodes g) m"
  shows "build_sequence g' a = build_sequence g a"
proof -
  let ?ks = "keys_of (row (nodeToSources g) a)"
  have eq: "fmlookup (idToNodes g') m = fmlookup (idToNodes g) m" if "m \<in> set ?ks" for m
    using n [of m] that by (simp add: mem_keys_of)
  then have "filter (isFact g') ?ks = filter (isFact g) ?ks"
    by (intro filter_cong) (auto simp: isFact_def graph_Get_def)
  moreover have "sort_by (not_later g') (filter (isFact g) ?ks) = sort_by (not_later g) (filter (isFact g) ?ks)"
  proof (rule sort_by_cong)
    fix x y assume "x \<in> set (filter (isFact g) ?ks)" "y \<in> set (filter (isFact g) ?ks)"
    then show "not_later g' x y = not_later g x y"
      using eq [of x] eq [of y] by (simp add: not_later_def written_at_def graph_Get_def)
  qed
  ultimately show ?thesis by (simp add: build_sequence_def r Let_def)
qed

section \<open>The caches\<close>

definition fresh_contiguity :: "('k :: linorder, 'ti, 'vi) InMemoryGraph \<Rightarrow> 'k \<Rightarrow> 'k list" where
  "fresh_contiguity g key =
     remdups_adj (sort (concat (map (\<lambda>a. if isAnchor g a then beside (build_sequence g a) key else [])
       (keys_of (row (nodeToTargets g) key)))))"

definition caches_ok :: "('k :: linorder, 'ti, 'vi) InMemoryGraph \<Rightarrow> bool" where
  "caches_ok g \<longleftrightarrow>
     (\<forall>a s. fmlookup (sequences g) a = Some s \<longrightarrow> s = build_sequence g a) \<and>
     (\<forall>k out. fmlookup (contiguity g) k = Some out \<longrightarrow> out = fresh_contiguity g k \<and>
        (\<forall>a. adj g k a \<noteq> None \<and> isAnchor g a \<longrightarrow> fmlookup (sequences g) a \<noteq> None))"

lemma set_seq_keys: "set (seq_keys (build_sequence g a)) = {m. fmlookup (row (nodeToSources g) a) m \<noteq> None \<and> isFact g m}"
  by (auto simp: build_sequence_def Let_def mem_keys_of)

lemma member_of_anchor:
  assumes "mirror_ok g" "ends_ok g" "adj g x a \<noteq> None"
  shows "x \<in> set (seq_keys (build_sequence g a))"
  using assms by (auto simp: set_seq_keys mirror_ok_def ends_ok_def)

text \<open>What dropping the sequences of a list of nodes leaves.\<close>

lemma drop_list:
  "fmlookup (sequences (foldl (\<lambda>g n. dropSequence n g) g ns)) a =
     (if a \<in> set ns then None else fmlookup (sequences g) a) \<and>
   fmlookup (contiguity (foldl (\<lambda>g n. dropSequence n g) g ns)) x =
     (if \<exists>n \<in> set ns. \<exists>s. fmlookup (sequences g) n = Some s \<and> x \<in> set (seq_keys s) then None
      else fmlookup (contiguity g) x)"
proof (induction ns arbitrary: g)
  case (Cons n ns)
  have "fmlookup (sequences (dropSequence n g)) m = (if m = n then None else fmlookup (sequences g) m)" for m
    by (auto simp: dropSequence_def split: option.split)
  moreover have "fmlookup (contiguity (dropSequence n g)) x =
      (if \<exists>s. fmlookup (sequences g) n = Some s \<and> x \<in> set (seq_keys s) then None else fmlookup (contiguity g) x)"
    by (auto simp: dropSequence_def lookup_delete_all split: option.split)
  ultimately show ?case using Cons.IH [of "dropSequence n g"] by auto
qed simp

definition reach1 :: "('k, 'ti, 'vi) InMemoryGraph \<Rightarrow> 'k \<Rightarrow> 'k set" where
  "reach1 g key = {key} \<union> {b. fmlookup (row (nodeToTargets g) key) b \<noteq> None} \<union> {a. fmlookup (row (nodeToSources g) key) a \<noteq> None}"

lemma lookup_dropSequences:
  "fmlookup (sequences (dropSequences key g)) a = (if a \<in> reach1 g key then None else fmlookup (sequences g) a)" (is ?s)
  "fmlookup (contiguity (dropSequences key g)) x =
     (if x \<in> {key} \<or> (\<exists>n \<in> reach1 g key. \<exists>s. fmlookup (sequences g) n = Some s \<and> x \<in> set (seq_keys s)) then None
      else fmlookup (contiguity g) x)" (is ?c)
proof -
  let ?g0 = "g\<lparr>contiguity := fmdrop key (contiguity g)\<rparr>"
  let ?ns = "key # keys_of (row (nodeToTargets g) key) @ keys_of (row (nodeToSources g) key)"
  have d: "dropSequences key g = foldl (\<lambda>g n. dropSequence n g) ?g0 ?ns"
    by (simp add: dropSequences_def Let_def foldl_keeps)
  have ns: "set ?ns = reach1 g key" by (auto simp: reach1_def mem_keys_of)
  show ?s ?c using drop_list [of ?g0 ?ns] unfolding d ns by auto
qed

text \<open>
  The step all writes share: sequences of \<open>D\<close> are dropped with their members' neighbour lists, and
  those of \<open>E\<close>; whatever else is cached does not read what the write changed.
\<close>

lemma caches_step:
  assumes ok: "caches_ok g" and m: "mirror_ok g" "ends_ok g"
    and seq: "\<And>a. fmlookup (sequences g') a = (if a \<in> D then None else fmlookup (sequences g) a)"
    and con: "\<And>x. fmlookup (contiguity g') x =
      (if x \<in> E \<or> (\<exists>n \<in> D. \<exists>s. fmlookup (sequences g) n = Some s \<and> x \<in> set (seq_keys s)) then None
       else fmlookup (contiguity g) x)"
    and fresh: "\<And>a. a \<notin> D \<Longrightarrow> build_sequence g' a = build_sequence g a"
    and rows: "\<And>x. x \<notin> E \<Longrightarrow> \<forall>a. adj g x a \<noteq> None \<longrightarrow> a \<notin> D \<Longrightarrow>
      row (nodeToTargets g') x = row (nodeToTargets g) x"
    and anchors: "\<And>x a. adj g x a \<noteq> None \<Longrightarrow> a \<notin> D \<Longrightarrow> isAnchor g' a = isAnchor g a"
  shows "caches_ok g'"
  unfolding caches_ok_def
proof (intro conjI allI impI)
  fix a s assume "fmlookup (sequences g') a = Some s"
  then show "s = build_sequence g' a"
    using ok seq [of a] fresh [of a] by (auto simp: caches_ok_def split: if_splits)
next
  fix k out assume out: "fmlookup (contiguity g') k = Some out"
  then have kept: "fmlookup (contiguity g) k = Some out" "k \<notin> E"
      "\<And>n s. n \<in> D \<Longrightarrow> fmlookup (sequences g) n = Some s \<Longrightarrow> k \<notin> set (seq_keys s)"
    using con [of k] by (auto split: if_splits)
  have old: "out = fresh_contiguity g k" "\<And>a. adj g k a \<noteq> None \<Longrightarrow> isAnchor g a \<Longrightarrow> fmlookup (sequences g) a \<noteq> None"
    using ok kept(1) by (auto simp: caches_ok_def)
  have far: "a \<notin> D" if edge: "adj g k a \<noteq> None" for a
  proof
    assume "a \<in> D"
    have "isAnchor g a" using m(2) edge by (auto simp: ends_ok_def)
    then obtain s where s: "fmlookup (sequences g) a = Some s" using old(2) [OF edge] by blast
    then have "s = build_sequence g a" using ok by (auto simp: caches_ok_def)
    then show False using kept(3) [OF \<open>a \<in> D\<close> s] member_of_anchor [OF m edge] by simp
  qed
  have row: "row (nodeToTargets g') k = row (nodeToTargets g) k" using rows kept(2) far by blast
  have eq: "map (\<lambda>a. if isAnchor g' a then beside (build_sequence g' a) k else []) (keys_of (row (nodeToTargets g) k)) =
      map (\<lambda>a. if isAnchor g a then beside (build_sequence g a) k else []) (keys_of (row (nodeToTargets g) k))"
  proof (rule map_cong [OF refl])
    fix a assume "a \<in> set (keys_of (row (nodeToTargets g) k))"
    then have "adj g k a \<noteq> None" by (simp add: adj_def mem_keys_of)
    then show "(if isAnchor g' a then beside (build_sequence g' a) k else []) =
        (if isAnchor g a then beside (build_sequence g a) k else [])"
      using anchors [of k a] far [of a] fresh [of a] by auto
  qed
  show "out = fresh_contiguity g' k" by (simp only: old(1) fresh_contiguity_def row eq)
  fix a assume a: "adj g' k a \<noteq> None \<and> isAnchor g' a"
  then have "adj g k a \<noteq> None" using row by (simp add: adj_def)
  then show "fmlookup (sequences g') a \<noteq> None"
    using a old(2) [of a] anchors [of k a] far [of a] seq [of a] by auto
qed

section \<open>Storing\<close>

lemma drop_fresh_seqs:
  assumes "caches_ok g" "mirror_ok g" "ends_ok g"
  shows "caches_ok (dropSequences key g)"
  by (rule caches_step [OF assms lookup_dropSequences])
    (auto intro!: build_sequence_cong simp: isAnchor_def graph_Get_def)

text \<open>A node is replaced by one of its kind, or added where no edge ends.\<close>

definition same_kind :: "Node \<Rightarrow> Node \<Rightarrow> bool" where
  "same_kind m n \<longleftrightarrow> is_fact m = is_fact n \<and> is_anchor m = is_anchor n \<and> is_edge m = is_edge n"

lemma store_node_caches:
  assumes ok: "caches_ok g" "mirror_ok g" "ends_ok g"
    and kind: "\<And>m. fmlookup (idToNodes g) key = Some m \<Longrightarrow> same_kind m n"
  shows "caches_ok (dropSequences key (g\<lparr>idToNodes := fmupd key n (idToNodes g)\<rparr>))" (is "caches_ok (dropSequences key ?g)")
proof (rule caches_step [OF ok, where D = "reach1 g key" and E = "{key}"])
  have reach: "reach1 ?g key = reach1 g key" by (simp add: reach1_def)
  show "fmlookup (sequences (dropSequences key ?g)) a = (if a \<in> reach1 g key then None else fmlookup (sequences g) a)" for a
    by (simp add: lookup_dropSequences reach)
  show "fmlookup (contiguity (dropSequences key ?g)) x =
      (if x \<in> {key} \<or> (\<exists>n \<in> reach1 g key. \<exists>s. fmlookup (sequences g) n = Some s \<and> x \<in> set (seq_keys s)) then None
       else fmlookup (contiguity g) x)" for x
    by (auto simp: lookup_dropSequences reach)
  show "build_sequence (dropSequences key ?g) a = build_sequence g a" if "a \<notin> reach1 g key" for a
  proof (rule build_sequence_cong)
    fix m assume "fmlookup (row (nodeToSources g) a) m \<noteq> None"
    then have "m \<noteq> key" using ok(2) \<open>a \<notin> reach1 g key\<close> by (auto simp: reach1_def mirror_ok_def adj_def)
    then show "fmlookup (idToNodes (dropSequences key ?g)) m = fmlookup (idToNodes g) m" by simp
  qed simp
  show "isAnchor (dropSequences key ?g) a = isAnchor g a" if "adj g x a \<noteq> None" for x a
  proof (cases "a = key")
    case True
    with ok(3) that have "isAnchor g key" by (auto simp: ends_ok_def)
    then obtain m where "fmlookup (idToNodes g) key = Some m" "is_anchor m"
      by (auto simp: isAnchor_def graph_Get_def split: option.splits)
    then show ?thesis using True kind by (auto simp: isAnchor_def graph_Get_def same_kind_def)
  qed (simp add: isAnchor_def graph_Get_def)
qed simp

lemma link_caches:
  assumes ok: "caches_ok g" "mirror_ok g" "ends_ok g"
    and b: "between (hasher g) n a b" "isFact g a"
  shows "caches_ok (link n g)"
proof -
  obtain s t where st: "Source n = Some s" "Target n = Some t" "Key (hasher g) s = a" "Key (hasher g) t = b"
    using b by (auto simp: between_def)
  let ?g = "g\<lparr>nodeToTargets := put_entry a b (Key (hasher g) n) (nodeToTargets g),
             nodeToSources := put_entry b a (Key (hasher g) n) (nodeToSources g)\<rparr>"
  have link: "link n g = dropSequences a ?g" by (simp add: link_def st Let_def)
  show ?thesis
    unfolding link
  proof (rule caches_step [OF ok, where D = "reach1 ?g a" and E = "{a}"])
    show "fmlookup (sequences (dropSequences a ?g)) x = (if x \<in> reach1 ?g a then None else fmlookup (sequences g) x)" for x
      by (simp add: lookup_dropSequences)
    show "fmlookup (contiguity (dropSequences a ?g)) x =
      (if x \<in> {a} \<or> (\<exists>n \<in> reach1 ?g a. \<exists>s. fmlookup (sequences g) n = Some s \<and> x \<in> set (seq_keys s)) then None
       else fmlookup (contiguity g) x)" for x
      by (auto simp: lookup_dropSequences)
    have b_in: "b \<in> reach1 ?g a" by (simp add: reach1_def lookup_put_entry)
    show "build_sequence (dropSequences a ?g) x = build_sequence g x" if "x \<notin> reach1 ?g a" for x
    proof (rule build_sequence_cong)
      have "x \<noteq> b" using that b_in by auto
      then show "row (nodeToSources (dropSequences a ?g)) x = row (nodeToSources g) x"
        by (simp add: put_entry_def)
    qed simp
  qed (auto simp: put_entry_def isAnchor_def graph_Get_def)
qed

lemma link_other: "\<not> is_edge n \<Longrightarrow> link n g = g"
  by (cases n) (auto simp: link_def)

lemma index_text_frame [simp]:
  "idToNodes (snd (index_text u T k n g)) = idToNodes g" "nodeToSources (snd (index_text u T k n g)) = nodeToSources g"
  "nodeToTargets (snd (index_text u T k n g)) = nodeToTargets g" "hasher (snd (index_text u T k n g)) = hasher g"
  "sequences (snd (index_text u T k n g)) = sequences g" "contiguity (snd (index_text u T k n g)) = contiguity g"
  "vectorIndex (snd (index_text u T k n g)) = vectorIndex g"
  by (auto simp: index_text_def split_beta Let_def)

lemma link_frame [simp]:
  "idToNodes (link n g) = idToNodes g" "hasher (link n g) = hasher g"
  "textIndex (link n g) = textIndex g" "vectorIndex (link n g) = vectorIndex g"
  by (auto simp: link_def Let_def split: option.split)

text \<open>Two graphs that agree on nodes, views, hasher and caches are alike for the invariants.\<close>

lemma build_sequence_frame:
  "idToNodes g' = idToNodes g \<Longrightarrow> nodeToSources g' = nodeToSources g \<Longrightarrow> build_sequence g' a = build_sequence g a"
  by (intro build_sequence_cong) auto

lemma caches_ok_frame:
  assumes "idToNodes g' = idToNodes g" "nodeToSources g' = nodeToSources g" "nodeToTargets g' = nodeToTargets g"
    "sequences g' = sequences g" "contiguity g' = contiguity g"
  shows "caches_ok g' = caches_ok g"
proof -
  have "build_sequence g' = build_sequence g" using build_sequence_frame assms by blast
  moreover have "isAnchor g' = isAnchor g" using assms by (auto simp: isAnchor_def graph_Get_def)
  ultimately show ?thesis
    using assms by (simp add: caches_ok_def fresh_contiguity_def adj_def cong: if_cong)
qed

lemma graph_ok_frame:
  assumes "idToNodes g' = idToNodes g" "nodeToSources g' = nodeToSources g" "nodeToTargets g' = nodeToTargets g"
    "hasher g' = hasher g"
  shows "graph_ok g' = graph_ok g"
  using assms by (simp add: graph_ok_def mirror_ok_def rows_ok_def ends_ok_def filed_ok_def edges_ok_def adj_def
      isAnchor_def isFact_def graph_Get_def)

lemma adj_link:
  assumes "between (hasher g) n a b"
  shows "adj (link n g) x y = (if x = a \<and> y = b then Some (Key (hasher g) n) else adj g x y)"
    "fmlookup (row (nodeToSources (link n g)) y) x =
      (if x = a \<and> y = b then Some (Key (hasher g) n) else fmlookup (row (nodeToSources g) y) x)"
    "rows_ok (nodeToTargets g) \<Longrightarrow> rows_ok (nodeToTargets (link n g))"
    "rows_ok (nodeToSources g) \<Longrightarrow> rows_ok (nodeToSources (link n g))"
  using assms by (auto simp: between_def link_def adj_def lookup_put_entry rows_ok_put Let_def)

text \<open>What a store must find: the node in its place is of the same kind, and an edge joins a stored fact to a
  stored anchor, replaces no other edge and takes the place of none between other nodes.\<close>

definition fits :: "('k, 'ti, 'vi) InMemoryGraph \<Rightarrow> Node \<Rightarrow> bool" where
  "fits g n \<longleftrightarrow>
     (\<forall>m. fmlookup (idToNodes g) (Key (hasher g) n) = Some m \<longrightarrow> same_kind m n \<and>
        (\<forall>a b. between (hasher g) m a b = between (hasher g) n a b)) \<and>
     (\<forall>a b. between (hasher g) n a b \<longrightarrow> isFact g a \<and> isAnchor g b \<and>
        (adj g a b = None \<or> adj g a b = Some (Key (hasher g) n)))"

lemma between_edge: "between h n a b \<Longrightarrow> is_edge n"
  by (cases n) (auto simp: between_def)

lemma edge_between: "is_edge n \<Longrightarrow> \<exists>a b. between h n a b"
  by (cases n) (auto simp: between_def)

lemma between_fun: "between h n a b \<Longrightarrow> between h n c d \<Longrightarrow> c = a \<and> d = b"
  by (auto simp: between_def)

lemma store_keeps:
  assumes ok: "graph_ok g" "caches_ok g" and fits: "fits g n" and key: "key = Key (hasher g) n"
  shows "graph_ok (snd (store u T key n g)) \<and> caches_ok (snd (store u T key n g)) \<and>
    hasher (snd (store u T key n g)) = hasher g \<and>
    idToNodes (snd (store u T key n g)) = fmupd key n (idToNodes g) \<and>
    (\<forall>a b. adj (snd (store u T key n g)) a b = (if between (hasher g) n a b then Some key else adj g a b))"
proof -
  note parts = graph_ok_parts [OF ok(1)]
  let ?g1 = "dropSequences key (g\<lparr>idToNodes := fmupd key n (idToNodes g)\<rparr>)"
  let ?g2 = "link n ?g1" and ?g3 = "snd (store u T key n g)"
  have same: "idToNodes ?g3 = idToNodes ?g2" "nodeToSources ?g3 = nodeToSources ?g2" "nodeToTargets ?g3 = nodeToTargets ?g2"
    "hasher ?g3 = hasher ?g2" "sequences ?g3 = sequences ?g2" "contiguity ?g3 = contiguity ?g2"
    by (simp_all add: store_def)
  have kind: "same_kind m n" if "fmlookup (idToNodes g) key = Some m" for m
    using fits key that by (auto simp: fits_def)
  have adj1: "adj ?g1 a b = adj g a b" for a b by (simp add: adj_def)
  have fact1: "isFact ?g1 k = (if k = key then is_fact n else isFact g k)" for k
    by (simp add: isFact_def graph_Get_def)
  have anchor1: "isAnchor ?g1 k = (if k = key then is_anchor n else isAnchor g k)" for k
    by (simp add: isAnchor_def graph_Get_def)
  have fact_key: "isFact g k \<Longrightarrow> isFact ?g1 k" for k
    using kind [unfolded same_kind_def] unfolding fact1 isFact_def graph_Get_def
    by (cases "fmlookup (idToNodes g) k") auto
  have anchor_key: "isAnchor g k \<Longrightarrow> isAnchor ?g1 k" for k
    using kind [unfolded same_kind_def] unfolding anchor1 isAnchor_def graph_Get_def
    by (cases "fmlookup (idToNodes g) k") auto
  have mirror1: "mirror_ok ?g1" using parts(1) by (simp add: mirror_ok_def adj1)
  have ends1: "ends_ok ?g1"
    using parts(4) fact_key anchor_key unfolding ends_ok_def adj1 by blast
  have caches1: "caches_ok ?g1"
    using store_node_caches [OF ok(2) parts(1) parts(4) kind] .
  have filed2: "filed_ok ?g2" using parts(5) by (auto simp: filed_ok_def key)
  have kept: "fmlookup (idToNodes g) key = Some m \<Longrightarrow> between (hasher g) m a b = between (hasher g) n a b" for m a b
    using fits unfolding fits_def key by blast
  have result: "graph_ok ?g2 \<and> caches_ok ?g2 \<and>
      (\<forall>a b. adj ?g2 a b = (if between (hasher g) n a b then Some key else adj g a b))"
  proof (cases "is_edge n")
    case True
    then obtain a b where ab: "between (hasher g) n a b" using edge_between [OF True, of "hasher g"] by blast
    then have ab1: "between (hasher ?g1) n a b" by simp
    have ends: "isFact g a" "isAnchor g b" "adj g a b = None \<or> adj g a b = Some key"
      using fits ab unfolding fits_def key by blast+
    have only: "between (hasher g) n x y \<longleftrightarrow> x = a \<and> y = b" for x y
      using between_fun [OF ab, of x y] ab by auto
    note adj2 = adj_link [OF ab1]
    have adj2': "adj ?g2 x y = (if x = a \<and> y = b then Some key else adj g x y)" for x y
      by (simp only: adj2(1) adj1) (simp add: key)
    have hash2: "hasher ?g2 = hasher g" and nodes2: "idToNodes ?g2 = fmupd key n (idToNodes g)" by simp_all
    have "caches_ok ?g2"
      using link_caches [OF caches1 mirror1 ends1 ab1 fact_key [OF ends(1)]] .
    moreover have "mirror_ok ?g2"
      using mirror1 adj2(1,2) by (auto simp: mirror_ok_def)
    moreover have "rows_ok (nodeToTargets ?g2)" "rows_ok (nodeToSources ?g2)"
      using adj2(3,4) parts by simp_all
    moreover have "ends_ok ?g2"
    proof -
      have "isFact ?g2 k = isFact ?g1 k" "isAnchor ?g2 k = isAnchor ?g1 k" for k
        by (rule isFact_cong isAnchor_cong, simp)+
      then show ?thesis
        using ends1 fact_key [OF ends(1)] anchor_key [OF ends(2)] unfolding ends_ok_def adj2(1) by auto
    qed
    moreover have "edges_ok ?g2"
      unfolding edges_ok_def
    proof (intro allI)
      fix x y e
      have old: "adj g x y = Some e \<longleftrightarrow> (\<exists>m. fmlookup (idToNodes g) e = Some m \<and> between (hasher g) m x y)"
        using parts(6) by (auto simp: edges_ok_def)
      have other: "\<not> between (hasher g) m a b" if "fmlookup (idToNodes g) e = Some m" "e \<noteq> key" for m
      proof
        assume "between (hasher g) m a b"
        then have "adj g a b = Some e" using parts(6) that(1) by (auto simp: edges_ok_def)
        then show False using ends(3) that(2) by simp
      qed
      show "adj ?g2 x y = Some e \<longleftrightarrow> (\<exists>m. fmlookup (idToNodes ?g2) e = Some m \<and> between (hasher ?g2) m x y)"
      proof (cases "e = key")
        case True
        then show ?thesis using old kept only [of x y] unfolding adj2' hash2 nodes2 by auto
      next
        case False
        then show ?thesis using old other unfolding adj2' hash2 nodes2 by auto
      qed
    qed
    ultimately show ?thesis using filed2 only by (auto simp: graph_ok_def adj2')
  next
    case False
    then have no: "\<not> between (hasher g) n a b" for a b using False between_edge [of "hasher g" n a b] by blast
    have g2: "?g2 = ?g1" using False by (rule link_other)
    have "edges_ok ?g1"
      unfolding edges_ok_def
    proof (intro allI)
      fix x y e
      show "adj ?g1 x y = Some e \<longleftrightarrow> (\<exists>m. fmlookup (idToNodes ?g1) e = Some m \<and> between (hasher ?g1) m x y)"
        using parts(6) kept no by (cases "e = key") (auto simp: edges_ok_def adj1)
    qed
    then show ?thesis using mirror1 ends1 caches1 filed2 parts no unfolding g2 by (simp add: graph_ok_def adj1)
  qed
  then show ?thesis
    using same caches_ok_frame [OF same(1,2,3,5,6)] graph_ok_frame [OF same(1-4)] by (simp add: adj_def)
qed

section \<open>Deleting\<close>

lemma unlink_views:
  "adj (unlink s t g) a b = (if a = s \<and> b = t then None else adj g a b)"
  "fmlookup (row (nodeToSources (unlink s t g)) b) a =
    (if a = s \<and> b = t then None else fmlookup (row (nodeToSources g) b) a)"
  "rows_ok (nodeToTargets g) \<Longrightarrow> rows_ok (nodeToTargets (unlink s t g))"
  "rows_ok (nodeToSources g) \<Longrightarrow> rows_ok (nodeToSources (unlink s t g))"
  "idToNodes (unlink s t g) = idToNodes g" "hasher (unlink s t g) = hasher g"
  "sequences (unlink s t g) = sequences g" "contiguity (unlink s t g) = contiguity g"
  by (auto simp: unlink_def adj_def lookup_drop_entry rows_ok_drop)

lemma dropRelationship_views [simp]:
  "adj (dropRelationship e g) a b = adj g a b" "nodeToSources (dropRelationship e g) = nodeToSources g"
  "nodeToTargets (dropRelationship e g) = nodeToTargets g" "hasher (dropRelationship e g) = hasher g"
  "sequences (dropRelationship e g) = sequences g" "contiguity (dropRelationship e g) = contiguity g"
  "idToNodes (dropRelationship e g) = fmdrop e (idToNodes g)"
  by (auto simp: dropRelationship_def adj_def)

text \<open>Removing a set \<open>X\<close> of edges, given by their ends, from the views, with their nodes \<open>N\<close>.\<close>

definition without :: "('k \<times> 'k) set \<Rightarrow> 'k set \<Rightarrow> ('k, 'ti, 'vi) InMemoryGraph \<Rightarrow> ('k, 'ti, 'vi) InMemoryGraph \<Rightarrow> bool" where
  "without X N g g' \<longleftrightarrow>
     (\<forall>a b. adj g' a b = (if (a, b) \<in> X then None else adj g a b)) \<and>
     (\<forall>a b. fmlookup (row (nodeToSources g') b) a =
        (if (a, b) \<in> X then None else fmlookup (row (nodeToSources g) b) a)) \<and>
     (\<forall>k. fmlookup (idToNodes g') k = (if k \<in> N then None else fmlookup (idToNodes g) k)) \<and>
     (rows_ok (nodeToTargets g) \<longrightarrow> rows_ok (nodeToTargets g')) \<and>
     (rows_ok (nodeToSources g) \<longrightarrow> rows_ok (nodeToSources g')) \<and>
     hasher g' = hasher g \<and> sequences g' = sequences g \<and> contiguity g' = contiguity g"

lemma without_refl: "without {} {} g g"
  by (simp add: without_def)

lemma without_trans: "without X N g g1 \<Longrightarrow> without X' N' g1 g2 \<Longrightarrow> without (X \<union> X') (N \<union> N') g g2"
  by (auto simp: without_def)

lemma without_unlink: "without {(s, t)} {e} g (dropRelationship e (unlink s t g))"
  by (simp add: without_def unlink_views)

lemma without_unlink_only: "without {(s, t)} {} g (unlink s t g)"
  by (simp add: without_def unlink_views)

lemma without_node: "without {} {k} g (g\<lparr>idToNodes := fmdrop k (idToNodes g)\<rparr>)"
  by (simp add: without_def adj_def)

lemma without_foldl:
  assumes "\<And>x g. x \<in> set xs \<Longrightarrow> without (X x) (N x) g (step g x)"
  shows "without (\<Union>x \<in> set xs. X x) (\<Union>x \<in> set xs. N x) g (foldl step g xs)"
  using assms
proof (induction xs arbitrary: g)
  case (Cons x xs)
  have "without (\<Union>x \<in> set xs. X x) (\<Union>x \<in> set xs. N x) (step g x) (foldl step (step g x) xs)"
    using Cons by simp
  then show ?case using without_trans Cons.prems [of x g] by fastforce
qed (simp add: without_refl)

lemma unlink_targets_without:
  "without {(key, t) |t. adj g key t \<noteq> None} {e. \<exists>t. adj g key t = Some e} g (unlink_targets key g)"
proof -
  let ?r = "row (nodeToTargets g) key"
  have "without (\<Union>t \<in> set (keys_of ?r). {(key, t)}) (\<Union>t \<in> set (keys_of ?r). {e. fmlookup ?r t = Some e}) g (unlink_targets key g)"
    unfolding unlink_targets_def Let_def
  proof (rule without_foldl)
    fix t and g' :: "('a, 'b, 'c) InMemoryGraph" assume "t \<in> set (keys_of ?r)"
    then obtain e where "fmlookup ?r t = Some e" by (auto simp: mem_keys_of)
    then show "without {(key, t)} {e. fmlookup ?r t = Some e} g'
        (case fmlookup ?r t of Some edge \<Rightarrow> dropRelationship edge (unlink key t g') | None \<Rightarrow> g')"
      using without_unlink [of key t e g'] by simp
  qed
  moreover have "(\<Union>t \<in> set (keys_of ?r). {(key, t)}) = {(key, t) |t. adj g key t \<noteq> None}"
    "(\<Union>t \<in> set (keys_of ?r). {e. fmlookup ?r t = Some e}) = {e. \<exists>t. adj g key t = Some e}"
    by (auto simp: adj_def mem_keys_of intro: fmdom'I)
  ultimately show ?thesis by simp
qed

lemma unlink_sources_without:
  "without {(s, key) |s. fmlookup (row (nodeToSources g) key) s \<noteq> None}
     {e. \<exists>s. fmlookup (row (nodeToSources g) key) s = Some e} g (unlink_sources key g)"
proof -
  let ?r = "row (nodeToSources g) key"
  have "without (\<Union>s \<in> set (keys_of ?r). {(s, key)}) (\<Union>s \<in> set (keys_of ?r). {e. fmlookup ?r s = Some e}) g (unlink_sources key g)"
    unfolding unlink_sources_def Let_def
  proof (rule without_foldl)
    fix s and g' :: "('a, 'b, 'c) InMemoryGraph" assume "s \<in> set (keys_of ?r)"
    then obtain e where "fmlookup ?r s = Some e" by (auto simp: mem_keys_of)
    then show "without {(s, key)} {e. fmlookup ?r s = Some e} g'
        (case fmlookup ?r s of Some edge \<Rightarrow> dropRelationship edge (unlink s key g') | None \<Rightarrow> g')"
      using without_unlink [of s key e g'] by simp
  qed
  moreover have "(\<Union>s \<in> set (keys_of ?r). {(s, key)}) = {(s, key) |s. fmlookup ?r s \<noteq> None}"
    "(\<Union>s \<in> set (keys_of ?r). {e. fmlookup ?r s = Some e}) = {e. \<exists>s. fmlookup ?r s = Some e}"
    by (auto simp: mem_keys_of intro: fmdom'I)
  ultimately show ?thesis by simp
qed

text \<open>The graph \<open>Delete\<close> works on after dropping the caches, and the one it leaves but for the indexes.\<close>

definition uncached :: "'k :: linorder \<Rightarrow> Node \<Rightarrow> ('k, 'ti, 'vi) InMemoryGraph \<Rightarrow> ('k, 'ti, 'vi) InMemoryGraph" where
  "uncached key stored g =
     (case Source stored of Some s \<Rightarrow> dropSequences (Key (hasher g) s) (dropSequences key g) | None \<Rightarrow> dropSequences key g)"

definition removed :: "'k :: linorder \<Rightarrow> Node \<Rightarrow> ('k, 'ti, 'vi) InMemoryGraph \<Rightarrow> ('k, 'ti, 'vi) InMemoryGraph" where
  "removed key stored g =
     (let g3 = unlink_sources key (unlink_targets key (uncached key stored g))
      in unlink_edge stored (g3\<lparr>idToNodes := fmdrop key (idToNodes g3)\<rparr>))"

lemma uncached_frame [simp]:
  "idToNodes (uncached k n g) = idToNodes g" "nodeToSources (uncached k n g) = nodeToSources g"
  "nodeToTargets (uncached k n g) = nodeToTargets g" "hasher (uncached k n g) = hasher g"
  by (auto simp: uncached_def split: option.split)

lemma frame_parts:
  assumes "idToNodes g' = idToNodes g" "nodeToSources g' = nodeToSources g" "nodeToTargets g' = nodeToTargets g"
  shows "adj g' = adj g" "isFact g' = isFact g" "isAnchor g' = isAnchor g" "mirror_ok g' = mirror_ok g" "ends_ok g' = ends_ok g"
    "reach1 g' = reach1 g"
  using assms by (auto simp: adj_def isFact_def isAnchor_def graph_Get_def mirror_ok_def ends_ok_def reach1_def fun_eq_iff)

lemma without_edge:
  "without {(a, b). between (hasher g) stored a b} {} g (unlink_edge stored g)"
proof (cases "is_edge stored")
  case True
  then obtain s t where st: "Source stored = Some s" "Target stored = Some t" by (cases stored) auto
  then have "{(a, b). between (hasher g) stored a b} = {(Key (hasher g) s, Key (hasher g) t)}"
    by (auto simp: between_def)
  then show ?thesis using st without_unlink_only by (simp add: unlink_edge_def)
next
  case False
  then have "{(a, b). between (hasher g) stored a b} = {}" "unlink_edge stored g = g"
    by (cases stored; auto simp: between_def unlink_edge_def)+
  then show ?thesis by (simp add: without_refl)
qed

lemma removed_without:
  assumes "mirror_ok g"
  shows "without {(a, b). adj g a b \<noteq> None \<and> (a = key \<or> b = key) \<or> between (hasher g) stored a b}
    ({key} \<union> {e. \<exists>a b. adj g a b = Some e \<and> (a = key \<or> b = key)}) (uncached key stored g) (removed key stored g)"
proof -
  let ?g2 = "uncached key stored g"
  let ?t = "unlink_targets key ?g2" and ?s = "unlink_sources key (unlink_targets key ?g2)"
  have adj2: "adj ?g2 = adj g" by (rule frame_parts) simp_all
  have src: "fmlookup (row (nodeToSources g) b) a = adj g a b" for a b
    using assms by (simp add: mirror_ok_def)
  have t: "without {(key, t) |t. adj g key t \<noteq> None} {e. \<exists>t. adj g key t = Some e} ?g2 ?t"
    using unlink_targets_without [of key ?g2] by (simp add: adj2)
  then have src_t: "fmlookup (row (nodeToSources ?t) key) a = (if a = key then None else adj g a key)" for a
    by (auto simp: without_def src)
  have s: "without {(a, key) |a. a \<noteq> key \<and> adj g a key \<noteq> None} {e. \<exists>a. a \<noteq> key \<and> adj g a key = Some e} ?t ?s"
  proof -
    have "{(a, key) |a. fmlookup (row (nodeToSources ?t) key) a \<noteq> None} = {(a, key) |a. a \<noteq> key \<and> adj g a key \<noteq> None}"
      "{e. \<exists>a. fmlookup (row (nodeToSources ?t) key) a = Some e} = {e. \<exists>a. a \<noteq> key \<and> adj g a key = Some e}"
      by (auto simp: src_t split: if_splits)
    then show ?thesis using unlink_sources_without [of key ?t] by simp
  qed
  have h: "hasher ?s = hasher g" using s t by (simp add: without_def)
  have all: "without (({(key, t) |t. adj g key t \<noteq> None} \<union> {(a, key) |a. a \<noteq> key \<and> adj g a key \<noteq> None} \<union> {}) \<union>
        {(a, b). between (hasher g) stored a b})
      (({e. \<exists>t. adj g key t = Some e} \<union> {e. \<exists>a. a \<noteq> key \<and> adj g a key = Some e} \<union> {key}) \<union> {}) ?g2 (removed key stored g)"
    unfolding removed_def Let_def
    by (rule without_trans [OF without_trans [OF without_trans [OF t s] without_node]])
      (use without_edge [of "?s\<lparr>idToNodes := fmdrop key (idToNodes ?s)\<rparr>" stored] h in simp)
  have "({(key, t) |t. adj g key t \<noteq> None} \<union> {(a, key) |a. a \<noteq> key \<and> adj g a key \<noteq> None} \<union> {}) \<union>
        {(a, b). between (hasher g) stored a b} =
      {(a, b). adj g a b \<noteq> None \<and> (a = key \<or> b = key) \<or> between (hasher g) stored a b}"
    by auto
  moreover have "({e. \<exists>t. adj g key t = Some e} \<union> {e. \<exists>a. a \<noteq> key \<and> adj g a key = Some e} \<union> {key}) \<union> {} =
      {key} \<union> {e. \<exists>a b. adj g a b = Some e \<and> (a = key \<or> b = key)}"
    by auto
  ultimately show ?thesis using all by simp
qed

lemma removed_effect:
  assumes "mirror_ok g"
  shows "adj (removed key stored g) a b = (if a = key \<or> b = key \<or> between (hasher g) stored a b then None else adj g a b)"
    "fmlookup (row (nodeToSources (removed key stored g)) b) a =
       (if a = key \<or> b = key \<or> between (hasher g) stored a b then None else adj g a b)"
    "fmlookup (idToNodes (removed key stored g)) k =
       (if k = key \<or> (\<exists>x y. adj g x y = Some k \<and> (x = key \<or> y = key)) then None else fmlookup (idToNodes g) k)"
    "rows_ok (nodeToTargets g) \<Longrightarrow> rows_ok (nodeToTargets (removed key stored g))"
    "rows_ok (nodeToSources g) \<Longrightarrow> rows_ok (nodeToSources (removed key stored g))"
    "hasher (removed key stored g) = hasher g"
    "sequences (removed key stored g) = sequences (uncached key stored g)"
    "contiguity (removed key stored g) = contiguity (uncached key stored g)"
proof -
  have adj2: "adj (uncached key stored g) = adj g" by (rule frame_parts) simp_all
  have src: "fmlookup (row (nodeToSources g) b) a = adj g a b" for a b
    using assms by (simp add: mirror_ok_def)
  note w = removed_without [OF assms, of key stored, unfolded without_def adj2]
  show "adj (removed key stored g) a b = (if a = key \<or> b = key \<or> between (hasher g) stored a b then None else adj g a b)"
    "fmlookup (row (nodeToSources (removed key stored g)) b) a =
       (if a = key \<or> b = key \<or> between (hasher g) stored a b then None else adj g a b)"
    "fmlookup (idToNodes (removed key stored g)) k =
       (if k = key \<or> (\<exists>x y. adj g x y = Some k \<and> (x = key \<or> y = key)) then None else fmlookup (idToNodes g) k)"
    "rows_ok (nodeToTargets g) \<Longrightarrow> rows_ok (nodeToTargets (removed key stored g))"
    "rows_ok (nodeToSources g) \<Longrightarrow> rows_ok (nodeToSources (removed key stored g))"
    "hasher (removed key stored g) = hasher g"
    "sequences (removed key stored g) = sequences (uncached key stored g)"
    "contiguity (removed key stored g) = contiguity (uncached key stored g)"
    using w by (auto simp: src)
qed

lemma removed_graph_ok:
  assumes ok: "graph_ok g" and stored: "fmlookup (idToNodes g) key = Some stored"
  shows "graph_ok (removed key stored g)"
proof -
  note p = graph_ok_parts [OF ok]
  note eff = removed_effect [OF p(1), of key stored]
  let ?g = "removed key stored g"
  have edge: "adj g a b = Some e \<longleftrightarrow> (\<exists>n. fmlookup (idToNodes g) e = Some n \<and> between (hasher g) n a b)" for a b e
    using p(6) by (auto simp: edges_ok_def)
  have self: "between (hasher g) stored a b \<longleftrightarrow> adj g a b = Some key" for a b
    using edge [of a b key] stored by simp
  have gone: "fmlookup (idToNodes ?g) k = (if k = key \<or> (\<exists>x y. adj g x y = Some k \<and> (x = key \<or> y = key)) then None
      else fmlookup (idToNodes g) k)" for k
    by (rule eff(3))
  have vertex: "fmlookup (idToNodes ?g) k = (if k = key then None else fmlookup (idToNodes g) k)"
    if v: "isFact g k \<or> isAnchor g k" for k
  proof -
    have "adj g x y \<noteq> Some k" for x y
    proof
      assume "adj g x y = Some k"
      then obtain n where n: "fmlookup (idToNodes g) k = Some n" "between (hasher g) n x y" using edge by blast
      then have "is_edge n" using between_edge [OF n(2)] by blast
      then show False using v n(1) by (cases n) (auto simp: isFact_def isAnchor_def graph_Get_def)
    qed
    then show ?thesis by (simp add: gone)
  qed
  have "mirror_ok ?g" by (simp add: mirror_ok_def eff(1,2))
  moreover have "rows_ok (nodeToTargets ?g)" "rows_ok (nodeToSources ?g)" using eff(4,5) p(2,3) by auto
  moreover have "ends_ok ?g"
    unfolding ends_ok_def
  proof (intro allI impI)
    fix a b assume a: "adj ?g a b \<noteq> None"
    then have a': "a \<noteq> key" "b \<noteq> key" "adj g a b \<noteq> None" by (auto simp: eff(1) split: if_splits)
    then have v: "isFact g a" "isAnchor g b" using p(4) by (auto simp: ends_ok_def)
    then have "fmlookup (idToNodes ?g) a = fmlookup (idToNodes g) a" "fmlookup (idToNodes ?g) b = fmlookup (idToNodes g) b"
      using a' vertex by auto
    then show "isFact ?g a \<and> isAnchor ?g b" using v isFact_cong [of ?g a g] isAnchor_cong [of ?g b g] by simp
  qed
  moreover have "filed_ok ?g" using p(5) by (auto simp: filed_ok_def gone eff(6) split: if_splits)
  moreover have "edges_ok ?g"
    unfolding edges_ok_def
  proof (intro allI iffI)
    fix a b e assume "adj ?g a b = Some e"
    then have a: "a \<noteq> key" "b \<noteq> key" "\<not> between (hasher g) stored a b" "adj g a b = Some e"
      by (auto simp: eff(1) split: if_splits)
    then obtain n where n: "fmlookup (idToNodes g) e = Some n" "between (hasher g) n a b" using edge by blast
    have "e \<noteq> key" using a(3,4) self by auto
    moreover have "\<not> (adj g x y = Some e \<and> (x = key \<or> y = key))" for x y
    proof
      assume x: "adj g x y = Some e \<and> (x = key \<or> y = key)"
      then have "between (hasher g) n x y" using edge [of x y e] n(1) by auto
      then show False using between_fun [OF n(2), of x y] x a(1,2) by auto
    qed
    ultimately have "fmlookup (idToNodes ?g) e = Some n" using n(1) by (auto simp: gone)
    then show "\<exists>n. fmlookup (idToNodes ?g) e = Some n \<and> between (hasher ?g) n a b" using n(2) by (auto simp: eff(6))
  next
    fix a b e assume "\<exists>n. fmlookup (idToNodes ?g) e = Some n \<and> between (hasher ?g) n a b"
    then obtain n where n: "fmlookup (idToNodes ?g) e = Some n" "between (hasher g) n a b" by (auto simp: eff(6))
    then have e: "e \<noteq> key" "\<And>x y. adj g x y = Some e \<Longrightarrow> x \<noteq> key \<and> y \<noteq> key" "fmlookup (idToNodes g) e = Some n"
      by (auto simp: gone split: if_splits)
    then have "adj g a b = Some e" using edge n(2) by blast
    then show "adj ?g a b = Some e" using e self by (auto simp: eff(1))
  qed
  ultimately show ?thesis by (simp add: graph_ok_def)
qed

lemma lookup_uncached:
  assumes "D = reach1 g key \<union> (case Source stored of Some s \<Rightarrow> reach1 g (Key (hasher g) s) | None \<Rightarrow> {})"
  shows "a \<in> D \<Longrightarrow> fmlookup (sequences (uncached key stored g)) a = None"
    "fmlookup (contiguity (uncached key stored g)) key = None"
    "Source stored = Some s \<Longrightarrow> fmlookup (contiguity (uncached key stored g)) (Key (hasher g) s) = None"
proof -
  have r: "reach1 (dropSequences key g) = reach1 g" by (rule frame_parts) simp_all
  show "a \<in> D \<Longrightarrow> fmlookup (sequences (uncached key stored g)) a = None"
    "fmlookup (contiguity (uncached key stored g)) key = None"
    "Source stored = Some s \<Longrightarrow> fmlookup (contiguity (uncached key stored g)) (Key (hasher g) s) = None"
    unfolding assms uncached_def by (auto simp: lookup_dropSequences r split: option.splits)
qed

lemma removed_caches_ok:
  assumes ok: "graph_ok g" "caches_ok g" and stored: "fmlookup (idToNodes g) key = Some stored"
  shows "caches_ok (removed key stored g)"
proof -
  note p = graph_ok_parts [OF ok(1)]
  note eff = removed_effect [OF p(1), of key stored]
  let ?g = "removed key stored g" and ?u = "uncached key stored g"
  let ?D = "reach1 g key \<union> (case Source stored of Some s \<Rightarrow> reach1 g (Key (hasher g) s) | None \<Rightarrow> {})"
  let ?E = "{key} \<union> (case Source stored of Some s \<Rightarrow> {Key (hasher g) s} | None \<Rightarrow> {})"
  note unc = lookup_uncached [OF refl, where g = g and key = key and stored = stored]
  have u: "adj ?u = adj g" "isAnchor ?u = isAnchor g" "mirror_ok ?u" "ends_ok ?u"
    using frame_parts [of ?u g] p by auto
  have cu: "caches_ok ?u"
  proof -
    have "caches_ok (dropSequences key g)" using drop_fresh_seqs ok(2) p by blast
    moreover have "mirror_ok (dropSequences key g)" "ends_ok (dropSequences key g)"
      using frame_parts [of "dropSequences key g" g] p by auto
    ultimately show ?thesis by (auto simp: uncached_def intro: drop_fresh_seqs split: option.split)
  qed
  have edge: "adj g a b = Some e \<longleftrightarrow> (\<exists>n. fmlookup (idToNodes g) e = Some n \<and> between (hasher g) n a b)" for a b e
    using p(6) by (auto simp: edges_ok_def)
  have self: "between (hasher g) stored a b \<longleftrightarrow> adj g a b = Some key" for a b
    using edge [of a b key] stored by simp
  have self_D: "a \<in> ?E \<and> b \<in> ?D" if "adj g a b = Some key" for a b
  proof -
    have "between (hasher g) stored a b" using self that by blast
    then show ?thesis using that by (auto simp: between_def reach1_def adj_def)
  qed
  have near: "b \<in> ?D" if "adj g a b \<noteq> None" "a = key \<or> b = key" for a b
    using that by (auto simp: reach1_def adj_def)
  have src: "fmlookup (row (nodeToSources g) b) a = adj g a b" for a b
    using p(1) by (simp add: mirror_ok_def)
  have node: "fmlookup (idToNodes ?g) k = fmlookup (idToNodes g) k" if "isFact g k \<or> isAnchor g k" "k \<noteq> key" for k
  proof -
    have "adj g x y \<noteq> Some k" for x y
    proof
      assume "adj g x y = Some k"
      then obtain n where n: "fmlookup (idToNodes g) k = Some n" "between (hasher g) n x y" using edge by blast
      then have "is_edge n" using between_edge [OF n(2)] by blast
      then show False using that(1) n(1) by (cases n) (auto simp: isFact_def isAnchor_def graph_Get_def)
    qed
    then show ?thesis using that(2) by (simp add: eff(3))
  qed
  show ?thesis
  proof (rule caches_step [OF cu u(3,4), where D = ?D and E = ?E])
    show "fmlookup (sequences ?g) a = (if a \<in> ?D then None else fmlookup (sequences ?u) a)" for a
      using unc(1) by (auto simp: eff(7))
    show "fmlookup (contiguity ?g) x = (if x \<in> ?E \<or> (\<exists>n \<in> ?D. \<exists>s. fmlookup (sequences ?u) n = Some s \<and> x \<in> set (seq_keys s))
        then None else fmlookup (contiguity ?u) x)" for x
    proof -
      have "\<not> (\<exists>n \<in> ?D. \<exists>s. fmlookup (sequences ?u) n = Some s \<and> x \<in> set (seq_keys s))" using unc(1) by auto
      moreover have "x \<in> ?E \<Longrightarrow> fmlookup (contiguity ?u) x = None" using unc(2,3) by (auto split: option.splits)
      ultimately show ?thesis by (auto simp: eff(8))
    qed
  next
    fix a assume a: "a \<notin> ?D"
    have ak: "a \<noteq> key" using a by (auto simp: reach1_def)
    have keep: "adj ?g m a = adj g m a" for m
    proof (cases "adj g m a")
      case None
      then show ?thesis by (simp add: eff(1))
    next
      case (Some e)
      then have "m \<noteq> key" "e \<noteq> key" using near [of m a] self_D [of m a] a by auto
      then show ?thesis using Some ak by (simp add: eff(1) self)
    qed
    show "build_sequence ?g a = build_sequence ?u a"
    proof (rule build_sequence_cong)
      show "row (nodeToSources ?g) a = row (nodeToSources ?u) a"
        by (rule fmap_ext) (use keep in \<open>simp add: eff(2) src eff(1)\<close>)
      fix m assume "fmlookup (row (nodeToSources ?u) a) m \<noteq> None"
      then have m: "adj g m a \<noteq> None" by (simp add: src)
      then have "m \<noteq> key" using near a by blast
      moreover have "isFact g m" using m p(4) by (auto simp: ends_ok_def)
      ultimately show "fmlookup (idToNodes ?g) m = fmlookup (idToNodes ?u) m" using node by simp
    qed
  next
    fix x assume x: "x \<notin> ?E" "\<forall>a. adj ?u x a \<noteq> None \<longrightarrow> a \<notin> ?D"
    show "row (nodeToTargets ?g) x = row (nodeToTargets ?u) x"
    proof (rule fmap_ext)
      fix b
      have "adj ?g x b = adj g x b"
      proof (cases "adj g x b")
        case None
        then show ?thesis by (simp add: eff(1))
      next
        case (Some e)
        then have "b \<notin> ?D" "x \<noteq> key" using x u(1) by auto
        then have "b \<noteq> key" "e \<noteq> key" using near [of x b] self_D [of x b] Some x(1) by auto
        then show ?thesis using Some \<open>x \<noteq> key\<close> by (simp add: eff(1) self)
      qed
      then show "fmlookup (row (nodeToTargets ?g) x) b = fmlookup (row (nodeToTargets ?u) x) b" by (simp add: adj_def)
    qed
  next
    fix x a assume a: "adj ?u x a \<noteq> None" "a \<notin> ?D"
    then have "isAnchor g a" "a \<noteq> key" using p(4) u(1) near [of x a] by (auto simp: ends_ok_def)
    then show "isAnchor ?g a = isAnchor ?u a" using node [of a] u(2) isAnchor_cong [of ?g a g] by simp
  qed
qed

section \<open>Neighbours in time\<close>

lemma sequence_of_ok:
  assumes "caches_ok g" "sequence_of a g = (s, g')"
  shows "s = build_sequence g a" "caches_ok g'" "fmlookup (sequences g') a = Some s"
    "idToNodes g' = idToNodes g" "nodeToSources g' = nodeToSources g" "nodeToTargets g' = nodeToTargets g"
    "hasher g' = hasher g" "textIndex g' = textIndex g" "vectorIndex g' = vectorIndex g"
    "\<And>x. fmlookup (sequences g) x \<noteq> None \<Longrightarrow> fmlookup (sequences g') x = fmlookup (sequences g) x"
    "contiguity g' = contiguity g"
proof -
  show s: "s = build_sequence g a"
    using assms by (auto simp: sequence_of_def caches_ok_def Let_def split: option.splits)
  show frame: "fmlookup (sequences g') a = Some s"
    "idToNodes g' = idToNodes g" "nodeToSources g' = nodeToSources g" "nodeToTargets g' = nodeToTargets g"
    "hasher g' = hasher g" "textIndex g' = textIndex g" "vectorIndex g' = vectorIndex g"
    "\<And>x. fmlookup (sequences g) x \<noteq> None \<Longrightarrow> fmlookup (sequences g') x = fmlookup (sequences g) x"
    "contiguity g' = contiguity g"
    using assms(2) by (auto simp: sequence_of_def Let_def split: option.splits)
  have seqs: "fmlookup (sequences g') x = Some t \<Longrightarrow> t = build_sequence g x" for x t
    using assms s by (auto simp: sequence_of_def caches_ok_def Let_def split: option.splits if_splits)
  have more: "fmlookup (sequences g) x \<noteq> None \<Longrightarrow> fmlookup (sequences g') x \<noteq> None" for x
    using frame(8) by metis
  have same: "build_sequence g' = build_sequence g" "isAnchor g' = isAnchor g" "adj g' = adj g"
    using build_sequence_frame frame(2,3) frame_parts [OF frame(2-4)] by blast+
  have "fresh_contiguity g' = fresh_contiguity g"
    by (simp add: fresh_contiguity_def same frame(4) fun_eq_iff cong: if_cong)
  then show "caches_ok g'"
    using assms(1) more seqs unfolding caches_ok_def same frame(9) by metis
qed

lemma contiguous_loop_ok:
  assumes "caches_ok g" "contiguous_loop key as out g = (res, g')"
  shows "res = out @ concat (map (\<lambda>a. if isAnchor g a then beside (build_sequence g a) key else []) as) \<and>
    caches_ok g' \<and> idToNodes g' = idToNodes g \<and> nodeToSources g' = nodeToSources g \<and>
    nodeToTargets g' = nodeToTargets g \<and> hasher g' = hasher g \<and> textIndex g' = textIndex g \<and> vectorIndex g' = vectorIndex g \<and>
    contiguity g' = contiguity g \<and>
    (\<forall>a. fmlookup (sequences g) a \<noteq> None \<longrightarrow> fmlookup (sequences g') a = fmlookup (sequences g) a) \<and>
    (\<forall>a \<in> set as. isAnchor g a \<longrightarrow> fmlookup (sequences g') a \<noteq> None)"
  using assms
proof (induction "as" arbitrary: out g)
  case (Cons a "as")
  show ?case
  proof (cases "isAnchor g a")
    case True
    obtain s g1 where sg: "sequence_of a g = (s, g1)" by fastforce
    note one = sequence_of_ok [OF Cons.prems(1) sg]
    have loop: "contiguous_loop key as (out @ beside s key) g1 = (res, g')"
      using Cons.prems(2) True sg by simp
    have same: "build_sequence g1 = build_sequence g" "isAnchor g1 = isAnchor g"
      using build_sequence_frame one(4,5) frame_parts [OF one(4-6)] by blast+
    show ?thesis
      using Cons.IH [OF one(2) loop] one True unfolding same by auto
  next
    case False
    then show ?thesis using Cons.IH [of g out] Cons.prems by simp
  qed
qed simp

lemma contiguous_ok:
  assumes ok: "caches_ok g" and c: "contiguous key g = (res, g')"
  shows "res = fresh_contiguity g key \<and> caches_ok g' \<and> idToNodes g' = idToNodes g \<and>
    nodeToSources g' = nodeToSources g \<and> nodeToTargets g' = nodeToTargets g \<and> hasher g' = hasher g \<and>
    textIndex g' = textIndex g \<and> vectorIndex g' = vectorIndex g"
proof (cases "fmlookup (contiguity g) key")
  case (Some out)
  then show ?thesis using assms by (auto simp: contiguous_def caches_ok_def)
next
  case None
  obtain out g1 where loop: "contiguous_loop key (keys_of (row (nodeToTargets g) key)) [] g = (out, g1)" by fastforce
  note l = contiguous_loop_ok [OF ok loop]
  have res: "res = fresh_contiguity g key" "g' = g1\<lparr>contiguity := fmupd key res (contiguity g1)\<rparr>"
    using c None loop l by (auto simp: contiguous_def fresh_contiguity_def Let_def)
  have g': "idToNodes g' = idToNodes g" "nodeToSources g' = nodeToSources g" "nodeToTargets g' = nodeToTargets g"
      "sequences g' = sequences g1" "hasher g' = hasher g" "textIndex g' = textIndex g" "vectorIndex g' = vectorIndex g"
    using l res by simp_all
  have same: "build_sequence g' = build_sequence g" "isAnchor g' = isAnchor g" "adj g' = adj g"
    using build_sequence_frame g'(1,2) frame_parts [OF g'(1-3)] by blast+
  have same1: "build_sequence g1 = build_sequence g" using build_sequence_frame l by blast
  have fresh: "fresh_contiguity g' = fresh_contiguity g"
    by (simp add: fresh_contiguity_def same g'(3) fun_eq_iff cong: if_cong)
  have "caches_ok g'"
    unfolding caches_ok_def same fresh
  proof (intro conjI allI impI)
    fix a s assume "fmlookup (sequences g') a = Some s"
    then show "s = build_sequence g a" using l g'(4) same1 by (auto simp: caches_ok_def)
  next
    fix k out' assume k: "fmlookup (contiguity g') k = Some out'"
    show "out' = fresh_contiguity g k"
      using k res l ok by (auto simp: caches_ok_def split: if_splits)
    fix a assume a: "adj g k a \<noteq> None \<and> isAnchor g a"
    show "fmlookup (sequences g') a \<noteq> None"
    proof (cases "k = key")
      case True
      then have "a \<in> set (keys_of (row (nodeToTargets g) key))" using a by (simp add: adj_def mem_keys_of)
      then show ?thesis using l a g'(4) by auto
    next
      case False
      then have "fmlookup (contiguity g) k = Some out'" using k res l by simp
      then have "fmlookup (sequences g) a \<noteq> None" using ok a by (auto simp: caches_ok_def)
      then show ?thesis using l g'(4) by auto
    qed
  qed
  then show ?thesis using res g' by simp
qed

end
