(* ===== verification/Graph_Reachable.thy ===== *)
theory Graph_Reachable
  imports Graph_Invariants
begin

text \<open>
  The graphs the writes and the reads build from an empty one, as a step relation, and what holds of
  all of them: the views, the nodes and the counts agree, and the cached neighbours of a fact are
  those that stand next to it, in write order, under one of its anchors.
\<close>

section \<open>Steps\<close>

inductive graph_step ::
    "unicode \<Rightarrow> ('k, runes, 'ti) index_ops \<Rightarrow> ('k, 'v, 'vi) index_ops \<Rightarrow>
     ('k :: linorder, 'ti, 'vi) InMemoryGraph \<Rightarrow> ('k, 'ti, 'vi) InMemoryGraph \<Rightarrow> bool"
  for u T V
  where
    set_node: "fits g n \<Longrightarrow> graph_Set u T (Some n) g = (err, g') \<Longrightarrow> graph_step u T V g g'"
  | put_node: "fits g n \<Longrightarrow> graph_Put u T (Key (hasher g) n) (Some n) g = (err, g') \<Longrightarrow> graph_step u T V g g'"
  | delete_node: "graph_Delete T V (Some n) g = (err, g') \<Longrightarrow> graph_step u T V g g'"
  | lookup_neighbours: "contiguous key g = (res, g') \<Longrightarrow> graph_step u T V g g'"
  | use_vectors: "graph_step u T V g (g\<lparr>vectorIndex := vi\<rparr>)"

inductive_cases graph_stepE: "graph_step u T V g g'"

inductive reachable ::
    "unicode \<Rightarrow> ('k, runes, 'ti) index_ops \<Rightarrow> ('k, 'v, 'vi) index_ops \<Rightarrow>
     ('k :: linorder, 'ti, 'vi) InMemoryGraph \<Rightarrow> bool"
  for u T V
  where
    start: "reachable u T V (empty_graph h ti vi)"
  | step: "reachable u T V g \<Longrightarrow> graph_step u T V g g' \<Longrightarrow> reachable u T V g'"

lemma empty_ok: "graph_ok (empty_graph h ti vi)" "caches_ok (empty_graph h ti vi)"
  by (simp_all add: empty_graph_def graph_ok_def mirror_ok_def rows_ok_def ends_ok_def filed_ok_def edges_ok_def
      caches_ok_def adj_def)

lemma Set_keeps:
  assumes "graph_ok g" "caches_ok g" "fits g n" "graph_Set u T (Some n) g = (err, g')"
  shows "graph_ok g' \<and> caches_ok g'"
  using assms store_keeps [OF assms(1-3) refl, of u T] by (auto simp: graph_Set_def split: if_splits)

lemma Put_keeps:
  assumes "graph_ok g" "caches_ok g" "fits g n" "graph_Put u T (Key (hasher g) n) (Some n) g = (err, g')"
  shows "graph_ok g' \<and> caches_ok g'"
  using assms store_keeps [OF assms(1-3) refl, of u T] by (auto simp: graph_Put_def)

lemma Delete_result:
  "graph_Delete T V (Some n) g =
     (case fmlookup (idToNodes g) (Key (hasher g) n) of
        None \<Rightarrow> (Some ErrNodeNotFound, g)
      | Some stored \<Rightarrow>
          let key = Key (hasher g) n; g4 = removed key stored g
          in (None, g4\<lparr>textIndex := snd (ix_Delete T (textIndex g4) key), vectorIndex := snd (ix_Delete V (vectorIndex g4) key)\<rparr>))"
  by (auto simp: graph_Delete_def removed_def uncached_def Let_def split: option.split)

lemma Delete_keeps:
  assumes "graph_ok g" "caches_ok g" "graph_Delete T V (Some n) g = (err, g')"
  shows "graph_ok g' \<and> caches_ok g'"
proof (cases "fmlookup (idToNodes g) (Key (hasher g) n)")
  case None
  then show ?thesis using assms by (simp add: Delete_result)
next
  case (Some stored)
  let ?r = "removed (Key (hasher g) n) stored g"
  have "graph_ok ?r" "caches_ok ?r"
    using removed_graph_ok [OF assms(1) Some] removed_caches_ok [OF assms(1,2) Some] by simp_all
  moreover have "idToNodes g' = idToNodes ?r" "nodeToSources g' = nodeToSources ?r" "nodeToTargets g' = nodeToTargets ?r"
    "hasher g' = hasher ?r" "sequences g' = sequences ?r" "contiguity g' = contiguity ?r"
    using assms(3) Some by (auto simp: Delete_result Let_def)
  ultimately show ?thesis using graph_ok_frame [of g' ?r] caches_ok_frame [of g' ?r] by simp
qed

lemma step_keeps:
  assumes "graph_ok g" "caches_ok g" "graph_step u T V g g'"
  shows "graph_ok g' \<and> caches_ok g'"
  using assms(3)
proof (cases rule: graph_step.cases)
  case (set_node n err)
  then show ?thesis using Set_keeps [OF assms(1,2)] by blast
next
  case (put_node n err)
  then show ?thesis using Put_keeps [OF assms(1,2)] by blast
next
  case (delete_node n err)
  then show ?thesis using Delete_keeps [OF assms(1,2)] by blast
next
  case (lookup_neighbours key res)
  then show ?thesis
    using contiguous_ok [OF assms(2) lookup_neighbours] assms(1) graph_ok_frame [of g' g] by simp
next
  case (use_vectors vi)
  then show ?thesis
    using assms(1,2) graph_ok_frame [of g' g] caches_ok_frame [of g' g] by simp
qed

lemma reachable_ok: "reachable u T V g \<Longrightarrow> graph_ok g \<and> caches_ok g"
proof (induction rule: reachable.induct)
  case (step g g')
  then show ?case using step_keeps by blast
qed (simp add: empty_ok)

section \<open>Counts\<close>

lemma foldl_sum: "foldl (\<lambda>n k. n + f k) (n :: nat) ks = n + (\<Sum>k \<leftarrow> ks. f k)"
  by (induction ks arbitrary: n) auto

lemma Order_vertices: "graph_Order g = card {k. \<exists>n. fmlookup (idToNodes g) k = Some n \<and> \<not> is_edge n}"
proof -
  let ?P = "\<lambda>k. case fmlookup (idToNodes g) k of Some n \<Rightarrow> is_edge n | None \<Rightarrow> True"
  have "foldl (\<lambda>n key. case fmlookup (idToNodes g) key of Some node \<Rightarrow> if is_edge node then n else Suc n | None \<Rightarrow> n) m ks =
      m + length (filter (\<lambda>k. \<not> ?P k) ks)" for m ks
    by (induction ks arbitrary: m) (auto split: option.split)
  then have "graph_Order g = length (filter (\<lambda>k. \<not> ?P k) (keys_of (idToNodes g)))"
    by (simp add: graph_Order_def graph_Get_def)
  also have "\<dots> = card (set (filter (\<lambda>k. \<not> ?P k) (keys_of (idToNodes g))))"
    by (rule distinct_card [symmetric]) simp
  also have "set (filter (\<lambda>k. \<not> ?P k) (keys_of (idToNodes g))) = {k. \<exists>n. fmlookup (idToNodes g) k = Some n \<and> \<not> is_edge n}"
    by (auto simp: mem_keys_of split: option.splits intro: fmdom'I)
  finally show ?thesis .
qed

lemma Size_entries: "graph_Size g = card {(a, b). adj g a b \<noteq> None}"
proof -
  let ?A = "keys_of (nodeToTargets g)" and ?B = "\<lambda>a. set (keys_of (row (nodeToTargets g) a))"
  have "graph_Size g = (\<Sum>a \<leftarrow> ?A. card (?B a))"
    unfolding graph_Size_def foldl_sum by (simp add: distinct_card [symmetric])
  also have "\<dots> = (\<Sum>a \<in> set ?A. card (?B a))" by (simp add: sum_list_distinct_conv_sum_set)
  also have "\<dots> = card (Sigma (set ?A) ?B)" by (simp add: card_SigmaI)
  also have "Sigma (set ?A) ?B = {(a, b). adj g a b \<noteq> None}"
    by (auto simp: adj_def row_def mem_keys_of split: option.splits intro: fmdom'I)
  finally show ?thesis .
qed

lemma Size_edges:
  assumes "graph_ok g"
  shows "graph_Size g = card {k. \<exists>n. fmlookup (idToNodes g) k = Some n \<and> is_edge n}"
proof -
  have edge: "adj g a b = Some e \<longleftrightarrow> (\<exists>n. fmlookup (idToNodes g) e = Some n \<and> between (hasher g) n a b)" for a b e
    using graph_ok_parts(6) [OF assms] by (auto simp: edges_ok_def)
  let ?f = "\<lambda>(a, b). the (adj g a b)" and ?X = "{(a, b). adj g a b \<noteq> None}"
  have "inj_on ?f ?X"
  proof (rule inj_onI, clarsimp)
    fix a b a' b' e assume "adj g a b = Some e" "adj g a' b' = Some e"
    then show "a = a' \<and> b = b'"
      using edge [of a b e] edge [of a' b' e] between_fun by (metis option.inject)
  qed
  moreover have "?f ` ?X = {k. \<exists>n. fmlookup (idToNodes g) k = Some n \<and> is_edge n}"
  proof (intro equalityI subsetI)
    fix k assume "k \<in> ?f ` ?X"
    then obtain a b where "adj g a b = Some k" by auto
    then show "k \<in> {k. \<exists>n. fmlookup (idToNodes g) k = Some n \<and> is_edge n}"
      using edge [of a b k] by (auto dest: between_edge)
  next
    fix k assume "k \<in> {k. \<exists>n. fmlookup (idToNodes g) k = Some n \<and> is_edge n}"
    then obtain n where n: "fmlookup (idToNodes g) k = Some n" "is_edge n" by blast
    then obtain a b where "between (hasher g) n a b" using edge_between [OF n(2), of "hasher g"] by blast
    then have "adj g a b = Some k" using edge n(1) by blast
    then show "k \<in> ?f ` ?X" by force
  qed
  ultimately have "bij_betw ?f ?X {k. \<exists>n. fmlookup (idToNodes g) k = Some n \<and> is_edge n}"
    by (simp add: bij_betw_def)
  then show ?thesis unfolding Size_entries by (rule bij_betw_same_card)
qed

lemma distinct_sort_by [simp]: "distinct (sort_by le xs) = distinct xs"
  by (metis mset_sort_by mset_eq_imp_distinct_iff)

section \<open>Neighbours in write order\<close>

lemma positions_lookup:
  "distinct ks \<Longrightarrow> fmlookup (positions ks) k = Some i \<longleftrightarrow> i < length ks \<and> ks ! i = k"
proof (induction ks rule: rev_induct)
  case (snoc x ks)
  have "positions (ks @ [x]) = fmupd x (length ks) (positions ks)"
    by (simp add: positions_def zip_append1)
  then show ?case using snoc by (auto simp: nth_append nth_mem less_Suc_eq)
qed (simp add: positions_def)

lemma order_not_later: "total_order_rel (not_later g)"
  by unfold_locales (auto simp: not_later_def)

text \<open>\<open>m'\<close> is the member of \<open>M\<close> written next after \<open>m\<close>.\<close>

definition next_written :: "('k :: linorder, 'ti, 'vi) InMemoryGraph \<Rightarrow> 'k set \<Rightarrow> 'k \<Rightarrow> 'k \<Rightarrow> bool" where
  "next_written g M m m' \<longleftrightarrow> m \<in> M \<and> m' \<in> M \<and> m \<noteq> m' \<and> not_later g m m' \<and>
     (\<forall>x \<in> M - {m, m'}. \<not> (not_later g m x \<and> not_later g x m'))"

lemma adjacent_sorted:
  assumes "total_order_rel R" "sorted_wrt R ks" "distinct ks"
  shows "(\<exists>i. Suc i < length ks \<and> ks ! i = m \<and> ks ! Suc i = m') \<longleftrightarrow>
    m \<in> set ks \<and> m' \<in> set ks \<and> m \<noteq> m' \<and> R m m' \<and> (\<forall>x \<in> set ks - {m, m'}. \<not> (R m x \<and> R x m'))"
    (is "?l \<longleftrightarrow> ?r")
proof -
  have le: "i \<le> j" if "i < length ks" "j < length ks" "R (ks ! i) (ks ! j)" for i j
  proof (rule ccontr)
    assume "\<not> i \<le> j"
    then have "R (ks ! j) (ks ! i)" using assms(2) that by (simp add: sorted_wrt_nth_less)
    then have "ks ! i = ks ! j" using total_order_rel.antisym [OF assms(1)] that(3) by blast
    then show False using assms(3) that \<open>\<not> i \<le> j\<close> by (simp add: nth_eq_iff_index_eq)
  qed
  show ?thesis
  proof
    assume ?l
    then obtain i where i: "Suc i < length ks" "ks ! i = m" "ks ! Suc i = m'" by blast
    have "\<not> (R m x \<and> R x m')" if x: "x \<in> set ks - {m, m'}" for x
    proof
      assume b: "R m x \<and> R x m'"
      obtain j where j: "j < length ks" "ks ! j = x" using x by (auto simp: in_set_conv_nth)
      then have "i \<le> j" "j \<le> Suc i" using le [of i j] le [of j "Suc i"] i b by auto
      then have "j = i \<or> j = Suc i" by linarith
      then show False using j i x by auto
    qed
    moreover have "R m m'" using assms(2) i sorted_wrt_nth_less [of R ks i "Suc i"] by auto
    moreover have "m \<noteq> m'" using assms(3) i by (auto simp: nth_eq_iff_index_eq)
    ultimately show ?r using i by (auto dest: nth_mem)
  next
    assume r: ?r
    then obtain i j where ij: "i < length ks" "ks ! i = m" "j < length ks" "ks ! j = m'"
      by (auto simp: in_set_conv_nth)
    then have "i < j" using le [of i j] r by (metis le_neq_implies_less)
    have "j = Suc i"
    proof (rule ccontr)
      assume "j \<noteq> Suc i"
      then have k: "Suc i < j" using \<open>i < j\<close> by simp
      let ?x = "ks ! Suc i"
      have "R m ?x" "R ?x m'"
        using assms(2) ij k sorted_wrt_nth_less [of R ks i "Suc i"] sorted_wrt_nth_less [of R ks "Suc i" j] by auto
      moreover have "?x \<in> set ks - {m, m'}"
        using assms(3) ij k by (auto simp: nth_eq_iff_index_eq)
      ultimately show False using r by blast
    qed
    then show ?l using ij by auto
  qed
qed

lemma beside_positions:
  assumes "distinct (seq_keys s)" "seq_at s = positions (seq_keys s)"
  shows "m \<in> set (beside s key) \<longleftrightarrow>
    (\<exists>i. Suc i < length (seq_keys s) \<and> seq_keys s ! i = m \<and> seq_keys s ! Suc i = key) \<or>
    (\<exists>i. Suc i < length (seq_keys s) \<and> seq_keys s ! i = key \<and> seq_keys s ! Suc i = m)"
proof (cases "fmlookup (seq_at s) key")
  case None
  then have "key \<notin> set (seq_keys s)"
    using positions_lookup [OF assms(1), of key] assms(2) by (auto simp: in_set_conv_nth)
  then show ?thesis using None by (auto simp: beside_def)
next
  case (Some i)
  then have i: "i < length (seq_keys s)" "seq_keys s ! i = key"
    using positions_lookup [OF assms(1), of key i] assms(2) by auto
  have at: "seq_keys s ! j = key \<longleftrightarrow> j = i" if "j < length (seq_keys s)" for j
    using assms(1) i that nth_eq_iff_index_eq by metis
  have "(\<exists>j. Suc j < length (seq_keys s) \<and> seq_keys s ! j = m \<and> seq_keys s ! Suc j = key) \<longleftrightarrow>
      0 < i \<and> seq_keys s ! (i - 1) = m"
    using at i by (metis Suc_diff_1 Suc_lessD diff_Suc_1 zero_less_Suc)
  moreover have "(\<exists>j. Suc j < length (seq_keys s) \<and> seq_keys s ! j = key \<and> seq_keys s ! Suc j = m) \<longleftrightarrow>
      Suc i < length (seq_keys s) \<and> seq_keys s ! Suc i = m"
    using at i by (metis Suc_lessD)
  ultimately show ?thesis using Some by (auto simp: beside_def)
qed

definition filed_under_anchor :: "('k, 'ti, 'vi) InMemoryGraph \<Rightarrow> 'k \<Rightarrow> 'k set" where
  "filed_under_anchor g a = {m. adj g m a \<noteq> None}"

lemma beside_build:
  assumes "graph_ok g"
  shows "m \<in> set (beside (build_sequence g a) key) \<longleftrightarrow>
    next_written g (filed_under_anchor g a) m key \<or> next_written g (filed_under_anchor g a) key m"
proof -
  let ?ks = "seq_keys (build_sequence g a)"
  have ks: "set ?ks = filed_under_anchor g a"
  proof -
    have "adj g m a \<noteq> None \<Longrightarrow> isFact g m" for m using graph_ok_parts(4) [OF assms] by (auto simp: ends_ok_def)
    then show ?thesis
      using graph_ok_parts(1) [OF assms] by (auto simp: set_seq_keys filed_under_anchor_def mirror_ok_def)
  qed
  have d: "distinct ?ks"
    by (simp add: build_sequence_def Let_def distinct_sort_by)
  have s: "sorted_wrt (not_later g) ?ks"
    using total_preorder.sorted_sort_by [of "not_later g"] order_not_later [of g]
    by (simp add: build_sequence_def Let_def total_order_rel_def)
  have p: "seq_at (build_sequence g a) = positions ?ks" by (simp add: build_sequence_def Let_def)
  show ?thesis
    unfolding beside_positions [OF d p] adjacent_sorted [OF order_not_later s d] next_written_def ks by simp
qed

lemma remdups_adj_sort: "sorted (remdups_adj (sort xs))" "distinct (remdups_adj (sort xs))" "set (remdups_adj (sort xs)) = set xs"
proof -
  have d: "sorted ys \<Longrightarrow> distinct (remdups_adj ys)" for ys :: "'a list"
    by (induction ys rule: remdups_adj.induct) auto
  show "sorted (remdups_adj (sort xs))" "distinct (remdups_adj (sort xs))" "set (remdups_adj (sort xs)) = set xs"
    by (simp_all add: sorted_remdups_adj d)
qed

section \<open>Properties\<close>


text \<open>C12: The neighbours a window search borrows from are never stale: after any writes and earlier lookups,
  those of a fact are, in key order and once each, the facts written immediately before and after it
  under one of its anchors, and looking them up changes nothing but the caches.\<close>

theorem contiguous_never_stale:
  assumes r: "reachable u T V g" and c: "contiguous key g = (res, g')"
  shows "sorted res \<and> distinct res \<and>
    set res = {m. \<exists>a. adj g key a \<noteq> None \<and>
      (next_written g (filed_under_anchor g a) m key \<or> next_written g (filed_under_anchor g a) key m)} \<and>
    idToNodes g' = idToNodes g \<and> nodeToTargets g' = nodeToTargets g \<and> nodeToSources g' = nodeToSources g"
proof -
  have ok: "graph_ok g" "caches_ok g" using reachable_ok [OF r] by auto
  have anchors: "adj g key a \<noteq> None \<Longrightarrow> isAnchor g a" for a
    using graph_ok_parts(4) [OF ok(1)] by (auto simp: ends_ok_def)
  have "set (fresh_contiguity g key) = (\<Union>a \<in> {a. adj g key a \<noteq> None}. set (beside (build_sequence g a) key))"
    using anchors by (auto simp: fresh_contiguity_def remdups_adj_sort adj_def mem_keys_of intro: fmdom'I split: if_splits)
  also have "\<dots> = {m. \<exists>a. adj g key a \<noteq> None \<and>
      (next_written g (filed_under_anchor g a) m key \<or> next_written g (filed_under_anchor g a) key m)}"
    using beside_build [OF ok(1)] by auto
  finally show ?thesis
    using contiguous_ok [OF ok(2) c] by (simp add: fresh_contiguity_def remdups_adj_sort(1,2))
qed

section \<open>An example\<close>

text \<open>An index that only keeps its documents, and a graph of two facts filed under one topic; the length of
  a text serves as its hash.\<close>

definition document_index :: "('k, 'v, ('k, 'v) fmap) index_ops" where
  "document_index =
     \<lparr>ix_Insert = (\<lambda>i k v. (None, fmupd k v i)),
      ix_Retrieve = (\<lambda>i k. case fmlookup i k of Some v \<Rightarrow> Inr v | None \<Rightarrow> Inl ErrIndexNotFound),
      ix_Update = (\<lambda>i k v. case fmlookup i k of Some _ \<Rightarrow> (None, fmupd k v i) | None \<Rightarrow> (Some ErrIndexNotFound, i)),
      ix_Delete = (\<lambda>i k. case fmlookup i k of Some _ \<Rightarrow> (None, fmdrop k i) | None \<Rightarrow> (Some ErrIndexNotFound, i)),
      ix_Count = (\<lambda>i. fcard (fmdom i)), ix_Entries = (\<lambda>i. fcard (fmdom i))\<rparr>"

type_synonym example_graph = "(nat, (nat, runes) fmap, (nat, nat list) fmap) InMemoryGraph"

definition attrs :: "string \<Rightarrow> int \<Rightarrow> NodeAttributes" where
  "attrs v t = \<lparr>na_Value = str v, na_Timestamp = t\<rparr>"

definition set_all :: "Node list \<Rightarrow> example_graph \<Rightarrow> example_graph" where
  "set_all ns g = foldl (\<lambda>g n. snd (graph_Set ascii document_index (Some n) g)) g ns"

definition example_nodes :: "Node list" where
  "example_nodes = [Fact (attrs ''-'' 1), Fact (attrs ''--'' 2), Topic (attrs ''ttt'' 1),
     IsAbout (attrs ''-'' 1) (attrs ''ttt'' 1) (attrs [] 1), IsAbout (attrs ''--'' 2) (attrs ''ttt'' 1) (attrs [] 2)]"

definition example_graph :: example_graph where
  "example_graph = set_all example_nodes (empty_graph length fmempty fmempty)"

abbreviation example_reachable :: "example_graph \<Rightarrow> bool" where
  "example_reachable \<equiv> reachable ascii document_index (document_index :: (nat, nat list, (nat, nat list) fmap) index_ops)"

definition fits_check :: "('k, 'ti, 'vi) InMemoryGraph \<Rightarrow> Node \<Rightarrow> bool" where
  "fits_check g n =
     ((case graph_Get g (Key (hasher g) n) of None \<Rightarrow> True
       | Some m \<Rightarrow> same_kind m n \<and> map_option (Key (hasher g)) (Source m) = map_option (Key (hasher g)) (Source n) \<and>
           map_option (Key (hasher g)) (Target m) = map_option (Key (hasher g)) (Target n)) \<and>
      (case (Source n, Target n) of
         (Some s, Some t) \<Rightarrow>
           (let a = Key (hasher g) s; b = Key (hasher g) t
            in isFact g a \<and> isAnchor g b \<and> (adj g a b = None \<or> adj g a b = Some (Key (hasher g) n)))
       | _ \<Rightarrow> True))"

lemma fits_check: "fits_check g n \<Longrightarrow> fits g n"
  unfolding fits_def
proof (intro conjI allI impI)
  fix m a b assume c: "fits_check g n" and m: "fmlookup (idToNodes g) (Key (hasher g) n) = Some m"
  show "same_kind m n" "between (hasher g) m a b = between (hasher g) n a b"
    using c m by (simp_all add: fits_check_def graph_Get_def between_def)
next
  fix a b assume c: "fits_check g n" and "between (hasher g) n a b"
  then obtain s t where "Source n = Some s" "Target n = Some t" "Key (hasher g) s = a" "Key (hasher g) t = b"
    by (auto simp: between_def)
  then show "isFact g a" "isAnchor g b" "adj g a b = None \<or> adj g a b = Some (Key (hasher g) n)"
    using c by (simp_all add: fits_check_def Let_def)
qed

fun fits_all :: "Node list \<Rightarrow> example_graph \<Rightarrow> bool" where
  "fits_all [] g = True"
| "fits_all (n # ns) g = (fits_check g n \<and> fits_all ns (snd (graph_Set ascii document_index (Some n) g)))"

lemma reachable_set_all: "example_reachable g \<Longrightarrow> fits_all ns g \<Longrightarrow> example_reachable (set_all ns g)"
proof (induction ns arbitrary: g)
  case (Cons n ns)
  let ?g = "snd (graph_Set ascii document_index (Some n) g)"
  have "fits g n" "fits_all ns ?g" using Cons.prems(2) fits_check by auto
  then have "example_reachable ?g"
    using reachable.step [OF Cons.prems(1) graph_step.set_node] by (metis prod.collapse)
  then show ?case using Cons.IH [of ?g] \<open>fits_all ns ?g\<close> by (simp add: set_all_def)
qed (simp add: set_all_def)

lemma example_is_reachable: "example_reachable example_graph"
  unfolding example_graph_def
proof (rule reachable_set_all [OF reachable.start])
  show "fits_all example_nodes (empty_graph length fmempty fmempty)" by code_simp
qed


theorem contiguous_never_stale_witness:
  "fst (contiguous 6 example_graph) = [7] \<and>
   {m. \<exists>a. adj example_graph 6 a \<noteq> None \<and>
      (next_written example_graph (filed_under_anchor example_graph a) m 6 \<or>
       next_written example_graph (filed_under_anchor example_graph a) 6 m)} = {7}"
proof -
  have res: "fst (contiguous 6 example_graph) = [7]" by code_simp
  obtain g' where "contiguous 6 example_graph = ([7], g')" using res by (metis prod.collapse)
  from contiguous_never_stale [OF example_is_reachable this] show ?thesis using res by simp
qed

end
