(* ===== verification/Query_Commit.thy ===== *)
theory Query_Commit
  imports Query_Stream Graph_Ranking Graph_Reachable
begin

text \<open>
  \<open>Commit\<close> of \<open>internal/query/stream.go\<close>: how a planned query runs against a graph. A write indexes the
  vector, puts the fact and stores each anchor with its edge; a read is one search. The clock is a
  function: \<open>clock n\<close> is what the \<open>n\<close>-th call of \<open>time.Now\<close> of the commit returns. The caller holds the
  graph's lock throughout.
\<close>

section \<open>Results\<close>

record HitContribution =
  hc_Source :: string
  hc_Score :: real
  hc_Rank :: "16 word"
  hc_Via :: runes
  hc_Degree :: "32 word"
  hc_Count :: "16 word"
  hc_Named :: bool
  hc_Held :: real

record QueryHit =
  qh_Node :: "Node option"
  qh_Score :: real
  qh_Contributions :: "HitContribution list"

record QueryResult =
  qr_Count :: nat
  qr_Hits :: "QueryHit list"
  qr_Background :: real

datatype commit_error =
    IndexingVector index_error
  | StoringFact graph_error
  | StoringAnchor graph_error
  | LinkingAnchor graph_error
  | Searching index_error

definition resolveContributions :: "('k, 'ti, 'vi) InMemoryGraph \<Rightarrow> 'k Contribution list \<Rightarrow> HitContribution list" where
  "resolveContributions g contributions =
     map (\<lambda>c. \<lparr>hc_Source = Source_String (c_Src c), hc_Score = c_Score c, hc_Rank = c_Rank c,
       hc_Via = (if c_Src c = SrcGraph \<or> c_Src c = SrcAnchor then
           (case c_Via c of None \<Rightarrow> [] | Some via \<Rightarrow> (case graph_Get g via of Some node \<Rightarrow> GetValue node | None \<Rightarrow> []))
         else []),
       hc_Degree = c_Degree c, hc_Count = c_Count c, hc_Named = c_Named c, hc_Held = c_Held c\<rparr>) contributions"

section \<open>Writes\<close>

definition storeAnchor ::
    "unicode \<Rightarrow> ('k, runes, 'ti) index_ops \<Rightarrow> Node \<Rightarrow> Node \<Rightarrow> ('k :: linorder, 'ti, 'vi) InMemoryGraph \<Rightarrow>
     commit_error option \<times> ('k, 'ti, 'vi) InMemoryGraph" where
  "storeAnchor u T node edge g =
     (case graph_Set u T (Some node) g of (err, g1) \<Rightarrow>
        if err \<noteq> None \<and> err \<noteq> Some ErrNodeAlreadyExists then (map_option StoringAnchor err, g1)
        else (case graph_Set u T (Some edge) g1 of (err2, g2) \<Rightarrow>
          if err2 \<noteq> None \<and> err2 \<noteq> Some ErrNodeAlreadyExists then (map_option LinkingAnchor err2, g2)
          else (None, g2)))"

definition index_vector ::
    "('k, 'p list, 'vi) index_ops \<Rightarrow> 'k \<Rightarrow> 'p list \<Rightarrow> ('k, 'ti, 'vi) InMemoryGraph \<Rightarrow>
     index_error option \<times> ('k, 'ti, 'vi) InMemoryGraph" where
  "index_vector V key vector g =
     (if vector \<noteq> [] then
        (let write = (case ix_Retrieve V (vectorIndex g) key of Inr _ \<Rightarrow> ix_Update V | Inl _ \<Rightarrow> ix_Insert V);
             (err, vi) = write (vectorIndex g) key vector
         in (err, g\<lparr>vectorIndex := vi\<rparr>))
      else (None, g))"

text \<open>The loops over the entities and the topics; \<open>n\<close> counts the calls of the clock.\<close>

fun store_anchors ::
    "unicode \<Rightarrow> ('k, runes, 'ti) index_ops \<Rightarrow> (nat \<Rightarrow> int) \<Rightarrow> (NodeAttributes \<Rightarrow> Node) \<Rightarrow>
     (NodeAttributes \<Rightarrow> NodeAttributes \<Rightarrow> NodeAttributes \<Rightarrow> Node) \<Rightarrow> NodeAttributes \<Rightarrow> runes list \<Rightarrow> nat \<Rightarrow>
     ('k :: linorder, 'ti, 'vi) InMemoryGraph \<Rightarrow> commit_error option \<times> ('k, 'ti, 'vi) InMemoryGraph" where
  "store_anchors u T clock anchor edge own [] n g = (None, g)"
| "store_anchors u T clock anchor edge own (value # values) n g =
     (let a = \<lparr>na_Value = value, na_Timestamp = clock n\<rparr>
      in case storeAnchor u T (anchor a) (edge own a \<lparr>na_Value = [], na_Timestamp = clock (n + 1)\<rparr>) g of
           (Some e, g1) \<Rightarrow> (Some e, g1)
         | (None, g1) \<Rightarrow> store_anchors u T clock anchor edge own values (n + 2) g1)"

definition commit_write ::
    "unicode \<Rightarrow> ('k, runes, 'ti) index_ops \<Rightarrow> ('k, 'p list, 'vi) index_ops \<Rightarrow> (nat \<Rightarrow> int) \<Rightarrow> 'p RememberQuery \<Rightarrow>
     ('k :: linorder, 'ti, 'vi) InMemoryGraph \<Rightarrow> commit_error option \<times> ('k, 'ti, 'vi) InMemoryGraph" where
  "commit_write u T V clock remember g =
     (let attrs = \<lparr>na_Value = mq_Value remember, na_Timestamp = clock 0\<rparr>; fact = Fact attrs; key = Key (hasher g) fact
      in case index_vector V key (mq_Vector remember) g of
           (Some e, g1) \<Rightarrow> (Some (IndexingVector e), g1)
         | (None, g1) \<Rightarrow>
             (case graph_Put u T key (Some fact) g1 of
                (Some e, g2) \<Rightarrow> (Some (StoringFact e), g2)
              | (None, g2) \<Rightarrow>
                  (case store_anchors u T clock NamedEntity Mentions attrs (mq_Entities remember) 1 g2 of
                     (Some e, g3) \<Rightarrow> (Some e, g3)
                   | (None, g3) \<Rightarrow>
                       store_anchors u T clock Topic IsAbout attrs (mq_Topics remember)
                         (1 + 2 * length (mq_Entities remember)) g3)))"

section \<open>Commit\<close>

type_synonym ('p, 'e) commit_stream = "('p, QueryResult, 'e) Stream"

definition commit_read ::
    "('k, 'ti, 'vi, 'p) search_lib \<Rightarrow> SearchSettings \<Rightarrow> (nat \<Rightarrow> int) \<Rightarrow> ('k :: linorder, 'ti, 'vi) InMemoryGraph \<Rightarrow>
     'p RecallQuery \<Rightarrow> index_error + 'k Result" where
  "commit_read lib st clock g recall =
     Search lib st (clock 2) g (rq_Keywords recall) (rq_Vector recall) (rq_Topics recall) (rq_Entities recall)
       (qp_Depth (rq_Parameters recall)) (qp_Top (rq_Parameters recall))
       (rq_Since recall (clock 0)) (rq_Until recall (clock 1))"

definition read_result :: "bool \<Rightarrow> ('k, 'ti, 'vi) InMemoryGraph \<Rightarrow> 'k Result \<Rightarrow> QueryResult" where
  "read_result explain g result =
     \<lparr>qr_Count = length (res_Hits result),
      qr_Hits = map (\<lambda>hit. \<lparr>qh_Node = hit_Node hit, qh_Score = hit_Score hit,
        qh_Contributions = (if explain then resolveContributions g (hit_Contributions hit) else [])\<rparr>) (res_Hits result),
      qr_Background = (if explain then res_Background result else 0)\<rparr>"

definition Commit ::
    "('k, 'ti, 'vi, 'p) search_lib \<Rightarrow> SearchSettings \<Rightarrow> (nat \<Rightarrow> int) \<Rightarrow> ('k :: linorder, 'ti, 'vi) InMemoryGraph \<Rightarrow>
     ('p, 'e) commit_stream \<Rightarrow> commit_error option \<times> ('p, 'e) commit_stream \<times> ('k, 'ti, 'vi) InMemoryGraph" where
  "Commit lib st clock g s =
     (case st_Query s of
        RememberQ remember \<Rightarrow>
          (case commit_write (letters lib) (ops_text lib) (ops_vector lib) clock remember g of
             (Some e, g1) \<Rightarrow> (Some e, s, g1)
           | (None, g1) \<Rightarrow>
               (None, s\<lparr>st_Result := Some \<lparr>qr_Count = 0, qr_Hits = [], qr_Background = 0\<rparr>, st_IsGraphEmpty := False\<rparr>, g1))
      | RecallQ recall \<Rightarrow>
          (case commit_read lib st clock g recall of
             Inl e \<Rightarrow> (Some (Searching e), s, g)
           | Inr result \<Rightarrow>
               (None, s\<lparr>st_Result := Some (read_result (st_Explain s) g result),
                  st_IsGraphEmpty := (length (res_Hits result) = 0 \<and> graph_IsEmpty g)\<rparr>, g)))"

end
