(* ===== verification/Query_Remember.thy ===== *)
theory Query_Remember
  imports Query_Commit
begin

text \<open>
  What a write leaves behind. As long as no two of the texts hashed so far share a key and no text
  holds a NUL, a remember that succeeds has put the fact and filed it under every anchor it names,
  one that fails has stored a part of that and harmed nothing. With a NUL in a text the edge of a
  second fact can be taken for the first one's, and the write succeeds without linking its fact.
\<close>

section \<open>Graphs without collisions\<close>

definition parts_of :: "Node \<Rightarrow> Node list" where
  "parts_of n = n # (case Source n of Some s \<Rightarrow> [s] | None \<Rightarrow> []) @ (case Target n of Some t \<Rightarrow> [t] | None \<Rightarrow> [])"

text \<open>The node and its ends are hashed from the materials \<open>M\<close>.\<close>

definition covered :: "runes set \<Rightarrow> Node \<Rightarrow> bool" where
  "covered M n \<longleftrightarrow> nul_free n \<and> (\<forall>p \<in> set (parts_of n). material p \<in> M)"

definition healthy :: "runes set \<Rightarrow> ('k :: linorder, 'ti, 'vi) InMemoryGraph \<Rightarrow> bool" where
  "healthy M g \<longleftrightarrow> graph_ok g \<and> caches_ok g \<and> inj_on (hasher g) M \<and>
     (\<forall>k n. fmlookup (idToNodes g) k = Some n \<longrightarrow> covered M n)"

text \<open>A node with the key of a stored one is that node, up to its attributes.\<close>

lemma healthy_identity:
  assumes "healthy M g" "covered M n" "fmlookup (idToNodes g) (Key (hasher g) n) = Some m"
  shows "identity m = identity n"
proof -
  have m: "covered M m" "Key (hasher g) m = Key (hasher g) n"
    using assms graph_ok_parts(5) by (auto simp: healthy_def filed_ok_def)
  then have "material m = material n"
    using assms(1,2) by (auto simp: healthy_def covered_def parts_of_def Key_def dest: inj_onD)
  then show ?thesis using material_identity m(1) assms(2) by (auto simp: covered_def)
qed

text \<open>An edge is determined by its ends.\<close>

lemma edge_by_ends:
  assumes "inj_on hf M" "covered M m" "covered M n" "between hf m a b" "between hf n a b"
  shows "material m = material n"
proof -
  have same: "material s = material t" if "material s \<in> M" "material t \<in> M" "Key hf s = Key hf t" for s t
    using that assms(1) by (auto simp: Key_def dest: inj_onD)
  obtain s1 t1 s2 t2 where e: "Source m = Some s1" "Target m = Some t1" "Source n = Some s2" "Target n = Some t2"
    "Key hf s1 = Key hf s2" "Key hf t1 = Key hf t2"
    using assms(4,5) by (auto simp: between_def)
  have "material s1 = material s2" "material t1 = material t2"
    using assms(2,3) e by (auto intro!: same simp: covered_def parts_of_def)
  then show ?thesis using e(1-4) by (cases m; cases n) (auto simp: str_def)
qed

lemma healthy_edge:
  "healthy M g \<Longrightarrow> adj g a b = Some e \<longleftrightarrow> (\<exists>n. fmlookup (idToNodes g) e = Some n \<and> between (hasher g) n a b)"
  using graph_ok_parts(6) [of g] unfolding healthy_def edges_ok_def by blast

lemma healthy_fits:
  assumes ok: "healthy M g" and n: "covered M n"
    and ends: "\<And>a b. between (hasher g) n a b \<Longrightarrow> isFact g a \<and> isAnchor g b"
  shows "fits g n"
  unfolding fits_def
proof (intro conjI allI impI)
  fix m a b assume m: "fmlookup (idToNodes g) (Key (hasher g) n) = Some m"
  have id: "identity m = identity n" by (rule healthy_identity [OF ok n m])
  show "same_kind m n" using identity_kinds [OF id] by (simp add: same_kind_def)
  show "between (hasher g) m a b = between (hasher g) n a b" using identity_ends [OF id, of "hasher g"] by (simp add: between_def)
next
  fix a b assume ab: "between (hasher g) n a b"
  then show "isFact g a" "isAnchor g b" using ends by blast+
  show "adj g a b = None \<or> adj g a b = Some (Key (hasher g) n)"
  proof (cases "adj g a b")
    case (Some e)
    then obtain m where m: "fmlookup (idToNodes g) e = Some m" "between (hasher g) m a b"
      using healthy_edge [OF ok] by blast
    have "covered M m" "Key (hasher g) m = e" using ok m(1) graph_ok_parts(5) by (auto simp: healthy_def filed_ok_def)
    moreover from this have "material m = material n" using ok n m(2) ab by (auto simp: healthy_def intro: edge_by_ends)
    ultimately show ?thesis using Some by (simp add: Key_def)
  qed simp
qed

section \<open>One store\<close>

text \<open>What every step of a write keeps: the nodes up to their attributes, and the edges.\<close>

definition extends :: "('k, 'ti, 'vi) InMemoryGraph \<Rightarrow> ('k, 'ti, 'vi) InMemoryGraph \<Rightarrow> bool" where
  "extends g g' \<longleftrightarrow> hasher g' = hasher g \<and>
     (\<forall>k n. graph_Get g k = Some n \<longrightarrow> (\<exists>n'. graph_Get g' k = Some n' \<and> identity n' = identity n)) \<and>
     (\<forall>a b. adj g a b \<noteq> None \<longrightarrow> adj g' a b = adj g a b)"

lemma extends_refl: "extends g g"
  by (simp add: extends_def)

lemma extends_trans: "extends g g1 \<Longrightarrow> extends g1 g2 \<Longrightarrow> extends g g2"
  unfolding extends_def by metis

text \<open>The write after the fact only adds.\<close>

definition adds :: "('k, 'ti, 'vi) InMemoryGraph \<Rightarrow> ('k, 'ti, 'vi) InMemoryGraph \<Rightarrow> bool" where
  "adds g g' \<longleftrightarrow> extends g g' \<and> (\<forall>k n. graph_Get g k = Some n \<longrightarrow> graph_Get g' k = Some n)"

lemma adds_refl: "adds g g"
  by (simp add: adds_def extends_refl)

lemma adds_trans: "adds g g1 \<Longrightarrow> adds g1 g2 \<Longrightarrow> adds g g2"
  unfolding adds_def using extends_trans by blast

lemma store_healthy:
  assumes ok: "healthy M g" and n: "covered M n"
    and ends: "\<And>a b. between (hasher g) n a b \<Longrightarrow> isFact g a \<and> isAnchor g b"
    and run: "store u T (Key (hasher g) n) n g = (err, g')"
  shows "healthy M g'" "extends g g'" "graph_Get g' (Key (hasher g) n) = Some n"
    "between (hasher g) n a b \<Longrightarrow> adj g' a b \<noteq> None"
    "graph_Get g (Key (hasher g) n) = None \<Longrightarrow> adds g g'"
proof -
  have g: "graph_ok g" "caches_ok g" using ok by (simp_all add: healthy_def)
  have f: "fits g n" by (rule healthy_fits [OF ok n ends])
  have k: "graph_ok g'" "caches_ok g'" "hasher g' = hasher g" "idToNodes g' = fmupd (Key (hasher g) n) n (idToNodes g)"
    "\<And>a b. adj g' a b = (if between (hasher g) n a b then Some (Key (hasher g) n) else adj g a b)"
    using store_keeps [OF g f refl, of u T] run by simp_all
  show "healthy M g'" using ok n k by (auto simp: healthy_def)
  show "graph_Get g' (Key (hasher g) n) = Some n" using k(4) by (simp add: graph_Get_def)
  show "adj g' a b \<noteq> None" if "between (hasher g) n a b" using that k(5) by simp
  have nodes: "\<exists>n'. graph_Get g' j = Some n' \<and> identity n' = identity m" if "graph_Get g j = Some m" for j m
    using that healthy_identity [OF ok n, of m] k(4) by (cases "j = Key (hasher g) n") (auto simp: graph_Get_def)
  have edges: "adj g' a b = adj g a b" if "adj g a b \<noteq> None" for a b
  proof (cases "between (hasher g) n a b")
    case True
    then have "adj g a b = None \<or> adj g a b = Some (Key (hasher g) n)" using f unfolding fits_def by blast
    then show ?thesis using that True k(5) by simp
  qed (simp add: k(5))
  show e: "extends g g'" using nodes edges k(3) by (auto simp: extends_def)
  show "adds g g'" if "graph_Get g (Key (hasher g) n) = None"
    using e that k(4) by (auto simp: adds_def graph_Get_def)
qed

lemma Set_healthy:
  assumes ok: "healthy M g" and n: "covered M n"
    and ends: "\<And>a b. between (hasher g) n a b \<Longrightarrow> isFact g a \<and> isAnchor g b"
    and run: "graph_Set u T (Some n) g = (err, g')"
  shows "healthy M g' \<and> adds g g' \<and> (\<exists>m. graph_Get g' (Key (hasher g) n) = Some m \<and> identity m = identity n) \<and>
    (\<forall>a b. between (hasher g) n a b \<longrightarrow> adj g' a b \<noteq> None)"
proof (cases "fmlookup (idToNodes g) (Key (hasher g) n)")
  case None
  then have "store u T (Key (hasher g) n) n g = (err, g')" using run by (simp add: graph_Set_def)
  from store_healthy [OF ok n ends this] None show ?thesis by (auto simp: graph_Get_def)
next
  case (Some m)
  then have g': "g' = g" using run by (simp add: graph_Set_def)
  have id: "identity m = identity n" by (rule healthy_identity [OF ok n Some])
  have "adj g a b \<noteq> None" if "between (hasher g) n a b" for a b
  proof -
    have "between (hasher g) m a b" using that identity_ends [OF id, of "hasher g"] by (simp add: between_def)
    then show ?thesis using Some healthy_edge [OF ok, of a b "Key (hasher g) n"] by simp
  qed
  then show ?thesis using g' ok id Some adds_refl by (auto simp: graph_Get_def)
qed

section \<open>The anchors of a write\<close>

lemma adds_fact: "adds g g' \<Longrightarrow> isFact g k \<Longrightarrow> isFact g' k"
  by (auto simp: adds_def isFact_def split: option.splits)

lemma adds_edge: "adds g g' \<Longrightarrow> adj g a b \<noteq> None \<Longrightarrow> adj g' a b \<noteq> None"
  by (auto simp: adds_def extends_def)

lemma adds_hasher: "adds g g' \<Longrightarrow> hasher g' = hasher g"
  by (simp add: adds_def extends_def)

lemma storeAnchor_healthy:
  assumes ok: "healthy M g" and covered: "covered M an" "covered M ed"
    and kinds: "is_anchor an" "Source ed = Some f" "Target ed = Some an" and own: "isFact g (Key (hasher g) f)"
    and run: "storeAnchor u T an ed g = (err, g')"
  shows "healthy M g' \<and> adds g g' \<and> (err = None \<longrightarrow> adj g' (Key (hasher g) f) (Key (hasher g) an) \<noteq> None)"
proof -
  obtain e1 g1 where s1: "graph_Set u T (Some an) g = (e1, g1)" by fastforce
  have none: "\<not> between (hasher g) an a b" for a b using kinds(1) by (cases an) (auto simp: between_def)
  have g1: "healthy M g1" "adds g g1" "\<exists>m. graph_Get g1 (Key (hasher g) an) = Some m \<and> identity m = identity an"
    using Set_healthy [OF ok covered(1) _ s1] none by blast+
  have h1: "hasher g1 = hasher g" by (rule adds_hasher [OF g1(2)])
  obtain m where m: "graph_Get g1 (Key (hasher g) an) = Some m" "identity m = identity an" using g1(3) by blast
  have a1: "isAnchor g1 (Key (hasher g) an)" using m(1) identity_kinds [OF m(2)] kinds(1) by (simp add: isAnchor_def)
  have f1: "isFact g1 (Key (hasher g) f)" by (rule adds_fact [OF g1(2) own])
  have ends: "between (hasher g1) ed a b \<longleftrightarrow> a = Key (hasher g) f \<and> b = Key (hasher g) an" for a b
    using kinds(2,3) by (auto simp: between_def h1)
  obtain e2 g2 where s2: "graph_Set u T (Some ed) g1 = (e2, g2)" by fastforce
  have g2: "healthy M g2" "adds g1 g2" "\<forall>a b. between (hasher g1) ed a b \<longrightarrow> adj g2 a b \<noteq> None"
  proof -
    have "isFact g1 a \<and> isAnchor g1 b" if "between (hasher g1) ed a b" for a b using that a1 f1 ends by simp
    note G = Set_healthy [OF g1(1) covered(2) this s2]
    show "healthy M g2" "adds g1 g2" "\<forall>a b. between (hasher g1) ed a b \<longrightarrow> adj g2 a b \<noteq> None" using G by simp_all
  qed
  have linked: "adj g2 (Key (hasher g) f) (Key (hasher g) an) \<noteq> None" using g2(3) ends by blast
  have "g' = g1 \<and> err \<noteq> None \<or> g' = g2"
    using run unfolding storeAnchor_def s1 s2 prod.case by (cases e1; cases e2) (auto split: if_splits)
  then show ?thesis
  proof (elim disjE conjE)
    assume "g' = g1" "err \<noteq> None"
    then show ?thesis using g1(1,2) by auto
  next
    assume "g' = g2"
    then show ?thesis using g2(1) linked adds_trans [OF g1(2) g2(2)] by simp
  qed
qed

lemma store_anchors_healthy:
  assumes "healthy M g" "isFact g (Key (hasher g) (Fact own))"
    and "\<And>a. is_anchor (anchor a)"
    and "\<And>a x. Source (edge own a x) = Some (Fact own) \<and> Target (edge own a x) = Some (anchor a)"
    and "\<And>w t t'. w \<in> set vals \<Longrightarrow>
      covered M (anchor \<lparr>na_Value = w, na_Timestamp = t\<rparr>) \<and>
      covered M (edge own \<lparr>na_Value = w, na_Timestamp = t\<rparr> \<lparr>na_Value = [], na_Timestamp = t'\<rparr>)"
    and "\<And>w t. Key (hasher g) (anchor \<lparr>na_Value = w, na_Timestamp = t\<rparr>) = keyof w"
    and "store_anchors u T clock anchor edge own vals n g = (err, g')"
  shows "healthy M g' \<and> adds g g' \<and> (err = None \<longrightarrow> (\<forall>w \<in> set vals. adj g' (Key (hasher g) (Fact own)) (keyof w) \<noteq> None))"
  using assms
proof (induction vals arbitrary: n g)
  case Nil
  then show ?case by (simp add: adds_refl)
next
  case (Cons w vals)
  let ?a = "\<lparr>na_Value = w, na_Timestamp = clock n\<rparr>" and ?x = "\<lparr>na_Value = [], na_Timestamp = clock (n + 1)\<rparr>"
  obtain e1 g1 where s1: "storeAnchor u T (anchor ?a) (edge own ?a ?x) g = (e1, g1)" by fastforce
  have g1: "healthy M g1" "adds g g1" "e1 = None \<Longrightarrow> adj g1 (Key (hasher g) (Fact own)) (keyof w) \<noteq> None"
    using storeAnchor_healthy [OF Cons.prems(1) _ _ Cons.prems(3) _ _ Cons.prems(2) s1] Cons.prems(4-6) by auto
  have h1: "hasher g1 = hasher g" by (rule adds_hasher [OF g1(2)])
  show ?case
  proof (cases e1)
    case (Some e)
    then show ?thesis using g1 s1 Cons.prems(7) by (auto simp: Let_def)
  next
    case None
    then have run: "store_anchors u T clock anchor edge own vals (n + 2) g1 = (err, g')" using s1 Cons.prems(7) by (simp add: Let_def)
    have own1: "isFact g1 (Key (hasher g1) (Fact own))" using adds_fact [OF g1(2) Cons.prems(2)] h1 by simp
    have "healthy M g' \<and> adds g1 g' \<and> (err = None \<longrightarrow> (\<forall>w \<in> set vals. adj g' (Key (hasher g1) (Fact own)) (keyof w) \<noteq> None))"
      using Cons.prems(3-6) by (intro Cons.IH [OF g1(1) own1 _ _ _ _ run]) (auto simp: h1)
    moreover from this have "adj g' (Key (hasher g) (Fact own)) (keyof w) \<noteq> None"
      using adds_edge [OF _ g1(3) [OF None]] by blast
    ultimately show ?thesis using h1 adds_trans [OF g1(2)] by simp
  qed
qed

section \<open>Properties\<close>

definition query_covered :: "runes set \<Rightarrow> 'p RememberQuery \<Rightarrow> bool" where
  "query_covered M r \<longleftrightarrow> covered M (Fact \<lparr>na_Value = mq_Value r, na_Timestamp = 0\<rparr>) \<and>
     (\<forall>e \<in> set (mq_Entities r). covered M (Mentions \<lparr>na_Value = mq_Value r, na_Timestamp = 0\<rparr>
        \<lparr>na_Value = e, na_Timestamp = 0\<rparr> \<lparr>na_Value = [], na_Timestamp = 0\<rparr>)) \<and>
     (\<forall>t \<in> set (mq_Topics r). covered M (IsAbout \<lparr>na_Value = mq_Value r, na_Timestamp = 0\<rparr>
        \<lparr>na_Value = t, na_Timestamp = 0\<rparr> \<lparr>na_Value = [], na_Timestamp = 0\<rparr>))"

definition fact_key :: "('k, 'ti, 'vi) InMemoryGraph \<Rightarrow> runes \<Rightarrow> 'k" where
  "fact_key g v = hasher g (str ''fact:'' @ v)"

definition entity_key :: "('k, 'ti, 'vi) InMemoryGraph \<Rightarrow> runes \<Rightarrow> 'k" where
  "entity_key g v = hasher g (str ''entity:'' @ v)"

definition topic_key :: "('k, 'ti, 'vi) InMemoryGraph \<Rightarrow> runes \<Rightarrow> 'k" where
  "topic_key g v = hasher g (str ''topic:'' @ v)"

text \<open>C20: As long as no two of the texts hashed share a key and none holds a NUL, a write keeps the graph well
  formed, every node and every edge, whether it succeeds or fails; when it succeeds, the fact stands
  under its key with the time of the write and is filed under each entity and each topic it names.\<close>

theorem remember_files_fact:
  assumes ok: "healthy M g" and q: "query_covered M r"
    and run: "commit_write u T V clock r g = (err, g')"
  shows "healthy M g' \<and> extends g g' \<and>
    (err = None \<longrightarrow> graph_Get g' (fact_key g (mq_Value r)) = Some (Fact \<lparr>na_Value = mq_Value r, na_Timestamp = clock 0\<rparr>) \<and>
       (\<forall>e \<in> set (mq_Entities r). adj g' (fact_key g (mq_Value r)) (entity_key g e) \<noteq> None) \<and>
       (\<forall>t \<in> set (mq_Topics r). adj g' (fact_key g (mq_Value r)) (topic_key g t) \<noteq> None))"
proof -
  define own where "own = \<lparr>na_Value = mq_Value r, na_Timestamp = clock 0\<rparr>"
  have key: "Key (hasher g) (Fact own) = fact_key g (mq_Value r)" by (simp add: Key_def own_def fact_key_def)
  have cov: "covered M (Fact own)" using q by (simp add: query_covered_def covered_def parts_of_def nul_free_def own_def)
  have entities: "covered M (NamedEntity \<lparr>na_Value = e, na_Timestamp = t\<rparr>) \<and>
      covered M (Mentions own \<lparr>na_Value = e, na_Timestamp = t\<rparr> \<lparr>na_Value = [], na_Timestamp = t'\<rparr>)" if "e \<in> set (mq_Entities r)" for e t t'
    using q that by (auto simp: query_covered_def covered_def parts_of_def nul_free_def own_def)
  have topics: "covered M (Topic \<lparr>na_Value = e, na_Timestamp = t\<rparr>) \<and>
      covered M (IsAbout own \<lparr>na_Value = e, na_Timestamp = t\<rparr> \<lparr>na_Value = [], na_Timestamp = t'\<rparr>)" if "e \<in> set (mq_Topics r)" for e t t'
    using q that by (auto simp: query_covered_def covered_def parts_of_def nul_free_def own_def)
  obtain e1 g1 where s1: "index_vector V (Key (hasher g) (Fact own)) (mq_Vector r) g = (e1, g1)" by fastforce
  have same: "idToNodes g1 = idToNodes g" "nodeToSources g1 = nodeToSources g" "nodeToTargets g1 = nodeToTargets g"
    "hasher g1 = hasher g" "sequences g1 = sequences g" "contiguity g1 = contiguity g"
    using s1 by (auto simp: index_vector_def Let_def split: if_splits prod.splits)
  have g1: "healthy M g1"
    using ok graph_ok_frame [of g1 g] caches_ok_frame [of g1 g] by (simp add: healthy_def same)
  have x1: "extends g g1" by (simp add: extends_def same graph_Get_def adj_def)
  show ?thesis
  proof (cases e1)
    case (Some e)
    then have "err = Some (IndexingVector e)" "g' = g1" using run s1 by (simp_all add: commit_write_def own_def Let_def)
    then show ?thesis using g1 x1 by simp
  next
    case None1: None
    obtain e2 g2 where s2: "graph_Put u T (Key (hasher g) (Fact own)) (Some (Fact own)) g1 = (e2, g2)" by fastforce
    then have st: "store u T (Key (hasher g1) (Fact own)) (Fact own) g1 = (e2, g2)" by (simp add: graph_Put_def same)
    have "\<And>a b. \<not> between (hasher g1) (Fact own) a b" by (simp add: between_def)
    then have g2: "healthy M g2" "extends g1 g2" "graph_Get g2 (fact_key g (mq_Value r)) = Some (Fact own)"
      using store_healthy [OF g1 cov _ st] key by (auto simp: same)
    have x2: "extends g g2" by (rule extends_trans [OF x1 g2(2)])
    have h2: "hasher g2 = hasher g" using x2 by (simp add: extends_def)
    have own2: "isFact g2 (Key (hasher g2) (Fact own))" using g2(3) by (simp add: isFact_def h2 key)
    show ?thesis
    proof (cases e2)
      case (Some e)
      then have "err = Some (StoringFact e)" "g' = g2" using run s1 s2 None1 by (simp_all add: commit_write_def own_def Let_def)
      then show ?thesis using g2 x2 by simp
    next
      case None2: None
      obtain e3 g3 where s3: "store_anchors u T clock NamedEntity Mentions own (mq_Entities r) 1 g2 = (e3, g3)" by fastforce
      have g3: "healthy M g3" "adds g2 g3" "e3 = None \<Longrightarrow> \<forall>e \<in> set (mq_Entities r). adj g3 (fact_key g (mq_Value r)) (entity_key g e) \<noteq> None"
        using store_anchors_healthy [OF g2(1) own2 _ _ entities _ s3, of "entity_key g"]
        by (auto simp: h2 fact_key_def own_def Key_def entity_key_def)
      have x3: "extends g g3" using extends_trans [OF x2] g3(2) by (auto simp: adds_def)
      have h3: "hasher g3 = hasher g" using x3 by (simp add: extends_def)
      show ?thesis
      proof (cases e3)
        case (Some e)
        then have "err = Some e" "g' = g3" using run s1 s2 s3 None1 None2 by (simp_all add: commit_write_def own_def Let_def)
        then show ?thesis using g3 x3 by simp
      next
        case None3: None
        have s4: "store_anchors u T clock Topic IsAbout own (mq_Topics r) (1 + 2 * length (mq_Entities r)) g3 = (err, g')"
          using run s1 s2 s3 None1 None2 None3 by (simp add: commit_write_def own_def Let_def)
        have own3: "isFact g3 (Key (hasher g3) (Fact own))" using adds_fact [OF g3(2) own2] by (simp add: h2 h3)
        have g4: "healthy M g'" "adds g3 g'" "err = None \<Longrightarrow> \<forall>t \<in> set (mq_Topics r). adj g' (fact_key g (mq_Value r)) (topic_key g t) \<noteq> None"
          using store_anchors_healthy [OF g3(1) own3 _ _ topics _ s4, of "topic_key g"]
          by (auto simp: h3 fact_key_def own_def Key_def topic_key_def)
        have "extends g g'" using extends_trans [OF x3] g4(2) by (auto simp: adds_def)
        moreover have "graph_Get g' (fact_key g (mq_Value r)) = Some (Fact own)"
          using g2(3) g3(2) g4(2) by (auto simp: adds_def)
        ultimately show ?thesis using g4 g3(3) None3 adds_edge [OF g4(2)] by (auto simp: own_def)
      qed
    qed
  qed
qed

text \<open>A graph keyed by the materials themselves, where no two keys collide.\<close>

type_synonym text_graph = "(runes, (runes, runes) fmap, (runes, nat list) fmap) InMemoryGraph"

definition blank :: text_graph where
  "blank = empty_graph (\<lambda>material. material) fmempty fmempty"

definition noted :: "string \<Rightarrow> runes list \<Rightarrow> runes list \<Rightarrow> nat RememberQuery" where
  "noted text entities topics = \<lparr>mq_Value = str text, mq_Entities = entities, mq_Topics = topics, mq_Vector = [], mq_GraphID = 0\<rparr>"

definition jot :: "nat RememberQuery \<Rightarrow> text_graph \<Rightarrow> commit_error option \<times> text_graph" where
  "jot = commit_write ascii document_index document_index (\<lambda>n. 7)"

lemma blank_healthy: "healthy UNIV blank"
  by (simp add: healthy_def blank_def empty_ok) (simp add: empty_graph_def)

theorem remember_files_fact_witness:
  "\<exists>g. jot (noted ''-'' [str ''+''] [str ''*'']) blank = (None, g) \<and>
     graph_Get g (str ''fact:-'') = Some (Fact \<lparr>na_Value = str ''-'', na_Timestamp = 7\<rparr>) \<and>
     adj g (str ''fact:-'') (str ''entity:+'') \<noteq> None \<and> adj g (str ''fact:-'') (str ''topic:*'') \<noteq> None"
proof -
  let ?q = "noted ''-'' [str ''+''] [str ''*'']"
  have none: "fst (jot ?q blank) = None" by code_simp
  then obtain g where run: "jot ?q blank = (None, g)" by (metis prod.collapse)
  have q: "query_covered UNIV ?q"
    by (simp add: query_covered_def noted_def covered_def parts_of_def nul_free_def str_def)
  show ?thesis
    using remember_files_fact [OF blank_healthy q run [unfolded jot_def]] run
    by (simp add: noted_def fact_key_def entity_key_def topic_key_def blank_def empty_graph_def str_def)
qed


section \<open>A vector that does not fit\<close>

text \<open>What the vector index promises: an insert or an update it refuses leaves it as it was.\<close>

definition refuses_cleanly :: "('k, 'v, 'i) index_ops \<Rightarrow> bool" where
  "refuses_cleanly V \<longleftrightarrow> (\<forall>i key v. (fst (ix_Insert V i key v) \<noteq> None \<longrightarrow> snd (ix_Insert V i key v) = i) \<and>
     (fst (ix_Update V i key v) \<noteq> None \<longrightarrow> snd (ix_Update V i key v) = i))"


text \<open>An index of vectors of length 2, given one of length 1.\<close>

definition planar_index :: "(runes, nat list, (runes, nat list) fmap) index_ops" where
  "planar_index = document_index\<lparr>ix_Insert := (\<lambda>i k v. if length v = 2 then (None, fmupd k v i) else (Some ErrInvalidDimension, i)),
     ix_Update := (\<lambda>i k v. if length v = 2 then (None, fmupd k v i) else (Some ErrInvalidDimension, i))\<rparr>"

definition example_lib :: "(runes, (runes, runes) fmap, (runes, nat list) fmap, nat) search_lib" where
  "example_lib = \<lparr>ops_text = document_index, ops_vector = planar_index,
     text_reader = (\<lambda>_. \<lparr>rd_Search = (\<lambda>_ _ _ _. Inl ErrEmptyIndex)\<rparr>), vector_reader = \<lparr>rd_Search = (\<lambda>_ _ _ _. Inl ErrEmptyIndex)\<rparr>,
     tx_Information = (\<lambda>_ _ _. (0, [])), ranges = (\<lambda>_ _ _. 0), letters = ascii\<rparr>"


end
