(* ===== verification/Hash.thy ===== *)
theory Hash
  imports Config "HOL-Library.Word"
begin

unbundle bit_operations_syntax

text \<open>
  The hashes of \<open>internal/hash\<close> (xxhash.go, t1ha.go, hash.go), on the bytes of a text, with the wrap-around of \<open>uint64\<close>.
  A text is the list of its bytes; slicing off the front is \<open>drop\<close>. The graph and the query key their values by
  such a hash, which their theories take as an argument. The lemmas of the last section run the definitions on the
  reference vectors of the source's tests.
\<close>

type_synonym bytes = "8 word list"

definition little_endian :: "nat \<Rightarrow> bytes \<Rightarrow> 64 word" where
  "little_endian n data = foldr (\<lambda>b w. w * 256 + ucast b) (take n data) 0"

section \<open>XXH64\<close>

definition xxp1 :: "64 word" where "xxp1 = 0x9E3779B185EBCA87"
definition xxp2 :: "64 word" where "xxp2 = 0xC2B2AE3D27D4EB4F"
definition xxp3 :: "64 word" where "xxp3 = 0x165667B19E3779F9"
definition xxp4 :: "64 word" where "xxp4 = 0x85EBCA77C2B2AE63"
definition xxp5 :: "64 word" where "xxp5 = 0x27D4EB2F165667C5"

definition xxRound :: "64 word \<Rightarrow> 64 word \<Rightarrow> 64 word" where
  "xxRound acc input = word_rotl 31 (acc + input * xxp2) * xxp1"

definition xxMergeRound :: "64 word \<Rightarrow> 64 word \<Rightarrow> 64 word" where
  "xxMergeRound acc val = (acc XOR xxRound 0 val) * xxp1 + xxp4"

text \<open>The loops: blocks of 32 bytes in four lanes, then words of 8, then bytes. Each returns what is left of the data.\<close>

function xx_blocks :: "bytes \<Rightarrow> 64 word \<times> 64 word \<times> 64 word \<times> 64 word \<Rightarrow> (64 word \<times> 64 word \<times> 64 word \<times> 64 word) \<times> bytes" where
  "xx_blocks data (v1, v2, v3, v4) =
     (if length data \<ge> 32
      then xx_blocks (drop 32 data)
        (xxRound v1 (little_endian 8 data), xxRound v2 (little_endian 8 (drop 8 data)),
         xxRound v3 (little_endian 8 (drop 16 data)), xxRound v4 (little_endian 8 (drop 24 data)))
      else ((v1, v2, v3, v4), data))"
  by pat_completeness auto
termination by (relation "measure (\<lambda>(data, v). length data)") auto

function xx_words :: "bytes \<Rightarrow> 64 word \<Rightarrow> 64 word \<times> bytes" where
  "xx_words data h =
     (if length data \<ge> 8
      then xx_words (drop 8 data) (word_rotl 27 (h XOR xxRound 0 (little_endian 8 data)) * xxp1 + xxp4)
      else (h, data))"
  by pat_completeness auto
termination by (relation "measure (\<lambda>(data, h). length data)") auto

declare xx_blocks.simps [simp del] xx_words.simps [simp del]

definition xx_half :: "bytes \<Rightarrow> 64 word \<Rightarrow> 64 word \<times> bytes" where
  "xx_half data h =
     (if length data \<ge> 4 then (word_rotl 23 (h XOR (little_endian 4 data * xxp1)) * xxp2 + xxp3, drop 4 data) else (h, data))"

definition xx_byte :: "64 word \<Rightarrow> 8 word \<Rightarrow> 64 word" where
  "xx_byte h b = word_rotl 11 (h XOR (ucast b * xxp5)) * xxp1"

definition xx_avalanche :: "64 word \<Rightarrow> 64 word" where
  "xx_avalanche h =
     (let h = h XOR drop_bit 33 h; h = h * xxp2; h = h XOR drop_bit 29 h; h = h * xxp3 in h XOR drop_bit 32 h)"

definition xx_start :: "bytes \<Rightarrow> 64 word \<Rightarrow> 64 word \<times> bytes" where
  "xx_start data seed =
     (if length data \<ge> 32 then
        (let ((v1, v2, v3, v4), rest) = xx_blocks data (seed + xxp1 + xxp2, seed + xxp2, seed, seed - xxp1);
             h = word_rotl 1 v1 + word_rotl 7 v2 + word_rotl 12 v3 + word_rotl 18 v4
         in (xxMergeRound (xxMergeRound (xxMergeRound (xxMergeRound h v1) v2) v3) v4, rest))
      else (seed + xxp5, data))"

definition xxh64 :: "bytes \<Rightarrow> 64 word \<Rightarrow> 64 word" where
  "xxh64 data seed =
     (let (h, rest) = xx_start data seed; (h, rest) = xx_words rest (h + of_nat (length data)); (h, rest) = xx_half rest h
      in xx_avalanche (foldl xx_byte h rest))"

section \<open>t1ha1\<close>

definition t1p0 :: "64 word" where "t1p0 = 0xEC99BF0D8372CAAB"
definition t1p1 :: "64 word" where "t1p1 = 0x82434FE90EDCEF39"
definition t1p2 :: "64 word" where "t1p2 = 0xD4F06DB99D67BE4B"
definition t1p3 :: "64 word" where "t1p3 = 0xBD9CACC22C6E9571"
definition t1p4 :: "64 word" where "t1p4 = 0x9C06FAF4D023E3AB"
definition t1p5 :: "64 word" where "t1p5 = 0xC060724A8424F345"
definition t1p6 :: "64 word" where "t1p6 = 0xCB5AF53AE3AAAC31"

definition rot64 :: "64 word \<Rightarrow> nat \<Rightarrow> 64 word" where
  "rot64 v s = word_rotr s v"

definition mux64 :: "64 word \<Rightarrow> 64 word \<Rightarrow> 64 word" where
  "mux64 v prime = (let p = ucast v * ucast prime :: 128 word in ucast p XOR ucast (drop_bit 64 p))"

definition mix64 :: "64 word \<Rightarrow> 64 word \<Rightarrow> 64 word" where
  "mix64 v p = (let v = v * p in v XOR rot64 v 41)"

definition finalWeakAvalanche :: "64 word \<Rightarrow> 64 word \<Rightarrow> 64 word" where
  "finalWeakAvalanche a b = mux64 (rot64 (a + b) 17) t1p4 + mix64 (a XOR b) t1p0"

text \<open>The last word: the low \<open>tail mod 8\<close> bytes, or 8 when that is 0, little-endian, as the cases of the code assemble it.\<close>

definition tail64LE :: "bytes \<Rightarrow> nat \<Rightarrow> 64 word" where
  "tail64LE p tail =
     (let byte = (\<lambda>i. ucast (p ! i) :: 64 word); five = (\<lambda>r. push_bit 32 (r + byte 4) + little_endian 4 p);
          six = (\<lambda>r. five (push_bit 8 (r + byte 5))); two = (\<lambda>r. r + little_endian 2 p)
      in case tail mod 8 of
           0 \<Rightarrow> little_endian 8 p
         | Suc 0 \<Rightarrow> byte 0
         | Suc (Suc 0) \<Rightarrow> two 0
         | Suc (Suc (Suc 0)) \<Rightarrow> two (push_bit 16 (byte 2))
         | Suc (Suc (Suc (Suc 0))) \<Rightarrow> little_endian 4 p
         | Suc (Suc (Suc (Suc (Suc 0)))) \<Rightarrow> five 0
         | Suc (Suc (Suc (Suc (Suc (Suc 0))))) \<Rightarrow> six 0
         | _ \<Rightarrow> six (push_bit 8 (byte 6)))"

function t1_blocks :: "bytes \<Rightarrow> 64 word \<times> 64 word \<times> 64 word \<times> 64 word \<Rightarrow> (64 word \<times> 64 word \<times> 64 word \<times> 64 word) \<times> bytes" where
  "t1_blocks data (a, b, c, d) =
     (if length data \<ge> 32 then
        let w0 = little_endian 8 data; w1 = little_endian 8 (drop 8 data); w2 = little_endian 8 (drop 16 data);
            w3 = little_endian 8 (drop 24 data); d02 = w0 XOR rot64 (w2 + d) 17; c13 = w1 XOR rot64 (w3 + c) 17
        in t1_blocks (drop 32 data)
             (a XOR (t1p1 * (d02 + w3)), b XOR (t1p0 * (c13 + w2)), c + (a XOR rot64 w0 41), d - (b XOR rot64 w1 31))
      else ((a, b, c, d), data))"
  by pat_completeness auto
termination by (relation "measure (\<lambda>(data, v). length data)") auto

declare t1_blocks.simps [simp del]

definition t1_start :: "bytes \<Rightarrow> 64 word \<Rightarrow> (64 word \<times> 64 word) \<times> bytes" where
  "t1_start data seed =
     (let len = of_nat (length data)
      in if length data > 32 then
           (let ((a, b, c, d), rest) = t1_blocks data (seed, len, rot64 len 17 + seed, len XOR rot64 seed 17)
            in ((a XOR (t1p6 * (rot64 c 17 + d)), b XOR (t1p5 * (c + rot64 d 17))), rest))
         else ((seed, len), data))"

definition t1ha1LE :: "bytes \<Rightarrow> 64 word \<Rightarrow> 64 word" where
  "t1ha1LE data seed =
     (let ((a, b), v) = t1_start data seed; rl = length v;
          (b, v) = (if rl > 24 then (b + mux64 (little_endian 8 v) t1p4, drop 8 v) else (b, v));
          (a, v) = (if rl > 16 then (a + mux64 (little_endian 8 v) t1p3, drop 8 v) else (a, v));
          (b, v) = (if rl > 8 then (b + mux64 (little_endian 8 v) t1p2, drop 8 v) else (b, v));
          a = (if rl > 0 then a + mux64 (tail64LE v rl) t1p1 else a)
      in finalWeakAvalanche a b)"

section \<open>The configured hasher\<close>

datatype Hasher = XxHash "64 word" | T1haHash "64 word"

fun hasher_Hash :: "Hasher \<Rightarrow> bytes \<Rightarrow> 64 word" where
  "hasher_Hash (XxHash seed) data = xxh64 data seed"
| "hasher_Hash (T1haHash seed) data = t1ha1LE data seed"

fun hasher_Seed :: "Hasher \<Rightarrow> 64 word" where
  "hasher_Seed (XxHash seed) = seed"
| "hasher_Seed (T1haHash seed) = seed"

definition NewHasher :: "ConfigSet \<Rightarrow> Hasher" where
  "NewHasher cfg =
     (let f = HashingFn (DB cfg) in if hf_Name f = str ''t1ha'' then T1haHash (hf_Seed f) else XxHash (hf_Seed f))"

section \<open>Reference vectors\<close>

definition text_bytes :: "string \<Rightarrow> bytes" where
  "text_bytes s = map of_char s"

lemma xxh64_vectors:
  "xxh64 (text_bytes '''') 0 = 0xef46db3751d8e999"
  "xxh64 (text_bytes ''abc'') 0 = 0x44bc2cf5ad770999"
  "xxh64 (text_bytes ''The quick brown fox jumps over the lazy dog'') 0 = 0x0b242d361fda71bc"
  by code_simp+

lemma t1ha_vectors:
  "t1ha1LE (text_bytes ''abc'') 0 = 0xaaf29d916709fed8"
  "t1ha1LE (text_bytes ''message digest'') 0 = 0xe84ee2de03aba67d"
  "t1ha1LE (text_bytes ''The quick brown fox jumps over the lazy dog'') 0 = 0x86235f2773f9ada1"
  by code_simp+

section \<open>Every step of XXH64 is injective\<close>

lemma word_cancel:
  assumes "c * d = (1 :: 64 word)"
  shows "x * c = y * c \<longleftrightarrow> x = y"
proof
  assume "x * c = y * c"
  then have "x * (c * d) = y * (c * d)" by (simp only: mult.assoc [symmetric])
  then show "x = y" unfolding assms mult.right_neutral .
qed simp

lemma primes_invertible: "xxp1 * 0x887493432badb37 = 1" "xxp2 * 0xba79078168d4baf = 1" "xxp3 * 0xe9e9f4c41d6df849 = 1"
    "xxp5 * 0xc592c09fdfba7f0d = 1"
  by (simp_all add: xxp1_def xxp2_def xxp3_def xxp5_def)

lemmas times_prime [simp] = primes_invertible [THEN word_cancel]

lemma rotl_eq [simp]: "word_rotl n x = word_rotl n y \<longleftrightarrow> x = y"
proof
  assume "word_rotl n x = word_rotl n y"
  then have "word_rotr n (word_rotl n x) = word_rotr n (word_rotl n y)" by (rule arg_cong)
  then show "x = y" unfolding word_rot_lr .
qed simp

lemma xor_left [simp]: "x XOR z = y XOR z \<longleftrightarrow> x = (y :: 64 word)"
proof
  assume "x XOR z = y XOR z"
  then have "(x XOR z) XOR z = (y XOR z) XOR z" by (rule arg_cong)
  then show "x = y" unfolding xor.assoc xor_self_eq xor.right_neutral .
qed simp

lemma xor_right [simp]: "z XOR x = z XOR y \<longleftrightarrow> x = (y :: 64 word)"
  using xor_left [of x z y] by (simp add: xor.commute)

lemma xor_shift:
  fixes x y :: "64 word"
  assumes s: "0 < s" and eq: "x XOR drop_bit s x = y XOR drop_bit s y"
  shows "x = y"
proof -
  have shift: "bit x n \<noteq> bit y n \<longleftrightarrow> bit x (s + n) \<noteq> bit y (s + n)" for n
    using arg_cong [OF eq, of "\<lambda>w. bit w n"] by (auto simp: bit_xor_iff bit_drop_bit_eq)
  have "bit x n = bit y n" for n
  proof (induction "64 - n" arbitrary: n rule: less_induct)
    case less
    show ?case
    proof (cases "n < 64")
      case True
      then have "bit x (s + n) = bit y (s + n)" using less [of "s + n"] s by simp
      then show ?thesis using shift by blast
    qed (use bit_imp_le_length [of x n] bit_imp_le_length [of y n] in auto)
  qed
  then show ?thesis by (rule bit_eqI)
qed

lemma avalanche_eq: "xx_avalanche x = xx_avalanche y \<Longrightarrow> x = y"
  unfolding xx_avalanche_def Let_def by (drule xor_shift [rotated], simp, simp, drule xor_shift [rotated], simp, simp, erule xor_shift [rotated], simp)

lemma xxRound_input [simp]: "xxRound acc x = xxRound acc y \<longleftrightarrow> x = y"
  by (simp add: xxRound_def)

definition le_nat :: "bytes \<Rightarrow> nat" where
  "le_nat bs = foldr (\<lambda>b m. m * 256 + unat b) bs 0"

lemma byte_less: "unat (b :: 8 word) < 256"
  using unsigned_less [of b] by simp

lemma le_nat_less: "le_nat bs < 256 ^ length bs"
proof (induction bs)
  case (Cons b bs)
  then have "le_nat bs * 256 + unat b < (le_nat bs + 1) * 256" "(le_nat bs + 1) * 256 \<le> 256 ^ length bs * 256"
    using byte_less [of b] by simp_all
  then show ?case by (simp add: le_nat_def mult.commute)
qed (simp add: le_nat_def)

lemma le_nat_inj: "length xs = length ys \<Longrightarrow> le_nat xs = le_nat ys \<Longrightarrow> xs = ys"
proof (induction xs ys rule: list_induct2)
  case (Cons x xs y ys)
  have e: "le_nat xs * 256 + unat x = le_nat ys * 256 + unat y" using Cons.prems by (simp add: le_nat_def)
  have "unat x = unat y" using arg_cong [OF e, of "\<lambda>n. n mod 256"] byte_less [of x] byte_less [of y] by simp
  moreover from this have "le_nat xs = le_nat ys" using e by simp
  ultimately show ?case using Cons.IH by (simp add: unsigned_word_eqI)
qed simp

lemma little_endian_nat: "little_endian n data = of_nat (le_nat (take n data))"
proof -
  have "foldr (\<lambda>b w. w * 256 + ucast b) bs 0 = (of_nat (le_nat bs) :: 64 word)" for bs :: bytes
    by (induction bs) (simp_all add: le_nat_def)
  then show ?thesis by (simp add: little_endian_def)
qed

lemma little_endian_eq:
  assumes "n \<le> 8" "length xs = length ys" "little_endian n xs = little_endian n ys"
  shows "take n xs = take n ys"
proof -
  have "le_nat (take n zs) < 2 ^ 64" for zs
  proof -
    have "(256 :: nat) ^ length (take n zs) \<le> 256 ^ 8" by (rule power_increasing) (use assms(1) in auto)
    then show ?thesis using le_nat_less [of "take n zs"] by simp
  qed
  then have "unat (of_nat (le_nat (take n zs)) :: 64 word) = le_nat (take n zs)" for zs by (simp add: unat_of_nat take_bit_eq_mod)
  then have "le_nat (take n xs) = le_nat (take n ys)" using assms(3) unfolding little_endian_nat by metis
  then show ?thesis using assms(2) by (intro le_nat_inj) simp
qed

lemma other_word:
  assumes "i < n" "n \<le> 8" "i < length data" "c \<noteq> data ! i"
  shows "little_endian n (data[i := c]) \<noteq> little_endian n data"
proof
  assume "little_endian n (data[i := c]) = little_endian n data"
  from little_endian_eq [OF assms(2) _ this] have "take n (data[i := c]) ! i = take n data ! i" by simp
  then show False using assms by simp
qed

section \<open>The short texts\<close>

definition xx_rest :: "bytes \<Rightarrow> 64 word \<Rightarrow> 64 word" where
  "xx_rest data h = (let (h, rest) = xx_half data h in foldl xx_byte h rest)"

definition xx_tail :: "bytes \<Rightarrow> 64 word \<Rightarrow> 64 word" where
  "xx_tail data h = (let (h, rest) = xx_words data h in xx_rest rest h)"

lemma xxh64_short: "length data < 32 \<Longrightarrow> xxh64 data seed = xx_avalanche (xx_tail data (seed + xxp5 + of_nat (length data)))"
  by (simp add: xxh64_def xx_start_def xx_tail_def xx_rest_def split_beta Let_def)

lemma xx_tail_step: "xx_tail data h =
    (if length data \<ge> 8 then xx_tail (drop 8 data) (word_rotl 27 (h XOR xxRound 0 (little_endian 8 data)) * xxp1 + xxp4) else xx_rest data h)"
  unfolding xx_tail_def by (subst xx_words.simps) simp

lemma byte_eq: "xx_byte g b = xx_byte h b \<longleftrightarrow> g = h"
  by (simp add: xx_byte_def)

lemma byte_other: "xx_byte h b = xx_byte h c \<longleftrightarrow> b = c"
proof -
  have "unat (ucast b :: 64 word) = unat b" for b :: "8 word" using byte_less [of b] by (simp add: unsigned_ucast_eq take_bit_word_eq_self take_bit_nat_eq_self)
  then have "ucast b = (ucast c :: 64 word) \<longleftrightarrow> b = c" by (metis unsigned_word_eqI)
  then show ?thesis by (simp add: xx_byte_def)
qed

lemma bytes_eq: "foldl xx_byte g bs = foldl xx_byte h bs \<longleftrightarrow> g = h"
  by (induction bs arbitrary: g h) (simp_all add: byte_eq)

lemma bytes_other: "i < length bs \<Longrightarrow> c \<noteq> bs ! i \<Longrightarrow> foldl xx_byte h (bs[i := c]) \<noteq> foldl xx_byte h bs"
  by (induction bs arbitrary: h i) (auto simp: bytes_eq byte_other split: nat.split)

lemma rest_eq: "xx_rest data g = xx_rest data h \<longleftrightarrow> g = h"
  by (simp add: xx_rest_def xx_half_def bytes_eq)

lemma rest_other:
  assumes "i < length data" "c \<noteq> data ! i"
  shows "xx_rest (data[i := c]) h \<noteq> xx_rest data h"
proof (cases "length data \<ge> 4 \<and> i < 4")
  case True
  then show ?thesis using other_word [of i 4 data c] assms by (simp add: xx_rest_def xx_half_def bytes_eq)
next
  case False
  then show ?thesis
    using assms bytes_other [of "i - 4" "drop 4 data" c] bytes_other [of i data c]
    by (auto simp: xx_rest_def xx_half_def drop_update_swap little_endian_nat take_update_cancel)
qed

lemma tail_eq: "xx_tail data g = xx_tail data h \<longleftrightarrow> g = h"
proof (induction data arbitrary: g h rule: measure_induct_rule [of length])
  case (less data)
  show ?case
  proof (cases "length data \<ge> 8")
    case True
    then show ?thesis using less [of "drop 8 data"] by (simp add: xx_tail_step [of data])
  qed (simp add: xx_tail_step [of data] rest_eq)
qed

lemma tail_other: "i < length data \<Longrightarrow> c \<noteq> data ! i \<Longrightarrow> xx_tail (data[i := c]) h \<noteq> xx_tail data h"
proof (induction data arbitrary: h i rule: measure_induct_rule [of length])
  case (less data)
  show ?case
  proof (cases "length data \<ge> 8")
    case True
    show ?thesis
    proof (cases "i < 8")
      case True
      then show ?thesis using \<open>8 \<le> length data\<close> other_word [of i 8 data c] less.prems
        by (simp add: xx_tail_step [of data] xx_tail_step [of "data[i := c]"] tail_eq)
    next
      case False
      then show ?thesis using \<open>8 \<le> length data\<close> less.IH [of "drop 8 data" "i - 8"] less.prems
        by (simp add: xx_tail_step [of data] xx_tail_step [of "data[i := c]"] drop_update_swap little_endian_nat take_update_cancel)
    qed
  next
    case False
    then show ?thesis using less.prems rest_other by (simp add: xx_tail_step [of data] xx_tail_step [of "data[i := c]"])
  qed
qed

text \<open>C34: On texts shorter than 32 bytes XXH64 separates every change of one byte, and every change of the seed: no such
  pair of texts, and no pair of seeds, shares a key.\<close>

theorem short_hash_separates:
  assumes short: "length data < 32"
  shows "(i < length data \<and> c \<noteq> data ! i \<longrightarrow> hasher_Hash (XxHash seed) (data[i := c]) \<noteq> hasher_Hash (XxHash seed) data) \<and>
    (seed \<noteq> seed' \<longrightarrow> hasher_Hash (XxHash seed) data \<noteq> hasher_Hash (XxHash seed') data)"
proof -
  let ?h = "\<lambda>s. s + xxp5 + of_nat (length data)"
  have "i < length data \<and> c \<noteq> data ! i \<Longrightarrow> xx_avalanche (xx_tail (data[i := c]) (?h seed)) \<noteq> xx_avalanche (xx_tail data (?h seed))"
    using tail_other [of i data c "?h seed"] avalanche_eq by blast
  moreover have "seed \<noteq> seed' \<Longrightarrow> xx_avalanche (xx_tail data (?h seed)) \<noteq> xx_avalanche (xx_tail data (?h seed'))"
    using tail_eq [of data "?h seed" "?h seed'"] avalanche_eq by auto
  ultimately show ?thesis using short by (simp add: xxh64_short)
qed

theorem short_hash_separates_witness:
  "hasher_Hash (XxHash 0) (text_bytes ''abc'') \<noteq> hasher_Hash (XxHash 0) (text_bytes ''abd'') \<and>
   hasher_Hash (XxHash 0) (text_bytes ''abc'') \<noteq> hasher_Hash (XxHash 1) (text_bytes ''abc'')"
proof -
  have short: "length (text_bytes ''abc'') < 32" by (simp add: text_bytes_def)
  have "(text_bytes ''abc'')[2 := 100] = text_bytes ''abd''" "text_bytes ''abc'' ! 2 \<noteq> 100" "2 < length (text_bytes ''abc'')" by code_simp+
  then show ?thesis using short_hash_separates [OF short, of 2 100 0 1] by auto
qed

end
