(* ===== verification/Store_DB.thy ===== *)
theory Store_DB
  imports Query_Commit
begin

text \<open>
  \<open>pkg/db\<close>: the graphs of the store by selector. A slot is empty before \<open>Start\<close> and after \<open>Stop\<close>. A graph is
  built with the traversal and the scorer the configuration names; \<open>hf\<close>, \<open>ti\<close> and \<open>vi\<close> stand for the
  hasher and the two empty indexes \<open>NewGraph\<close> makes from the configuration.
\<close>

datatype db_error = ErrIndexOutOfBounds nat nat | ErrRelevanceModelMismatch nat runes runes

record ('k, 'ti, 'vi) DB =
  db_Config :: ConfigSet
  Graphs :: "(('k, 'ti, 'vi) InMemoryGraph \<times> SearchSettings) option list"

definition numGraphs :: "ConfigSet \<Rightarrow> nat" where
  "numGraphs cfg = nat (if NumGraphs (DB cfg) \<le> 0 then 8 else NumGraphs (DB cfg))"

definition NewDB :: "ConfigSet \<Rightarrow> ('k, 'ti, 'vi) DB" where
  "NewDB cfg = \<lparr>db_Config = cfg, Graphs = replicate (numGraphs cfg) None\<rparr>"

text \<open>The model of the text index \<open>NewGraph\<close> leaves installed, by name: its own default unless BM25 is configured.\<close>

definition installed_relevance :: "ConfigSet \<Rightarrow> runes" where
  "installed_relevance cfg = (if RelevanceModel (DB cfg) = str ''bm25'' then str ''bm25'' else str ''matchcount'')"

definition graph_settings :: "ConfigSet \<Rightarrow> SearchSettings" where
  "graph_settings cfg =
     (let search = SearchAlgorithm (DB cfg); scoring = ScoringAlgorithm (DB cfg)
      in \<lparr>ss_traversal = (if search = str ''excess'' then Some ExcessTraversal
                          else if search = str ''bfs'' then Some (BFSTraversal Both) else None),
          ss_scorer = (if scoring = str ''information'' then Information NewInformationScorer
                       else if scoring = str ''rrf'' then RRF \<lparr>rrf_k = DefaultRRFK\<rparr> else Excess NewExcessScorer),
          ss_config = cfg\<rparr>)"

text \<open>The loop builds the slots in order and stops at the first mismatch.\<close>

fun start_slots :: "(runes \<Rightarrow> 'k) \<Rightarrow> 'ti \<Rightarrow> 'vi \<Rightarrow> nat \<Rightarrow> nat \<Rightarrow> ('k, 'ti, 'vi) DB \<Rightarrow> db_error option \<times> ('k, 'ti, 'vi) DB" where
  "start_slots hf ti vi i 0 d = (None, d)"
| "start_slots hf ti vi i (Suc n) d =
     (let want = RelevanceModel (DB (db_Config d)); got = installed_relevance (db_Config d)
      in if got \<noteq> want then (Some (ErrRelevanceModelMismatch i got want), d)
         else start_slots hf ti vi (Suc i) n
           (d\<lparr>Graphs := (Graphs d)[i := Some (empty_graph hf ti vi, graph_settings (db_Config d))]\<rparr>))"

definition db_Start :: "(runes \<Rightarrow> 'k) \<Rightarrow> 'ti \<Rightarrow> 'vi \<Rightarrow> ('k, 'ti, 'vi) DB \<Rightarrow> db_error option \<times> ('k, 'ti, 'vi) DB" where
  "db_Start hf ti vi d = start_slots hf ti vi 0 (length (Graphs d)) d"

definition db_Stop :: "('k, 'ti, 'vi) DB \<Rightarrow> ('k, 'ti, 'vi) DB" where
  "db_Stop d = d\<lparr>Graphs := replicate (numGraphs (db_Config d)) None\<rparr>"

definition db_NumGraphs :: "('k, 'ti, 'vi) DB \<Rightarrow> nat" where
  "db_NumGraphs d = length (Graphs d)"

definition Select :: "('k, 'ti, 'vi) DB \<Rightarrow> 8 word \<Rightarrow> db_error + (('k, 'ti, 'vi) InMemoryGraph \<times> SearchSettings) option" where
  "Select d index =
     (if unat index \<ge> length (Graphs d) then Inl (ErrIndexOutOfBounds (unat index) (length (Graphs d)))
      else Inr (Graphs d ! unat index))"

section \<open>A validated configuration starts\<close>

lemma start_slots_all:
  assumes "installed_relevance (db_Config d) = RelevanceModel (DB (db_Config d))" "i + n \<le> length (Graphs d)"
  shows "start_slots hf ti vi i n d = (None, d\<lparr>Graphs := take i (Graphs d) @
    replicate n (Some (empty_graph hf ti vi, graph_settings (db_Config d))) @ drop (i + n) (Graphs d)\<rparr>)"
  using assms
proof (induction n arbitrary: i d)
  case (Suc n)
  let ?g = "Some (empty_graph hf ti vi, graph_settings (db_Config d))"
  have i: "i < length (Graphs d)" using Suc.prems(2) by simp
  have t: "take (Suc i) ((Graphs d)[i := ?g]) = take i (Graphs d) @ [?g]"
    using i by (simp add: take_Suc_conv_app_nth)
  have dr: "drop (Suc (i + n)) ((Graphs d)[i := ?g]) = drop (Suc (i + n)) (Graphs d)" by simp
  show ?case
    using Suc.IH [of "d\<lparr>Graphs := (Graphs d)[i := ?g]\<rparr>" "Suc i"] Suc.prems t dr by (simp add: Let_def)
qed simp



end
