(* ===== verification/Store_Scheduler.thy ===== *)
theory Store_Scheduler
  imports Store_DB
begin

text \<open>
  \<open>pkg/scheduler\<close>: the goroutines that run the planned streams, as a step relation. A stream is known by
  a handle, its pointer. The read queue \<open>Queue\<close> stands at position 0 of \<open>sc_queues\<close> and \<open>Lanes[i]\<close> at
  position \<open>Suc i\<close>. A worker is at the \<open>select\<close> of \<open>worker\<close> or of \<open>drain\<close>, or inside \<open>execute\<close>: it has taken a
  stream, or it holds the lock of the stream's graph. \<open>sc_submits\<close> are the calls of \<open>Submit\<close> past the
  shutdown check, each with its queue, and \<open>sc_phase\<close> is where \<open>Stop\<close> stands. The timeouts, the contexts and
  the choices of \<open>select\<close> are nondeterministic. Two fields only record history: \<open>sc_accepted\<close>, what each
  queue accepted, and \<open>sc_ran\<close>, what was executed from it and with which clock.
\<close>

datatype stream_error = SelectError db_error | StreamCommit commit_error

datatype sched_error = ErrShutdown | ErrNoDatabase | ErrEnqueueStream | ErrQueueFull

type_synonym handle = nat
type_synonym clock = "nat \<Rightarrow> int"
type_synonym 'p run_stream = "('p, stream_error) commit_stream"

datatype job = Idle | Fetched handle | Locked handle

record worker =
  w_queue :: nat
  w_draining :: bool
  w_exited :: bool
  w_job :: job

text \<open>\<open>Running\<close> until \<open>quit\<close> is closed; \<open>Released\<close> once the queues are nil again.\<close>

datatype stop_phase = Running | AwaitSubmits | AwaitWorkers | FinalDrain | Released

record ('k, 'ti, 'vi, 'p) Scheduler =
  sc_Config :: ConfigSet
  sc_DB :: "('k, 'ti, 'vi) DB"
  sc_streams :: "handle \<Rightarrow> 'p run_stream option"
  sc_queues :: "handle list list"
  sc_workers :: "worker list"
  sc_submits :: "(handle \<times> nat) list"
  sc_replies :: "handle \<Rightarrow> sched_error option option"
  sc_phase :: stop_phase
  sc_accepted :: "handle list list"
  sc_ran :: "(handle \<times> clock) list list"

section \<open>Start\<close>

definition spawn :: "nat \<Rightarrow> worker" where
  "spawn q = \<lparr>w_queue = q, w_draining = False, w_exited = False, w_job = Idle\<rparr>"

definition sched_Start :: "ConfigSet \<Rightarrow> ('k, 'ti, 'vi) DB option \<Rightarrow> sched_error + ('k, 'ti, 'vi, 'p) Scheduler" where
  "sched_Start cfg attached =
     (case attached of
        None \<Rightarrow> Inl ErrNoDatabase
      | Some d \<Rightarrow>
          (let lanes = db_NumGraphs d
           in Inr \<lparr>sc_Config = cfg, sc_DB = d, sc_streams = (\<lambda>_. None), sc_queues = replicate (Suc lanes) [],
                sc_workers = replicate (nat (Workers (Scheduler cfg))) (spawn 0) @ map (\<lambda>i. spawn (Suc i)) [0..<lanes],
                sc_submits = [], sc_replies = (\<lambda>_. None), sc_phase = Running,
                sc_accepted = replicate (Suc lanes) [], sc_ran = replicate (Suc lanes) []\<rparr>))"

section \<open>Executing a stream\<close>

text \<open>\<open>execute\<close>, without the waiting of \<open>Acquire\<close>. A slot that \<open>Start\<close> of the database left empty is a nil
  interface, and the call of its lock panics: the result is \<open>None\<close>.\<close>

definition execute ::
    "('k, 'ti, 'vi, 'p) search_lib \<Rightarrow> clock \<Rightarrow> ('k :: linorder, 'ti, 'vi) DB \<Rightarrow> 'p run_stream \<Rightarrow>
     (stream_error option \<times> 'p run_stream \<times> ('k, 'ti, 'vi) DB) option" where
  "execute lib clock d s =
     (case Select d (st_GraphID s) of
        Inl e \<Rightarrow> Some (Some (SelectError e), Finish (s\<lparr>st_Err := Some (SelectError e)\<rparr>), d)
      | Inr None \<Rightarrow> None
      | Inr (Some (g, settings)) \<Rightarrow>
          (case Commit lib settings clock g s of (err, s1, g1) \<Rightarrow>
             (let d1 = d\<lparr>Graphs := (Graphs d)[unat (st_GraphID s) := Some (g1, settings)]\<rparr>
              in case err of
                   Some e \<Rightarrow> Some (Some (StreamCommit e), Finish (s1\<lparr>st_Err := Some (StreamCommit e)\<rparr>), d1)
                 | None \<Rightarrow> Some (None, Finish s1, d1))))"

text \<open>The queue \<open>Submit\<close> picks: a write goes on its graph's lane when there is one.\<close>

definition queue_of :: "nat \<Rightarrow> 'p run_stream \<Rightarrow> nat" where
  "queue_of lanes s = (if IsWrite (st_Query s) \<and> unat (st_GraphID s) < lanes then Suc (unat (st_GraphID s)) else 0)"

text \<open>\<open>Acquire\<close>: a write waits for every holder of the graph's lock, a read for a writing one.\<close>

definition holds :: "('k, 'ti, 'vi, 'p) Scheduler \<Rightarrow> worker \<Rightarrow> 'p run_stream option" where
  "holds s w = (case w_job w of Locked x \<Rightarrow> sc_streams s x | _ \<Rightarrow> None)"

definition conflicts :: "'p run_stream \<Rightarrow> 'p run_stream \<Rightarrow> bool" where
  "conflicts a b \<longleftrightarrow> st_GraphID a = st_GraphID b \<and> (IsWrite (st_Query a) \<or> IsWrite (st_Query b))"

definition lock_free :: "('k, 'ti, 'vi, 'p) Scheduler \<Rightarrow> 'p run_stream \<Rightarrow> bool" where
  "lock_free s st = list_all (\<lambda>w. case holds s w of Some other \<Rightarrow> \<not> conflicts st other | None \<Rightarrow> True) (sc_workers s)"

section \<open>Steps\<close>

definition set_job :: "nat \<Rightarrow> job \<Rightarrow> ('k, 'ti, 'vi, 'p) Scheduler \<Rightarrow> ('k, 'ti, 'vi, 'p) Scheduler" where
  "set_job i j s = s\<lparr>sc_workers := (sc_workers s)[i := (sc_workers s ! i)\<lparr>w_job := j\<rparr>]\<rparr>"

text \<open>What an execution leaves: the stream, the database, and one more entry of the history.\<close>

definition finish_run ::
    "nat \<Rightarrow> handle \<Rightarrow> clock \<Rightarrow> 'p run_stream \<Rightarrow> ('k, 'ti, 'vi) DB \<Rightarrow> ('k, 'ti, 'vi, 'p) Scheduler \<Rightarrow> ('k, 'ti, 'vi, 'p) Scheduler" where
  "finish_run q handle clock st d s = s\<lparr>sc_streams := (sc_streams s)(handle := Some st), sc_DB := d,
     sc_ran := (sc_ran s)[q := sc_ran s ! q @ [(handle, clock)]]\<rparr>"

text \<open>A call of \<open>Submit\<close> with a stream the planner made, up to the moment it parks on its queue, and a call
  of \<open>Stop\<close> up to the closing of \<open>quit\<close>. A call of \<open>Stop\<close> after another waits for it and changes nothing.\<close>

inductive sched_call :: "('k, 'ti, 'vi, 'p) Scheduler \<Rightarrow> ('k, 'ti, 'vi, 'p) Scheduler \<Rightarrow> bool" where
  submit: "sc_streams s handle = None \<Longrightarrow> \<not> st_done stream \<Longrightarrow> sc_phase s = Running \<Longrightarrow>
     sched_call s (s\<lparr>sc_streams := (sc_streams s)(handle := Some stream),
               sc_submits := (handle, queue_of (length (sc_queues s) - 1) stream) # sc_submits s\<rparr>)"
| submit_late: "sc_streams s handle = None \<Longrightarrow> \<not> st_done stream \<Longrightarrow> sc_phase s \<noteq> Running \<Longrightarrow>
     sched_call s (s\<lparr>sc_streams := (sc_streams s)(handle := Some stream), sc_replies := (sc_replies s)(handle := Some (Some ErrShutdown))\<rparr>)"
| stop: "sc_phase s = Running \<Longrightarrow> sched_call s (s\<lparr>sc_phase := AwaitSubmits\<rparr>)"

text \<open>The answer of a parked \<open>Submit\<close> that does not enqueue.\<close>

definition refusal :: "('k, 'ti, 'vi, 'p) Scheduler \<Rightarrow> sched_error \<Rightarrow> bool" where
  "refusal s e \<longleftrightarrow> e = ErrQueueFull \<or> e = ErrEnqueueStream \<or> (e = ErrShutdown \<and> sc_phase s \<noteq> Running)"

text \<open>The steps of the parked calls, the workers and the writers, and the rest of \<open>Stop\<close>.\<close>

inductive sched_step :: "('k, 'ti, 'vi, 'p) search_lib \<Rightarrow> ('k :: linorder, 'ti, 'vi, 'p) Scheduler \<Rightarrow> ('k, 'ti, 'vi, 'p) Scheduler \<Rightarrow> bool"
  for lib :: "('k :: linorder, 'ti, 'vi, 'p) search_lib" where
  enqueue: "(handle, q) \<in> set (sc_submits s) \<Longrightarrow> length (sc_queues s ! q) < BufferSize (Scheduler (sc_Config s)) \<Longrightarrow>
     sched_step lib s (s\<lparr>sc_submits := remove1 (handle, q) (sc_submits s), sc_queues := (sc_queues s)[q := sc_queues s ! q @ [handle]],
                   sc_accepted := (sc_accepted s)[q := sc_accepted s ! q @ [handle]], sc_replies := (sc_replies s)(handle := Some None)\<rparr>)"
| refuse: "(handle, q) \<in> set (sc_submits s) \<Longrightarrow> refusal s e \<Longrightarrow>
     sched_step lib s (s\<lparr>sc_submits := remove1 (handle, q) (sc_submits s), sc_replies := (sc_replies s)(handle := Some (Some e))\<rparr>)"
| fetch: "i < length (sc_workers s) \<Longrightarrow> w = sc_workers s ! i \<Longrightarrow> \<not> w_exited w \<Longrightarrow> w_job w = Idle \<Longrightarrow>
     sc_queues s ! w_queue w = handle # waiting \<Longrightarrow>
     sched_step lib s (set_job i (Fetched handle) (s\<lparr>sc_queues := (sc_queues s)[w_queue w := waiting]\<rparr>))"
| notice_quit: "i < length (sc_workers s) \<Longrightarrow> w = sc_workers s ! i \<Longrightarrow> \<not> w_exited w \<Longrightarrow> w_job w = Idle \<Longrightarrow>
     \<not> w_draining w \<Longrightarrow> sc_phase s \<noteq> Running \<Longrightarrow>
     sched_step lib s (s\<lparr>sc_workers := (sc_workers s)[i := w\<lparr>w_draining := True\<rparr>]\<rparr>)"
| exit: "i < length (sc_workers s) \<Longrightarrow> w = sc_workers s ! i \<Longrightarrow> \<not> w_exited w \<Longrightarrow> w_job w = Idle \<Longrightarrow>
     w_draining w \<Longrightarrow> sc_queues s ! w_queue w = [] \<Longrightarrow>
     sched_step lib s (s\<lparr>sc_workers := (sc_workers s)[i := w\<lparr>w_exited := True\<rparr>]\<rparr>)"
| acquire: "i < length (sc_workers s) \<Longrightarrow> w_job (sc_workers s ! i) = Fetched handle \<Longrightarrow> sc_streams s handle = Some st \<Longrightarrow>
     Select (sc_DB s) (st_GraphID st) = Inr (Some g) \<Longrightarrow> lock_free s st \<Longrightarrow>
     sched_step lib s (set_job i (Locked handle) s)"
| reject: "i < length (sc_workers s) \<Longrightarrow> w_job (sc_workers s ! i) = Fetched handle \<Longrightarrow> sc_streams s handle = Some st \<Longrightarrow>
     Select (sc_DB s) (st_GraphID st) = Inl e \<Longrightarrow> execute lib clock (sc_DB s) st = Some (err, st', d) \<Longrightarrow>
     sched_step lib s (set_job i Idle (finish_run (w_queue (sc_workers s ! i)) handle clock st' d s))"
| run: "i < length (sc_workers s) \<Longrightarrow> w_job (sc_workers s ! i) = Locked handle \<Longrightarrow> sc_streams s handle = Some st \<Longrightarrow>
     execute lib clock (sc_DB s) st = Some (err, st', d) \<Longrightarrow>
     sched_step lib s (set_job i Idle (finish_run (w_queue (sc_workers s ! i)) handle clock st' d s))"
| submits_gone: "sc_phase s = AwaitSubmits \<Longrightarrow> sc_submits s = [] \<Longrightarrow> sched_step lib s (s\<lparr>sc_phase := AwaitWorkers\<rparr>)"
| workers_gone: "sc_phase s = AwaitWorkers \<Longrightarrow> list_all w_exited (sc_workers s) \<Longrightarrow> sched_step lib s (s\<lparr>sc_phase := FinalDrain\<rparr>)"
| straggler: "sc_phase s = FinalDrain \<Longrightarrow> q < length (sc_queues s) \<Longrightarrow> list_all (\<lambda>waiting. waiting = []) (take q (sc_queues s)) \<Longrightarrow>
     sc_queues s ! q = handle # waiting \<Longrightarrow> sc_streams s handle = Some st \<Longrightarrow>
     execute lib clock (sc_DB s) st = Some (err, st', d) \<Longrightarrow>
     sched_step lib s (finish_run q handle clock st' d (s\<lparr>sc_queues := (sc_queues s)[q := waiting]\<rparr>))"
| release: "sc_phase s = FinalDrain \<Longrightarrow> list_all (\<lambda>waiting. waiting = []) (sc_queues s) \<Longrightarrow> sched_step lib s (s\<lparr>sc_phase := Released\<rparr>)"

inductive sched_reach :: "('k, 'ti, 'vi, 'p) search_lib \<Rightarrow> ('k :: linorder, 'ti, 'vi, 'p) Scheduler \<Rightarrow> ('k, 'ti, 'vi, 'p) Scheduler \<Rightarrow> bool"
  for lib :: "('k :: linorder, 'ti, 'vi, 'p) search_lib" and s0 where
  start: "sched_reach lib s0 s0"
| called: "sched_reach lib s0 s \<Longrightarrow> sched_call s s' \<Longrightarrow> sched_reach lib s0 s'"
| stepped: "sched_reach lib s0 s \<Longrightarrow> sched_step lib s s' \<Longrightarrow> sched_reach lib s0 s'"

end
