(* ===== verification/Scheduler_Correct.thy ===== *)
theory Scheduler_Correct
  imports Store_Scheduler
begin

text \<open>
  What holds in every state the scheduler can reach: the accounts of each queue, one answer per call of
  \<open>Submit\<close>, the exclusion of writers, and the serial order of the writes to one graph.
\<close>

section \<open>One execution\<close>

lemma Finish_fields [simp]:
  "st_Query (Finish s) = st_Query s" "st_done (Finish s)" "st_Err (Finish s) = st_Err s" "st_Result (Finish s) = st_Result s"
  by (simp_all add: Finish_def)

lemma st_GraphID_cong: "st_Query a = st_Query b \<Longrightarrow> st_GraphID a = st_GraphID b"
  by (simp add: st_GraphID_def)

lemma queue_of_cong: "st_Query a = st_Query b \<Longrightarrow> queue_of n a = queue_of n b"
  by (simp add: queue_of_def st_GraphID_def)

lemma Commit_query: "Commit lib settings clock g s = (err, s1, g1) \<Longrightarrow> st_Query s1 = st_Query s"
  by (auto simp: Commit_def split: Query.splits sum.splits option.splits prod.splits)

text \<open>What a stream does to a graph: a write stores, a read changes nothing.\<close>

definition apply_write ::
    "('k, 'ti, 'vi, 'p) search_lib \<Rightarrow> (handle \<Rightarrow> 'p run_stream option) \<Rightarrow> ('k :: linorder, 'ti, 'vi) InMemoryGraph \<Rightarrow>
     handle \<times> clock \<Rightarrow> ('k, 'ti, 'vi) InMemoryGraph" where
  "apply_write lib streams g entry = (case streams (fst entry) of
       Some s \<Rightarrow> (case st_Query s of
         RememberQ r \<Rightarrow> snd (commit_write (letters lib) (ops_text lib) (ops_vector lib) (snd entry) r g) | RecallQ _ \<Rightarrow> g)
     | None \<Rightarrow> g)"

lemma Commit_graph:
  assumes "Commit lib settings clock g st = (err, s1, g1)" "streams handle = Some st"
  shows "g1 = apply_write lib streams g (handle, clock)"
  using assms by (auto simp: apply_write_def Commit_def split: Query.splits sum.splits option.splits prod.splits)

definition slots_full :: "('k, 'ti, 'vi) DB \<Rightarrow> bool" where
  "slots_full d \<longleftrightarrow> (\<forall>i < length (Graphs d). Graphs d ! i \<noteq> None)"

lemma Select_full: "slots_full d \<Longrightarrow> Select d i = Inr slot \<Longrightarrow> \<exists>g. slot = Some g"
  by (auto simp: slots_full_def Select_def not_le split: if_splits)

lemma execute_total: "slots_full d \<Longrightarrow> \<exists>err st' d'. execute lib clock d st = Some (err, st', d')"
  using Select_full [of d "st_GraphID st"] by (cases "Select d (st_GraphID st)") (auto simp: execute_def Let_def split: prod.splits option.splits)

lemma execute_stream:
  assumes "execute lib clock d st = Some (err, st', d')"
  shows "st_Query st' = st_Query st" "st_done st'" "length (Graphs d') = length (Graphs d)"
    "slots_full d \<Longrightarrow> slots_full d'" "err \<noteq> None \<Longrightarrow> st_Err st' = err"
proof -
  have "st_Query st' = st_Query st \<and> st_done st' \<and> length (Graphs d') = length (Graphs d) \<and>
    (slots_full d \<longrightarrow> slots_full d') \<and> (err \<noteq> None \<longrightarrow> st_Err st' = err)"
  proof (cases "Select d (st_GraphID st)")
    case (Inl e)
    then show ?thesis using assms by (auto simp: execute_def)
  next
    case (Inr slot)
    then obtain g settings where slot: "slot = Some (g, settings)" using assms by (auto simp: execute_def split: option.splits)
    obtain err1 s1 g1 where c: "Commit lib settings clock g st = (err1, s1, g1)" by (metis prod_cases3)
    have "unat (st_GraphID st) < length (Graphs d)" using Inr by (simp add: Select_def split: if_splits)
    then show ?thesis
      using assms Inr slot c Commit_query [OF c]
      by (cases err1) (auto simp: execute_def Let_def slots_full_def nth_list_update)
  qed
  then show "st_Query st' = st_Query st" "st_done st'" "length (Graphs d') = length (Graphs d)"
    "slots_full d \<Longrightarrow> slots_full d'" "err \<noteq> None \<Longrightarrow> st_Err st' = err" by blast+
qed

text \<open>A graph changes by the write of its own lane and by nothing else.\<close>

lemma execute_graphs:
  assumes run: "execute lib clock d st = Some (err, st', d')" and st: "streams handle = Some st"
    and q: "q = queue_of (length (Graphs d)) st" and i: "i < length (Graphs d)"
  shows "Graphs d' ! i = (if q = Suc i then map_option (\<lambda>(g, settings). (apply_write lib streams g (handle, clock), settings)) (Graphs d ! i)
     else Graphs d ! i)"
proof (cases "Select d (st_GraphID st)")
  case (Inl e)
  then have "d' = d" "length (Graphs d) \<le> unat (st_GraphID st)"
    using run by (auto simp: execute_def Select_def split: if_splits)
  then show ?thesis using q i by (auto simp: queue_of_def)
next
  case (Inr slot)
  then obtain g settings where slot: "slot = Some (g, settings)" using run by (auto simp: execute_def split: option.splits)
  obtain err1 s1 g1 where c: "Commit lib settings clock g st = (err1, s1, g1)" by (metis prod_cases3)
  have at: "unat (st_GraphID st) < length (Graphs d)" "Graphs d ! unat (st_GraphID st) = Some (g, settings)"
    using Inr slot by (auto simp: Select_def split: if_splits)
  have d': "Graphs d' = (Graphs d)[unat (st_GraphID st) := Some (g1, settings)]"
    using run Inr slot c by (auto simp: execute_def Let_def split: option.splits)
  have g1: "g1 = apply_write lib streams g (handle, clock)" using Commit_graph [OF c, of streams handle] st by simp
  show ?thesis
  proof (cases "st_Query st")
    case (RecallQ r)
    then have "g1 = g" "q = 0" using g1 st q by (simp_all add: apply_write_def queue_of_def)
    then show ?thesis using d' at by (simp add: list_update_same_conv [THEN iffD2])
  next
    case (RememberQ r)
    then have "q = Suc (unat (st_GraphID st))" using q at by (simp add: queue_of_def)
    then show ?thesis using d' at g1 by (auto simp: nth_list_update)
  qed
qed

section \<open>Shape\<close>

lemma set_job_fields [simp]:
  "sc_Config (set_job i j s) = sc_Config s" "sc_DB (set_job i j s) = sc_DB s" "sc_streams (set_job i j s) = sc_streams s"
  "sc_queues (set_job i j s) = sc_queues s" "sc_submits (set_job i j s) = sc_submits s" "sc_replies (set_job i j s) = sc_replies s"
  "sc_phase (set_job i j s) = sc_phase s" "sc_accepted (set_job i j s) = sc_accepted s" "sc_ran (set_job i j s) = sc_ran s"
  "sc_workers (set_job i j s) = (sc_workers s)[i := (sc_workers s ! i)\<lparr>w_job := j\<rparr>]"
  by (simp_all add: set_job_def)

lemma finish_run_fields [simp]:
  "sc_Config (finish_run q x c st d s) = sc_Config s" "sc_DB (finish_run q x c st d s) = d"
  "sc_streams (finish_run q x c st d s) = (sc_streams s)(x := Some st)" "sc_queues (finish_run q x c st d s) = sc_queues s"
  "sc_submits (finish_run q x c st d s) = sc_submits s" "sc_replies (finish_run q x c st d s) = sc_replies s"
  "sc_phase (finish_run q x c st d s) = sc_phase s" "sc_accepted (finish_run q x c st d s) = sc_accepted s"
  "sc_ran (finish_run q x c st d s) = (sc_ran s)[q := sc_ran s ! q @ [(x, c)]]"
  "sc_workers (finish_run q x c st d s) = sc_workers s"
  by (simp_all add: finish_run_def)

definition crew :: "nat \<Rightarrow> nat \<Rightarrow> nat list" where
  "crew W n = replicate W 0 @ map Suc [0..<n]"

text \<open>\<open>W\<close> readers and one writer for each of the \<open>n\<close> graphs, one queue more than graphs.\<close>

definition shaped :: "nat \<Rightarrow> nat \<Rightarrow> ('k, 'ti, 'vi, 'p) Scheduler \<Rightarrow> bool" where
  "shaped W n s \<longleftrightarrow> length (sc_queues s) = Suc n \<and> length (sc_accepted s) = Suc n \<and> length (sc_ran s) = Suc n \<and>
     length (Graphs (sc_DB s)) = n \<and> slots_full (sc_DB s) \<and> map w_queue (sc_workers s) = crew W n"

lemma map_update_same: "i < length xs \<Longrightarrow> f x = f (xs ! i) \<Longrightarrow> map f (xs[i := x]) = map f xs"
  by (metis list_update_id map_update nth_map)

lemma shaped_call: "sched_call s s' \<Longrightarrow> shaped W n s \<Longrightarrow> shaped W n s'"
  by (induction rule: sched_call.cases) (auto simp: shaped_def)

lemma shaped_step: "sched_step lib s s' \<Longrightarrow> shaped W n s \<Longrightarrow> shaped W n s'"
  by (induction rule: sched_step.cases) (auto simp: shaped_def map_update_same execute_stream)

lemma crew_bound: "map w_queue ws = crew W n \<Longrightarrow> w \<in> set ws \<Longrightarrow> w_queue w \<le> n"
proof -
  assume "map w_queue ws = crew W n" "w \<in> set ws"
  then have "w_queue w \<in> set (crew W n)" by (metis image_eqI set_map)
  then show ?thesis by (auto simp: crew_def set_replicate_conv_if split: if_splits)
qed

lemma crew_unique:
  assumes "map w_queue ws = crew W n" "i < length ws" "j < length ws" "w_queue (ws ! i) = w_queue (ws ! j)" "w_queue (ws ! i) \<noteq> 0"
  shows "i = j"
proof -
  have len: "length ws = W + n" using arg_cong [OF assms(1), of length] by (simp add: crew_def)
  have at: "w_queue (ws ! m) = (if m < W then 0 else Suc (m - W))" if "m < length ws" for m
  proof -
    have "w_queue (ws ! m) = map w_queue ws ! m" using that by simp
    then show ?thesis using that len by (simp only: assms(1)) (simp add: crew_def nth_append)
  qed
  show ?thesis using assms(2-5) at [of i] at [of j] by (auto split: if_splits)
qed

section \<open>Accounts\<close>

fun taken :: "job \<Rightarrow> handle list" where
  "taken Idle = []"
| "taken (Fetched x) = [x]"
| "taken (Locked x) = [x]"

text \<open>The streams of a queue that workers hold, in the order of the workers.\<close>

definition in_hand :: "nat \<Rightarrow> worker list \<Rightarrow> handle list" where
  "in_hand q ws = concat (map (\<lambda>w. if w_queue w = q then taken (w_job w) else []) ws)"

lemma in_hand_update:
  "i < length ws \<Longrightarrow> in_hand q (ws[i := w]) =
     in_hand q (take i ws) @ (if w_queue w = q then taken (w_job w) else []) @ in_hand q (drop (Suc i) ws)"
  by (simp add: in_hand_def upd_conv_take_nth_drop)

lemma in_hand_at:
  "i < length ws \<Longrightarrow> in_hand q ws =
     in_hand q (take i ws) @ (if w_queue (ws ! i) = q then taken (w_job (ws ! i)) else []) @ in_hand q (drop (Suc i) ws)"
  using in_hand_update [of i ws q "ws ! i"] by simp

lemma lane_alone:
  assumes "map w_queue ws = crew W n" "i < length ws" "w_queue (ws ! i) \<noteq> 0"
  shows "in_hand (w_queue (ws ! i)) (take i ws) = []" "in_hand (w_queue (ws ! i)) (drop (Suc i) ws) = []"
proof -
  have "w_queue w \<noteq> w_queue (ws ! i)" if "w \<in> set (take i ws) \<or> w \<in> set (drop (Suc i) ws)" for w
  proof -
    have "\<exists>j. j < length ws \<and> j \<noteq> i \<and> w = ws ! j"
    proof (cases "w \<in> set (take i ws)")
      case True
      then show ?thesis by (auto simp: in_set_conv_nth)
    next
      case False
      then have "w \<in> set (drop (Suc i) ws)" using that by blast
      then obtain m where "m < length ws - Suc i" "w = ws ! (Suc i + m)"
        unfolding in_set_conv_nth by auto
      then show ?thesis by (intro exI [of _ "Suc i + m"]) auto
    qed
    then obtain j where "j < length ws" "j \<noteq> i" "w = ws ! j" by blast
    then show ?thesis using crew_unique [OF assms(1), of j i] assms(2,3) by auto
  qed
  then show "in_hand (w_queue (ws ! i)) (take i ws) = []" "in_hand (w_queue (ws ! i)) (drop (Suc i) ws) = []"
    by (auto simp: in_hand_def)
qed

definition balanced :: "nat \<Rightarrow> handle list \<Rightarrow> handle list \<Rightarrow> handle list \<Rightarrow> handle list \<Rightarrow> bool" where
  "balanced q accepted executed held waiting \<longleftrightarrow> mset accepted = mset executed + mset held + mset waiting \<and>
     (q \<noteq> 0 \<longrightarrow> accepted = executed @ held @ waiting)"

definition accounts :: "nat \<Rightarrow> ('k, 'ti, 'vi, 'p) Scheduler \<Rightarrow> bool" where
  "accounts n s \<longleftrightarrow> (\<forall>q \<le> n. balanced q (sc_accepted s ! q) (map fst (sc_ran s ! q)) (in_hand q (sc_workers s)) (sc_queues s ! q))"

text \<open>A worker of a lane holds what the lane's hands hold; a reader adds its own among others.\<close>

lemma hand_view:
  assumes "map w_queue ws = crew W n" "i < length ws"
  obtains A B where "\<And>w. w_queue w = w_queue (ws ! i) \<Longrightarrow> in_hand (w_queue (ws ! i)) (ws[i := w]) = A @ taken (w_job w) @ B"
    "in_hand (w_queue (ws ! i)) ws = A @ taken (w_job (ws ! i)) @ B" "w_queue (ws ! i) \<noteq> 0 \<Longrightarrow> A = [] \<and> B = []"
    "\<And>w q. w_queue w = w_queue (ws ! i) \<Longrightarrow> q \<noteq> w_queue (ws ! i) \<Longrightarrow> in_hand q (ws[i := w]) = in_hand q ws"
proof (rule that [of "in_hand (w_queue (ws ! i)) (take i ws)" "in_hand (w_queue (ws ! i)) (drop (Suc i) ws)"])
  show "in_hand (w_queue (ws ! i)) ws =
      in_hand (w_queue (ws ! i)) (take i ws) @ taken (w_job (ws ! i)) @ in_hand (w_queue (ws ! i)) (drop (Suc i) ws)"
    using in_hand_at [OF assms(2), of "w_queue (ws ! i)"] by simp
  show "in_hand q (ws[i := w]) = in_hand q ws" if "w_queue w = w_queue (ws ! i)" "q \<noteq> w_queue (ws ! i)" for w q
    using in_hand_at [OF assms(2), of q] in_hand_update [OF assms(2), of q w] that by simp
qed (use assms lane_alone [OF assms] in_hand_update [OF assms(2)] in auto)

text \<open>The four ways a worker's step moves a stream.\<close>

lemma balanced_moves:
  "balanced q a r (A @ B) (x # waiting) \<Longrightarrow> (q \<noteq> 0 \<Longrightarrow> A = [] \<and> B = []) \<Longrightarrow> balanced q a r (A @ [x] @ B) waiting"
  "balanced q a r (A @ [x] @ B) waiting \<Longrightarrow> (q \<noteq> 0 \<Longrightarrow> A = [] \<and> B = []) \<Longrightarrow> balanced q a (r @ [x]) (A @ B) waiting"
  "balanced q a r held waiting \<Longrightarrow> balanced q (a @ [x]) r held (waiting @ [x])"
  "balanced q a r [] (x # waiting) \<Longrightarrow> balanced q a (r @ [x]) [] waiting"
  by (auto simp: balanced_def)

lemma nth_of_update: "xs[i := x] ! j = (if i = j \<and> i < length xs then x else xs ! j)"
  by (cases "i < length xs") (auto simp: nth_list_update list_update_beyond)

text \<open>A worker that takes or gives back a stream.\<close>

lemma accounts_fetch:
  assumes "accounts n s" "shaped W n s" and i: "i < length (sc_workers s)" and w: "w = sc_workers s ! i" "w_job w = Idle"
    "sc_queues s ! w_queue w = x # waiting"
  shows "accounts n (set_job i (Fetched x) (s\<lparr>sc_queues := (sc_queues s)[w_queue w := waiting]\<rparr>))"
proof -
  have crew: "map w_queue (sc_workers s) = crew W n" and len: "length (sc_queues s) = Suc n" using assms(2) by (auto simp: shaped_def)
  obtain A B where v: "\<And>w'. w_queue w' = w_queue w \<Longrightarrow> in_hand (w_queue w) ((sc_workers s)[i := w']) = A @ taken (w_job w') @ B"
    "in_hand (w_queue w) (sc_workers s) = A @ B" "w_queue w \<noteq> 0 \<Longrightarrow> A = [] \<and> B = []"
    "\<And>w' q. w_queue w' = w_queue w \<Longrightarrow> q \<noteq> w_queue w \<Longrightarrow> in_hand q ((sc_workers s)[i := w']) = in_hand q (sc_workers s)"
    using hand_view [OF crew i] w(1,2) by (metis append_Nil taken.simps(1))
  have bound: "w_queue w \<le> n" using crew_bound [OF crew] i w(1) by simp
  have "balanced q (sc_accepted s ! q) (map fst (sc_ran s ! q)) (in_hand q ((sc_workers s)[i := w\<lparr>w_job := Fetched x\<rparr>]))
      ((sc_queues s)[w_queue w := waiting] ! q)" if q: "q \<le> n" for q
  proof (cases "q = w_queue w")
    case True
    have "balanced q (sc_accepted s ! q) (map fst (sc_ran s ! q)) (A @ B) (x # waiting)"
      using assms(1) q v(2) w(3) True by (metis accounts_def)
    then have "balanced q (sc_accepted s ! q) (map fst (sc_ran s ! q)) (A @ [x] @ B) waiting"
      using v(3) True by (intro balanced_moves(1)) auto
    then show ?thesis using True q v(1) [of "w\<lparr>w_job := Fetched x\<rparr>"] len by (simp add: nth_of_update)
  next
    case False
    then show ?thesis using assms(1) q v(4) by (simp add: accounts_def nth_of_update)
  qed
  then show ?thesis using w(1) by (simp add: accounts_def)
qed

lemma accounts_run:
  assumes "accounts n s" "shaped W n s" and i: "i < length (sc_workers s)" and job: "taken (w_job (sc_workers s ! i)) = [x]"
  shows "accounts n (set_job i Idle (finish_run (w_queue (sc_workers s ! i)) x clock st d s))"
proof -
  let ?w = "sc_workers s ! i"
  have crew: "map w_queue (sc_workers s) = crew W n" and len: "length (sc_ran s) = Suc n" using assms(2) by (auto simp: shaped_def)
  obtain A B where v: "\<And>w'. w_queue w' = w_queue ?w \<Longrightarrow> in_hand (w_queue ?w) ((sc_workers s)[i := w']) = A @ taken (w_job w') @ B"
    "in_hand (w_queue ?w) (sc_workers s) = A @ taken (w_job ?w) @ B" "w_queue ?w \<noteq> 0 \<Longrightarrow> A = [] \<and> B = []"
    "\<And>w' q. w_queue w' = w_queue ?w \<Longrightarrow> q \<noteq> w_queue ?w \<Longrightarrow> in_hand q ((sc_workers s)[i := w']) = in_hand q (sc_workers s)"
    by (rule hand_view [OF crew i]) (rule that)
  have "balanced q (sc_accepted s ! q) (map fst ((sc_ran s)[w_queue ?w := sc_ran s ! w_queue ?w @ [(x, clock)]] ! q))
      (in_hand q ((sc_workers s)[i := ?w\<lparr>w_job := Idle\<rparr>])) (sc_queues s ! q)" if q: "q \<le> n" for q
  proof (cases "q = w_queue ?w")
    case True
    have "balanced q (sc_accepted s ! q) (map fst (sc_ran s ! q)) (A @ [x] @ B) (sc_queues s ! q)"
      using assms(1) [unfolded accounts_def, rule_format, OF q] v(2) True job by simp
    then have "balanced q (sc_accepted s ! q) (map fst (sc_ran s ! q) @ [x]) (A @ B) (sc_queues s ! q)"
      using v(3) True by (intro balanced_moves(2)) auto
    then show ?thesis using True q v(1) [of "?w\<lparr>w_job := Idle\<rparr>"] len by (simp add: nth_of_update)
  next
    case False
    then show ?thesis using assms(1) q v(4) [of "?w\<lparr>w_job := Idle\<rparr>"] by (simp add: accounts_def nth_of_update)
  qed
  then show ?thesis by (simp add: accounts_def)
qed

text \<open>A worker whose hands stay as they are.\<close>

lemma in_hand_same:
  "i < length ws \<Longrightarrow> w_queue w = w_queue (ws ! i) \<Longrightarrow> taken (w_job w) = taken (w_job (ws ! i)) \<Longrightarrow> in_hand q (ws[i := w]) = in_hand q ws"
  using in_hand_at [of i ws q] in_hand_update [of i ws q w] by simp

text \<open>Every stream has one place: parked, refused, or accepted once by the queue it belongs to.\<close>

definition belongs :: "nat \<Rightarrow> (handle \<Rightarrow> 'p run_stream option) \<Rightarrow> handle \<Rightarrow> nat \<Rightarrow> bool" where
  "belongs n streams x q \<longleftrightarrow> (\<exists>st. streams x = Some st \<and> q = queue_of n st)"

definition placed :: "nat \<Rightarrow> ('k, 'ti, 'vi, 'p) Scheduler \<Rightarrow> bool" where
  "placed n s \<longleftrightarrow>
     distinct (map fst (sc_submits s)) \<and>
     (\<forall>x q. (x, q) \<in> set (sc_submits s) \<longrightarrow> belongs n (sc_streams s) x q \<and> sc_replies s x = None) \<and>
     (\<forall>q \<le> n. distinct (sc_accepted s ! q) \<and> (\<forall>x \<in> set (sc_accepted s ! q). belongs n (sc_streams s) x q \<and> sc_replies s x = Some None)) \<and>
     (\<forall>x. sc_replies s x = Some None \<longrightarrow> (\<exists>q \<le> n. x \<in> set (sc_accepted s ! q))) \<and>
     (\<forall>x. sc_streams s x = None \<longrightarrow> sc_replies s x = None)"

lemma placedI:
  assumes "distinct (map fst (sc_submits s))"
    "\<And>x q. (x, q) \<in> set (sc_submits s) \<Longrightarrow> belongs n (sc_streams s) x q \<and> sc_replies s x = None"
    "\<And>q. q \<le> n \<Longrightarrow> distinct (sc_accepted s ! q)"
    "\<And>x q. q \<le> n \<Longrightarrow> x \<in> set (sc_accepted s ! q) \<Longrightarrow> belongs n (sc_streams s) x q \<and> sc_replies s x = Some None"
    "\<And>x. sc_replies s x = Some None \<Longrightarrow> \<exists>q \<le> n. x \<in> set (sc_accepted s ! q)"
    "\<And>x. sc_streams s x = None \<Longrightarrow> sc_replies s x = None"
  shows "placed n s"
  using assms by (simp add: placed_def)

lemma placedD:
  assumes "placed n s"
  shows "distinct (map fst (sc_submits s))"
    "(x, q) \<in> set (sc_submits s) \<Longrightarrow> belongs n (sc_streams s) x q" "(x, q) \<in> set (sc_submits s) \<Longrightarrow> sc_replies s x = None"
    "q \<le> n \<Longrightarrow> distinct (sc_accepted s ! q)"
    "q \<le> n \<Longrightarrow> x \<in> set (sc_accepted s ! q) \<Longrightarrow> belongs n (sc_streams s) x q"
    "q \<le> n \<Longrightarrow> x \<in> set (sc_accepted s ! q) \<Longrightarrow> sc_replies s x = Some None"
    "sc_replies s x = Some None \<Longrightarrow> \<exists>q \<le> n. x \<in> set (sc_accepted s ! q)"
    "sc_streams s x = None \<Longrightarrow> sc_replies s x = None"
  using assms by (auto simp: placed_def)

lemma belongs_le: "belongs n streams x q \<Longrightarrow> q \<le> n"
  by (auto simp: belongs_def queue_of_def)

lemma belongs_new: "streams x = None \<Longrightarrow> belongs n streams y q \<Longrightarrow> belongs n (streams(x := Some st)) y q"
  by (auto simp: belongs_def)

lemma belongs_ran: "streams x = Some st \<Longrightarrow> st_Query st' = st_Query st \<Longrightarrow> belongs n (streams(x := Some st')) y q = belongs n streams y q"
  by (auto simp: belongs_def queue_of_cong [of st' st])

lemma belongs_known: "belongs n streams x q \<Longrightarrow> streams x \<noteq> None"
  by (auto simp: belongs_def)

lemma placed_call:
  assumes "sched_call s s'" "placed n s" "shaped W n s"
  shows "placed n s'"
  using assms(1)
proof cases
  case (submit x stream)
  note old = placedD [OF assms(2)]
  have "(x, q) \<notin> set (sc_submits s)" for q using belongs_known [OF old(2)] submit(2) by blast
  then have new: "x \<notin> fst ` set (sc_submits s)" "sc_replies s x = None" using old(8) submit(2) by auto
  have at: "belongs n ((sc_streams s)(x := Some stream)) x (queue_of (length (sc_queues s) - 1) stream)"
    using assms(3) by (simp add: belongs_def shaped_def)
  show ?thesis unfolding submit(1)
    by (rule placedI) (use old new at submit(2) in \<open>auto intro: belongs_new split: if_splits\<close>)
next
  case (submit_late x stream)
  note old = placedD [OF assms(2)]
  have new: "(x, q) \<notin> set (sc_submits s)" "q \<le> n \<Longrightarrow> x \<notin> set (sc_accepted s ! q)" for q
    using belongs_known [OF old(2)] belongs_known [OF old(5)] submit_late(2) by blast+
  show ?thesis unfolding submit_late(1)
    by (rule placedI) (use old new submit_late(2) in \<open>auto intro: belongs_new split: if_splits\<close>)
next
  case stop
  then show ?thesis using assms(2) by (simp add: placed_def)
qed

lemma placed_cong:
  "placed n s \<Longrightarrow> sc_submits s' = sc_submits s \<Longrightarrow> sc_accepted s' = sc_accepted s \<Longrightarrow> sc_replies s' = sc_replies s \<Longrightarrow>
   (\<And>x q. belongs n (sc_streams s') x q = belongs n (sc_streams s) x q) \<Longrightarrow>
   (\<And>x. sc_streams s' x = None \<Longrightarrow> sc_streams s x = None) \<Longrightarrow> placed n s'"
  by (simp add: placed_def)

lemma remove1_key:
  assumes "distinct (map fst xs)" "(x, q) \<in> set xs"
  shows "distinct (map fst (remove1 (x, q) xs))" "(y, r) \<in> set (remove1 (x, q) xs) \<Longrightarrow> y \<noteq> x \<and> (y, r) \<in> set xs"
proof -
  show "distinct (map fst (remove1 (x, q) xs))" using assms(1)
    by (metis distinct_map distinct_remove1 inj_on_subset notin_set_remove1 subsetI)
  assume "(y, r) \<in> set (remove1 (x, q) xs)"
  then have "(y, r) \<in> set xs" "(y, r) \<noteq> (x, q)" using assms(1) by (auto simp: distinct_map)
  then show "y \<noteq> x \<and> (y, r) \<in> set xs" using eq_key_imp_eq_value [OF assms(1)] assms(2) by metis
qed

lemma placed_answer:
  assumes p: "placed n s" and x: "(x, q) \<in> set (sc_submits s)" and len: "length (sc_accepted s) = Suc n"
  shows "placed n (s\<lparr>sc_submits := remove1 (x, q) (sc_submits s), sc_replies := (sc_replies s)(x := Some (Some e))\<rparr>)" (is ?refused)
    "placed n (s\<lparr>sc_submits := remove1 (x, q) (sc_submits s), sc_queues := queues,
        sc_accepted := (sc_accepted s)[q := sc_accepted s ! q @ [x]], sc_replies := (sc_replies s)(x := Some None)\<rparr>)" (is ?queued)
proof -
  note old = placedD [OF p] and rest = remove1_key [OF placedD(1) [OF p] x]
  have fresh: "r \<le> n \<Longrightarrow> x \<notin> set (sc_accepted s ! r)" for r using old(3) [OF x] old(6) by fastforce
  have known: "sc_streams s x \<noteq> None" "q \<le> n" using old(2) [OF x] by (auto dest: belongs_known belongs_le)
  show ?refused
  proof (rule placedI, goal_cases)
    case (2 y r)
    then have "(y, r) \<in> set (remove1 (x, q) (sc_submits s))" by simp
    from rest(2) [OF this] show ?case using old(2,3) [of y r] by simp
  next
    case (4 y r)
    then show ?case using old(5,6) fresh by auto
  next
    case (5 y)
    then show ?case using old(7) by (auto split: if_splits)
  next
    case (6 y)
    then show ?case using known(1) old(8) by (auto split: if_splits)
  qed (use rest(1) old(4) in auto)
  show ?queued
  proof (rule placedI, goal_cases)
    case 1
    then show ?case using rest(1) by simp
  next
    case (2 y r)
    then have "(y, r) \<in> set (remove1 (x, q) (sc_submits s))" by simp
    from rest(2) [OF this] show ?case using old(2,3) [of y r] by simp
  next
    case (3 r)
    then show ?case using old(4) [OF 3] fresh [OF 3] by (simp add: nth_of_update)
  next
    case (4 y r)
    then show ?case using old(2) [OF x] old(5,6) fresh by (auto simp: nth_of_update split: if_splits)
  next
    case (5 y)
    then show ?case using old(7) [of y] known(2) len by (cases "y = x") (auto simp: nth_of_update)
  next
    case (6 y)
    then show ?case using known(1) old(8) by (auto split: if_splits)
  qed
qed

section \<open>The invariant\<close>

definition finished :: "nat \<Rightarrow> ('k, 'ti, 'vi, 'p) Scheduler \<Rightarrow> bool" where
  "finished n s \<longleftrightarrow> (\<forall>q \<le> n. \<forall>x \<in> fst ` set (sc_ran s ! q). \<exists>st. sc_streams s x = Some st \<and> st_done st)"

definition exclusive :: "('k, 'ti, 'vi, 'p) Scheduler \<Rightarrow> bool" where
  "exclusive s \<longleftrightarrow> (\<forall>i < length (sc_workers s). \<forall>j < length (sc_workers s). \<forall>a b. i \<noteq> j \<longrightarrow>
     holds s (sc_workers s ! i) = Some a \<longrightarrow> holds s (sc_workers s ! j) = Some b \<longrightarrow> \<not> conflicts a b)"

definition serial :: "('k, 'ti, 'vi, 'p) search_lib \<Rightarrow> ('k :: linorder, 'ti, 'vi) DB \<Rightarrow> ('k, 'ti, 'vi, 'p) Scheduler \<Rightarrow> bool" where
  "serial lib d0 s \<longleftrightarrow> (\<forall>i < length (Graphs (sc_DB s)). Graphs (sc_DB s) ! i =
     map_option (\<lambda>(g, settings). (foldl (apply_write lib (sc_streams s)) g (sc_ran s ! Suc i), settings)) (Graphs d0 ! i))"

definition phases :: "('k, 'ti, 'vi, 'p) Scheduler \<Rightarrow> bool" where
  "phases s \<longleftrightarrow>
     (sc_phase s \<in> {AwaitWorkers, FinalDrain, Released} \<longrightarrow> sc_submits s = []) \<and>
     (sc_phase s \<in> {FinalDrain, Released} \<longrightarrow> (\<forall>w \<in> set (sc_workers s). w_exited w)) \<and>
     (\<forall>w \<in> set (sc_workers s). (w_exited w \<longrightarrow> w_job w = Idle \<and> w_draining w) \<and> (w_draining w \<longrightarrow> sc_phase s \<noteq> Running)) \<and>
     (sc_phase s = Released \<longrightarrow> (\<forall>waiting \<in> set (sc_queues s). waiting = []))"

lemma exited_idle: "phases s \<Longrightarrow> sc_phase s \<in> {FinalDrain, Released} \<Longrightarrow> in_hand q (sc_workers s) = []"
  by (auto simp: phases_def in_hand_def)

lemma accounts_call: "sched_call s s' \<Longrightarrow> accounts n s \<Longrightarrow> accounts n s'"
  by (induction rule: sched_call.cases) (auto simp: accounts_def)

lemma accounts_same:
  "accounts n s \<Longrightarrow> (\<And>q. in_hand q (sc_workers s') = in_hand q (sc_workers s)) \<Longrightarrow> sc_queues s' = sc_queues s \<Longrightarrow>
   sc_accepted s' = sc_accepted s \<Longrightarrow> sc_ran s' = sc_ran s \<Longrightarrow> accounts n s'"
  by (simp add: accounts_def)

lemma accounts_step:
  assumes "sched_step lib s s'" and a: "accounts n s" and sh: "shaped W n s" and ph: "phases s"
  shows "accounts n s'"
  using assms(1)
proof cases
  case (enqueue x q)
  show ?thesis unfolding enqueue(1)
    using a sh balanced_moves(3) by (auto simp: accounts_def shaped_def nth_of_update)
next
  case (fetch i w x waiting)
  show ?thesis unfolding fetch(1) by (rule accounts_fetch [OF a sh]) (use fetch in auto)
next
  case (run i x st clock err st' d)
  show ?thesis unfolding run(1) by (rule accounts_run [OF a sh]) (use run in auto)
next
  case (reject i x st e clock err st' d)
  show ?thesis unfolding reject(1) by (rule accounts_run [OF a sh]) (use reject in auto)
next
  case (straggler q x waiting st clock err st' d)
  show ?thesis unfolding straggler(1)
    using a sh exited_idle [OF ph] straggler balanced_moves(4) [of q _ _ x waiting]
    by (auto simp: accounts_def shaped_def nth_of_update) (metis length_append_singleton less_Suc_eq_le)
qed (auto intro!: accounts_same [OF a] in_hand_same)

lemma ran_query_same:
  assumes "streams x = Some st" "st_Query st' = st_Query st"
  shows "apply_write lib (streams(x := Some st')) = apply_write lib streams"
  using assms by (auto simp: apply_write_def fun_eq_iff)

lemma placed_run:
  assumes "placed n s" "sc_streams s x = Some st" "st_Query st' = st_Query st"
  shows "placed n (finish_run q x clock st' d s)"
  by (rule placed_cong [OF assms(1)]) (use assms(2,3) belongs_ran [of "sc_streams s" x, OF assms(2,3)] in \<open>auto split: if_splits\<close>)

lemma placed_step:
  assumes "sched_step lib s s'" and p: "placed n s" and sh: "shaped W n s"
  shows "placed n s'"
  using assms(1)
proof cases
  case (enqueue x q)
  then show ?thesis using placed_answer(2) [OF p enqueue(2)] sh by (simp add: shaped_def)
next
  case (refuse x q e)
  then show ?thesis using placed_answer(1) [OF p refuse(2)] sh by (simp add: shaped_def)
next
  case (run i x st clock err st' d)
  show ?thesis unfolding run(1)
    by (rule placed_cong [OF placed_run [OF p run(4) execute_stream(1) [OF run(5)]]]) (auto simp: set_job_def)
next
  case (reject i x st e clock err st' d)
  show ?thesis unfolding reject(1)
    by (rule placed_cong [OF placed_run [OF p reject(4) execute_stream(1) [OF reject(6)]]]) (auto simp: set_job_def)
next
  case (straggler q x waiting st clock err st' d)
  show ?thesis unfolding straggler(1)
    by (rule placed_cong [OF placed_run [OF p straggler(6) execute_stream(1) [OF straggler(7)]]]) auto
qed (auto intro!: placed_cong [OF p] simp: set_job_def)

text \<open>A stream in a worker's hands or waiting belongs to the queue it is taken from.\<close>

lemma held_accepted:
  assumes "accounts n s" "q \<le> n" "x \<in> set (in_hand q (sc_workers s)) \<or> x \<in> set (sc_queues s ! q) \<or> x \<in> fst ` set (sc_ran s ! q)"
  shows "x \<in> set (sc_accepted s ! q)"
proof -
  have "mset (sc_accepted s ! q) = mset (map fst (sc_ran s ! q)) + mset (in_hand q (sc_workers s)) + mset (sc_queues s ! q)"
    using assms(1,2) by (simp add: accounts_def balanced_def)
  from arg_cong [OF this, of set_mset] show ?thesis using assms(3) by auto
qed

lemma worker_belongs:
  assumes "accounts n s" "placed n s" "shaped W n s" "i < length (sc_workers s)" "x \<in> set (taken (w_job (sc_workers s ! i)))"
  shows "w_queue (sc_workers s ! i) \<le> n" "belongs n (sc_streams s) x (w_queue (sc_workers s ! i))"
proof -
  let ?w = "sc_workers s ! i"
  show q: "w_queue ?w \<le> n" using crew_bound [of "sc_workers s" W n ?w] assms(3,4) by (simp add: shaped_def)
  have "x \<in> set (in_hand (w_queue ?w) (sc_workers s))" using in_hand_at [OF assms(4), of "w_queue ?w"] assms(5) by simp
  then show "belongs n (sc_streams s) x (w_queue ?w)" using held_accepted [OF assms(1) q] placedD(5) [OF assms(2) q] by blast
qed

lemma finished_call: "sched_call s s' \<Longrightarrow> finished n s \<Longrightarrow> finished n s'"
  by (induction rule: sched_call.cases) (fastforce simp: finished_def)+

lemma finished_run:
  assumes "finished n s" "st_done st" "length (sc_ran s) = Suc n"
  shows "finished n (finish_run q x clock st d s)"
  unfolding finished_def
proof (intro allI impI ballI)
  fix r y
  assume r: "r \<le> n" and "y \<in> fst ` set (sc_ran (finish_run q x clock st d s) ! r)"
  then have "y = x \<or> y \<in> fst ` set (sc_ran s ! r)" by (auto simp: nth_of_update split: if_splits)
  then show "\<exists>st'. sc_streams (finish_run q x clock st d s) y = Some st' \<and> st_done st'"
    using assms(2) assms(1) [unfolded finished_def, rule_format, OF r, of y] by (cases "y = x") auto
qed

lemma finished_same: "finished n s \<Longrightarrow> sc_streams s' = sc_streams s \<Longrightarrow> sc_ran s' = sc_ran s \<Longrightarrow> finished n s'"
  by (simp add: finished_def)

lemma finished_step:
  assumes "sched_step lib s s'" and f: "finished n s" and sh: "shaped W n s"
  shows "finished n s'"
  using assms(1)
proof cases
  case (run i x st clock err st' d)
  show ?thesis unfolding run(1)
    by (rule finished_same [OF finished_run [OF f execute_stream(2) [OF run(5)]]]) (use sh in \<open>auto simp: shaped_def\<close>)
next
  case (reject i x st e clock err st' d)
  show ?thesis unfolding reject(1)
    by (rule finished_same [OF finished_run [OF f execute_stream(2) [OF reject(6)]]]) (use sh in \<open>auto simp: shaped_def\<close>)
next
  case (straggler q x waiting st clock err st' d)
  show ?thesis unfolding straggler(1)
    by (rule finished_run [OF finished_same [OF f] execute_stream(2) [OF straggler(7)]]) (use sh in \<open>auto simp: shaped_def\<close>)
qed (auto intro!: finished_same [OF f])

lemma phases_call: "sched_call s s' \<Longrightarrow> phases s \<Longrightarrow> phases s'"
  by (induction rule: sched_call.cases) (auto simp: phases_def)

lemma phases_worker:
  assumes "phases s" "i < length (sc_workers s)" "\<not> w_exited (sc_workers s ! i)"
    "w_exited w \<longrightarrow> w_job w = Idle \<and> w_draining w" "w_draining w \<longrightarrow> sc_phase s \<noteq> Running"
    "sc_workers s' = (sc_workers s)[i := w]" "sc_phase s' = sc_phase s" "sc_submits s' = sc_submits s"
  shows "phases s'"
proof -
  have "sc_workers s ! i \<in> set (sc_workers s)" using assms(2) by simp
  then have "sc_phase s \<notin> {FinalDrain, Released}" using assms(1,3) by (auto simp: phases_def)
  moreover have "v \<in> set (sc_workers s) \<or> v = w" if "v \<in> set (sc_workers s')" for v
    using that assms(6) set_update_subset_insert by fastforce
  moreover have "(w_exited v \<longrightarrow> w_job v = Idle \<and> w_draining v) \<and> (w_draining v \<longrightarrow> sc_phase s \<noteq> Running)"
    if "v \<in> set (sc_workers s)" for v
    using assms(1) that by (simp add: phases_def)
  ultimately show ?thesis using assms(1,4,5,7,8) by (auto simp: phases_def)
qed

lemma phases_step:
  assumes "sched_step lib s s'" and p: "phases s" and sh: "shaped W n s"
  shows "phases s'"
  using assms(1)
proof cases
  case (fetch i w x waiting)
  show ?thesis
    by (rule phases_worker [OF p, where i = i and w = "w\<lparr>w_job := Fetched x\<rparr>"]) (use fetch p in \<open>auto simp: phases_def\<close>)
next
  case (notice_quit i w)
  show ?thesis
    by (rule phases_worker [OF p, where i = i and w = "w\<lparr>w_draining := True\<rparr>"]) (use notice_quit p in \<open>auto simp: phases_def\<close>)
next
  case (exit i w)
  show ?thesis
    by (rule phases_worker [OF p, where i = i and w = "w\<lparr>w_exited := True\<rparr>"]) (use exit p in \<open>auto simp: phases_def\<close>)
next
  case (acquire i x st g)
  then have "\<not> w_exited (sc_workers s ! i)" using p by (fastforce simp: phases_def)
  then show ?thesis
    by (intro phases_worker [OF p, where i = i and w = "(sc_workers s ! i)\<lparr>w_job := Locked x\<rparr>"]) (use acquire p in \<open>auto simp: phases_def\<close>)
next
  case (reject i x st e clock err st' d)
  then have "\<not> w_exited (sc_workers s ! i)" using p by (fastforce simp: phases_def)
  then show ?thesis
    by (intro phases_worker [OF p, where i = i and w = "(sc_workers s ! i)\<lparr>w_job := Idle\<rparr>"]) (use reject p in \<open>auto simp: phases_def\<close>)
next
  case (run i x st clock err st' d)
  then have "\<not> w_exited (sc_workers s ! i)" using p by (fastforce simp: phases_def)
  then show ?thesis
    by (intro phases_worker [OF p, where i = i and w = "(sc_workers s ! i)\<lparr>w_job := Idle\<rparr>"]) (use run p in \<open>auto simp: phases_def\<close>)
next
  case (workers_gone)
  then show ?thesis using p by (auto simp: phases_def list_all_iff)
next
  case (release)
  then show ?thesis using p by (auto simp: phases_def list_all_iff)
qed (use p in \<open>auto simp: phases_def\<close>)

text \<open>Exclusion looks only at the queries of the held streams.\<close>

definition held_query :: "('k, 'ti, 'vi, 'p) Scheduler \<Rightarrow> worker \<Rightarrow> 'p Query option" where
  "held_query s w = map_option st_Query (holds s w)"

definition clash :: "'p Query \<Rightarrow> 'p Query \<Rightarrow> bool" where
  "clash a b \<longleftrightarrow> GetGraphID a = GetGraphID b \<and> (IsWrite a \<or> IsWrite b)"

lemma conflicts_clash: "conflicts a b = clash (st_Query a) (st_Query b)"
  by (simp add: conflicts_def clash_def st_GraphID_def)

lemma exclusive_alt:
  "exclusive s \<longleftrightarrow> (\<forall>i < length (sc_workers s). \<forall>j < length (sc_workers s). \<forall>a b. i \<noteq> j \<longrightarrow>
     held_query s (sc_workers s ! i) = Some a \<longrightarrow> held_query s (sc_workers s ! j) = Some b \<longrightarrow> \<not> clash a b)"
  by (auto simp: exclusive_def held_query_def conflicts_clash)

lemma exclusive_less:
  assumes "exclusive s" "length (sc_workers s') = length (sc_workers s)"
    "\<And>i a. i < length (sc_workers s) \<Longrightarrow> held_query s' (sc_workers s' ! i) = Some a \<Longrightarrow> held_query s (sc_workers s ! i) = Some a"
  shows "exclusive s'"
  using assms unfolding exclusive_alt by metis

lemma held_query_ran:
  "sc_streams s x = Some st \<Longrightarrow> st_Query st' = st_Query st \<Longrightarrow> sc_streams s' = (sc_streams s)(x := Some st') \<Longrightarrow> held_query s' w = held_query s w"
  by (auto simp: held_query_def holds_def split: job.splits)

lemma held_query_same: "sc_streams s' = sc_streams s \<Longrightarrow> held_query s' w = held_query s w"
  by (cases "w_job w") (simp_all add: held_query_def holds_def)

lemma held_query_free: "\<forall>x. w_job w \<noteq> Locked x \<Longrightarrow> held_query s w = None"
  by (auto simp: held_query_def holds_def split: job.splits)

lemma exclusive_same:
  assumes "exclusive s" "sc_streams s' = sc_streams s" "sc_workers s' = sc_workers s"
  shows "exclusive s'"
  by (rule exclusive_less [OF assms(1)]) (simp_all add: assms(3) held_query_same [OF assms(2)])

lemma exclusive_worker:
  assumes e: "exclusive s" and i: "i < length (sc_workers s)" and w: "sc_workers s' = (sc_workers s)[i := w]"
    and same: "\<And>v. held_query s' v = held_query s v" and free: "held_query s w = None \<or> held_query s w = held_query s (sc_workers s ! i)"
  shows "exclusive s'"
  by (rule exclusive_less [OF e]) (use w same free in \<open>auto simp: nth_of_update split: if_splits\<close>)

lemma exclusive_acquire:
  assumes e: "exclusive s" and i: "i < length (sc_workers s)" and st: "sc_streams s x = Some st" and free: "lock_free s st"
  shows "exclusive (set_job i (Locked x) s)"
proof -
  have same: "held_query (set_job i (Locked x) s) v = held_query s v" for v by (rule held_query_same) simp
  have other: "\<not> clash (st_Query st) b \<and> \<not> clash b (st_Query st)" if "j < length (sc_workers s)" "held_query s (sc_workers s ! j) = Some b" for j b
    using free that by (auto simp: lock_free_def list_all_iff held_query_def conflicts_clash clash_def split: option.splits dest!: nth_mem)
  have mine: "held_query s ((sc_workers s ! i)\<lparr>w_job := Locked x\<rparr>) = Some (st_Query st)" using st by (simp add: held_query_def holds_def)
  show ?thesis unfolding exclusive_alt same
    using e [unfolded exclusive_alt] other mine by (auto simp: nth_of_update split: if_splits)
qed

lemma exclusive_call:
  assumes "sched_call s s'" and e: "exclusive s" and known: "\<And>w x. w \<in> set (sc_workers s) \<Longrightarrow> w_job w = Locked x \<Longrightarrow> sc_streams s x \<noteq> None"
  shows "exclusive s'"
  using assms(1)
proof cases
  case (submit x stream)
  have "w_job (sc_workers s ! i) \<noteq> Locked x" if "i < length (sc_workers s)" for i using known [OF nth_mem [OF that]] submit(2) by blast
  then show ?thesis
    by (intro exclusive_less [OF e]) (use submit in \<open>auto simp: held_query_def holds_def split: job.splits if_splits\<close>)
next
  case (submit_late x stream)
  have "w_job (sc_workers s ! i) \<noteq> Locked x" if "i < length (sc_workers s)" for i using known [OF nth_mem [OF that]] submit_late(2) by blast
  then show ?thesis
    by (intro exclusive_less [OF e]) (use submit_late in \<open>auto simp: held_query_def holds_def split: job.splits if_splits\<close>)
next
  case stop
  show ?thesis by (rule exclusive_same [OF e]) (simp_all add: stop)
qed

lemma exclusive_step:
  assumes "sched_step lib s s'" and e: "exclusive s"
  shows "exclusive s'"
  using assms(1)
proof cases
  case (acquire i x st g)
  show ?thesis unfolding acquire(1) by (rule exclusive_acquire [OF e acquire(2,4,6)])
next
  case (run i x st clock err st' d)
  show ?thesis unfolding run(1)
    by (rule exclusive_worker [OF e run(2), where w = "(sc_workers s ! i)\<lparr>w_job := Idle\<rparr>"])
      (auto intro!: held_query_free held_query_ran [OF run(4) execute_stream(1) [OF run(5)]])
next
  case (reject i x st e' clock err st' d)
  show ?thesis unfolding reject(1)
    by (rule exclusive_worker [OF e reject(2), where w = "(sc_workers s ! i)\<lparr>w_job := Idle\<rparr>"])
      (auto intro!: held_query_free held_query_ran [OF reject(4) execute_stream(1) [OF reject(6)]])
next
  case (straggler q x waiting st clock err st' d)
  show ?thesis unfolding straggler(1)
    by (rule exclusive_less [OF e]) (simp_all add: held_query_ran [OF straggler(6) execute_stream(1) [OF straggler(7)]])
next
  case (fetch i w x waiting)
  show ?thesis unfolding fetch(1)
    by (rule exclusive_worker [OF e fetch(2), where w = "w\<lparr>w_job := Fetched x\<rparr>"]) (use fetch in \<open>auto intro: held_query_free held_query_same\<close>)
next
  case (notice_quit i w)
  show ?thesis unfolding notice_quit(1)
    by (rule exclusive_worker [OF e notice_quit(2), where w = "w\<lparr>w_draining := True\<rparr>"]) (use notice_quit in \<open>auto intro: held_query_free held_query_same\<close>)
next
  case (exit i w)
  show ?thesis unfolding exit(1)
    by (rule exclusive_worker [OF e exit(2), where w = "w\<lparr>w_exited := True\<rparr>"]) (use exit in \<open>auto intro: held_query_free held_query_same\<close>)
qed (auto intro!: exclusive_same [OF e])

lemma foldl_known:
  "streams x = None \<Longrightarrow> (\<And>e. e \<in> set entries \<Longrightarrow> streams (fst e) \<noteq> None) \<Longrightarrow>
   foldl (apply_write lib (streams(x := Some st))) g entries = foldl (apply_write lib streams) g entries"
proof (induction entries arbitrary: g)
  case (Cons e entries)
  have "apply_write lib (streams(x := Some st)) g e = apply_write lib streams g e"
    using Cons.prems(1) Cons.prems(2) [of e] by (auto simp: apply_write_def)
  then show ?case using Cons by (simp del: fun_upd_apply)
qed simp

lemma serial_same:
  "serial lib d0 s \<Longrightarrow> sc_streams s' = sc_streams s \<Longrightarrow> sc_ran s' = sc_ran s \<Longrightarrow> sc_DB s' = sc_DB s \<Longrightarrow> serial lib d0 s'"
  by (simp add: serial_def)

lemma serial_new:
  assumes s: "serial lib d0 s" and sh: "shaped W n s" and f: "finished n s" and x: "sc_streams s x = None"
    and same: "sc_streams s' = (sc_streams s)(x := Some st)" "sc_ran s' = sc_ran s" "sc_DB s' = sc_DB s"
  shows "serial lib d0 s'"
  unfolding serial_def same
proof (intro allI impI)
  fix i
  assume i: "i < length (Graphs (sc_DB s))"
  then have "Suc i \<le> n" using sh by (simp add: shaped_def)
  then have "foldl (apply_write lib ((sc_streams s)(x := Some st))) g (sc_ran s ! Suc i) = foldl (apply_write lib (sc_streams s)) g (sc_ran s ! Suc i)" for g
    by (intro foldl_known [of "sc_streams s" x, OF x]) (use f in \<open>fastforce simp: finished_def\<close>)
  then show "Graphs (sc_DB s) ! i = map_option (\<lambda>(g, settings). (foldl (apply_write lib ((sc_streams s)(x := Some st))) g (sc_ran s ! Suc i), settings)) (Graphs d0 ! i)"
    using s i by (simp add: serial_def)
qed

lemma serial_run:
  assumes s: "serial lib d0 s" and sh: "shaped W n s" and st: "sc_streams s x = Some st" and q: "belongs n (sc_streams s) x q"
    and run: "execute lib clock (sc_DB s) st = Some (err, st', d)"
  shows "serial lib d0 (finish_run q x clock st' d s)"
proof -
  have len: "length (Graphs (sc_DB s)) = n" "length (sc_ran s) = Suc n" using sh by (auto simp: shaped_def)
  have q': "q = queue_of (length (Graphs (sc_DB s))) st" using q st len by (simp add: belongs_def)
  have same: "apply_write lib ((sc_streams s)(x := Some st')) = apply_write lib (sc_streams s)"
    by (rule ran_query_same [of "sc_streams s" x, OF st execute_stream(1) [OF run]])
  show ?thesis unfolding serial_def
  proof (intro allI impI)
    fix i
    assume "i < length (Graphs (sc_DB (finish_run q x clock st' d s)))"
    then have i: "i < length (Graphs (sc_DB s))" using execute_stream(3) [OF run] by simp
    then have "Graphs (sc_DB s) ! i =
        map_option (\<lambda>(g, settings). (foldl (apply_write lib (sc_streams s)) g (sc_ran s ! Suc i), settings)) (Graphs d0 ! i)"
      using s by (simp add: serial_def)
    then show "Graphs (sc_DB (finish_run q x clock st' d s)) ! i = map_option (\<lambda>(g, settings).
        (foldl (apply_write lib (sc_streams (finish_run q x clock st' d s))) g (sc_ran (finish_run q x clock st' d s) ! Suc i), settings)) (Graphs d0 ! i)"
      using execute_graphs [of lib clock "sc_DB s" st err st' d "sc_streams s" x, OF run st q' i] i len
      by (cases "Graphs d0 ! i") (auto simp: same nth_of_update)
  qed
qed

text \<open>All of it, from the start.\<close>

definition sched_inv :: "('k, 'ti, 'vi, 'p) search_lib \<Rightarrow> ('k :: linorder, 'ti, 'vi) DB \<Rightarrow> nat \<Rightarrow> nat \<Rightarrow> ('k, 'ti, 'vi, 'p) Scheduler \<Rightarrow> bool" where
  "sched_inv lib d0 W n s \<longleftrightarrow> shaped W n s \<and> accounts n s \<and> placed n s \<and> finished n s \<and> phases s \<and> exclusive s \<and> serial lib d0 s"

lemma locked_known:
  assumes "accounts n s" "placed n s" "shaped W n s" "w \<in> set (sc_workers s)" "x \<in> set (taken (w_job w))"
  shows "sc_streams s x \<noteq> None"
proof -
  obtain i where "i < length (sc_workers s)" "w = sc_workers s ! i" using assms(4) by (auto simp: in_set_conv_nth)
  then show ?thesis using worker_belongs(2) [OF assms(1-3), of i x] assms(5) by (auto dest: belongs_known)
qed

lemma inv_call:
  assumes "sched_call s s'" and inv: "sched_inv lib d0 W n s"
  shows "sched_inv lib d0 W n s'"
proof -
  have parts: "shaped W n s" "accounts n s" "placed n s" "finished n s" "phases s" "exclusive s" "serial lib d0 s"
    using inv by (auto simp: sched_inv_def)
  have "exclusive s'" by (rule exclusive_call [OF assms(1) parts(6)]) (use locked_known [OF parts(2,3,1)] in fastforce)
  moreover have "serial lib d0 s'" using assms(1)
    by cases (use serial_new [OF parts(7,1,4)] serial_same [OF parts(7)] in auto)
  ultimately show ?thesis
    using shaped_call accounts_call placed_call finished_call phases_call assms(1) parts unfolding sched_inv_def by blast
qed

lemma serial_step:
  assumes "sched_step lib s s'" and inv: "sched_inv lib d0 W n s"
  shows "serial lib d0 s'"
proof -
  have parts: "shaped W n s" "accounts n s" "placed n s" "finished n s" "phases s" "exclusive s" "serial lib d0 s"
    using inv by (auto simp: sched_inv_def)
  show ?thesis using assms(1)
  proof cases
    case (run i x st clock err st' d)
    have "belongs n (sc_streams s) x (w_queue (sc_workers s ! i))" using worker_belongs(2) [OF parts(2,3,1) run(2)] run(3) by simp
    from serial_run [OF parts(7,1) run(4) this run(5)] show ?thesis unfolding run(1) by (rule serial_same) simp_all
  next
    case (reject i x st e clock err st' d)
    have "belongs n (sc_streams s) x (w_queue (sc_workers s ! i))" using worker_belongs(2) [OF parts(2,3,1) reject(2)] reject(3) by simp
    from serial_run [OF parts(7,1) reject(4) this reject(6)] show ?thesis unfolding reject(1) by (rule serial_same) simp_all
  next
    case (straggler q x waiting st clock err st' d)
    let ?t = "s\<lparr>sc_queues := (sc_queues s)[q := waiting]\<rparr>"
    have q: "q \<le> n" using straggler(3) parts(1) by (simp add: shaped_def)
    have "belongs n (sc_streams s) x q"
      using placedD(5) [OF parts(3) q held_accepted [OF parts(2) q]] straggler(5) by simp
    moreover have "serial lib d0 ?t" by (rule serial_same [OF parts(7)]) simp_all
    moreover have "shaped W n ?t" using parts(1) by (simp add: shaped_def)
    ultimately show ?thesis unfolding straggler(1) using straggler(6,7) by (intro serial_run) auto
  qed (auto intro!: serial_same [OF parts(7)])
qed

lemma inv_step:
  assumes "sched_step lib s s'" and inv: "sched_inv lib d0 W n s"
  shows "sched_inv lib d0 W n s'"
  using shaped_step [OF assms(1)] accounts_step [OF assms(1)] placed_step [OF assms(1)] finished_step [OF assms(1)]
    phases_step [OF assms(1)] exclusive_step [OF assms(1)] serial_step [OF assms] inv
  unfolding sched_inv_def by blast

lemma inv_start:
  assumes "sched_Start cfg (Some d) = Inr s0" "slots_full d"
  shows "sched_inv lib d (nat (Workers (Scheduler cfg))) (length (Graphs d)) s0"
proof -
  have s0: "sc_DB s0 = d" "sc_queues s0 = replicate (Suc (length (Graphs d))) []" "sc_accepted s0 = replicate (Suc (length (Graphs d))) []"
    "sc_ran s0 = replicate (Suc (length (Graphs d))) []" "sc_submits s0 = []" "sc_phase s0 = Running" "sc_replies s0 = (\<lambda>_. None)"
    "sc_workers s0 = replicate (nat (Workers (Scheduler cfg))) (spawn 0) @ map (\<lambda>i. spawn (Suc i)) [0..<length (Graphs d)]"
    using assms(1) by (auto simp: sched_Start_def Let_def db_NumGraphs_def simp del: replicate_Suc)
  have idle: "w_job w = Idle \<and> \<not> w_exited w \<and> \<not> w_draining w" if "w \<in> set (sc_workers s0)" for w
    using that by (auto simp: s0 spawn_def)
  have "in_hand q (sc_workers s0) = []" for q using idle by (fastforce simp: in_hand_def)
  then have "accounts (length (Graphs d)) s0" by (simp add: accounts_def balanced_def s0 del: replicate_Suc)
  moreover have "shaped (nat (Workers (Scheduler cfg))) (length (Graphs d)) s0"
    using assms(2) by (simp add: shaped_def s0 crew_def spawn_def comp_def)
  moreover have "placed (length (Graphs d)) s0" "finished (length (Graphs d)) s0"
    by (simp_all add: placed_def finished_def s0 del: replicate_Suc)
  moreover have "phases s0" using idle by (auto simp: phases_def s0(5,6))
  moreover have "exclusive s0" unfolding exclusive_alt using idle nth_mem held_query_free by (metis job.distinct(3) option.distinct(1))
  moreover have "serial lib d s0" by (auto simp: serial_def s0 simp del: replicate_Suc) (simp add: option.map_id)
  ultimately show ?thesis by (simp add: sched_inv_def)
qed

lemma inv_reach:
  assumes "sched_reach lib s0 s" "sched_Start cfg (Some d) = Inr s0" "slots_full d"
  shows "sched_inv lib d (nat (Workers (Scheduler cfg))) (length (Graphs d)) s"
  using assms(1) by induction (auto intro: inv_start [OF assms(2,3)] inv_call inv_step)

end
