(* ===== verification/Scheduler_Progress.thy ===== *)
theory Scheduler_Progress
  imports Scheduler_Correct Query_Remember
begin

text \<open>
  The scheduler's promises: what an answer of \<open>Submit\<close> means, the exclusion of writers, the serial order of
  the writes, and that without new calls it comes to rest with every accepted stream executed, released
  when \<open>Stop\<close> was called.
\<close>

section \<open>Safety\<close>

text \<open>C26: \<open>Submit\<close> answers nil exactly for the streams some queue accepted. A queue accepts a stream once, the one the
  stream belongs on; what it accepted is what was executed from it, what its workers hold and what waits,
  and on a lane in exactly this order. A stream is executed at most once and is done once it was.\<close>

theorem accepted_streams_accounted:
  assumes "sched_Start cfg (Some d) = Inr s0" "slots_full d" "sched_reach lib s0 s"
  shows "(\<forall>x. sc_replies s x = Some None \<longleftrightarrow> (\<exists>q \<le> db_NumGraphs d. x \<in> set (sc_accepted s ! q))) \<and>
    (\<forall>q \<le> db_NumGraphs d.
       distinct (sc_accepted s ! q) \<and>
       (\<forall>x \<in> set (sc_accepted s ! q). \<exists>st. sc_streams s x = Some st \<and> queue_of (db_NumGraphs d) st = q) \<and>
       mset (sc_accepted s ! q) = mset (map fst (sc_ran s ! q)) + mset (in_hand q (sc_workers s)) + mset (sc_queues s ! q) \<and>
       (q \<noteq> 0 \<longrightarrow> sc_accepted s ! q = map fst (sc_ran s ! q) @ in_hand q (sc_workers s) @ sc_queues s ! q) \<and>
       (\<forall>x \<in> set (map fst (sc_ran s ! q)). \<exists>st. sc_streams s x = Some st \<and> st_done st))"
proof -
  have inv: "accounts (db_NumGraphs d) s" "placed (db_NumGraphs d) s" "finished (db_NumGraphs d) s"
    using inv_reach [OF assms(3,1,2)] by (auto simp: sched_inv_def db_NumGraphs_def)
  have "\<exists>st. sc_streams s x = Some st \<and> queue_of (db_NumGraphs d) st = q" if "q \<le> db_NumGraphs d" "x \<in> set (sc_accepted s ! q)" for x q
    using placedD(5) [OF inv(2) that] by (auto simp: belongs_def)
  moreover have "\<exists>st. sc_streams s x = Some st \<and> st_done st" if "q \<le> db_NumGraphs d" "x \<in> set (map fst (sc_ran s ! q))" for x q
    using inv(3) that by (force simp: finished_def)
  ultimately show ?thesis
    using inv(1) placedD(4,6,7) [OF inv(2)] unfolding accounts_def balanced_def by blast
qed

text \<open>C27: Two workers that hold the lock of one graph at the same time are both reading.\<close>

theorem writers_exclude:
  assumes "sched_Start cfg (Some d) = Inr s0" "slots_full d" "sched_reach lib s0 s"
    and "i < length (sc_workers s)" "j < length (sc_workers s)" "i \<noteq> j"
    and "holds s (sc_workers s ! i) = Some a" "holds s (sc_workers s ! j) = Some b" "st_GraphID a = st_GraphID b"
  shows "\<not> IsWrite (st_Query a) \<and> \<not> IsWrite (st_Query b)"
proof -
  have "exclusive s" using inv_reach [OF assms(3,1,2)] by (simp add: sched_inv_def)
  then show ?thesis using assms(4-9) unfolding exclusive_def conflicts_def by blast
qed

text \<open>C25: The writes of one graph take effect one after the other, in the order its lane accepted them: whatever the
  readers, the other lanes and \<open>Stop\<close> do in between, every graph is its first state after a prefix of the
  accepted writes, each applied at its own clock, and its stages never change.\<close>

theorem writes_apply_in_lane_order:
  assumes "sched_Start cfg (Some d) = Inr s0" "slots_full d" "sched_reach lib s0 s"
  shows "\<forall>i < db_NumGraphs d. \<exists>clocks. length clocks \<le> length (sc_accepted s ! Suc i) \<and>
    Graphs (sc_DB s) ! i = map_option (\<lambda>(g, settings).
      (foldl (apply_write lib (sc_streams s)) g (zip (sc_accepted s ! Suc i) clocks), settings)) (Graphs d ! i)"
proof (intro allI impI)
  fix i
  assume i: "i < db_NumGraphs d"
  have inv: "accounts (db_NumGraphs d) s" "serial lib d s" "length (Graphs (sc_DB s)) = db_NumGraphs d"
    using inv_reach [OF assms(3,1,2)] by (auto simp: sched_inv_def db_NumGraphs_def shaped_def)
  have a: "sc_accepted s ! Suc i = map fst (sc_ran s ! Suc i) @ in_hand (Suc i) (sc_workers s) @ sc_queues s ! Suc i"
    using inv(1) i by (simp add: accounts_def balanced_def)
  have "zip (sc_accepted s ! Suc i) (map snd (sc_ran s ! Suc i)) = sc_ran s ! Suc i"
    unfolding a by (simp add: zip_append1 zip_map_fst_snd)
  then show "\<exists>clocks. length clocks \<le> length (sc_accepted s ! Suc i) \<and>
    Graphs (sc_DB s) ! i = map_option (\<lambda>(g, settings).
      (foldl (apply_write lib (sc_streams s)) g (zip (sc_accepted s ! Suc i) clocks), settings)) (Graphs d ! i)"
    using inv(2,3) i by (intro exI [of _ "map snd (sc_ran s ! Suc i)"]) (simp add: a serial_def)
qed

section \<open>Progress\<close>

fun job_work :: "job \<Rightarrow> nat" where
  "job_work Idle = 0"
| "job_work (Fetched x) = 3"
| "job_work (Locked x) = 2"

definition worker_work :: "worker \<Rightarrow> nat" where
  "worker_work w = job_work (w_job w) + (if w_draining w then 0 else 1) + (if w_exited w then 0 else 1)"

fun phase_work :: "stop_phase \<Rightarrow> nat" where
  "phase_work Running = 3"
| "phase_work AwaitSubmits = 3"
| "phase_work AwaitWorkers = 2"
| "phase_work FinalDrain = 1"
| "phase_work Released = 0"

text \<open>What is left to do: five steps for a parked call, four for a waiting stream, and the exits.\<close>

definition work :: "('k, 'ti, 'vi, 'p) Scheduler \<Rightarrow> nat" where
  "work s = 5 * length (sc_submits s) + 4 * sum_list (map length (sc_queues s)) +
     sum_list (map worker_work (sc_workers s)) + phase_work (sc_phase s)"

lemma sum_update: "i < length xs \<Longrightarrow> sum_list (map f (xs[i := x])) + f (xs ! i) = sum_list (map f xs) + (f x :: nat)"
  by (induction xs arbitrary: i) (auto split: nat.splits)

lemma worker_less: "i < length ws \<Longrightarrow> worker_work w < worker_work (ws ! i) \<Longrightarrow>
    sum_list (map worker_work (ws[i := w])) < sum_list (map worker_work ws)"
  using sum_update [of i ws worker_work w] by simp

lemma work_decreases:
  assumes "sched_step lib s s'" and sh: "shaped W n s"
  shows "work s' < work s"
  using assms(1)
proof cases
  case (enqueue x q)
  have "length (sc_submits s) = Suc (length (remove1 (x, q) (sc_submits s)))" using enqueue(2) by (simp add: length_remove1) (metis Suc_pred length_pos_if_in_set)
  moreover have "sum_list (map length ((sc_queues s)[q := sc_queues s ! q @ [x]])) \<le> Suc (sum_list (map length (sc_queues s)))"
    using sum_update [of q "sc_queues s" length "sc_queues s ! q @ [x]"] by (cases "q < length (sc_queues s)") (auto simp: list_update_beyond)
  ultimately show ?thesis using enqueue(1) by (simp add: work_def)
next
  case (refuse x q e)
  have "length (sc_submits s) = Suc (length (remove1 (x, q) (sc_submits s)))" using refuse(2) by (simp add: length_remove1) (metis Suc_pred length_pos_if_in_set)
  then show ?thesis using refuse(1) by (simp add: work_def)
next
  case (fetch i w x waiting)
  have "w_queue w < length (sc_queues s)" using crew_bound [of "sc_workers s" W n w] sh fetch(2,3) by (simp add: shaped_def)
  then show ?thesis
    using fetch sum_update [of "w_queue w" "sc_queues s" length waiting] sum_update [of i "sc_workers s" worker_work "w\<lparr>w_job := Fetched x\<rparr>"]
    by (simp add: work_def worker_work_def)
next
  case (notice_quit i w)
  then show ?thesis using worker_less [of i "sc_workers s" "w\<lparr>w_draining := True\<rparr>"] by (simp add: work_def worker_work_def)
next
  case (exit i w)
  then show ?thesis using worker_less [of i "sc_workers s" "w\<lparr>w_exited := True\<rparr>"] by (simp add: work_def worker_work_def)
next
  case (acquire i x st g)
  then show ?thesis using worker_less [of i "sc_workers s" "(sc_workers s ! i)\<lparr>w_job := Locked x\<rparr>"] by (simp add: work_def worker_work_def)
next
  case (reject i x st e clock err st' d)
  then show ?thesis using worker_less [of i "sc_workers s" "(sc_workers s ! i)\<lparr>w_job := Idle\<rparr>"] by (simp add: work_def worker_work_def)
next
  case (run i x st clock err st' d)
  then show ?thesis using worker_less [of i "sc_workers s" "(sc_workers s ! i)\<lparr>w_job := Idle\<rparr>"] by (simp add: work_def worker_work_def)
next
  case (straggler q x waiting st clock err st' d)
  then show ?thesis using sum_update [of q "sc_queues s" length waiting] by (simp add: work_def)
qed (simp_all add: work_def)

lemma shaped_steps: "(sched_step lib ^^ m) s s' \<Longrightarrow> shaped W n s \<Longrightarrow> shaped W n s' \<and> work s' + m \<le> work s"
proof (induction m arbitrary: s')
  case (Suc m)
  then obtain t where t: "(sched_step lib ^^ m) s t" "sched_step lib t s'" by auto
  then show ?case using Suc.IH [OF t(1)] Suc.prems(2) shaped_step [OF t(2)] work_decreases [OF t(2), of W n] by simp
qed simp

text \<open>C28: The scheduler never runs on its own accord for ever: from every reachable state at most \<open>work s\<close> steps of its
  workers, its parked calls and a running \<open>Stop\<close> can follow before the next call.\<close>

theorem internal_steps_bounded:
  assumes "sched_Start cfg (Some d) = Inr s0" "slots_full d" "sched_reach lib s0 s" and "(sched_step lib ^^ m) s s'"
  shows "m \<le> work s"
proof -
  have "shaped (nat (Workers (Scheduler cfg))) (length (Graphs d)) s" using inv_reach [OF assms(3,1,2)] by (simp add: sched_inv_def)
  from shaped_steps [OF assms(4) this] show ?thesis by simp
qed

text \<open>No step left: nobody is parked, no worker holds a stream, and nothing waits.\<close>

lemma lane_worker:
  assumes "map w_queue ws = crew W n" "q \<le> n" "q \<noteq> 0 \<or> W \<noteq> 0"
  shows "\<exists>w \<in> set ws. w_queue w = q"
proof -
  have "q \<in> set (crew W n)" using assms(2,3) by (cases q) (auto simp: crew_def)
  then show ?thesis using assms(1) by (metis imageE set_map)
qed

lemma stuck_hands:
  assumes stuck: "\<nexists>s'. sched_step lib s s'" and inv: "sched_inv lib d0 W n s" and i: "i < length (sc_workers s)"
  shows "w_job (sc_workers s ! i) = Idle"
proof -
  have parts: "shaped W n s" "accounts n s" "placed n s" "slots_full (sc_DB s)" using inv by (auto simp: sched_inv_def shaped_def)
  have known: "\<exists>st. sc_streams s x = Some st" if "j < length (sc_workers s)" "x \<in> set (taken (w_job (sc_workers s ! j)))" for j x
    using locked_known [OF parts(2,3,1), of "sc_workers s ! j" x] that by auto
  have locked: "w_job (sc_workers s ! j) \<noteq> Locked x" if j: "j < length (sc_workers s)" for j x
  proof
    assume l: "w_job (sc_workers s ! j) = Locked x"
    obtain st where "sc_streams s x = Some st" using known [OF j, of x] l by auto
    then show False using stuck sched_step.run [OF j l] execute_total [OF parts(4), of lib undefined st] by metis
  qed
  have "w_job (sc_workers s ! i) \<noteq> Fetched x" for x
  proof
    assume f: "w_job (sc_workers s ! i) = Fetched x"
    obtain st where st: "sc_streams s x = Some st" using known [OF i, of x] f by auto
    show False
    proof (cases "Select (sc_DB s) (st_GraphID st)")
      case (Inl e)
      then show ?thesis using stuck sched_step.reject [OF i f st] execute_total [OF parts(4), of lib undefined st] by metis
    next
      case (Inr slot)
      have "lock_free s st" using locked by (auto simp: lock_free_def list_all_length holds_def split: job.splits)
      then show ?thesis using stuck sched_step.acquire [OF i f st] Inr Select_full [OF parts(4)] by metis
    qed
  qed
  then show ?thesis using locked [OF i] by (cases "w_job (sc_workers s ! i)") auto
qed

lemma stuck_workers:
  assumes stuck: "\<nexists>s'. sched_step lib s s'" and inv: "sched_inv lib d0 W n s" and w: "w \<in> set (sc_workers s)" "\<not> w_exited w"
  shows "sc_queues s ! w_queue w = []" "sc_phase s = Running"
proof -
  obtain i where i: "i < length (sc_workers s)" "w = sc_workers s ! i" using w(1) by (auto simp: in_set_conv_nth)
  have idle: "w_job w = Idle" using stuck_hands [OF stuck inv i(1)] i(2) by simp
  show q: "sc_queues s ! w_queue w = []" using stuck sched_step.fetch [OF i w(2) idle] by (cases "sc_queues s ! w_queue w") auto
  show "sc_phase s = Running"
    using stuck sched_step.notice_quit [OF i w(2) idle] sched_step.exit [OF i w(2) idle _ q] by blast
qed

lemma stuck_rests:
  assumes stuck: "\<nexists>s'. sched_step lib s s'" and inv: "sched_inv lib d0 W n s" and "W \<noteq> 0"
  shows "sc_submits s = []" "\<And>q. in_hand q (sc_workers s) = []" "\<forall>q \<le> n. sc_queues s ! q = []"
    "sc_phase s = Running \<or> sc_phase s = Released"
proof -
  have parts: "shaped W n s" "phases s" "placed n s" "accounts n s" "slots_full (sc_DB s)" using inv by (auto simp: sched_inv_def shaped_def)
  show "sc_submits s = []" using stuck sched_step.refuse [of _ _ s ErrQueueFull] by (cases "sc_submits s") (auto simp: refusal_def)
  have "w_job w = Idle" if "w \<in> set (sc_workers s)" for w using stuck_hands [OF stuck inv] that by (auto simp: in_set_conv_nth)
  then show hand: "in_hand q (sc_workers s) = []" for q by (force simp: in_hand_def)
  show phase: "sc_phase s = Running \<or> sc_phase s = Released"
  proof (cases "sc_phase s")
    case AwaitSubmits
    then show ?thesis using stuck sched_step.submits_gone \<open>sc_submits s = []\<close> by blast
  next
    case AwaitWorkers
    then have "list_all w_exited (sc_workers s)" using stuck_workers(2) [OF stuck inv] by (auto simp: list_all_iff)
    then show ?thesis using AwaitWorkers stuck sched_step.workers_gone by blast
  next
    case FinalDrain
    show ?thesis
    proof (cases "list_all (\<lambda>waiting. waiting = []) (sc_queues s)")
      case True
      then show ?thesis using FinalDrain stuck sched_step.release by blast
    next
      case False
      define q where "q = (LEAST q. q < length (sc_queues s) \<and> sc_queues s ! q \<noteq> [])"
      have ex: "\<exists>q. q < length (sc_queues s) \<and> sc_queues s ! q \<noteq> []" using False by (auto simp: list_all_length)
      have q: "q < length (sc_queues s)" "sc_queues s ! q \<noteq> []" unfolding q_def using LeastI_ex [OF ex] by blast+
      have first: "list_all (\<lambda>waiting. waiting = []) (take q (sc_queues s))"
        using not_less_Least [of _ "\<lambda>q. q < length (sc_queues s) \<and> sc_queues s ! q \<noteq> []"] q(1)
        by (force simp: list_all_length q_def [symmetric])
      obtain x waiting where x: "sc_queues s ! q = x # waiting" using q(2) by (cases "sc_queues s ! q") auto
      have "q \<le> n" using q(1) parts(1) by (simp add: shaped_def)
      then have "sc_streams s x \<noteq> None"
        using placedD(5) [OF parts(3) _ held_accepted [OF parts(4), of q x]] x by (auto dest: belongs_known)
      then obtain st where "sc_streams s x = Some st" by blast
      then show ?thesis
        using stuck sched_step.straggler [OF FinalDrain q(1) first x] execute_total [OF parts(5), of lib undefined st] by metis
    qed
  qed auto
  show "\<forall>q \<le> n. sc_queues s ! q = []"
  proof (intro allI impI)
    fix q
    assume q: "q \<le> n"
    show "sc_queues s ! q = []"
    proof (cases "sc_phase s = Released")
      case True
      have "sc_queues s ! q \<in> set (sc_queues s)" using q parts(1) by (simp add: shaped_def)
      then show ?thesis using True parts(2) by (simp add: phases_def)
    next
      case False
      then have running: "sc_phase s = Running" using phase by simp
      obtain w where w: "w \<in> set (sc_workers s)" "w_queue w = q"
        using lane_worker [of "sc_workers s" W n q] parts(1) q assms(3) by (auto simp: shaped_def)
      have "\<not> w_exited w" using parts(2) w(1) running by (auto simp: phases_def)
      then show ?thesis using stuck_workers(1) [OF stuck inv w(1)] w(2) by simp
    qed
  qed
qed

text \<open>Nothing is owed in a state.\<close>

definition settled :: "nat \<Rightarrow> ('k, 'ti, 'vi, 'p) Scheduler \<Rightarrow> bool" where
  "settled n s \<longleftrightarrow> sc_submits s = [] \<and>
     (\<forall>q \<le> n. sc_queues s ! q = [] \<and> mset (map fst (sc_ran s ! q)) = mset (sc_accepted s ! q) \<and>
        (q \<noteq> 0 \<longrightarrow> map fst (sc_ran s ! q) = sc_accepted s ! q)) \<and>
     (\<forall>x. sc_replies s x = Some None \<longrightarrow> (\<exists>st. sc_streams s x = Some st \<and> st_done st))"

lemma stuck_settled:
  assumes "\<nexists>t. sched_step lib s t" "sched_inv lib d0 W n s" "W \<noteq> 0"
  shows "settled n s"
proof -
  have parts: "accounts n s" "placed n s" "finished n s" using assms(2) by (auto simp: sched_inv_def)
  note rest = stuck_rests [OF assms]
  have ran: "mset (map fst (sc_ran s ! q)) = mset (sc_accepted s ! q)" "q \<noteq> 0 \<longrightarrow> map fst (sc_ran s ! q) = sc_accepted s ! q"
    if "q \<le> n" for q
    using parts(1) rest(2,3) that by (auto simp: accounts_def balanced_def)
  have "\<exists>st. sc_streams s x = Some st \<and> st_done st" if reply: "sc_replies s x = Some None" for x
  proof -
    obtain q where q: "q \<le> n" "x \<in> set (sc_accepted s ! q)" using placedD(7) [OF parts(2) reply] by blast
    then have "x \<in> fst ` set (sc_ran s ! q)" using arg_cong [OF ran(1) [OF q(1)], of set_mset] by simp
    then show ?thesis using parts(3) q(1) by (auto simp: finished_def)
  qed
  then show ?thesis using rest(1,3) ran by (auto simp: settled_def)
qed

lemma reach_steps: "(sched_step lib)\<^sup>*\<^sup>* s s' \<Longrightarrow> sched_reach lib s0 s \<Longrightarrow> sched_reach lib s0 s'"
  by (induction rule: rtranclp_induct) (auto intro: sched_reach.stepped)

lemma steps_quit: "(sched_step lib)\<^sup>*\<^sup>* s s' \<Longrightarrow> sc_phase s' = Running \<Longrightarrow> sc_phase s = Running"
  by (induction rule: rtranclp_induct) (auto elim!: sched_step.cases)

lemma steps_end: "shaped W n s \<Longrightarrow> \<exists>s'. (sched_step lib)\<^sup>*\<^sup>* s s' \<and> (\<nexists>t. sched_step lib s' t)"
proof (induction "work s" arbitrary: s rule: less_induct)
  case less
  show ?case
  proof (cases "\<exists>t. sched_step lib s t")
    case True
    then obtain t where t: "sched_step lib s t" by blast
    then show ?thesis using less(1) [OF work_decreases [OF t less(2)] shaped_step [OF t less(2)]]
      by (meson converse_rtranclp_into_rtranclp)
  qed blast
qed

text \<open>C24: Without new calls the scheduler comes to rest, whatever order its goroutines run in: a state without a next
  step can be reached from every reachable state, and in every such state no call is parked, each queue
  has executed exactly the streams it accepted, once each and on a lane in order, every one of them is
  done, and \<open>Stop\<close>, when it was called, has released the queues.\<close>

theorem scheduler_comes_to_rest:
  assumes "sched_Start cfg (Some d) = Inr s0" "slots_full d" "1 \<le> Workers (Scheduler cfg)" "sched_reach lib s0 s"
  shows "(\<exists>s'. (sched_step lib)\<^sup>*\<^sup>* s s' \<and> (\<nexists>t. sched_step lib s' t)) \<and>
    (\<forall>s'. (sched_step lib)\<^sup>*\<^sup>* s s' \<longrightarrow> (\<nexists>t. sched_step lib s' t) \<longrightarrow>
       settled (db_NumGraphs d) s' \<and> (sc_phase s \<noteq> Running \<longrightarrow> sc_phase s' = Released))"
proof (intro conjI allI impI)
  show "\<exists>s'. (sched_step lib)\<^sup>*\<^sup>* s s' \<and> (\<nexists>t. sched_step lib s' t)"
    using steps_end inv_reach [OF assms(4,1,2)] unfolding sched_inv_def by blast
  fix s'
  assume run: "(sched_step lib)\<^sup>*\<^sup>* s s'" and stuck: "\<nexists>t. sched_step lib s' t"
  have inv: "sched_inv lib d (nat (Workers (Scheduler cfg))) (db_NumGraphs d) s'"
    using inv_reach [OF reach_steps [OF run assms(4)] assms(1,2)] by (simp add: db_NumGraphs_def)
  have readers: "nat (Workers (Scheduler cfg)) \<noteq> 0" using assms(3) by simp
  show "settled (db_NumGraphs d) s'" by (rule stuck_settled [OF stuck inv readers])
  assume "sc_phase s \<noteq> Running"
  then show "sc_phase s' = Released" using stuck_rests(4) [OF stuck inv readers] steps_quit [OF run] by blast
qed

section \<open>Runs\<close>

text \<open>One graph, two readers, and two runs: two reads that share the lock, and a write that \<open>Stop\<close> overtakes.\<close>

definition small_db :: "(runes, (runes, runes) fmap, (runes, nat list) fmap) DB" where
  "small_db = \<lparr>db_Config = default_config 2, Graphs = [Some (blank, graph_settings (default_config 2))]\<rparr>"

definition first_state :: "(runes, (runes, runes) fmap, (runes, nat list) fmap, nat) Scheduler" where
  "first_state = projr (sched_Start (default_config 2) (Some small_db))"

definition a_write :: "nat run_stream" where
  "a_write = NewStream (RememberQ (noted ''-'' [str ''+''] []))"

definition a_read :: "nat run_stream" where
  "a_read = NewStream (RecallQ \<lparr>rq_Keywords = [str ''-''], rq_Vector = [], rq_Entities = [], rq_Topics = [],
     rq_Parameters = \<lparr>qp_Top = 1, qp_Depth = 0, qp_Since = None, qp_Until = None\<rparr>, rq_GraphID = 0\<rparr>)"

lemma small_db_full: "slots_full small_db" "db_NumGraphs small_db = 1"
  by (simp_all add: slots_full_def small_db_def db_NumGraphs_def)

lemma first_state_starts: "sched_Start (default_config 2) (Some small_db) = Inr first_state"
  by (simp add: first_state_def sched_Start_def Let_def)

lemma first_state_fields:
  "sc_Config first_state = default_config 2" "sc_DB first_state = small_db" "sc_streams first_state = (\<lambda>_. None)"
  "sc_queues first_state = [[], []]" "sc_workers first_state = [spawn 0, spawn 0, spawn 1]" "sc_submits first_state = []"
  "sc_replies first_state = (\<lambda>_. None)" "sc_phase first_state = Running" "sc_accepted first_state = [[], []]" "sc_ran first_state = [[], []]"
  by (simp_all add: first_state_def sched_Start_def Let_def db_NumGraphs_def small_db_def default_config_def numeral_2_eq_2)

lemma spawn_fields [simp]: "w_queue (spawn q) = q" "w_job (spawn q) = Idle" "\<not> w_exited (spawn q)" "\<not> w_draining (spawn q)"
  by (simp_all add: spawn_def)

lemma buffer: "BufferSize (Scheduler (default_config 2)) = 200"
  by (simp add: default_config_def)

lemma stream_facts:
  "\<not> st_done a_write" "\<not> st_done a_read" "queue_of (Suc 0) a_write = 1" "queue_of (Suc 0) a_read = 0" "st_GraphID a_write = 0" "st_GraphID a_read = 0"
  "IsWrite (st_Query a_write)" "\<not> IsWrite (st_Query a_read)" "Select small_db 0 = Inr (Some (blank, graph_settings (default_config 2)))"
  by (simp_all add: a_write_def a_read_def NewStream_def noted_def queue_of_def st_GraphID_def Select_def small_db_def)

lemma two_readers:
  "\<exists>s. sched_reach example_lib first_state s \<and> length (sc_workers s) = 3 \<and> holds s (sc_workers s ! 0) = Some a_read \<and> holds s (sc_workers s ! 1) = Some a_read"
proof -
  let ?reach = "sched_reach example_lib first_state"
  define parked where "parked = first_state\<lparr>sc_streams := (\<lambda>_. None)(0 := Some a_read, 1 := Some a_read), sc_submits := [(1, 0), (0, 0)]\<rparr>"
  have "?reach parked"
    using sched_reach.called [OF sched_reach.called [OF sched_reach.start sched_call.submit [of first_state 0 a_read]] sched_call.submit [of _ 1 a_read]]
    by (simp add: parked_def first_state_fields stream_facts)
  define queued where "queued = parked\<lparr>sc_submits := [], sc_queues := [[0, 1], []], sc_accepted := [[0, 1], []], sc_replies := (\<lambda>_. None)(0 := Some None, 1 := Some None)\<rparr>"
  have "?reach queued"
    using sched_reach.stepped [OF sched_reach.stepped [OF \<open>?reach parked\<close> sched_step.enqueue [of 0 0]] sched_step.enqueue [of 1 0]]
    by (simp add: queued_def parked_def first_state_fields buffer)
  define taken2 where "taken2 = queued\<lparr>sc_queues := [[], []], sc_workers := [(spawn 0)\<lparr>w_job := Fetched 0\<rparr>, (spawn 0)\<lparr>w_job := Fetched 1\<rparr>, spawn 1]\<rparr>"
  have "?reach taken2"
    using sched_reach.stepped [OF sched_reach.stepped [OF \<open>?reach queued\<close> sched_step.fetch [of 0 _ "spawn 0" 0 "[1]"]] sched_step.fetch [of 1 _ "spawn 0" 1 "[]"]]
    by (simp add: taken2_def queued_def parked_def first_state_fields set_job_def spawn_def)
  define locked where "locked = taken2\<lparr>sc_workers := [(spawn 0)\<lparr>w_job := Locked 0\<rparr>, (spawn 0)\<lparr>w_job := Locked 1\<rparr>, spawn 1]\<rparr>"
  have "?reach locked"
    using sched_reach.stepped [OF sched_reach.stepped [OF \<open>?reach taken2\<close> sched_step.acquire [of 0 _ 0 a_read]] sched_step.acquire [of 1 _ 1 a_read]]
    by (simp add: locked_def taken2_def queued_def parked_def first_state_fields set_job_def spawn_def lock_free_def holds_def conflicts_def stream_facts)
  moreover have "length (sc_workers locked) = 3" "holds locked (sc_workers locked ! 0) = Some a_read" "holds locked (sc_workers locked ! 1) = Some a_read"
    by (simp_all add: locked_def taken2_def queued_def parked_def first_state_fields holds_def)
  ultimately show ?thesis by blast
qed

lemma write_overtaken:
  "\<exists>s. sched_reach example_lib first_state s \<and> sc_phase s = AwaitSubmits \<and> sc_replies s 0 = Some None \<and> sc_accepted s ! 1 = [0] \<and>
     map fst (sc_ran s ! 1) = [0]"
proof -
  let ?reach = "sched_reach example_lib first_state"
  define queued where "queued = first_state\<lparr>sc_streams := (\<lambda>_. None)(0 := Some a_write), sc_phase := AwaitSubmits, sc_submits := [], sc_queues := [[], [0]],
    sc_accepted := [[], [0]], sc_replies := (\<lambda>_. None)(0 := Some None)\<rparr>"
  have "?reach queued"
    using sched_reach.stepped [OF sched_reach.called [OF sched_reach.called [OF sched_reach.start sched_call.submit [of first_state 0 a_write]] sched_call.stop]
        sched_step.enqueue [of 0 1]]
    by (simp add: queued_def first_state_fields stream_facts buffer)
  define locked where "locked = queued\<lparr>sc_queues := [[], []], sc_workers := [spawn 0, spawn 0, (spawn 1)\<lparr>w_job := Locked 0\<rparr>]\<rparr>"
  have reach: "?reach locked"
    using sched_reach.stepped [OF sched_reach.stepped [OF \<open>?reach queued\<close> sched_step.fetch [of 2 _ "spawn 1" 0 "[]"]] sched_step.acquire [of 2 _ 0 a_write]]
    by (simp add: locked_def queued_def first_state_fields set_job_def spawn_def lock_free_def holds_def conflicts_def stream_facts)
  have DB: "sc_DB locked = small_db" "sc_streams locked 0 = Some a_write" "length (sc_workers locked) = 3" "w_job (sc_workers locked ! 2) = Locked 0"
    by (simp_all add: locked_def queued_def first_state_fields)
  obtain err st' d' where run: "execute example_lib (\<lambda>n. 7) small_db a_write = Some (err, st', d')"
    using execute_total [OF small_db_full(1)] by metis
  let ?last = "set_job 2 Idle (finish_run (w_queue (sc_workers locked ! 2)) 0 (\<lambda>n. 7) st' d' locked)"
  have "sched_step example_lib locked ?last"
  proof (rule sched_step.run)
    show "2 < length (sc_workers locked)" by (simp add: DB(3))
    show "execute example_lib (\<lambda>n. 7) (sc_DB locked) a_write = Some (err, st', d')" unfolding DB(1) by (rule run)
  qed (rule DB)+
  then have "?reach ?last" by (rule sched_reach.stepped [OF reach])
  moreover have "sc_phase ?last = AwaitSubmits" "sc_replies ?last 0 = Some None" "sc_accepted ?last ! 1 = [0]" "map fst (sc_ran ?last ! 1) = [0]"
    by (simp_all add: locked_def queued_def first_state_fields)
  ultimately show ?thesis by (intro exI [of _ ?last] conjI)
qed

theorem accepted_streams_accounted_witness:
  "\<exists>s. sched_reach example_lib first_state s \<and> sc_phase s = AwaitSubmits \<and> sc_accepted s ! 1 = [0] \<and> distinct (sc_accepted s ! 1) \<and>
     in_hand 1 (sc_workers s) @ sc_queues s ! 1 = [] \<and> (\<exists>st. sc_streams s 0 = Some st \<and> queue_of 1 st = 1 \<and> st_done st)"
proof -
  obtain s where s: "sched_reach example_lib first_state s" "sc_phase s = AwaitSubmits" "sc_accepted s ! 1 = [0]" "map fst (sc_ran s ! 1) = [0]"
    using write_overtaken by (elim exE conjE) (rule that)
  have le: "1 \<le> db_NumGraphs small_db" by (simp add: small_db_full)
  note all = accepted_streams_accounted [OF first_state_starts small_db_full(1) s(1), THEN conjunct2, THEN spec, THEN mp, OF le]
  note own = all [THEN conjunct2]
  have "[0] = [0] @ in_hand 1 (sc_workers s) @ sc_queues s ! 1"
    using own [THEN conjunct2, THEN conjunct2, THEN conjunct1] unfolding s(3,4) by simp
  then have none: "in_hand 1 (sc_workers s) @ sc_queues s ! 1 = []" by simp
  obtain st where st: "sc_streams s 0 = Some st" "queue_of 1 st = 1"
    using own [THEN conjunct1] unfolding s(3) small_db_full(2) by auto
  obtain st' where "sc_streams s 0 = Some st'" "st_done st'"
    using own [THEN conjunct2, THEN conjunct2, THEN conjunct2] unfolding s(4) by auto
  then show ?thesis using s(1-3) none st by (intro exI [of _ s]) simp
qed

theorem writers_exclude_witness:
  "\<exists>s. sched_reach example_lib first_state s \<and> holds s (sc_workers s ! 0) = Some a_read \<and> holds s (sc_workers s ! 1) = Some a_read \<and>
     \<not> IsWrite (st_Query a_read)"
proof -
  obtain s where s: "sched_reach example_lib first_state s" "length (sc_workers s) = 3"
    "holds s (sc_workers s ! 0) = Some a_read" "holds s (sc_workers s ! 1) = Some a_read"
    using two_readers by blast
  then show ?thesis
    using writers_exclude [OF first_state_starts small_db_full(1) s(1) _ _ _ s(3,4)] by auto
qed

theorem writes_apply_in_lane_order_witness:
  "\<exists>s clocks. sched_reach example_lib first_state s \<and> sc_accepted s ! 1 = [0] \<and> length clocks \<le> 1 \<and>
     Graphs (sc_DB s) ! 0 = Some (foldl (apply_write example_lib (sc_streams s)) blank (zip [0] clocks), graph_settings (default_config 2))"
proof -
  obtain s where s: "sched_reach example_lib first_state s" "sc_accepted s ! 1 = [0]"
    using write_overtaken by (elim exE conjE) (rule that)
  have le: "0 < db_NumGraphs small_db" by (simp add: small_db_full)
  from writes_apply_in_lane_order [OF first_state_starts small_db_full(1) s(1), THEN spec, THEN mp, OF le]
  obtain clocks where c: "length clocks \<le> length (sc_accepted s ! Suc 0)" "Graphs (sc_DB s) ! 0 = map_option (\<lambda>(g, settings).
      (foldl (apply_write example_lib (sc_streams s)) g (zip (sc_accepted s ! Suc 0) clocks), settings)) (Graphs small_db ! 0)"
    by (elim exE conjE) (rule that)
  have one: "sc_accepted s ! Suc 0 = [0]" using s(2) by simp
  have "Graphs (sc_DB s) ! 0 = Some (foldl (apply_write example_lib (sc_streams s)) blank (zip [0] clocks), graph_settings (default_config 2))"
    unfolding c(2) one by (simp add: small_db_def)
  then show ?thesis using s c(1) one by (intro exI [of _ s] exI [of _ clocks]) simp
qed

theorem internal_steps_bounded_witness:
  "\<exists>s s'. sched_reach example_lib first_state s \<and> (sched_step example_lib ^^ 1) s s' \<and> 1 \<le> work s"
proof -
  define s where "s = first_state\<lparr>sc_streams := (\<lambda>_. None)(0 := Some a_write), sc_submits := [(0, 1)]\<rparr>"
  have r: "sched_reach example_lib first_state s"
    using sched_reach.called [OF sched_reach.start sched_call.submit [of first_state 0 a_write]]
    by (simp add: s_def first_state_fields stream_facts)
  obtain s' where "sched_step example_lib s s'"
    using sched_step.refuse [of 0 1 s ErrQueueFull example_lib] by (auto simp: s_def refusal_def)
  then have step: "(sched_step example_lib ^^ 1) s s'" unfolding relpowp_1 .
  then show ?thesis using internal_steps_bounded [OF first_state_starts small_db_full(1) r step] r by blast
qed

theorem scheduler_comes_to_rest_witness:
  "\<exists>s s'. sched_reach example_lib first_state s \<and> sc_phase s = AwaitSubmits \<and> (sched_step example_lib)\<^sup>*\<^sup>* s s' \<and>
     sc_phase s' = Released \<and> settled 1 s'"
proof -
  obtain s where s: "sched_reach example_lib first_state s" "sc_phase s = AwaitSubmits"
    using write_overtaken by (elim exE conjE) (rule that)
  have workers: "1 \<le> Workers (Scheduler (default_config 2))" by (simp add: default_config_def)
  show ?thesis
    using scheduler_comes_to_rest [OF first_state_starts small_db_full(1) workers s(1)] s small_db_full(2)
    by (metis stop_phase.distinct(1))
qed

end
