(* ===== verification/Trees_BTree.thy ===== *)
theory Trees_BTree
  imports Comparator "HOL-Library.Monad_Syntax"
begin

text \<open>
  \<open>internal/containers/trees/btree.go\<close>: the B-tree under the term dictionary. A node owns its slices, so
  a node is a value and an operation returns it changed. An index out of the bounds of a slice is a
  panic: \<open>Insert\<close> and \<open>Delete\<close> are partial functions whose \<open>None\<close> is a panic (or a loop without end);
  \<open>Find\<close> stops at a child that is not there. \<open>Trees_BTree_Correct\<close> shows that no well-formed tree gets
  there.
\<close>

section \<open>Slices\<close>

text \<open>Reading an element, and \<open>append\<close> with \<open>copy\<close> to open or close a gap at an index.\<close>

definition at :: "'a list \<Rightarrow> nat \<Rightarrow> 'a option" where
  "at xs i = (if i < length xs then Some (xs ! i) else None)"

definition insert_at :: "nat \<Rightarrow> 'a \<Rightarrow> 'a list \<Rightarrow> 'a list" where
  "insert_at i x xs = take i xs @ x # drop i xs"

definition delete_at :: "nat \<Rightarrow> 'a list \<Rightarrow> 'a list" where
  "delete_at i xs = take i xs @ drop (Suc i) xs"

section \<open>Nodes\<close>

datatype 'a BTreeNode = BNode (bvalues: "'a list") (bchildren: "'a BTreeNode list")

definition isLeaf :: "'a BTreeNode \<Rightarrow> bool" where
  "isLeaf n \<longleftrightarrow> length (bchildren n) = 0"

function find_between :: "'a comparator \<Rightarrow> 'a \<Rightarrow> 'a list \<Rightarrow> nat \<Rightarrow> nat \<Rightarrow> nat \<times> bool" where
  "find_between compare v vs lo hi =
     (if lo < hi then
        (let mid = (lo + hi) div 2; c = compare v (vs ! mid)
         in if c = 0 then (mid, True)
            else if c < 0 then find_between compare v vs lo mid
            else find_between compare v vs (mid + 1) hi)
      else (lo, False))"
  by pat_completeness auto
termination by (relation "measure (\<lambda>(compare, v, vs, lo, hi). hi - lo)") auto

definition node_find :: "'a comparator \<Rightarrow> 'a BTreeNode \<Rightarrow> 'a \<Rightarrow> nat \<times> bool" where
  "node_find compare n v = find_between compare v (bvalues n) 0 (length (bvalues n))"

record 'a BTree =
  bt_root :: "'a BTreeNode"
  bt_degree :: int
  bt_length :: int
  bt_compare :: "'a comparator"

definition NewBTree :: "int \<Rightarrow> 'a comparator \<Rightarrow> 'a BTree" where
  "NewBTree degree compare =
     \<lparr>bt_root = BNode [] [], bt_degree = (if degree < 2 then 2 else degree), bt_length = 0, bt_compare = compare\<rparr>"

definition bt_Len :: "'a BTree \<Rightarrow> int" where
  "bt_Len t = bt_length t"

text \<open>The degree as a number; \<open>NewBTree\<close> keeps it at least 2.\<close>

abbreviation deg :: "'a BTree \<Rightarrow> nat" where
  "deg t \<equiv> nat (bt_degree t)"

definition maxValues :: "nat \<Rightarrow> nat" where
  "maxValues d = 2 * d - 1"

definition minValues :: "nat \<Rightarrow> nat" where
  "minValues d = d - 1"

section \<open>Find\<close>

function find_from :: "'a comparator \<Rightarrow> 'a BTreeNode \<Rightarrow> 'a \<Rightarrow> 'a option" where
  "find_from compare n v =
     (case node_find compare n v of (i, found) \<Rightarrow>
        if found then Some (bvalues n ! i)
        else if isLeaf n then None
        else if i < length (bchildren n) then find_from compare (bchildren n ! i) v
        else None)"
  by pat_completeness auto
termination
proof (relation "measure (\<lambda>(compare, n, v). size n)")
  fix compare :: "'a comparator" and n :: "'a BTreeNode" and v i found
  assume "i < length (bchildren n)"
  then have "bchildren n ! i \<in> set (bchildren n)" by simp
  then show "((compare, bchildren n ! i, v), compare, n, v) \<in> measure (\<lambda>(compare, n, v). size n)"
    by (cases n) (auto dest: size_list_estimation' [where f = size, OF _ order_refl])
qed simp

definition bt_Find :: "'a BTree \<Rightarrow> 'a \<Rightarrow> 'a option" where
  "bt_Find t v = find_from (bt_compare t) (bt_root t) v"

section \<open>Insert\<close>

text \<open>The halves of a full node around its median.\<close>

definition splitChild :: "nat \<Rightarrow> 'a BTreeNode \<Rightarrow> nat \<Rightarrow> 'a BTreeNode option" where
  "splitChild degree parent i =
     do {
       child \<leftarrow> at (bchildren parent) i;
       mid \<leftarrow> at (bvalues child) (degree - 1);
       let right = BNode (drop degree (bvalues child)) (if isLeaf child then [] else drop degree (bchildren child));
       let left = BNode (take (degree - 1) (bvalues child)) (if isLeaf child then [] else take degree (bchildren child));
       Some (BNode (insert_at i mid (bvalues parent)) (insert_at (i + 1) right ((bchildren parent)[i := left])))
     }"

text \<open>The result is whether the value was a duplicate, and the node: a refused value may leave splits.\<close>

partial_function (option) insertNonFull :: "'a comparator \<Rightarrow> nat \<Rightarrow> 'a BTreeNode \<Rightarrow> 'a \<Rightarrow> (bool \<times> 'a BTreeNode) option" where
  "insertNonFull compare degree n v =
     (case node_find compare n v of (i, found) \<Rightarrow>
        if found then Some (True, n)
        else if isLeaf n then Some (False, BNode (insert_at i v (bvalues n)) (bchildren n))
        else
          do {
            child \<leftarrow> at (bchildren n) i;
            split \<leftarrow> (if length (bvalues child) = maxValues degree then splitChild degree n i else Some n);
            step \<leftarrow> (if length (bvalues child) = maxValues degree
              then do { mid \<leftarrow> at (bvalues split) i; Some (if compare v mid = 0 then None else Some (if compare v mid > 0 then i + 1 else i)) }
              else Some (Some i));
            (case step of
               None \<Rightarrow> Some (True, split)
             | Some j \<Rightarrow>
                 do {
                   target \<leftarrow> at (bchildren split) j;
                   (dup, target') \<leftarrow> insertNonFull compare degree target v;
                   Some (dup, BNode (bvalues split) ((bchildren split)[j := target']))
                 })
          })"

datatype btree_error = ErrDuplicateValue

definition bt_Insert :: "'a BTree \<Rightarrow> 'a \<Rightarrow> (btree_error option \<times> 'a BTree) option" where
  "bt_Insert t v =
     do {
       root \<leftarrow> (if length (bvalues (bt_root t)) = maxValues (deg t)
         then splitChild (deg t) (BNode [] [bt_root t]) 0 else Some (bt_root t));
       (dup, root') \<leftarrow> insertNonFull (bt_compare t) (deg t) root v;
       Some (if dup then (Some ErrDuplicateValue, t\<lparr>bt_root := root'\<rparr>)
             else (None, t\<lparr>bt_root := root', bt_length := bt_length t + 1\<rparr>))
     }"

section \<open>Delete\<close>

function bt_max :: "'a BTreeNode \<Rightarrow> 'a option" where
  "bt_max n = (if isLeaf n then (if bvalues n = [] then None else Some (last (bvalues n))) else bt_max (last (bchildren n)))"
  by pat_completeness auto
termination
proof (relation "measure size")
  fix n :: "'a BTreeNode"
  assume "\<not> isLeaf n"
  then have "last (bchildren n) \<in> set (bchildren n)" by (simp add: isLeaf_def)
  then show "(last (bchildren n), n) \<in> measure size"
    by (cases n) (auto dest: size_list_estimation' [where f = size, OF _ order_refl])
qed simp

function bt_min :: "'a BTreeNode \<Rightarrow> 'a option" where
  "bt_min n = (if isLeaf n then (if bvalues n = [] then None else Some (hd (bvalues n))) else bt_min (hd (bchildren n)))"
  by pat_completeness auto
termination
proof (relation "measure size")
  fix n :: "'a BTreeNode"
  assume "\<not> isLeaf n"
  then have "hd (bchildren n) \<in> set (bchildren n)" by (simp add: isLeaf_def)
  then show "(hd (bchildren n), n) \<in> measure size"
    by (cases n) (auto dest: size_list_estimation' [where f = size, OF _ order_refl])
qed simp

definition mergeChildren :: "'a BTreeNode \<Rightarrow> nat \<Rightarrow> 'a BTreeNode option" where
  "mergeChildren n i =
     do {
       left \<leftarrow> at (bchildren n) i;
       right \<leftarrow> at (bchildren n) (i + 1);
       mid \<leftarrow> at (bvalues n) i;
       let merged = BNode (bvalues left @ mid # bvalues right) (bchildren left @ bchildren right);
       Some (BNode (delete_at i (bvalues n)) (delete_at (i + 1) ((bchildren n)[i := merged])))
     }"

definition borrowFromLeft :: "'a BTreeNode \<Rightarrow> nat \<Rightarrow> 'a BTreeNode option" where
  "borrowFromLeft n i =
     do {
       child \<leftarrow> at (bchildren n) i;
       left \<leftarrow> at (bchildren n) (i - 1);
       down \<leftarrow> at (bvalues n) (i - 1);
       up \<leftarrow> at (bvalues left) (length (bvalues left) - 1);
       let child' = BNode (down # bvalues child) (if isLeaf left then bchildren child else last (bchildren left) # bchildren child);
       let left' = BNode (butlast (bvalues left)) (if isLeaf left then bchildren left else butlast (bchildren left));
       Some (BNode ((bvalues n)[i - 1 := up]) ((bchildren n)[i := child', i - 1 := left']))
     }"

definition borrowFromRight :: "'a BTreeNode \<Rightarrow> nat \<Rightarrow> 'a BTreeNode option" where
  "borrowFromRight n i =
     do {
       child \<leftarrow> at (bchildren n) i;
       right \<leftarrow> at (bchildren n) (i + 1);
       down \<leftarrow> at (bvalues n) i;
       up \<leftarrow> at (bvalues right) 0;
       let child' = BNode (bvalues child @ [down]) (if isLeaf right then bchildren child else bchildren child @ [hd (bchildren right)]);
       let right' = BNode (tl (bvalues right)) (if isLeaf right then bchildren right else tl (bchildren right));
       Some (BNode ((bvalues n)[i := up]) ((bchildren n)[i := child', i + 1 := right']))
     }"

text \<open>The node, and the index of the child the descent goes on in. In Go \<open>i - 1\<close> at the only child is -1 and
  panics.\<close>

definition fill :: "nat \<Rightarrow> 'a BTreeNode \<Rightarrow> nat \<Rightarrow> ('a BTreeNode \<times> nat) option" where
  "fill degree n i =
     (if i > 0 \<and> length (bvalues (bchildren n ! (i - 1))) > minValues degree
      then map_option (\<lambda>n'. (n', i)) (borrowFromLeft n i)
      else if i + 1 < length (bchildren n) \<and> length (bvalues (bchildren n ! (i + 1))) > minValues degree
      then map_option (\<lambda>n'. (n', i)) (borrowFromRight n i)
      else if i + 1 < length (bchildren n) then map_option (\<lambda>n'. (n', i)) (mergeChildren n i)
      else if i > 0 then map_option (\<lambda>n'. (n', i - 1)) (mergeChildren n (i - 1))
      else None)"

partial_function (option) delete_from :: "'a comparator \<Rightarrow> nat \<Rightarrow> 'a BTreeNode \<Rightarrow> 'a \<Rightarrow> (bool \<times> 'a BTreeNode) option" where
  "delete_from compare degree n v =
     (case node_find compare n v of (i, found) \<Rightarrow>
        if found then
          (if isLeaf n then Some (True, BNode (delete_at i (bvalues n)) (bchildren n))
           else
             do {
               left \<leftarrow> at (bchildren n) i;
               right \<leftarrow> at (bchildren n) (i + 1);
               (if length (bvalues left) > minValues degree then
                  do {
                    pred \<leftarrow> bt_max left;
                    (removed, left') \<leftarrow> delete_from compare degree left pred;
                    Some (removed, BNode ((bvalues n)[i := pred]) ((bchildren n)[i := left']))
                  }
                else if length (bvalues right) > minValues degree then
                  do {
                    succ \<leftarrow> bt_min right;
                    (removed, right') \<leftarrow> delete_from compare degree right succ;
                    Some (removed, BNode ((bvalues n)[i := succ]) ((bchildren n)[i + 1 := right']))
                  }
                else
                  do {
                    n' \<leftarrow> mergeChildren n i;
                    merged \<leftarrow> at (bchildren n') i;
                    (removed, merged') \<leftarrow> delete_from compare degree merged v;
                    Some (removed, BNode (bvalues n') ((bchildren n')[i := merged']))
                  })
             })
        else if isLeaf n then Some (False, n)
        else
          do {
            child \<leftarrow> at (bchildren n) i;
            (n', j) \<leftarrow> (if length (bvalues child) = minValues degree then fill degree n i else Some (n, i));
            target \<leftarrow> at (bchildren n') j;
            (removed, target') \<leftarrow> delete_from compare degree target v;
            Some (removed, BNode (bvalues n') ((bchildren n')[j := target']))
          })"

definition bt_Delete :: "'a BTree \<Rightarrow> 'a \<Rightarrow> (bool \<times> 'a BTree) option" where
  "bt_Delete t v =
     do {
       (removed, root) \<leftarrow> delete_from (bt_compare t) (deg t) (bt_root t) v;
       Some (if \<not> removed then (False, t\<lparr>bt_root := root\<rparr>)
             else (True, t\<lparr>bt_root := (if length (bvalues root) = 0 \<and> \<not> isLeaf root then bchildren root ! 0 else root),
                           bt_length := bt_length t - 1\<rparr>))
     }"

section \<open>Values\<close>

text \<open>The walk: before each value its child, and at the end the last child.\<close>

fun weave :: "'a list list \<Rightarrow> 'a list \<Rightarrow> 'a list" where
  "weave [] vs = vs"
| "weave (xs # xss) [] = last (xs # xss)"
| "weave (xs # xss) (v # vs) = xs @ v # weave xss vs"

fun walk_values :: "'a BTreeNode \<Rightarrow> 'a list" where
  "walk_values (BNode vs ks) = weave (map walk_values ks) vs"

definition bt_Values :: "'a BTree \<Rightarrow> 'a list" where
  "bt_Values t = walk_values (bt_root t)"

declare insertNonFull.simps [code] delete_from.simps [code]
declare find_between.simps [simp del] find_from.simps [simp del] bt_max.simps [simp del] bt_min.simps [simp del]

end
