(* ===== verification/Index_Postings.thy ===== *)
theory Index_Postings
  imports Trees_BTree
begin

text \<open>
  The posting lists of \<open>internal/index/btree.go\<close>: one term's sightings, sorted by document key, in chunks of
  bounded size. A posting of frequency 0 is a tombstone. \<open>find\<close> is two binary searches; \<open>insert\<close> splits a
  chunk that has grown too long. Document numbers and frequencies are \<open>int32\<close> in the code, far above what a
  list can reach, and natural numbers here. A chunk is never empty, so it has a last entry.
\<close>

record 'k posting =
  po_key :: 'k
  po_doc :: nat
  po_tf :: nat

record 'k postingList =
  pl_term :: "nat list"
  pl_chunks :: "'k posting list list"
  pl_live :: nat

definition postingChunk :: nat where
  "postingChunk = 128"

section \<open>Operations\<close>

text \<open>\<open>sort.Search\<close>: the least index below \<open>j\<close> where \<open>f\<close> holds, when \<open>f\<close> is monotone.\<close>

function sort_Search :: "(nat \<Rightarrow> bool) \<Rightarrow> nat \<Rightarrow> nat \<Rightarrow> nat" where
  "sort_Search f i j = (if i < j then (let m = (i + j) div 2 in if \<not> f m then sort_Search f (m + 1) j else sort_Search f i m) else i)"
  by pat_completeness auto
termination by (relation "measure (\<lambda>(f, i, j). j - i)") auto

declare sort_Search.simps [simp del]

definition pl_find :: "'k comparator \<Rightarrow> 'k postingList \<Rightarrow> 'k \<Rightarrow> nat \<times> nat \<times> bool" where
  "pl_find compare l key =
     (let chunks = pl_chunks l; c = sort_Search (\<lambda>c. compare (po_key (last (chunks ! c))) key \<ge> 0) 0 (length chunks)
      in if c = length chunks then (if c = 0 then (0, 0, False) else (c - 1, length (chunks ! (c - 1)), False))
         else (let chunk = chunks ! c; i = sort_Search (\<lambda>i. compare (po_key (chunk ! i)) key \<ge> 0) 0 (length chunk)
               in (c, i, i < length chunk \<and> po_key (chunk ! i) = key)))"

definition pl_insert :: "nat \<Rightarrow> nat \<Rightarrow> 'k posting \<Rightarrow> 'k postingList \<Rightarrow> 'k postingList" where
  "pl_insert c i p l =
     (if length (pl_chunks l) = 0 then l\<lparr>pl_chunks := [[p]]\<rparr>
      else (let chunk = insert_at i p (pl_chunks l ! c)
            in if length chunk \<le> postingChunk then l\<lparr>pl_chunks := (pl_chunks l)[c := chunk]\<rparr>
               else (let half = length chunk div 2
                     in l\<lparr>pl_chunks := insert_at (c + 1) (drop half chunk) ((pl_chunks l)[c := take half chunk])\<rparr>)))"

definition set_tf :: "nat \<Rightarrow> nat \<Rightarrow> nat \<Rightarrow> 'k postingList \<Rightarrow> 'k postingList" where
  "set_tf c i tf l = l\<lparr>pl_chunks := (pl_chunks l)[c := (pl_chunks l ! c)[i := (pl_chunks l ! c ! i)\<lparr>po_tf := tf\<rparr>]]\<rparr>"

text \<open>One more occurrence of the term in a document; a tombstone is revived in place.\<close>

definition count_posting :: "'k comparator \<Rightarrow> 'k \<Rightarrow> nat \<Rightarrow> 'k postingList \<Rightarrow> 'k postingList" where
  "count_posting compare key doc l =
     (case pl_find compare l key of (c, i, found) \<Rightarrow>
        if \<not> found then (let l1 = pl_insert c i \<lparr>po_key = key, po_doc = doc, po_tf = 1\<rparr> l in l1\<lparr>pl_live := pl_live l1 + 1\<rparr>)
        else if po_tf (pl_chunks l ! c ! i) = 0 then (let l1 = set_tf c i 1 l in l1\<lparr>pl_live := pl_live l1 + 1\<rparr>)
        else set_tf c i (po_tf (pl_chunks l ! c ! i) + 1) l)"

text \<open>The document no longer holds the term.\<close>

definition bury_posting :: "'k comparator \<Rightarrow> 'k \<Rightarrow> 'k postingList \<Rightarrow> 'k postingList" where
  "bury_posting compare key l =
     (case pl_find compare l key of (c, i, found) \<Rightarrow>
        if found \<and> po_tf (pl_chunks l ! c ! i) \<noteq> 0 then (let l1 = set_tf c i 0 l in l1\<lparr>pl_live := pl_live l1 - 1\<rparr>) else l)"

text \<open>The part of \<open>Flush\<close> that compacts one list and renumbers its documents.\<close>

definition compact_list :: "('k \<Rightarrow> nat) \<Rightarrow> 'k postingList \<Rightarrow> 'k postingList" where
  "compact_list number l = l\<lparr>pl_chunks := map (map (\<lambda>p. p\<lparr>po_doc := number (po_key p)\<rparr>))
     (filter (\<lambda>chunk. chunk \<noteq> []) (map (filter (\<lambda>p. po_tf p \<noteq> 0)) (pl_chunks l)))\<rparr>"

text \<open>How often the term occurs in a document.\<close>

definition tf_in :: "'k comparator \<Rightarrow> 'k postingList \<Rightarrow> 'k \<Rightarrow> nat" where
  "tf_in compare l key = (case pl_find compare l key of (c, i, found) \<Rightarrow> if found then po_tf (pl_chunks l ! c ! i) else 0)"

section \<open>A list as one sorted sequence\<close>

definition entries_of :: "'k postingList \<Rightarrow> 'k posting list" where
  "entries_of l = concat (pl_chunks l)"

definition chunked :: "'k postingList \<Rightarrow> bool" where
  "chunked l \<longleftrightarrow> (\<forall>chunk \<in> set (pl_chunks l). chunk \<noteq> [] \<and> length chunk \<le> postingChunk)"

definition frequency :: "'k posting list \<Rightarrow> 'k \<Rightarrow> nat" where
  "frequency ps key = sum_list (map po_tf (filter (\<lambda>p. po_key p = key) ps))"

definition sightings :: "'k postingList \<Rightarrow> ('k \<times> nat) set" where
  "sightings l = (\<lambda>p. (po_key p, po_doc p)) ` set (entries_of l)"

text \<open>What the operations keep: entries sorted by key, chunks neither empty nor too long, and \<open>live\<close> the number of
  entries that are not tombstones.\<close>

definition list_ok :: "'k comparator \<Rightarrow> 'k postingList \<Rightarrow> bool" where
  "list_ok compare l \<longleftrightarrow> sorted_wrt (\<lambda>p q. compare (po_key p) (po_key q) < 0) (entries_of l) \<and> chunked l \<and>
     pl_live l = length (filter (\<lambda>p. po_tf p \<noteq> 0) (entries_of l))"

lemma frequency_simps [simp]:
  "frequency [] key = 0"
  "frequency (p # ps) key = (if po_key p = key then po_tf p else 0) + frequency ps key"
  "frequency (ps @ qs) key = frequency ps key + frequency qs key"
  by (simp_all add: frequency_def)

lemma frequency_absent: "\<forall>p \<in> set ps. po_key p \<noteq> key \<Longrightarrow> frequency ps key = 0"
  by (induction ps) auto

lemma sort_Search_least:
  assumes mono: "\<And>a b. a \<le> b \<Longrightarrow> b < n \<Longrightarrow> f a \<Longrightarrow> f b"
  shows "i \<le> j \<Longrightarrow> j \<le> n \<Longrightarrow> (\<forall>a < i. \<not> f a) \<Longrightarrow> (\<forall>a. j \<le> a \<longrightarrow> a < n \<longrightarrow> f a) \<Longrightarrow>
    sort_Search f i j \<le> n \<and> (\<forall>a < sort_Search f i j. \<not> f a) \<and> (\<forall>a. sort_Search f i j \<le> a \<longrightarrow> a < n \<longrightarrow> f a)"
proof (induction "j - i" arbitrary: i j rule: less_induct)
  case less
  show ?case
  proof (cases "i < j")
    case True
    let ?m = "(i + j) div 2"
    have m: "i \<le> ?m" "?m < j" "?m < n" using True less.prems(2) by auto
    show ?thesis
    proof (cases "f ?m")
      case f: True
      have go: "sort_Search f i j = sort_Search f i ?m" using True f by (simp add: sort_Search.simps [of f i j] Let_def)
      show ?thesis unfolding go
      proof (rule less.hyps)
        show "\<forall>a. ?m \<le> a \<longrightarrow> a < n \<longrightarrow> f a" using mono f by blast
      qed (use True m less.prems(3) in auto)
    next
      case False
      have "\<not> f a" if "a < ?m + 1" for a using mono [of a ?m] m(3) False that by auto
      note low = this
      have go: "sort_Search f i j = sort_Search f (?m + 1) j" using True False by (simp add: sort_Search.simps [of f i j] Let_def)
      show ?thesis unfolding go
      proof (rule less.hyps)
        show "\<forall>a < ?m + 1. \<not> f a" using low by blast
        show "\<forall>a. j \<le> a \<longrightarrow> a < n \<longrightarrow> f a" by (rule less.prems(4))
      qed (use True m less.prems(2) in auto)
    qed
  next
    case False
    then have stop: "sort_Search f i j = i" by (simp add: sort_Search.simps [of f i j])
    show ?thesis unfolding stop using False less.prems by simp
  qed
qed

text \<open>Where a key is, or belongs: the list around a position.\<close>

context total_comparator
begin

abbreviation keyed :: "'a posting list \<Rightarrow> bool" where
  "keyed ps \<equiv> sorted_wrt (\<lambda>p q. compare (po_key p) (po_key q) < 0) ps"

lemma search_split:
  fixes key :: 'a and g :: "'x \<Rightarrow> 'a"
  assumes "sorted_wrt (\<lambda>p q. compare (g p) (g q) < 0) ps"
  defines "i \<equiv> sort_Search (\<lambda>i. compare (g (ps ! i)) key \<ge> 0) 0 (length ps)"
  shows "i \<le> length ps" "\<forall>p \<in> set (take i ps). compare (g p) key < 0" "\<forall>p \<in> set (drop i ps). compare (g p) key \<ge> 0"
proof -
  let ?f = "\<lambda>i. compare (g (ps ! i)) key \<ge> 0"
  have mono: "?f b" if "a \<le> b" "b < length ps" "?f a" for a b
  proof (cases "a = b")
    case False
    then have "compare (g (ps ! a)) (g (ps ! b)) < 0" using assms(1) that by (simp add: sorted_wrt_iff_nth_less)
    then show ?thesis using that(3) less_trans by (metis linorder_not_less)
  qed (use that in simp)
  have s: "i \<le> length ps \<and> (\<forall>a < i. \<not> ?f a) \<and> (\<forall>a. i \<le> a \<longrightarrow> a < length ps \<longrightarrow> ?f a)"
    unfolding i_def by (rule sort_Search_least) (use mono in auto)
  then show "i \<le> length ps" by blast
  show "\<forall>p \<in> set (take i ps). compare (g p) key < 0" using s by (auto simp: in_set_conv_nth not_le)
  show "\<forall>p \<in> set (drop i ps). compare (g p) key \<ge> 0" using s by (auto simp: in_set_conv_nth)
qed

lemma keyed_append:
  "keyed (ps @ qs) \<longleftrightarrow> keyed ps \<and> keyed qs \<and> (\<forall>p \<in> set ps. \<forall>q \<in> set qs. compare (po_key p) (po_key q) < 0)"
  by (rule sorted_wrt_append)

text \<open>The last keys of the chunks are ordered too.\<close>

lemma keyed_lasts:
  "keyed (concat chunks) \<Longrightarrow> \<forall>chunk \<in> set chunks. chunk \<noteq> [] \<Longrightarrow>
   sorted_wrt (\<lambda>a b. compare (po_key (last a)) (po_key (last b)) < 0) chunks"
proof (induction chunks)
  case (Cons chunk chunks)
  have "compare (po_key (last chunk)) (po_key (last c)) < 0" if "c \<in> set chunks" for c
    using Cons.prems that last_in_set [of chunk] last_in_set [of c] by (auto simp: keyed_append)
  then show ?case using Cons by (auto simp: keyed_append)
qed simp

lemma below_last:
  assumes "keyed chunk" "chunk \<noteq> []" "p \<in> set chunk" "compare (po_key (last chunk)) key < 0"
  shows "compare (po_key p) key < 0"
proof -
  obtain ps q where c: "chunk = ps @ [q]" using assms(2) by (cases chunk rule: rev_cases) auto
  then show ?thesis using assms(1,3,4) less_trans by (auto simp: keyed_append)
qed

lemma above_first:
  assumes "keyed (p # ps)" "compare (po_key p) key \<ge> 0" "q \<in> set ps"
  shows "compare key (po_key q) < 0"
proof -
  have pq: "compare (po_key p) (po_key q) < 0" using assms(1,3) by simp
  then show ?thesis using assms(2) less_trans [OF _ pq] zero_eq pos_iff by (metis order_le_less)
qed

lemma pl_find_around:
  assumes ord: "keyed (entries_of l)" and "chunked l" and some: "pl_chunks l \<noteq> []"
  obtains as chunk bs i where "pl_chunks l = as @ chunk # bs" "i \<le> length chunk" "i < length chunk \<or> bs = []"
    "pl_find compare l key = (length as, i, i < length chunk \<and> po_key (chunk ! i) = key)"
    "\<forall>p \<in> set (concat as @ take i chunk). compare (po_key p) key < 0"
    "\<forall>p \<in> set (drop i chunk @ concat bs). compare (po_key p) key \<ge> 0"
proof -
  let ?chunks = "pl_chunks l"
  have ne: "\<forall>chunk \<in> set ?chunks. chunk \<noteq> []" using assms(2) by (simp add: chunked_def)
  have ord: "keyed (concat ?chunks)" using assms(1) by (simp add: entries_of_def)
  have inner: "keyed chunk" if member: "chunk \<in> set ?chunks" for chunk
  proof -
    obtain as bs where "?chunks = as @ chunk # bs" using member by (meson split_list)
    then show ?thesis using ord by (simp add: keyed_append)
  qed
  define c where "c = sort_Search (\<lambda>c. compare (po_key (last (?chunks ! c))) key \<ge> 0) 0 (length ?chunks)"
  note split = search_split [where g = "\<lambda>chunk. po_key (last chunk)", OF keyed_lasts [OF ord ne], of key, folded c_def]
  have left: "compare (po_key p) key < 0" if early: "p \<in> set (concat (take c ?chunks))" for p
  proof -
    obtain chunk where "chunk \<in> set (take c ?chunks)" "p \<in> set chunk" using early by auto
    then show ?thesis using below_last [of chunk p key] inner [of chunk] ne split(2) in_set_takeD by metis
  qed
  show ?thesis
  proof (cases "c = length ?chunks")
    case True
    obtain as chunk where cs: "?chunks = as @ [chunk]" using some by (cases ?chunks rule: rev_cases) auto
    have "pl_find compare l key = (length ?chunks - 1, length (?chunks ! (length ?chunks - 1)), False)"
      using True some by (simp add: pl_find_def c_def [symmetric] Let_def)
    then have find: "pl_find compare l key = (length as, length chunk, length chunk < length chunk \<and> po_key (chunk ! length chunk) = key)"
      by (simp add: cs)
    have all: "\<forall>p \<in> set (concat as @ take (length chunk) chunk). compare (po_key p) key < 0"
      using left True by (simp add: cs)
    show ?thesis by (rule that [OF cs _ _ find all]) simp_all
  next
    case False
    then have c: "c < length ?chunks" using split(1) by simp
    let ?chunk = "?chunks ! c" and ?bs = "drop (Suc c) ?chunks"
    have cs: "?chunks = take c ?chunks @ ?chunk # ?bs" by (rule id_take_nth_drop [OF c])
    have whole: "keyed (concat (take c ?chunks) @ ?chunk @ concat ?bs)" using ord cs by (metis concat.simps(2) concat_append)
    define i where "i = sort_Search (\<lambda>i. compare (po_key (?chunk ! i)) key \<ge> 0) 0 (length ?chunk)"
    note s = search_split [where g = po_key, OF inner [OF nth_mem [OF c]], of key, folded i_def]
    have find: "pl_find compare l key = (c, i, i < length ?chunk \<and> po_key (?chunk ! i) = key)"
      using False by (simp add: pl_find_def c_def [symmetric] i_def [symmetric] Let_def)
    have "?chunk \<noteq> []" using ne c by simp
    moreover have top: "compare (po_key (last ?chunk)) key \<ge> 0" using split(3) c by (simp add: Cons_nth_drop_Suc [symmetric])
    ultimately have right: "compare (po_key p) key \<ge> 0" if "p \<in> set (concat ?bs)" for p
    proof -
      have "compare (po_key (last ?chunk)) (po_key p) < 0" using whole that \<open>?chunk \<noteq> []\<close> by (auto simp: keyed_append)
      then show ?thesis using top less_trans by (metis linorder_not_less)
    qed
    have "i < length ?chunk"
    proof (rule ccontr)
      assume "\<not> i < length ?chunk"
      then have "last ?chunk \<in> set (take i ?chunk)" using last_in_set [OF \<open>?chunk \<noteq> []\<close>] by simp
      then show False using s(2) top by fastforce
    qed
    show ?thesis
    proof (rule that [of "take c ?chunks" ?chunk ?bs i])
      show "i < length ?chunk \<or> ?bs = []" using \<open>i < length ?chunk\<close> by blast
      show "pl_find compare l key = (length (take c ?chunks), i, i < length ?chunk \<and> po_key (?chunk ! i) = key)" using find c by simp
      show "\<forall>p \<in> set (concat (take c ?chunks) @ take i ?chunk). compare (po_key p) key < 0"
        using left s(2) by (simp only: set_append ball_Un) blast
      show "\<forall>p \<in> set (drop i ?chunk @ concat ?bs). compare (po_key p) key \<ge> 0"
        using right s(3) by (simp only: set_append ball_Un) blast
    qed (rule cs s(1))+
  qed
qed

text \<open>The list around a key: what is below it, and the rest.\<close>

lemma pl_find_none: "pl_chunks l = [] \<Longrightarrow> pl_find compare l key = (0, 0, False)"
  by (simp add: pl_find_def sort_Search.simps [of _ 0 0] Let_def)

lemma absent_above:
  assumes "keyed ps" "\<forall>p \<in> set ps. compare (po_key p) key \<ge> 0" "ps = [] \<or> po_key (hd ps) \<noteq> key" "p \<in> set ps"
  shows "compare key (po_key p) < 0"
proof (cases ps)
  case (Cons q qs)
  have "compare (po_key q) key > 0" using assms(2,3) Cons zero_eq [of "po_key q" key] by (auto simp: order_le_less)
  then show ?thesis using assms(1,2,4) Cons above_first [of q qs key p] by (auto simp: pos_iff)
qed (use assms in simp)

lemma find_cases:
  assumes ord: "keyed (entries_of l)" and ch: "chunked l"
  obtains
    (found) as bs A p B where "pl_chunks l = as @ (A @ p # B) # bs" "pl_find compare l key = (length as, length A, True)" "po_key p = key"
      "\<forall>q \<in> set (concat as @ A). compare (po_key q) key < 0" "\<forall>q \<in> set (B @ concat bs). compare key (po_key q) < 0"
  | (absent) as A B bs where "pl_chunks l = as @ (A @ B) # bs" "A @ B \<noteq> []" "pl_find compare l key = (length as, length A, False)"
      "\<forall>q \<in> set (concat as @ A). compare (po_key q) key < 0" "\<forall>q \<in> set (B @ concat bs). compare key (po_key q) < 0"
  | (empty) "pl_chunks l = []" "pl_find compare l key = (0, 0, False)"
proof (cases "pl_chunks l = []")
  case True
  then show ?thesis using empty pl_find_none by blast
next
  case False
  obtain as chunk bs i where r: "pl_chunks l = as @ chunk # bs" "i \<le> length chunk" "i < length chunk \<or> bs = []"
    "pl_find compare l key = (length as, i, i < length chunk \<and> po_key (chunk ! i) = key)"
    "\<forall>p \<in> set (concat as @ take i chunk). compare (po_key p) key < 0"
    "\<forall>p \<in> set (drop i chunk @ concat bs). compare (po_key p) key \<ge> 0"
    by (rule pl_find_around [OF ord ch False]) (rule that)
  have whole: "keyed ((concat as @ take i chunk) @ drop i chunk @ concat bs)"
    using ord unfolding entries_of_def r(1) by (simp only: concat_append concat.simps append_assoc append_take_drop_id append_assoc [symmetric, of "take i chunk"])
  have rest: "keyed (drop i chunk @ concat bs)" using whole unfolding keyed_append [of "concat as @ take i chunk" "drop i chunk @ concat bs"] by (elim conjE)
  have len: "length (take i chunk) = i" using r(2) by simp
  show ?thesis
  proof (cases "i < length chunk \<and> po_key (chunk ! i) = key")
    case True
    then have d: "drop i chunk = chunk ! i # drop (Suc i) chunk" by (simp add: Cons_nth_drop_Suc)
    have k: "po_key (chunk ! i) = key" using True by blast
    have c: "chunk = take i chunk @ chunk ! i # drop (Suc i) chunk" using True by (simp add: id_take_nth_drop)
    have above: "\<forall>q \<in> set (drop (Suc i) chunk @ concat bs). compare key (po_key q) < 0"
    proof -
      have "keyed (chunk ! i # drop (Suc i) chunk @ concat bs)" using rest by (simp only: d append_Cons)
      then show ?thesis unfolding k [symmetric] by simp
    qed
    show ?thesis
    proof (rule found [of as "take i chunk" "chunk ! i" "drop (Suc i) chunk" bs])
      show "pl_chunks l = as @ (take i chunk @ chunk ! i # drop (Suc i) chunk) # bs" using r(1) c by simp
      show "pl_find compare l key = (length as, length (take i chunk), True)" using r(4) True len by simp
    qed (rule k r(5) above)+
  next
    case miss: False
    have ne: "chunk \<noteq> []" using ch r(1) by (simp add: chunked_def)
    have "drop i chunk @ concat bs = [] \<or> po_key (hd (drop i chunk @ concat bs)) \<noteq> key"
      using miss r(2,3) by (cases "i < length chunk") (auto simp: hd_drop_conv_nth hd_append)
    then have above: "\<forall>q \<in> set (drop i chunk @ concat bs). compare key (po_key q) < 0" using absent_above [OF rest r(6)] by blast
    show ?thesis
    proof (rule absent [of as "take i chunk" "drop i chunk" bs])
      show "pl_chunks l = as @ (take i chunk @ drop i chunk) # bs" using r(1) by simp
      show "take i chunk @ drop i chunk \<noteq> []" using ne by simp
      show "pl_find compare l key = (length as, length (take i chunk), False)" using r(4) miss len by simp
    qed (rule r(5) above)+
  qed
qed

text \<open>Reading and changing the entry a key has.\<close>

lemma away: "compare (po_key q) key < 0 \<or> compare key (po_key q) < 0 \<Longrightarrow> po_key q \<noteq> key"
  using same [of key] by auto

lemma frequency_below: "\<forall>q \<in> set qs. compare (po_key q) key < 0 \<Longrightarrow> frequency qs key = 0"
  by (rule frequency_absent) (use away in blast)

lemma frequency_above: "\<forall>q \<in> set qs. compare key (po_key q) < 0 \<Longrightarrow> frequency qs key = 0"
  by (rule frequency_absent) (use away in blast)

lemma list_ok_split:
  assumes "list_ok compare l"
  obtains
    (found) as bs A p B where "pl_chunks l = as @ (A @ p # B) # bs" "pl_find compare l key = (length as, length A, True)" "po_key p = key"
      "frequency (concat as @ A) key = 0" "frequency (B @ concat bs) key = 0"
  | (absent) as A B bs where "pl_chunks l = as @ (A @ B) # bs" "A @ B \<noteq> []" "pl_find compare l key = (length as, length A, False)"
      "\<forall>q \<in> set (concat as @ A). compare (po_key q) key < 0" "\<forall>q \<in> set (B @ concat bs). compare key (po_key q) < 0"
      "frequency (entries_of l) key = 0"
  | (empty) "pl_chunks l = []" "pl_find compare l key = (0, 0, False)"
proof -
  have ok: "keyed (entries_of l)" "chunked l" using assms by (simp_all add: list_ok_def)
  show ?thesis
  proof (rule find_cases [OF ok, of key])
    fix as bs A p B
    assume f: "pl_chunks l = as @ (A @ p # B) # bs" "pl_find compare l key = (length as, length A, True)" "po_key p = key"
      "\<forall>q \<in> set (concat as @ A). compare (po_key q) key < 0" "\<forall>q \<in> set (B @ concat bs). compare key (po_key q) < 0"
    show ?thesis by (rule found [OF f(1-3) frequency_below [OF f(4)] frequency_above [OF f(5)]])
  next
    fix as A B bs
    assume f: "pl_chunks l = as @ (A @ B) # bs" "A @ B \<noteq> []" "pl_find compare l key = (length as, length A, False)"
      "\<forall>q \<in> set (concat as @ A). compare (po_key q) key < 0" "\<forall>q \<in> set (B @ concat bs). compare key (po_key q) < 0"
    have "frequency (entries_of l) key = 0"
      using frequency_below [OF f(4)] frequency_above [OF f(5)] by (simp add: entries_of_def f(1))
    then show ?thesis by (rule absent [OF f])
  qed (rule empty)
qed

lemma tf_in_frequency:
  assumes "list_ok compare l"
  shows "tf_in compare l key = frequency (entries_of l) key"
proof (rule list_ok_split [OF assms, of key])
  fix as bs A p B
  assume f: "pl_chunks l = as @ (A @ p # B) # bs" "pl_find compare l key = (length as, length A, True)" "po_key p = key"
    "frequency (concat as @ A) key = 0" "frequency (B @ concat bs) key = 0"
  have "tf_in compare l key = po_tf p" by (simp add: tf_in_def f(2)) (simp add: f(1))
  then show ?thesis using f(3-5) by (simp add: entries_of_def f(1))
next
  fix as A B bs
  assume "pl_find compare l key = (length as, length A, False)" "frequency (entries_of l) key = 0"
  then show ?thesis by (simp add: tf_in_def)
qed (simp add: tf_in_def entries_of_def)

lemma set_tf_at:
  assumes "pl_chunks l = as @ (A @ p # B) # bs"
  shows "pl_chunks (set_tf (length as) (length A) n l) = as @ (A @ p\<lparr>po_tf := n\<rparr> # B) # bs"
    "pl_live (set_tf c i n l) = pl_live l" "pl_term (set_tf c i n l) = pl_term l"
  by (simp_all add: set_tf_def assms list_update_append)

lemma keyed_set_tf:
  assumes "keyed (ps @ p # qs)"
  shows "keyed (ps @ p\<lparr>po_tf := n\<rparr> # qs)"
  using assms by (simp add: keyed_append)

lemma set_tf_ok:
  assumes ok: "list_ok compare l" and l: "pl_chunks l = as @ (A @ p # B) # bs"
    and live: "pl_live l' + of_bool (po_tf p \<noteq> 0) = pl_live l + of_bool (n \<noteq> 0)"
    and l': "pl_chunks l' = as @ (A @ p\<lparr>po_tf := n\<rparr> # B) # bs"
  shows "list_ok compare l'"
proof -
  have es: "entries_of l = (concat as @ A) @ p # B @ concat bs" by (simp add: entries_of_def l)
  have es': "entries_of l' = (concat as @ A) @ p\<lparr>po_tf := n\<rparr> # B @ concat bs" by (simp add: entries_of_def l')
  have "keyed (entries_of l')" using ok unfolding list_ok_def es es' by (elim conjE) (rule keyed_set_tf)
  moreover have "chunked l'" using ok unfolding list_ok_def chunked_def l l' by simp
  moreover have "pl_live l' = length (filter (\<lambda>p. po_tf p \<noteq> 0) (entries_of l'))"
    using ok live unfolding list_ok_def es es' by (cases "po_tf p = 0"; cases "n = 0") simp_all
  ultimately show ?thesis by (simp add: list_ok_def)
qed

lemma set_tf_frequency:
  assumes "pl_chunks l = as @ (A @ p # B) # bs" "po_key p = key" "frequency (concat as @ A) key = 0" "frequency (B @ concat bs) key = 0"
    and "pl_chunks l' = as @ (A @ p\<lparr>po_tf := n\<rparr> # B) # bs"
  shows "frequency (entries_of l') k = (if k = key then n else frequency (entries_of l) k)"
  using assms by (simp add: entries_of_def)

lemma insert_after: "insert_at (Suc (length xs)) x (xs @ y # ys) = xs @ y # x # ys"
  by (simp add: insert_at_def)

text \<open>An insertion where \<open>find\<close> says: one more entry, between those below and those above.\<close>

lemma pl_insert_entries:
  assumes "pl_chunks l = as @ (A @ B) # bs" "A @ B \<noteq> []" "chunked l"
  shows "entries_of (pl_insert (length as) (length A) p l) = (concat as @ A) @ p # B @ concat bs"
    "chunked (pl_insert (length as) (length A) p l)"
proof -
  let ?chunk = "A @ p # B" and ?half = "length (A @ p # B) div 2" and ?l' = "pl_insert (length as) (length A) p l"
  have ins: "insert_at (length A) p (A @ B) = ?chunk" by (simp add: insert_at_def)
  have rest: "\<forall>c \<in> set as \<union> set bs. c \<noteq> [] \<and> length c \<le> postingChunk" "length (A @ B) \<le> postingChunk"
    using assms(3) by (auto simp: chunked_def assms(1))
  have "pl_chunks ?l' = (if length ?chunk \<le> postingChunk then as @ ?chunk # bs else as @ take ?half ?chunk # drop ?half ?chunk # bs)"
    using ins by (simp add: pl_insert_def assms(1) Let_def list_update_append insert_after del: take_append drop_append)
  note chunks = this
  have "concat (pl_chunks ?l') = concat as @ ?chunk @ concat bs"
  proof (cases "length ?chunk \<le> postingChunk")
    case False
    then have "concat (pl_chunks ?l') = concat as @ (take ?half ?chunk @ drop ?half ?chunk) @ concat bs"
      unfolding chunks by (simp del: take_append drop_append append_take_drop_id)
    then show ?thesis by (simp only: append_take_drop_id)
  qed (simp add: chunks)
  then show "entries_of ?l' = (concat as @ A) @ p # B @ concat bs" by (simp add: entries_of_def)
  show "chunked ?l'"
  proof (cases "length ?chunk \<le> postingChunk")
    case False
    have "take ?half ?chunk \<noteq> []" "drop ?half ?chunk \<noteq> []" using assms(2) by (auto simp del: take_append drop_append)
    moreover have "length (take ?half ?chunk) \<le> postingChunk" "length (drop ?half ?chunk) \<le> postingChunk"
      using rest(2) assms(2) by (auto simp: postingChunk_def simp del: take_append drop_append)
    ultimately show ?thesis using False rest(1) unfolding chunked_def chunks by (auto simp del: take_append drop_append)
  qed (use rest chunks in \<open>auto simp: chunked_def\<close>)
qed

lemma pl_insert_fields [simp]: "pl_live (pl_insert c i p l) = pl_live l" "pl_term (pl_insert c i p l) = pl_term l"
  by (simp_all add: pl_insert_def Let_def)

lemma list_ok_inserted:
  assumes "entries_of l' = P @ p # Q" "chunked l'" "entries_of l = P @ Q" "list_ok compare l" "pl_live l' = pl_live l + 1"
    and "po_tf p \<noteq> 0" "\<forall>q \<in> set P. compare (po_key q) (po_key p) < 0" "\<forall>q \<in> set Q. compare (po_key p) (po_key q) < 0"
  shows "list_ok compare l'"
  using assms by (auto simp: list_ok_def keyed_append)

lemma list_ok_cong: "list_ok compare l \<Longrightarrow> pl_chunks l' = pl_chunks l \<Longrightarrow> pl_live l' = pl_live l \<Longrightarrow> list_ok compare l'"
  by (simp add: list_ok_def entries_of_def chunked_def)

lemma count_posting_ok:
  assumes ok: "list_ok compare l"
  shows "list_ok compare (count_posting compare key doc l)"
    "frequency (entries_of (count_posting compare key doc l)) k = frequency (entries_of l) k + (if k = key then 1 else 0)"
    "sightings (count_posting compare key doc l) \<subseteq> insert (key, doc) (sightings l)"
proof -
  let ?l' = "count_posting compare key doc l" and ?p = "\<lparr>po_key = key, po_doc = doc, po_tf = 1\<rparr>"
  have "list_ok compare ?l' \<and> frequency (entries_of ?l') k = frequency (entries_of l) k + (if k = key then 1 else 0) \<and>
      sightings ?l' \<subseteq> insert (key, doc) (sightings l)"
  proof (rule list_ok_split [OF ok, of key])
    fix as bs A p B
    assume f: "pl_chunks l = as @ (A @ p # B) # bs" "pl_find compare l key = (length as, length A, True)" "po_key p = key"
      "frequency (concat as @ A) key = 0" "frequency (B @ concat bs) key = 0"
    let ?n = "po_tf p + 1"
    have l': "pl_chunks ?l' = as @ (A @ p\<lparr>po_tf := ?n\<rparr> # B) # bs"
      by (simp add: count_posting_def f(2) Let_def set_tf_at [OF f(1)]) (simp add: f(1))
    have live: "pl_live ?l' = (if po_tf p = 0 then pl_live l + 1 else pl_live l)"
      by (simp add: count_posting_def f(2) Let_def set_tf_at [OF f(1)]) (simp add: f(1))
    have "list_ok compare ?l'" by (rule set_tf_ok [OF ok f(1) _ l']) (simp add: live)
    moreover have "frequency (entries_of l) key = po_tf p" using f(3-5) by (simp add: entries_of_def f(1))
    moreover have "sightings ?l' = sightings l" by (simp add: sightings_def entries_of_def f(1) l')
    ultimately show ?thesis using set_tf_frequency [OF f(1,3,4,5) l', of k] by (simp add: subset_insertI)
  next
    fix as A B bs
    assume f: "pl_chunks l = as @ (A @ B) # bs" "A @ B \<noteq> []" "pl_find compare l key = (length as, length A, False)"
      "\<forall>q \<in> set (concat as @ A). compare (po_key q) key < 0" "\<forall>q \<in> set (B @ concat bs). compare key (po_key q) < 0"
      "frequency (entries_of l) key = 0"
    have ch: "chunked l" using ok by (simp add: list_ok_def)
    note ins = pl_insert_entries [OF f(1,2) ch, of ?p]
    have es: "entries_of l = (concat as @ A) @ B @ concat bs" by (simp add: entries_of_def f(1))
    have l': "pl_chunks ?l' = pl_chunks (pl_insert (length as) (length A) ?p l)" "pl_live ?l' = pl_live l + 1"
      by (simp_all add: count_posting_def f(3) Let_def)
    have es': "entries_of ?l' = (concat as @ A) @ ?p # B @ concat bs" using ins(1) by (simp add: entries_of_def l'(1))
    have ch': "chunked ?l'" using ins(2) by (simp add: chunked_def l'(1))
    have "list_ok compare ?l'" by (rule list_ok_inserted [OF es' ch' es ok l'(2)]) (use f(4,5) in simp_all)
    moreover have "frequency (entries_of ?l') k = frequency (entries_of l) k + (if k = key then 1 else 0)" by (simp add: es es')
    moreover have "sightings ?l' = insert (key, doc) (sightings l)" by (simp add: sightings_def es es')
    ultimately show ?thesis by blast
  next
    assume f: "pl_chunks l = []" "pl_find compare l key = (0, 0, False)"
    have l': "pl_chunks ?l' = [[?p]]" "pl_live ?l' = pl_live l + 1" by (simp_all add: count_posting_def f Let_def pl_insert_def)
    then show ?thesis using ok by (simp add: list_ok_def chunked_def entries_of_def f(1) postingChunk_def sightings_def)
  qed
  then show "list_ok compare ?l'" "frequency (entries_of ?l') k = frequency (entries_of l) k + (if k = key then 1 else 0)"
    "sightings ?l' \<subseteq> insert (key, doc) (sightings l)" by blast+
qed

lemma bury_posting_ok:
  assumes ok: "list_ok compare l"
  shows "list_ok compare (bury_posting compare key l)"
    "frequency (entries_of (bury_posting compare key l)) k = (if k = key then 0 else frequency (entries_of l) k)"
    "sightings (bury_posting compare key l) = sightings l"
proof -
  let ?l' = "bury_posting compare key l"
  have "list_ok compare ?l' \<and> frequency (entries_of ?l') k = (if k = key then 0 else frequency (entries_of l) k) \<and> sightings ?l' = sightings l"
  proof (rule list_ok_split [OF ok, of key])
    fix as bs A p B
    assume f: "pl_chunks l = as @ (A @ p # B) # bs" "pl_find compare l key = (length as, length A, True)" "po_key p = key"
      "frequency (concat as @ A) key = 0" "frequency (B @ concat bs) key = 0"
    have same: "p\<lparr>po_tf := 0\<rparr> = p" if zero: "po_tf p = 0" using zero by (cases p) simp
    have l': "pl_chunks ?l' = as @ (A @ p\<lparr>po_tf := 0\<rparr> # B) # bs"
      by (cases "po_tf p = 0") (simp_all add: bury_posting_def f(1,2) Let_def set_tf_at [OF f(1)] same)
    have pos: "po_tf p \<noteq> 0 \<Longrightarrow> 0 < pl_live l" using ok by (simp add: list_ok_def entries_of_def f(1))
    have "pl_live ?l' = (if po_tf p = 0 then pl_live l else pl_live l - 1)"
      by (simp add: bury_posting_def f(1,2) Let_def set_tf_at [OF f(1)])
    then have "list_ok compare ?l'" using pos by (intro set_tf_ok [OF ok f(1) _ l']) simp
    moreover have "sightings ?l' = sightings l" by (simp add: sightings_def entries_of_def f(1) l')
    ultimately show ?thesis using set_tf_frequency [OF f(1,3,4,5) l', of k] by simp
  next
    fix as A B bs
    assume "pl_find compare l key = (length as, length A, False)" "frequency (entries_of l) key = 0"
    then show ?thesis using ok by (simp add: bury_posting_def)
  next
    assume "pl_chunks l = []" "pl_find compare l key = (0, 0, False)"
    then show ?thesis using ok by (simp add: bury_posting_def entries_of_def)
  qed
  then show "list_ok compare ?l'" "frequency (entries_of ?l') k = (if k = key then 0 else frequency (entries_of l) k)"
    "sightings ?l' = sightings l" by blast+
qed

lemma keyed_distinct: "keyed ps \<Longrightarrow> distinct (map po_key ps)"
  by (induction ps) (use away in \<open>auto\<close>)

lemma frequency_member: "keyed ps \<Longrightarrow> p \<in> set ps \<Longrightarrow> frequency ps (po_key p) = po_tf p"
proof (induction ps)
  case (Cons q ps)
  have "frequency ps (po_key q) = 0" using Cons.prems(1) by (intro frequency_above) simp
  moreover have "po_key q \<noteq> po_key p" if "p \<in> set ps" using keyed_distinct [OF Cons.prems(1)] that by force
  ultimately show ?case using Cons by auto
qed simp

lemma live_keys:
  assumes ord: "keyed ps"
  shows "{k. frequency ps k \<noteq> 0} = po_key ` set (filter (\<lambda>p. po_tf p \<noteq> 0) ps)"
proof (rule set_eqI)
  fix k
  show "k \<in> {k. frequency ps k \<noteq> 0} \<longleftrightarrow> k \<in> po_key ` set (filter (\<lambda>p. po_tf p \<noteq> 0) ps)"
  proof (cases "k \<in> po_key ` set ps")
    case True
    then obtain p where p: "p \<in> set ps" "k = po_key p" by blast
    have same: "po_tf q = po_tf p" if "q \<in> set ps" "po_key q = po_key p" for q
      using frequency_member [OF ord that(1)] frequency_member [OF ord p(1)] that(2) by simp
    have "k \<in> po_key ` set (filter (\<lambda>p. po_tf p \<noteq> 0) ps) \<longleftrightarrow> po_tf p \<noteq> 0"
    proof
      assume "k \<in> po_key ` set (filter (\<lambda>p. po_tf p \<noteq> 0) ps)"
      then obtain q where "q \<in> set ps" "po_tf q \<noteq> 0" "po_key q = po_key p" using p(2) by auto
      then show "po_tf p \<noteq> 0" using same by simp
    next
      assume "po_tf p \<noteq> 0"
      then show "k \<in> po_key ` set (filter (\<lambda>p. po_tf p \<noteq> 0) ps)" using p by (intro image_eqI [of _ _ p]) simp_all
    qed
    then show ?thesis using frequency_member [OF ord p(1)] p(2) by simp
  next
    case False
    then have "frequency ps k = 0" by (intro frequency_absent) blast
    then show ?thesis using False by auto
  qed
qed

lemma sorted_wrt_filter_map:
  assumes "sorted_wrt (\<lambda>p q. compare (po_key p) (po_key q) < 0) ps" "\<And>p. po_key (f p) = po_key p"
  shows "sorted_wrt (\<lambda>p q. compare (po_key p) (po_key q) < 0) (map f (filter P ps))"
  using assms(1) by (simp add: sorted_wrt_map assms(2) sorted_wrt_filter)

lemma concat_nonempty: "concat (filter (\<lambda>c. c \<noteq> []) cs) = concat cs"
  by (induction cs) auto

lemma compact_entries:
  "entries_of (compact_list number l) = map (\<lambda>p. p\<lparr>po_doc := number (po_key p)\<rparr>) (filter (\<lambda>p. po_tf p \<noteq> 0) (entries_of l))"
  by (simp add: compact_list_def entries_of_def map_concat [symmetric] concat_nonempty filter_concat)

lemma frequency_compact: "frequency (map (\<lambda>p. p\<lparr>po_doc := number (po_key p)\<rparr>) (filter (\<lambda>p. po_tf p \<noteq> 0) ps)) k = frequency ps k"
  by (induction ps) auto

lemma compact_list_ok:
  assumes ok: "list_ok compare l"
  shows "list_ok compare (compact_list number l)" "frequency (entries_of (compact_list number l)) k = frequency (entries_of l) k"
    "sightings (compact_list number l) = {(k, number k) |k. frequency (entries_of l) k \<noteq> 0}"
proof -
  have "chunked (compact_list number l)"
    using ok order_trans [OF length_filter_le] by (fastforce simp: list_ok_def chunked_def compact_list_def)
  moreover have "keyed (entries_of (compact_list number l))"
    unfolding compact_entries using ok by (intro sorted_wrt_filter_map) (simp_all add: list_ok_def)
  moreover have "pl_live (compact_list number l) = pl_live l" by (simp add: compact_list_def)
  ultimately show "list_ok compare (compact_list number l)"
    using ok by (simp add: list_ok_def compact_entries filter_map comp_def)
  show "frequency (entries_of (compact_list number l)) k = frequency (entries_of l) k" by (simp only: compact_entries frequency_compact)
  show "sightings (compact_list number l) = {(k, number k) |k. frequency (entries_of l) k \<noteq> 0}"
  proof -
    have "keyed (entries_of l)" using ok by (simp add: list_ok_def)
    note keys = live_keys [OF this]
    have "sightings (compact_list number l) = (\<lambda>k. (k, number k)) ` po_key ` set (filter (\<lambda>p. po_tf p \<noteq> 0) (entries_of l))"
      by (simp add: sightings_def compact_entries image_image)
    then show ?thesis unfolding keys [symmetric] by blast
  qed
qed

lemma live_is_card:
  assumes "list_ok compare l"
  shows "pl_live l = card {k. frequency (entries_of l) k \<noteq> 0}"
proof -
  have ord: "keyed (entries_of l)" and live: "pl_live l = length (filter (\<lambda>p. po_tf p \<noteq> 0) (entries_of l))"
    using assms by (simp_all add: list_ok_def)
  have "{k. frequency (entries_of l) k \<noteq> 0} = po_key ` set (filter (\<lambda>p. po_tf p \<noteq> 0) (entries_of l))" by (rule live_keys [OF ord])
  moreover have "distinct (map po_key (filter (\<lambda>p. po_tf p \<noteq> 0) (entries_of l)))"
    using keyed_distinct [OF ord] by (rule distinct_map_filter)
  ultimately show ?thesis using live distinct_card [of "map po_key (filter (\<lambda>p. po_tf p \<noteq> 0) (entries_of l))"] by simp
qed

end

section \<open>A posting list is a table of counts\<close>

text \<open>C39: A posting list is the table of how often each document holds its term. From the empty list on, \<open>count\<close> adds
  one to its document's count and changes no other, whether it appends, splits a chunk or revives a tombstone;
  \<open>bury\<close> makes the count zero; compaction changes no count and leaves no tombstone. Chunks stay sorted, non-empty
  and within their bound, and \<open>live\<close> is the number of documents that hold the term.\<close>

theorem posting_list_counts:
  fixes l :: "'k :: linorder postingList"
  shows "list_ok OrderedComparator \<lparr>pl_term = t, pl_chunks = ([] :: 'k posting list list), pl_live = 0\<rparr> \<and>
   (list_ok OrderedComparator l \<longrightarrow>
      pl_live l = card {k. tf_in OrderedComparator l k \<noteq> 0} \<and>
      list_ok OrderedComparator (count_posting OrderedComparator key doc l) \<and>
      tf_in OrderedComparator (count_posting OrderedComparator key doc l) k = tf_in OrderedComparator l k + (if k = key then 1 else 0) \<and>
      list_ok OrderedComparator (bury_posting OrderedComparator key l) \<and>
      tf_in OrderedComparator (bury_posting OrderedComparator key l) k = (if k = key then 0 else tf_in OrderedComparator l k) \<and>
      list_ok OrderedComparator (compact_list number l) \<and>
      tf_in OrderedComparator (compact_list number l) k = tf_in OrderedComparator l k \<and>
      (\<forall>p \<in> set (entries_of (compact_list number l)). po_tf p \<noteq> 0))"
proof (intro conjI impI)
  show "list_ok OrderedComparator \<lparr>pl_term = t, pl_chunks = ([] :: 'k posting list list), pl_live = 0\<rparr>"
    by (simp add: list_ok_def entries_of_def chunked_def)
  assume ok: "list_ok OrderedComparator l"
  note tf = ordered_cmp.tf_in_frequency
  note ops = ordered_cmp.count_posting_ok [OF ok] ordered_cmp.bury_posting_ok [OF ok] ordered_cmp.compact_list_ok [OF ok]
  show "pl_live l = card {k. tf_in OrderedComparator l k \<noteq> 0}" unfolding tf [OF ok] by (rule ordered_cmp.live_is_card [OF ok])
  show "list_ok OrderedComparator (count_posting OrderedComparator key doc l)" "list_ok OrderedComparator (bury_posting OrderedComparator key l)"
    "list_ok OrderedComparator (compact_list number l)" by (rule ops)+
  show "tf_in OrderedComparator (count_posting OrderedComparator key doc l) k = tf_in OrderedComparator l k + (if k = key then 1 else 0)"
    unfolding tf [OF ok] tf [OF ops(1)] by (rule ops(2))
  show "tf_in OrderedComparator (bury_posting OrderedComparator key l) k = (if k = key then 0 else tf_in OrderedComparator l k)"
    unfolding tf [OF ok] tf [OF ops(4)] by (rule ops(5))
  show "tf_in OrderedComparator (compact_list number l) k = tf_in OrderedComparator l k"
    unfolding tf [OF ok] tf [OF ops(7)] by (rule ops(8))
  show "\<forall>p \<in> set (entries_of (compact_list number l)). po_tf p \<noteq> 0" by (simp add: ordered_cmp.compact_entries)
qed

theorem posting_list_counts_witness:
  "tf_in OrderedComparator (count_posting OrderedComparator (7 :: nat) 0 (count_posting OrderedComparator 7 0
     \<lparr>pl_term = [116], pl_chunks = [], pl_live = 0\<rparr>)) 7 = 2"
proof -
  let ?e = "\<lparr>pl_term = [116], pl_chunks = [], pl_live = 0\<rparr> :: nat postingList"
  note all = posting_list_counts [where t = "[116]" and 'k = nat and key = 7 and doc = 0 and k = 7 and number = id]
  have e: "list_ok OrderedComparator ?e" using all [of ?e] by blast
  then have one: "list_ok OrderedComparator (count_posting OrderedComparator 7 0 ?e)"
    "tf_in OrderedComparator (count_posting OrderedComparator 7 0 ?e) 7 = tf_in OrderedComparator ?e 7 + 1"
    using all [of ?e] by auto
  moreover have "tf_in OrderedComparator ?e 7 = 0" by (simp add: tf_in_def ordered_cmp.pl_find_none)
  ultimately show ?thesis using all [of "count_posting OrderedComparator 7 0 ?e"] by auto
qed

end
