(* ===== verification/Index_Relevance.thy ===== *)
theory Index_Relevance
  imports Complex_Main Config "HOL-Library.Finite_Map"
begin

text \<open>
  The relevance models of \<open>internal/index/relevance\<close>: \<open>match.go\<close> counts matches and keeps nothing, \<open>bm25.go\<close> keeps
  every document's length in tokens and their sum. A model is a value of one datatype, and the methods of the
  interface are functions on it. Scores are real numbers. A Go map read at an absent key gives 0.
\<close>

datatype 'k Relevance = MatchCount | is_BM25: BM25 (lengths_of: "('k, nat) fmap") (totalLen_of: int)

definition NewBM25 :: "'k Relevance" where
  "NewBM25 = BM25 fmempty 0"

definition read_length :: "('k, nat) fmap \<Rightarrow> 'k \<Rightarrow> nat" where
  "read_length ls key = (case fmlookup ls key of None \<Rightarrow> 0 | Some n \<Rightarrow> n)"

definition bm25K1 :: real where "bm25K1 = 1.2"

definition bm25B :: real where "bm25B = 0.75"

definition bm25N1 :: real where "bm25N1 = bm25K1 * (1 - bm25B)"

definition rel_Name :: "'k Relevance \<Rightarrow> runes" where
  "rel_Name r = (case r of MatchCount \<Rightarrow> str ''matchcount'' | BM25 _ _ \<Rightarrow> str ''bm25'')"

definition rel_Indexed :: "'k Relevance \<Rightarrow> 'k \<Rightarrow> runes list \<Rightarrow> 'k Relevance" where
  "rel_Indexed r key tokens = (case r of MatchCount \<Rightarrow> MatchCount
     | BM25 lengths totalLen \<Rightarrow> BM25 (fmupd key (length tokens) lengths) (totalLen + int (length tokens)))"

definition rel_Removed :: "'k Relevance \<Rightarrow> 'k \<Rightarrow> 'k Relevance" where
  "rel_Removed r key = (case r of MatchCount \<Rightarrow> MatchCount
     | BM25 lengths totalLen \<Rightarrow> BM25 (fmdrop key lengths) (totalLen - int (read_length lengths key)))"

fun distinct_terms :: "'t set \<Rightarrow> 't list \<Rightarrow> 't list" where
  "distinct_terms seen [] = []"
| "distinct_terms seen (t # ts) = (if t \<in> seen then distinct_terms seen ts else t # distinct_terms (insert t seen) ts)"

definition rel_Terms :: "'k Relevance \<Rightarrow> runes list \<Rightarrow> runes list" where
  "rel_Terms r tokens = (case r of MatchCount \<Rightarrow> tokens | BM25 _ _ \<Rightarrow> distinct_terms {} tokens)"

definition rel_Weight :: "'k Relevance \<Rightarrow> nat \<Rightarrow> nat \<Rightarrow> real" where
  "rel_Weight r df docs = (case r of MatchCount \<Rightarrow> 1
     | BM25 _ _ \<Rightarrow> ln (1 + (real docs - real df + 0.5) / (real df + 0.5)))"

definition rel_Prepare :: "'k Relevance \<Rightarrow> real" where
  "rel_Prepare r = (case r of MatchCount \<Rightarrow> 0
     | BM25 lengths totalLen \<Rightarrow>
         if fcard (fmdom lengths) = 0 \<or> totalLen = 0 then 0
         else (let avgdl = real_of_int totalLen / real (fcard (fmdom lengths)) in bm25K1 * bm25B / avgdl))"

definition rel_Length :: "'k Relevance \<Rightarrow> 'k \<Rightarrow> real" where
  "rel_Length r key = (case r of MatchCount \<Rightarrow> 0 | BM25 lengths _ \<Rightarrow> real (read_length lengths key))"

definition rel_Gain :: "'k Relevance \<Rightarrow> real \<Rightarrow> real \<Rightarrow> real \<Rightarrow> real \<Rightarrow> real" where
  "rel_Gain r weight tf len n2 = (case r of MatchCount \<Rightarrow> weight * min tf 1
     | BM25 _ _ \<Rightarrow> weight * tf * (bm25K1 + 1) / (tf + bm25N1 + n2 * len))"

definition rel_Increment :: "'k Relevance \<Rightarrow> real \<Rightarrow> 'k \<Rightarrow> nat \<Rightarrow> real \<Rightarrow> real" where
  "rel_Increment r weight key tf n2 = (case r of MatchCount \<Rightarrow> weight
     | BM25 lengths _ \<Rightarrow> rel_Gain r weight (real tf) (real (read_length lengths key)) n2)"

definition rel_Finalize :: "'k Relevance \<Rightarrow> real \<Rightarrow> int \<Rightarrow> int \<Rightarrow> real" where
  "rel_Finalize r score matched mass = (case r of MatchCount \<Rightarrow> score
     | BM25 _ _ \<Rightarrow> score * real_of_int matched / real_of_int mass)"

section \<open>What the models promise\<close>

lemma distinct_terms_spec: "set (distinct_terms seen ts) = set ts - seen \<and> distinct (distinct_terms seen ts)"
  by (induction ts arbitrary: seen) auto

lemma rel_Terms_set: "set (rel_Terms r tokens) = set tokens"
  by (cases r) (simp_all add: rel_Terms_def distinct_terms_spec)

text \<open>A model records exactly a map of documents, given as their token lists.\<close>

definition token_sum :: "('k, runes list) fmap \<Rightarrow> int" where
  "token_sum docs = (\<Sum>k \<in> fset (fmdom docs). int (length (the (fmlookup docs k))))"

definition records :: "'k Relevance \<Rightarrow> ('k, runes list) fmap \<Rightarrow> bool" where
  "records r docs \<longleftrightarrow> (case r of MatchCount \<Rightarrow> True | BM25 lengths totalLen \<Rightarrow> lengths = fmmap length docs \<and> totalLen = token_sum docs)"

lemma records_empty: "records MatchCount fmempty" "records NewBM25 fmempty"
  by (simp_all add: records_def NewBM25_def token_sum_def)

lemma token_sum_insert:
  assumes "fmlookup docs key = None"
  shows "token_sum (fmupd key ts docs) = token_sum docs + int (length ts)"
proof -
  have "key \<notin> fset (fmdom docs)" using assms by (simp add: fmlookup_dom_iff)
  then have "token_sum (fmupd key ts docs) =
      int (length ts) + (\<Sum>k \<in> fset (fmdom docs). int (length (the (fmlookup (fmupd key ts docs) k))))" by (simp add: token_sum_def)
  also have "(\<Sum>k \<in> fset (fmdom docs). int (length (the (fmlookup (fmupd key ts docs) k)))) = token_sum docs"
    unfolding token_sum_def by (rule sum.cong) (use \<open>key \<notin> fset (fmdom docs)\<close> in auto)
  finally show ?thesis by simp
qed

lemma Indexed_records:
  assumes "records r docs" "fmlookup docs key = None"
  shows "records (rel_Indexed r key tokens) (fmupd key tokens docs)"
proof (cases r)
  case (BM25 ls n)
  have "fmupd key (length tokens) ls = fmmap length (fmupd key tokens docs)"
    using assms(1) BM25 by (auto simp: records_def intro!: fmap_ext)
  then show ?thesis using assms(1) BM25 by (simp add: records_def rel_Indexed_def token_sum_insert [OF assms(2)])
qed (simp add: records_def rel_Indexed_def)

lemma Removed_records:
  assumes "records r docs" "fmlookup docs key = Some tokens"
  shows "records (rel_Removed r key) (fmdrop key docs)"
proof (cases r)
  case (BM25 ls n)
  have docs: "docs = fmupd key tokens (fmdrop key docs)" using assms(2) by (intro fmap_ext) auto
  have "token_sum docs = token_sum (fmdrop key docs) + int (length tokens)"
    by (subst docs) (simp add: token_sum_insert)
  moreover have "read_length ls key = length tokens" using assms BM25 by (simp add: records_def read_length_def)
  moreover have "fmdrop key ls = fmmap length (fmdrop key docs)" using assms(1) BM25 by (auto simp: records_def intro!: fmap_ext)
  ultimately show ?thesis using assms(1) BM25 by (simp add: records_def rel_Removed_def)
qed (simp add: records_def rel_Removed_def)

end
