(* ===== verification/Trees_BTree_Correct.thy ===== *)
theory Trees_BTree_Correct
  imports Trees_BTree
begin

text \<open>
  The B-tree is a sorted set. \<open>btree_shape\<close> is the form every operation keeps: leaves at one depth and
  nodes of bounded size. The lemmas read a node around the child an operation goes into, as what
  stands before it, the child, and what stands after it.
\<close>

section \<open>Nodes around a child\<close>

fun btree_shape :: "nat \<Rightarrow> nat \<Rightarrow> 'a BTreeNode \<Rightarrow> bool" where
  "btree_shape d 0 n \<longleftrightarrow> bchildren n = []"
| "btree_shape d (Suc depth) n \<longleftrightarrow> length (bchildren n) = Suc (length (bvalues n)) \<and>
     (\<forall>k \<in> set (bchildren n). minValues d \<le> length (bvalues k) \<and> length (bvalues k) \<le> maxValues d \<and> btree_shape d depth k)"

definition sized :: "nat \<Rightarrow> nat \<Rightarrow> 'a BTreeNode \<Rightarrow> bool" where
  "sized d depth k \<longleftrightarrow> minValues d \<le> length (bvalues k) \<and> length (bvalues k) \<le> maxValues d \<and> btree_shape d depth k"

definition before :: "'a BTreeNode list \<Rightarrow> 'a list \<Rightarrow> 'a list" where
  "before as us = concat (map2 (\<lambda>a u. walk_values a @ [u]) as us)"

definition after :: "'a list \<Rightarrow> 'a BTreeNode list \<Rightarrow> 'a list" where
  "after vs bs = concat (map2 (\<lambda>v b. v # walk_values b) vs bs)"

lemma before_simps [simp]:
  "before [] us = []" "before (a # as) (u # us) = walk_values a @ u # before as us"
  "length as = length us \<Longrightarrow> before (as @ [a]) (us @ [u]) = before as us @ walk_values a @ [u]"
  by (simp_all add: before_def)

lemma after_simps [simp]: "after [] bs = []" "after (v # vs) (b # bs) = v # walk_values b @ after vs bs"
  by (simp_all add: after_def)

lemma weave_after: "length vs = length bs \<Longrightarrow> weave (map walk_values (k # bs)) vs = walk_values k @ after vs bs"
  by (induction vs bs arbitrary: k rule: list_induct2) auto

lemma walk_around:
  assumes "length us = length as" "length vs = length bs"
  shows "walk_values (BNode (us @ vs) (as @ k # bs)) = before as us @ walk_values k @ after vs bs"
  using assms(1) weave_after [OF assms(2), of k]
  by (induction us as rule: list_induct2) auto

lemma walk_leaf [simp]: "bchildren n = [] \<Longrightarrow> walk_values n = bvalues n"
  by (cases n) simp

lemma walk_join:
  assumes "length lk = Suc (length lv) \<and> length rk = Suc (length rv) \<or> lk = [] \<and> rk = []"
  shows "walk_values (BNode (lv @ v # rv) (lk @ rk)) = walk_values (BNode lv lk) @ v # walk_values (BNode rv rk)"
proof (cases "lk = []")
  case False
  then have len: "length lk = Suc (length lv)" "length rk = Suc (length rv)" using assms by auto
  obtain as l where l: "lk = as @ [l]" using False by (cases lk rule: rev_cases) auto
  obtain r bs where r: "rk = r # bs" using len(2) by (cases rk) auto
  have "walk_values (BNode (lv @ v # rv) (as @ l # r # bs)) = before as lv @ walk_values l @ after (v # rv) (r # bs)"
    using len l r by (intro walk_around) auto
  moreover have "walk_values (BNode (lv @ []) (as @ l # [])) = before as lv @ walk_values l @ after [] []"
    using len l by (intro walk_around) auto
  moreover have "walk_values (BNode ([] @ rv) ([] @ r # bs)) = before [] [] @ walk_values r @ after rv bs"
    using len r by (intro walk_around) auto
  ultimately show ?thesis using l r by simp
qed (use assms in auto)

text \<open>A node of positive height, split at an index.\<close>

lemma split_node:
  assumes "btree_shape d (Suc depth) n" "i \<le> length (bvalues n)"
  obtains us vs as k bs where "n = BNode (us @ vs) (as @ k # bs)" "length us = length as" "length vs = length bs" "length as = i"
    "bchildren n ! i = k" "us = take i (bvalues n)" "vs = drop i (bvalues n)"
proof (rule that)
  have len: "length (bchildren n) = Suc (length (bvalues n))" using assms(1) by simp
  show "n = BNode (take i (bvalues n) @ drop i (bvalues n)) (take i (bchildren n) @ bchildren n ! i # drop (Suc i) (bchildren n))"
    using len assms(2) by (cases n) (simp add: id_take_nth_drop [symmetric])
qed (use assms in auto)

lemma shape_around:
  "length us = length as \<Longrightarrow> length vs = length bs \<Longrightarrow> btree_shape d (Suc depth) (BNode (us @ vs) (as @ k # bs)) \<longleftrightarrow>
   (\<forall>a \<in> set as. sized d depth a) \<and> sized d depth k \<and> (\<forall>b \<in> set bs. sized d depth b)"
  by (auto simp: sized_def)

lemma shape_leaf: "btree_shape d depth n \<Longrightarrow> isLeaf n \<longleftrightarrow> depth = 0"
  by (cases depth) (auto simp: isLeaf_def)

lemma slot_simps [simp]:
  "length as = i \<Longrightarrow> at (as @ k # bs) i = Some k" "length as = i \<Longrightarrow> (as @ k # bs) ! i = k"
  "length as = i \<Longrightarrow> (as @ k # bs)[i := x] = as @ x # bs" "length as = i \<Longrightarrow> insert_at i x (as @ bs) = as @ x # bs"
  "length as = i \<Longrightarrow> insert_at (Suc i) x (as @ k # bs) = as @ k # x # bs" "length as = i \<Longrightarrow> delete_at i (as @ k # bs) = as @ bs"
  "length as = i \<Longrightarrow> at (as @ k # l # bs) (Suc i) = Some l" "length as = i \<Longrightarrow> (as @ k # l # bs)[Suc i := x] = as @ k # x # bs"
  "length as = i \<Longrightarrow> (as @ k # l # bs) ! Suc i = l" "length as = i \<Longrightarrow> delete_at (Suc i) (as @ k # l # bs) = as @ k # bs"
  by (auto simp: at_def insert_at_def delete_at_def nth_append list_update_append)

context total_comparator
begin

abbreviation ordered :: "'a list \<Rightarrow> bool" where
  "ordered xs \<equiv> sorted_wrt (\<lambda>a b. compare a b < 0) xs"

lemma ordered_distinct: "ordered xs \<Longrightarrow> distinct xs"
  by (induction xs) auto

definition found_at :: "'a \<Rightarrow> 'a list \<Rightarrow> nat \<times> bool \<Rightarrow> bool" where
  "found_at v vs r \<longleftrightarrow> (case r of (i, found) \<Rightarrow>
     if found then i < length vs \<and> vs ! i = v
     else i \<le> length vs \<and> (\<forall>j < i. compare (vs ! j) v < 0) \<and> (\<forall>j. i \<le> j \<longrightarrow> j < length vs \<longrightarrow> compare v (vs ! j) < 0))"

lemma find_between_spec:
  assumes "ordered vs"
  shows "lo \<le> hi \<Longrightarrow> hi \<le> length vs \<Longrightarrow> (\<And>j. j < lo \<Longrightarrow> compare (vs ! j) v < 0) \<Longrightarrow>
    (\<And>j. hi \<le> j \<Longrightarrow> j < length vs \<Longrightarrow> compare v (vs ! j) < 0) \<Longrightarrow> found_at v vs (find_between compare v vs lo hi)"
proof (induction "hi - lo" arbitrary: lo hi rule: less_induct)
  case less
  show ?case
  proof (cases "lo < hi")
    case True
    let ?mid = "(lo + hi) div 2"
    have mid: "lo \<le> ?mid" "?mid < hi" using True by auto
    have up: "compare (vs ! j) (vs ! ?mid) < 0" if "j < ?mid" for j
      using assms that mid less.prems(2) by (simp add: sorted_wrt_iff_nth_less)
    have down: "compare (vs ! ?mid) (vs ! j) < 0" if "?mid < j" "j < length vs" for j
      using assms that by (simp add: sorted_wrt_iff_nth_less)
    consider "compare v (vs ! ?mid) = 0" | "compare v (vs ! ?mid) < 0" | "compare v (vs ! ?mid) > 0" by linarith
    then show ?thesis
    proof cases
      case 1
      then have "find_between compare v vs lo hi = (?mid, True)" using True by (simp add: find_between.simps [of compare v vs lo hi])
      then show ?thesis using True mid less.prems(2) zero_eq [OF 1] by (simp add: found_at_def)
    next
      case 2
      have "found_at v vs (find_between compare v vs lo ?mid)"
      proof (rule less.hyps)
        show "compare v (vs ! j) < 0" if "?mid \<le> j" "j < length vs" for j
          using that down [of j] 2 less_trans by (cases "j = ?mid") auto
      qed (use True mid less.prems in auto)
      then show ?thesis using True 2 by (simp add: find_between.simps [of compare v vs lo hi] Let_def)
    next
      case 3
      then have below: "compare (vs ! ?mid) v < 0" by (simp add: pos_iff)
      have "found_at v vs (find_between compare v vs (?mid + 1) hi)"
      proof (rule less.hyps)
        show "compare (vs ! j) v < 0" if "j < ?mid + 1" for j
          using that up [of j] below less_trans by (cases "j = ?mid") auto
      qed (use True mid less.prems in auto)
      then show ?thesis using True 3 by (simp add: find_between.simps [of compare v vs lo hi] Let_def)
    qed
  next
    case False
    then have "find_between compare v vs lo hi = (lo, False)" by (simp add: find_between.simps [of compare v vs lo hi])
    then show ?thesis using False less.prems by (simp add: found_at_def)
  qed
qed

lemma node_find_spec: "ordered (bvalues n) \<Longrightarrow> found_at v (bvalues n) (node_find compare n v)"
  unfolding node_find_def by (rule find_between_spec) auto

lemma after_ordered: "length vs = length bs \<Longrightarrow> ordered (after vs bs) \<Longrightarrow> set vs \<subseteq> set (after vs bs) \<and> ordered vs"
  by (induction vs bs rule: list_induct2) (auto simp: sorted_wrt_append)

lemma ordered_values:
  assumes "btree_shape d depth n" "ordered (walk_values n)"
  shows "ordered (bvalues n)"
proof (cases depth)
  case 0
  then show ?thesis using assms by simp
next
  case (Suc depth')
  obtain us vs as k bs where n: "n = BNode (us @ vs) (as @ k # bs)" "length us = length as" "length vs = length bs" "length as = 0"
    using split_node [of d depth' n 0] assms(1) Suc by (metis le0)
  then have "walk_values n = walk_values k @ after vs bs" using walk_around [of us as vs bs k] by simp
  then show ?thesis using after_ordered [OF n(3)] assms(2) n by (simp add: sorted_wrt_append)
qed

text \<open>What \<open>find\<close> says about a leaf and about a node.\<close>

lemma leaf_find:
  assumes "ordered vs" "found_at v vs (i, found)"
  shows "found \<longleftrightarrow> v \<in> set vs"
    "found \<Longrightarrow> delete_at i vs = filter (\<lambda>x. x \<noteq> v) vs"
    "\<not> found \<Longrightarrow> ordered (insert_at i v vs) \<and> set (insert_at i v vs) = insert v (set vs) \<and> length (insert_at i v vs) = Suc (length vs)"
proof -
  have absent: "v \<notin> set vs" if "\<not> found"
  proof
    assume "v \<in> set vs"
    then obtain j where "j < length vs" "vs ! j = v" by (auto simp: in_set_conv_nth)
    moreover have "compare (vs ! j) v < 0 \<or> compare v (vs ! j) < 0" using assms(2) that \<open>j < length vs\<close>
      by (cases "j < i") (auto simp: found_at_def)
    ultimately show False by simp
  qed
  then show "found \<longleftrightarrow> v \<in> set vs" using assms(2) by (auto simp: found_at_def)
  show "delete_at i vs = filter (\<lambda>x. x \<noteq> v) vs" if found
  proof -
    have i: "i < length vs" "vs ! i = v" using assms(2) that by (auto simp: found_at_def)
    have vs: "vs = take i vs @ v # drop (Suc i) vs" using id_take_nth_drop [OF i(1)] i(2) by simp
    have "distinct (take i vs @ v # drop (Suc i) vs)" using ordered_distinct [OF assms(1)] vs by simp
    then have "filter (\<lambda>x. x \<noteq> v) (take i vs) = take i vs" "filter (\<lambda>x. x \<noteq> v) (drop (Suc i) vs) = drop (Suc i) vs"
      by (auto simp: filter_id_conv)
    then have "filter (\<lambda>x. x \<noteq> v) (take i vs @ v # drop (Suc i) vs) = take i vs @ drop (Suc i) vs" by simp
    then show ?thesis using vs by (simp add: delete_at_def)
  qed
  assume "\<not> found"
  then have f: "i \<le> length vs" "\<forall>u \<in> set (take i vs). compare u v < 0" "\<forall>u \<in> set (drop i vs). compare v u < 0"
    using assms(2) by (auto simp: found_at_def in_set_conv_nth)
  have "ordered (take i vs @ drop i vs)" using assms(1) by simp
  then have "ordered (insert_at i v vs)" using f less_trans unfolding insert_at_def sorted_wrt_append by fastforce
  moreover have "set (insert_at i v vs) = insert v (set vs)"
    unfolding insert_at_def by (metis Un_insert_right append_take_drop_id list.simps(15) set_append)
  ultimately show "ordered (insert_at i v vs) \<and> set (insert_at i v vs) = insert v (set vs) \<and> length (insert_at i v vs) = Suc (length vs)"
    using f(1) by (simp add: insert_at_def)
qed

lemma before_less:
  "length as = length us \<Longrightarrow> ordered (before as us) \<Longrightarrow> \<forall>u \<in> set us. compare u v < 0 \<Longrightarrow> x \<in> set (before as us) \<Longrightarrow> compare x v < 0"
  by (induction as us rule: list_induct2) (auto simp: sorted_wrt_append intro: less_trans)

lemma after_greater:
  "length vs = length bs \<Longrightarrow> ordered (after vs bs) \<Longrightarrow> \<forall>u \<in> set vs. compare v u < 0 \<Longrightarrow> x \<in> set (after vs bs) \<Longrightarrow> compare v x < 0"
  by (induction vs bs rule: list_induct2) (auto simp: sorted_wrt_append intro: less_trans)

lemma descend:
  assumes shape: "btree_shape d (Suc depth) n" and ord: "ordered (walk_values n)" and find: "node_find compare n v = (i, False)"
  obtains us vs as k bs where "n = BNode (us @ vs) (as @ k # bs)" "length us = length as" "length vs = length bs" "length as = i"
    "walk_values n = before as us @ walk_values k @ after vs bs" "sized d depth k"
    "\<forall>x \<in> set (before as us). compare x v < 0" "\<forall>x \<in> set (after vs bs). compare v x < 0"
    "\<forall>a \<in> set as \<union> set bs. sized d depth a"
proof -
  have f: "i \<le> length (bvalues n)" "\<forall>j < i. compare (bvalues n ! j) v < 0" "\<forall>j. i \<le> j \<longrightarrow> j < length (bvalues n) \<longrightarrow> compare v (bvalues n ! j) < 0"
    using node_find_spec [OF ordered_values [OF shape ord], of v] find by (auto simp: found_at_def)
  obtain us vs as k bs where n: "n = BNode (us @ vs) (as @ k # bs)" "length us = length as" "length vs = length bs" "length as = i"
    "us = take i (bvalues n)" "vs = drop i (bvalues n)"
    by (rule split_node [OF shape f(1)]) (rule that)
  have walk: "walk_values n = before as us @ walk_values k @ after vs bs" unfolding n(1) by (rule walk_around [OF n(2,3)])
  have parts: "ordered (before as us)" "ordered (after vs bs)" using ord unfolding walk by (auto simp: sorted_wrt_append)
  have "\<forall>u \<in> set us. compare u v < 0" "\<forall>u \<in> set vs. compare v u < 0"
    using f unfolding n(5,6) by (auto simp: in_set_conv_nth)
  then have "\<forall>x \<in> set (before as us). compare x v < 0" "\<forall>x \<in> set (after vs bs). compare v x < 0"
    using before_less [OF n(2) [symmetric] parts(1)] after_greater [OF n(3) parts(2)] by blast+
  moreover have "sized d depth k" "\<forall>a \<in> set as \<union> set bs. sized d depth a"
    using shape shape_around [OF n(2,3), of d depth k] n(1) by auto
  ultimately show ?thesis using that n walk by blast
qed

text \<open>A value found in an inner node stands between two children.\<close>

lemma found_inside:
  assumes shape: "btree_shape d (Suc depth) n" and ord: "ordered (walk_values n)" and find: "node_find compare n v = (i, True)"
  obtains us vs as l r bs where "n = BNode (us @ v # vs) (as @ l # r # bs)" "length us = length as" "length vs = length bs" "length as = i"
    "walk_values n = before as us @ walk_values l @ v # walk_values r @ after vs bs" "\<forall>a \<in> set as \<union> set bs \<union> {l, r}. sized d depth a"
proof -
  have f: "i < length (bvalues n)" "bvalues n ! i = v"
    using node_find_spec [OF ordered_values [OF shape ord], of v] find by (auto simp: found_at_def)
  obtain us ws as l cs where n: "n = BNode (us @ ws) (as @ l # cs)" "length us = length as" "length ws = length cs" "length as = i"
    "ws = drop i (bvalues n)"
    by (rule split_node [OF shape less_imp_le [OF f(1)]]) (rule that)
  obtain vs where ws: "ws = v # vs" using n(5) f by (metis Cons_nth_drop_Suc)
  obtain r bs where cs: "cs = r # bs" using n(3) ws by (cases cs) auto
  have "walk_values n = before as us @ walk_values l @ after (v # vs) (r # bs)" unfolding n(1) ws cs using n(2,3) ws cs by (intro walk_around) auto
  moreover have "\<forall>a \<in> set as \<union> set bs \<union> {l, r}. sized d depth a"
    using shape shape_around [OF n(2,3), of d depth l] n(1) cs by auto
  ultimately show ?thesis using n(1-4) ws cs by (intro that [of us vs as l r bs]) auto
qed

section \<open>Find, greatest and least\<close>

lemma less_self: "\<not> compare v v < 0"
  by simp

lemma find_from_spec:
  "btree_shape d depth n \<Longrightarrow> ordered (walk_values n) \<Longrightarrow> find_from compare n v = (if v \<in> set (walk_values n) then Some v else None)"
proof (induction depth arbitrary: n)
  case 0
  obtain i found where f: "node_find compare n v = (i, found)" by fastforce
  have found: "found_at v (bvalues n) (i, found)" using node_find_spec [OF ordered_values [OF 0], of v] f by simp
  show ?case using 0 leaf_find(1) [OF ordered_values [OF 0] found] found f
    by (auto simp: find_from.simps [of compare n v] isLeaf_def found_at_def)
next
  case (Suc depth)
  obtain i found where f: "node_find compare n v = (i, found)" by fastforce
  show ?case
  proof (cases found)
    case True
    have "found_at v (bvalues n) (i, found)" using node_find_spec [OF ordered_values [OF Suc.prems], of v] f by simp
    moreover obtain us vs as l r bs where "walk_values n = before as us @ walk_values l @ v # walk_values r @ after vs bs"
      using found_inside [OF Suc.prems] f True by metis
    ultimately show ?thesis using f True by (simp add: find_from.simps [of compare n v] found_at_def)
  next
    case False
    then obtain us vs as k bs where n: "n = BNode (us @ vs) (as @ k # bs)" "length us = length as" "length vs = length bs" "length as = i"
      "walk_values n = before as us @ walk_values k @ after vs bs" "sized d depth k"
      "\<forall>x \<in> set (before as us). compare x v < 0" "\<forall>x \<in> set (after vs bs). compare v x < 0"
      using descend [OF Suc.prems] f by metis
    have "find_from compare n v = find_from compare k v"
      using f False unfolding n(1) n(4) [symmetric] by (simp add: find_from.simps [of compare "BNode (us @ vs) (as @ k # bs)" v] isLeaf_def)
    also have "\<dots> = (if v \<in> set (walk_values k) then Some v else None)"
      using Suc.IH [of k] n(5,6) Suc.prems(2) by (simp add: sized_def sorted_wrt_append)
    moreover have "v \<in> set (walk_values n) \<longleftrightarrow> v \<in> set (walk_values k)" using n(5,7,8) less_self by auto
    ultimately show ?thesis by simp
  qed
qed

lemma ends:
  "btree_shape d depth n \<Longrightarrow> 2 \<le> d \<Longrightarrow> bvalues n \<noteq> [] \<Longrightarrow>
   walk_values n \<noteq> [] \<and> bt_max n = Some (last (walk_values n)) \<and> bt_min n = Some (hd (walk_values n))"
proof (induction depth arbitrary: n)
  case 0
  then show ?case by (simp add: bt_max.simps [of n] bt_min.simps [of n] isLeaf_def)
next
  case (Suc depth)
  have inner: "bvalues k \<noteq> []" if "sized d depth k" for k using that Suc.prems(2) by (auto simp: sized_def minValues_def)
  obtain us vs as k bs where n: "n = BNode (us @ vs) (as @ k # bs)" "length us = length as" "length vs = length bs" "length as = length (bvalues n)"
    by (rule split_node [OF Suc.prems(1) order_refl]) (rule that)
  have "length (bvalues n) = length us + length vs" by (subst n(1)) simp
  then have stop: "vs = []" "bs = []" using n(2-4) by auto
  have k: "sized d depth k" using Suc.prems(1) shape_around [OF n(2,3), of d depth k] n(1) by simp
  have walk_k: "walk_values n = before as us @ walk_values k" using walk_around [OF n(2,3), of k] n(1) stop by simp
  obtain us' vs' as' l bs' where m: "n = BNode (us' @ vs') (as' @ l # bs')" "length us' = length as'" "length vs' = length bs'" "length as' = 0"
    by (rule split_node [OF Suc.prems(1) le0]) (rule that)
  have l: "sized d depth l" using Suc.prems(1) shape_around [OF m(2,3), of d depth l] m(1) by simp
  have walk_l: "walk_values n = walk_values l @ after vs' bs'" using walk_around [OF m(2,3), of l] m(1,2,4) by simp
  have "bt_max n = bt_max k" by (subst bt_max.simps) (simp add: n(1) stop isLeaf_def)
  moreover have "bt_min n = bt_min l" by (subst bt_min.simps) (use m(4) in \<open>simp add: m(1) isLeaf_def\<close>)
  moreover have "walk_values k \<noteq> []" "bt_max k = Some (last (walk_values k))"
    using Suc.IH [of k] k inner [OF k] Suc.prems(2) by (auto simp: sized_def)
  moreover have "walk_values l \<noteq> []" "bt_min l = Some (hd (walk_values l))"
    using Suc.IH [of l] l inner [OF l] Suc.prems(2) by (auto simp: sized_def)
  moreover have "last (walk_values n) = last (walk_values k)" using walk_k \<open>walk_values k \<noteq> []\<close> by simp
  moreover have "hd (walk_values n) = hd (walk_values l)" using walk_l \<open>walk_values l \<noteq> []\<close> by simp
  moreover have "walk_values n \<noteq> []" using walk_k \<open>walk_values k \<noteq> []\<close> by simp
  ultimately show ?case by simp
qed

section \<open>Insert\<close>

lemma split_child:
  assumes "2 \<le> d" "btree_shape d depth k" "length (bvalues k) = maxValues d" "length us = length as" "length vs = length bs" "length as = i"
  obtains mid kl kr where "splitChild d (BNode (us @ vs) (as @ k # bs)) i = Some (BNode (us @ mid # vs) (as @ kl # kr # bs))"
    "sized d depth kl" "sized d depth kr" "length (bvalues kl) = minValues d" "length (bvalues kr) = minValues d"
    "walk_values k = walk_values kl @ mid # walk_values kr"
proof -
  let ?kl = "BNode (take (d - 1) (bvalues k)) (take d (bchildren k))" and ?kr = "BNode (drop d (bvalues k)) (drop d (bchildren k))"
  let ?mid = "bvalues k ! (d - 1)"
  have len: "length (bvalues k) = 2 * d - 1" "d - 1 < length (bvalues k)" using assms(1,3) by (auto simp: maxValues_def)
  have vals: "bvalues k = take (d - 1) (bvalues k) @ ?mid # drop d (bvalues k)"
    using id_take_nth_drop [OF len(2)] assms(1) by simp
  have "btree_shape d depth ?kl \<and> btree_shape d depth ?kr \<and>
    (length (take d (bchildren k)) = Suc (length (take (d - 1) (bvalues k))) \<and> length (drop d (bchildren k)) = Suc (length (drop d (bvalues k))) \<or>
     take d (bchildren k) = [] \<and> drop d (bchildren k) = [])"
    using assms(1,2) len by (cases depth) (auto dest: in_set_takeD in_set_dropD)
  then have parts: "sized d depth ?kl" "sized d depth ?kr" "walk_values (BNode (take (d - 1) (bvalues k) @ ?mid # drop d (bvalues k)) (take d (bchildren k) @ drop d (bchildren k))) = walk_values ?kl @ ?mid # walk_values ?kr"
    using len assms(1) walk_join [of "take d (bchildren k)" "take (d - 1) (bvalues k)" "drop d (bchildren k)" "drop d (bvalues k)" ?mid]
    by (auto simp: sized_def minValues_def maxValues_def)
  have same: "BNode (take (d - 1) (bvalues k) @ ?mid # drop d (bvalues k)) (take d (bchildren k) @ drop d (bchildren k)) = k"
    using vals by (cases k) simp
  have walk: "walk_values k = walk_values ?kl @ ?mid # walk_values ?kr" using parts(3) unfolding same .
  have "splitChild d (BNode (us @ vs) (as @ k # bs)) i = Some (BNode (us @ ?mid # vs) (as @ ?kl # ?kr # bs))"
    using assms(4-6) len(2) at_def [of "bvalues k" "d - 1"] by (simp add: splitChild_def isLeaf_def Let_def)
  then show ?thesis using that parts(1,2) walk len assms(1) by (simp add: minValues_def)
qed

text \<open>What an insertion makes of a sorted list.\<close>

definition inserted :: "'a \<Rightarrow> 'a list \<Rightarrow> bool \<Rightarrow> 'a list \<Rightarrow> bool" where
  "inserted v xs dup ys \<longleftrightarrow> (dup \<longleftrightarrow> v \<in> set xs) \<and> (if dup then ys = xs else ordered ys \<and> set ys = insert v (set xs) \<and> length ys = Suc (length xs))"

lemma inserted_around:
  assumes "ordered (xs @ ks @ ys)" "\<forall>x \<in> set xs. compare x v < 0" "\<forall>y \<in> set ys. compare v y < 0" "inserted v ks dup ks'"
  shows "inserted v (xs @ ks @ ys) dup (xs @ ks' @ ys)"
proof -
  have "v \<notin> set xs" "v \<notin> set ys" using assms(2,3) less_self by auto
  moreover have "ordered (xs @ ks' @ ys)" if "\<not> dup"
  proof -
    have "ordered ks'" "set ks' = insert v (set ks)" using assms(4) that by (auto simp: inserted_def)
    then show ?thesis using assms(1-3) by (auto simp: sorted_wrt_append)
  qed
  ultimately show ?thesis using assms(4) by (auto simp: inserted_def)
qed

lemma insert_result:
  assumes "length us = length as" "length vs = length bs" "\<forall>a \<in> set as \<union> set bs. sized d depth a"
    "ordered (before as us @ walk_values k @ after vs bs)" "\<forall>x \<in> set (before as us). compare x v < 0" "\<forall>x \<in> set (after vs bs). compare v x < 0"
    "btree_shape d depth k'" "minValues d \<le> length (bvalues k')" "length (bvalues k') \<le> maxValues d" "inserted v (walk_values k) dup (walk_values k')"
  shows "btree_shape d (Suc depth) (BNode (us @ vs) (as @ k' # bs))"
    "inserted v (before as us @ walk_values k @ after vs bs) dup (walk_values (BNode (us @ vs) (as @ k' # bs)))"
proof -
  have "sized d depth k'" using assms(7-9) by (simp add: sized_def)
  then show "btree_shape d (Suc depth) (BNode (us @ vs) (as @ k' # bs))"
    unfolding shape_around [OF assms(1,2)] using assms(3) by auto
  show "inserted v (before as us @ walk_values k @ after vs bs) dup (walk_values (BNode (us @ vs) (as @ k' # bs)))"
    unfolding walk_around [OF assms(1,2)] by (rule inserted_around [OF assms(4-6,10)])
qed

lemma insertNonFull_spec:
  "btree_shape d depth n \<Longrightarrow> 2 \<le> d \<Longrightarrow> ordered (walk_values n) \<Longrightarrow> length (bvalues n) < maxValues d \<Longrightarrow>
   \<exists>dup n'. insertNonFull compare d n v = Some (dup, n') \<and> btree_shape d depth n' \<and> inserted v (walk_values n) dup (walk_values n') \<and>
     length (bvalues n) \<le> length (bvalues n') \<and> length (bvalues n') \<le> maxValues d"
proof (induction depth arbitrary: n)
  case 0
  obtain i found where f: "node_find compare n v = (i, found)" by fastforce
  have "found_at v (bvalues n) (i, found)" using node_find_spec [OF ordered_values [OF 0(1,3)], of v] f by simp
  note leaf = leaf_find [OF ordered_values [OF 0(1,3)] this]
  show ?case
  proof (cases found)
    case True
    then show ?thesis using 0 leaf(1) f by (auto simp: insertNonFull.simps [of compare d n v] inserted_def)
  next
    case False
    then show ?thesis using 0 leaf(1,3) f by (auto simp: insertNonFull.simps [of compare d n v] inserted_def isLeaf_def insert_at_def)
  qed
next
  case (Suc depth)
  obtain i found where f: "node_find compare n v = (i, found)" by fastforce
  show ?case
  proof (cases found)
    case True
    then obtain us vs as l r bs where "walk_values n = before as us @ walk_values l @ v # walk_values r @ after vs bs"
      using found_inside [OF Suc.prems(1,3)] f by metis
    then show ?thesis using True f Suc.prems by (auto simp: insertNonFull.simps [of compare d n v] inserted_def)
  next
    case False
    then obtain us vs as k bs where n: "n = BNode (us @ vs) (as @ k # bs)" "length us = length as" "length vs = length bs" "length as = i"
      "walk_values n = before as us @ walk_values k @ after vs bs" "sized d depth k"
      "\<forall>x \<in> set (before as us). compare x v < 0" "\<forall>x \<in> set (after vs bs). compare v x < 0" "\<forall>a \<in> set as \<union> set bs. sized d depth a"
      using descend [OF Suc.prems(1,3)] f by metis
    have ord: "ordered (before as us @ walk_values k @ after vs bs)" using Suc.prems(3) n(5) by simp
    have room: "Suc (length us + length vs) \<le> maxValues d" using Suc.prems(4) n(1) by simp
    have unfolded: "insertNonFull compare d n v = (if length (bvalues k) = maxValues d
        then (case splitChild d n i of None \<Rightarrow> None | Some m \<Rightarrow> (case at (bvalues m) i of None \<Rightarrow> None | Some mid \<Rightarrow>
          if compare v mid = 0 then Some (True, m)
          else let j = (if compare v mid > 0 then i + 1 else i) in (case at (bchildren m) j of None \<Rightarrow> None | Some t \<Rightarrow>
            (case insertNonFull compare d t v of None \<Rightarrow> None | Some (dup, t') \<Rightarrow> Some (dup, BNode (bvalues m) ((bchildren m)[j := t']))))))
        else (case insertNonFull compare d k v of None \<Rightarrow> None | Some (dup, k') \<Rightarrow> Some (dup, BNode (us @ vs) (as @ k' # bs))))"
      using f False unfolding n(1) n(4) [symmetric]
      by (subst insertNonFull.simps) (auto simp: isLeaf_def Let_def split: option.splits prod.splits)
    show ?thesis
    proof (cases "length (bvalues k) = maxValues d")
      case full: True
      obtain mid kl kr where s: "splitChild d n i = Some (BNode (us @ mid # vs) (as @ kl # kr # bs))" "sized d depth kl" "sized d depth kr"
        "length (bvalues kl) = minValues d" "length (bvalues kr) = minValues d" "walk_values k = walk_values kl @ mid # walk_values kr"
        using split_child [OF Suc.prems(2) _ full n(2-4)] n(1,6) by (metis sized_def)
      have small: "minValues d < maxValues d" using Suc.prems(2) by (simp add: minValues_def maxValues_def)
      let ?m = "BNode (us @ mid # vs) (as @ kl # kr # bs)"
      have shape_m: "btree_shape d (Suc depth) ?m"
        using shape_around [of us as "mid # vs" "kr # bs" d depth kl] n(2,3,9) s(2,3) by auto
      have walk_m: "walk_values ?m = walk_values n" using walk_around [of us as "mid # vs" "kr # bs" kl] n(2,3,5) s(6) by simp
      have mid: "at (us @ mid # vs) i = Some mid" using n(2,4) by simp
      have all: "ordered (before as us @ walk_values kl @ after (mid # vs) (kr # bs))" using ord s(6) by simp
      consider "v = mid" | "compare v mid < 0" | "compare mid v < 0" using zero_eq pos_iff by (metis linorder_neqE_linordered_idom)
      then show ?thesis
      proof cases
        case 1
        then have "insertNonFull compare d n v = Some (True, ?m)" using unfolded full s(1) mid by simp
        moreover have "v \<in> set (walk_values n)" using n(5) s(6) 1 by simp
        ultimately show ?thesis using shape_m walk_m room n(1) by (auto simp: inserted_def)
      next
        case 2
        have "ordered (walk_values kl)" using all by (simp add: sorted_wrt_append)
        then obtain dup k' where k': "insertNonFull compare d kl v = Some (dup, k')" "btree_shape d depth k'" "inserted v (walk_values kl) dup (walk_values k')"
          "length (bvalues kl) \<le> length (bvalues k')" "length (bvalues k') \<le> maxValues d"
          using Suc.IH [of kl] s(2,4) small Suc.prems(2) by (auto simp: sized_def)
        have after: "\<forall>x \<in> set (after (mid # vs) (kr # bs)). compare v x < 0"
          using 2 n(8) less_trans [OF 2] all by (auto simp: sorted_wrt_append)
        note r = insert_result [of us as "mid # vs" "kr # bs" d depth kl v k' dup, OF n(2) _ _ all n(7) after k'(2) _ k'(5,3)]
        have "insertNonFull compare d n v = Some (dup, BNode (us @ mid # vs) (as @ k' # kr # bs))"
          using unfolded full s(1) mid 2 k'(1) n(4) by (simp add: Let_def)
        then show ?thesis using r n(3,9) s(2-4,6) k'(4) room n(1,5) by auto
      next
        case 3
        have "ordered (walk_values kr)" using all by (simp add: sorted_wrt_append)
        then obtain dup k' where k': "insertNonFull compare d kr v = Some (dup, k')" "btree_shape d depth k'" "inserted v (walk_values kr) dup (walk_values k')"
          "length (bvalues kr) \<le> length (bvalues k')" "length (bvalues k') \<le> maxValues d"
          using Suc.IH [of kr] s(3,5) small Suc.prems(2) by (auto simp: sized_def)
        have lens: "length (us @ [mid]) = length (as @ [kl])" using n(2) by simp
        have all': "ordered (before (as @ [kl]) (us @ [mid]) @ walk_values kr @ after vs bs)" using all n(2) by simp
        have before: "\<forall>x \<in> set (before (as @ [kl]) (us @ [mid])). compare x v < 0"
          using 3 n(2,7) less_trans [OF _ 3] all by (auto simp: sorted_wrt_append)
        note r = insert_result [of "us @ [mid]" "as @ [kl]" vs bs d depth kr v k' dup, OF lens n(3) _ all' before n(8) k'(2) _ k'(5,3)]
        have pos: "\<not> compare v mid = 0" "0 < compare v mid" using 3 less_asym [OF 3] pos_iff [of v mid] by (auto simp: zero_sym)
        have "insertNonFull compare d n v = Some (dup, BNode (us @ mid # vs) ((as @ kl # kr # bs)[i + 1 := k']))"
          using unfolded full s(1) mid pos k'(1) n(4) by (simp add: Let_def)
        moreover have "(as @ kl # kr # bs)[i + 1 := k'] = as @ kl # k' # bs" using n(4) by simp
        ultimately show ?thesis using r n(2,9) s(2,3,5,6) k'(4) room n(1,5) by auto
      qed
    next
      case False
      have "ordered (walk_values k)" using ord by (simp add: sorted_wrt_append)
      then obtain dup k' where k': "insertNonFull compare d k v = Some (dup, k')" "btree_shape d depth k'" "inserted v (walk_values k) dup (walk_values k')"
        "length (bvalues k) \<le> length (bvalues k')" "length (bvalues k') \<le> maxValues d"
        using Suc.IH [of k] n(6) False Suc.prems(2) by (auto simp: sized_def)
      have "minValues d \<le> length (bvalues k')" using n(6) k'(4) by (simp add: sized_def)
      note r = insert_result [OF n(2,3,9) ord n(7,8) k'(2) this k'(5,3)]
      show ?thesis using unfolded False k'(1) r n(5) room n(1) by auto
    qed
  qed
qed

end

section \<open>Rebalancing\<close>

lemma joinable: "sized d depth l \<Longrightarrow> sized d depth k \<Longrightarrow>
    length (bchildren l) = Suc (length (bvalues l)) \<and> length (bchildren k) = Suc (length (bvalues k)) \<or> bchildren l = [] \<and> bchildren k = []"
  by (cases depth) (auto simp: sized_def)

lemma merged_node:
  assumes "2 \<le> d" "sized d depth l" "sized d depth k" "length (bvalues l) = minValues d" "length (bvalues k) = minValues d"
  shows "sized d depth (BNode (bvalues l @ u # bvalues k) (bchildren l @ bchildren k))"
    "walk_values (BNode (bvalues l @ u # bvalues k) (bchildren l @ bchildren k)) = walk_values l @ u # walk_values k"
    "minValues d < length (bvalues l @ u # bvalues k)"
proof -
  show "sized d depth (BNode (bvalues l @ u # bvalues k) (bchildren l @ bchildren k))"
    using assms by (cases depth) (auto simp: sized_def minValues_def maxValues_def)
  show "walk_values (BNode (bvalues l @ u # bvalues k) (bchildren l @ bchildren k)) = walk_values l @ u # walk_values k"
    using walk_join [OF joinable [OF assms(2,3)], of u] by (simp del: walk_values.simps)
qed (use assms in simp)

text \<open>The last child of the left sibling moves over, with everything below it.\<close>

lemma borrowed_left:
  fixes u :: 'a
  assumes "2 \<le> d" "sized d depth l" "sized d depth k" "minValues d < length (bvalues l)" "length (bvalues k) = minValues d"
  defines "l' \<equiv> BNode (butlast (bvalues l)) (if isLeaf l then bchildren l else butlast (bchildren l))"
    and "k' \<equiv> BNode (u # bvalues k) (if isLeaf l then bchildren k else last (bchildren l) # bchildren k)"
  shows "sized d depth l'" "sized d depth k'" "\<exists>W. walk_values l = walk_values l' @ last (bvalues l) # W \<and> walk_values k' = W @ u # walk_values k"
proof -
  have "sized d depth l' \<and> sized d depth k' \<and> (\<exists>W. walk_values l = walk_values l' @ last (bvalues l) # W \<and> walk_values k' = W @ u # walk_values k)"
  proof (cases depth)
    case 0
    then have "bchildren l = []" "bchildren k = []" using assms by (auto simp: sized_def)
    moreover have "bvalues l \<noteq> []" using assms(4) by auto
    ultimately show ?thesis using 0 assms by (auto simp: sized_def isLeaf_def minValues_def maxValues_def)
  next
    case (Suc depth')
    have kids: "length (bchildren l) = Suc (length (bvalues l))" "length (bchildren k) = Suc (length (bvalues k))"
      using assms(2,3) Suc by (auto simp: sized_def)
    obtain lk c where lk: "bchildren l = lk @ [c]" using kids(1) by (cases "bchildren l" rule: rev_cases) auto
    obtain lv x where lv: "bvalues l = lv @ [x]" using assms(4) by (cases "bvalues l" rule: rev_cases) auto
    have l: "l = BNode (lv @ x # []) (lk @ [c])" using lk lv by (cases l) simp
    have k: "k = BNode (bvalues k) (bchildren k)" by simp
    have parts: "l' = BNode lv lk" "k' = BNode ([] @ u # bvalues k) ([c] @ bchildren k)"
      using lk lv by (auto simp: l'_def k'_def isLeaf_def)
    have "walk_values l = walk_values l' @ x # walk_values (BNode [] [c])"
      unfolding parts by (subst l, rule walk_join) (use kids lk lv in simp)
    moreover have "walk_values k' = walk_values (BNode [] [c]) @ u # walk_values k"
      unfolding parts by (subst (2) k, rule walk_join) (use kids in simp)
    moreover have "sized d depth l'" "sized d depth k'"
      using assms(1-5) Suc lk lv kids by (auto simp: parts sized_def minValues_def maxValues_def)
    ultimately show ?thesis using lv by auto
  qed
  then show "sized d depth l'" "sized d depth k'" "\<exists>W. walk_values l = walk_values l' @ last (bvalues l) # W \<and> walk_values k' = W @ u # walk_values k"
    by blast+
qed

lemma borrowed_right:
  fixes w :: 'a
  assumes "2 \<le> d" "sized d depth r" "sized d depth k" "minValues d < length (bvalues r)" "length (bvalues k) = minValues d"
  defines "r' \<equiv> BNode (tl (bvalues r)) (if isLeaf r then bchildren r else tl (bchildren r))"
    and "k' \<equiv> BNode (bvalues k @ [w]) (if isLeaf r then bchildren k else bchildren k @ [hd (bchildren r)])"
  shows "sized d depth r'" "sized d depth k'" "\<exists>W. walk_values r = W @ hd (bvalues r) # walk_values r' \<and> walk_values k' = walk_values k @ w # W"
proof -
  have "sized d depth r' \<and> sized d depth k' \<and> (\<exists>W. walk_values r = W @ hd (bvalues r) # walk_values r' \<and> walk_values k' = walk_values k @ w # W)"
  proof (cases depth)
    case 0
    then have "bchildren r = []" "bchildren k = []" using assms by (auto simp: sized_def)
    moreover have "bvalues r \<noteq> []" using assms(4) by auto
    ultimately show ?thesis using 0 assms by (auto simp: sized_def isLeaf_def minValues_def maxValues_def)
  next
    case (Suc depth')
    have kids: "length (bchildren r) = Suc (length (bvalues r))" "length (bchildren k) = Suc (length (bvalues k))"
      using assms(2,3) Suc by (auto simp: sized_def)
    obtain rk c where rk: "bchildren r = c # rk" using kids(1) by (cases "bchildren r") auto
    obtain rv x where rv: "bvalues r = x # rv" using assms(4) by (cases "bvalues r") auto
    have r: "r = BNode ([] @ x # rv) ([c] @ rk)" using rk rv by (cases r) simp
    have k: "k = BNode (bvalues k) (bchildren k)" by simp
    have parts: "r' = BNode rv rk" "k' = BNode (bvalues k @ w # []) (bchildren k @ [c])"
      using rk rv by (auto simp: r'_def k'_def isLeaf_def)
    have "walk_values r = walk_values (BNode [] [c]) @ x # walk_values r'"
      unfolding parts by (subst r, rule walk_join) (use kids rk rv in simp)
    moreover have "walk_values k' = walk_values k @ w # walk_values (BNode [] [c])"
      unfolding parts by (subst (2) k, rule walk_join) (use kids in simp)
    moreover have "sized d depth r'" "sized d depth k'"
      using assms(1-5) Suc rk rv kids by (auto simp: parts sized_def minValues_def maxValues_def)
    ultimately show ?thesis using rv by auto
  qed
  then show "sized d depth r'" "sized d depth k'" "\<exists>W. walk_values r = W @ hd (bvalues r) # walk_values r' \<and> walk_values k' = walk_values k @ w # W"
    by blast+
qed

lemma fill_spec:
  assumes d: "2 \<le> d" and len: "length us = length as" "length vs = length bs" "length as = i"
    and sz: "\<forall>a \<in> set as \<union> set bs. sized d depth a" "sized d depth k" "length (bvalues k) = minValues d" and some: "us @ vs \<noteq> []"
  obtains us' vs' as' k' bs' a b where "fill d (BNode (us @ vs) (as @ k # bs)) i = Some (BNode (us' @ vs') (as' @ k' # bs'), length as')"
    "length us' = length as'" "length vs' = length bs'" "\<forall>c \<in> set as' \<union> set bs'. sized d depth c" "sized d depth k'" "minValues d < length (bvalues k')"
    "before as us = before as' us' @ a" "after vs bs = b @ after vs' bs'" "walk_values k' = a @ walk_values k @ b"
    "length (us' @ vs') \<le> length (us @ vs)" "length (us @ vs) \<le> Suc (length (us' @ vs'))"
proof -
  let ?n = "BNode (us @ vs) (as @ k # bs)"
  have left: "\<exists>as1 l us1 u. as = as1 @ [l] \<and> us = us1 @ [u] \<and> length as1 = length us1 \<and> i = Suc (length as1)" if "i > 0"
    using len that by (cases as rule: rev_cases; cases us rule: rev_cases) auto
  have right: "\<exists>r bs1 w vs1. bs = r # bs1 \<and> vs = w # vs1 \<and> length vs1 = length bs1" if "i + 1 < length (as @ k # bs)"
    using len that by (cases bs; cases vs) auto
  consider (left) "i > 0" "minValues d < length (bvalues ((as @ k # bs) ! (i - 1)))"
    | (right) "\<not> (i > 0 \<and> minValues d < length (bvalues ((as @ k # bs) ! (i - 1))))" "i + 1 < length (as @ k # bs)" "minValues d < length (bvalues ((as @ k # bs) ! (i + 1)))"
    | (merge) "\<not> (i > 0 \<and> minValues d < length (bvalues ((as @ k # bs) ! (i - 1))))" "i + 1 < length (as @ k # bs)" "\<not> minValues d < length (bvalues ((as @ k # bs) ! (i + 1)))"
    | (final) "\<not> (i > 0 \<and> minValues d < length (bvalues ((as @ k # bs) ! (i - 1))))" "\<not> i + 1 < length (as @ k # bs)"
    by blast
  then show ?thesis
  proof cases
    case left': left
    obtain as1 l us1 u where p: "as = as1 @ [l]" "us = us1 @ [u]" "length as1 = length us1" "i = Suc (length as1)" using left left'(1) by blast
    have l: "sized d depth l" "minValues d < length (bvalues l)" using sz(1) left'(2) p by auto
    obtain W where b: "sized d depth (BNode (butlast (bvalues l)) (if isLeaf l then bchildren l else butlast (bchildren l)))"
      "sized d depth (BNode (u # bvalues k) (if isLeaf l then bchildren k else last (bchildren l) # bchildren k))"
      "walk_values l = walk_values (BNode (butlast (bvalues l)) (if isLeaf l then bchildren l else butlast (bchildren l))) @ last (bvalues l) # W"
      "walk_values (BNode (u # bvalues k) (if isLeaf l then bchildren k else last (bchildren l) # bchildren k)) = W @ u # walk_values k"
      using borrowed_left(1) [OF d l(1) sz(2) l(2) sz(3)] borrowed_left(2,3) [OF d l(1) sz(2) l(2) sz(3), of u] by blast
    have up: "at (bvalues l) (length (bvalues l) - 1) = Some (last (bvalues l))" using l(2) by (cases "bvalues l" rule: rev_cases) (auto simp: at_def)
    show ?thesis
    proof (rule that)
      show "fill d ?n i = Some (BNode ((us1 @ [last (bvalues l)]) @ vs)
          ((as1 @ [BNode (butlast (bvalues l)) (if isLeaf l then bchildren l else butlast (bchildren l))]) @
            BNode (u # bvalues k) (if isLeaf l then bchildren k else last (bchildren l) # bchildren k) # bs), length (as1 @ [BNode (butlast (bvalues l)) (if isLeaf l then bchildren l else butlast (bchildren l))]))"
        using p l(2) up by (simp add: fill_def borrowFromLeft_def Let_def)
      show "before as us = before (as1 @ [BNode (butlast (bvalues l)) (if isLeaf l then bchildren l else butlast (bchildren l))]) (us1 @ [last (bvalues l)]) @ (W @ [u])"
        using p b(3) by (simp del: walk_values.simps)
      show "walk_values (BNode (u # bvalues k) (if isLeaf l then bchildren k else last (bchildren l) # bchildren k)) = (W @ [u]) @ walk_values k @ []"
        using b(4) by simp
    qed (use p b(1,2) sz len in auto)
  next
    case right': right
    obtain r bs1 w vs1 where p: "bs = r # bs1" "vs = w # vs1" "length vs1 = length bs1" using right right'(2) by blast
    have r: "sized d depth r" "minValues d < length (bvalues r)" using sz(1) right'(3) p len by auto
    obtain W where b: "sized d depth (BNode (tl (bvalues r)) (if isLeaf r then bchildren r else tl (bchildren r)))"
      "sized d depth (BNode (bvalues k @ [w]) (if isLeaf r then bchildren k else bchildren k @ [hd (bchildren r)]))"
      "walk_values r = W @ hd (bvalues r) # walk_values (BNode (tl (bvalues r)) (if isLeaf r then bchildren r else tl (bchildren r)))"
      "walk_values (BNode (bvalues k @ [w]) (if isLeaf r then bchildren k else bchildren k @ [hd (bchildren r)])) = walk_values k @ w # W"
      using borrowed_right(1) [OF d r(1) sz(2) r(2) sz(3)] borrowed_right(2,3) [OF d r(1) sz(2) r(2) sz(3), of w] by blast
    have up: "at (bvalues r) 0 = Some (hd (bvalues r))" using r(2) by (cases "bvalues r") (auto simp: at_def)
    show ?thesis
    proof (rule that)
      show "fill d ?n i = Some (BNode (us @ (hd (bvalues r) # vs1)) (as @ BNode (bvalues k @ [w]) (if isLeaf r then bchildren k else bchildren k @ [hd (bchildren r)]) #
          (BNode (tl (bvalues r)) (if isLeaf r then bchildren r else tl (bchildren r)) # bs1)), length as)"
        using p r(2) up len right' by (auto simp: fill_def borrowFromRight_def Let_def)
      show "after vs bs = (w # W) @ after (hd (bvalues r) # vs1) (BNode (tl (bvalues r)) (if isLeaf r then bchildren r else tl (bchildren r)) # bs1)"
        using p b(3) by (simp del: walk_values.simps)
      show "walk_values (BNode (bvalues k @ [w]) (if isLeaf r then bchildren k else bchildren k @ [hd (bchildren r)])) = [] @ walk_values k @ (w # W)"
        using b(4) by simp
    qed (use p b(1,2) sz len in auto)
  next
    case merge
    obtain r bs1 w vs1 where p: "bs = r # bs1" "vs = w # vs1" "length vs1 = length bs1" using right merge(2) by blast
    have r: "sized d depth r" "length (bvalues r) = minValues d" using sz(1) merge(3) p len by (auto simp: sized_def)
    note m = merged_node [where u = w, OF d sz(2) r(1) sz(3) r(2)]
    show ?thesis
    proof (rule that)
      show "fill d ?n i = Some (BNode (us @ vs1) (as @ BNode (bvalues k @ w # bvalues r) (bchildren k @ bchildren r) # bs1), length as)"
        using p r(2) len merge by (auto simp: fill_def mergeChildren_def Let_def)
      show "after vs bs = (w # walk_values r) @ after vs1 bs1" using p by simp
      show "walk_values (BNode (bvalues k @ w # bvalues r) (bchildren k @ bchildren r)) = [] @ walk_values k @ (w # walk_values r)" using m(2) by simp
    qed (use p m(1,3) sz len in auto)
  next
    case final
    then have ends: "bs = []" "vs = []" using len by auto
    then have "i > 0" using some len by auto
    then obtain as1 l us1 u where p: "as = as1 @ [l]" "us = us1 @ [u]" "length as1 = length us1" "i = Suc (length as1)" using left by blast
    have l: "sized d depth l" "length (bvalues l) = minValues d" using sz(1) final(1) p by (auto simp: sized_def)
    note m = merged_node [where u = u, OF d l(1) sz(2) l(2) sz(3)]
    show ?thesis
    proof (rule that)
      show "fill d ?n i = Some (BNode (us1 @ []) (as1 @ BNode (bvalues l @ u # bvalues k) (bchildren l @ bchildren k) # []), length as1)"
        using p l(2) ends by (simp add: fill_def mergeChildren_def Let_def)
      show "before as us = before as1 us1 @ (walk_values l @ [u])" using p by simp
      show "walk_values (BNode (bvalues l @ u # bvalues k) (bchildren l @ bchildren k)) = (walk_values l @ [u]) @ walk_values k @ []" using m(2) by simp
    qed (use p m(1,3) sz len ends in auto)
  qed
qed

section \<open>Delete\<close>

context total_comparator
begin

lemma filter_absent: "v \<notin> set xs \<Longrightarrow> filter (\<lambda>x. x \<noteq> v) xs = xs"
  by (induction xs) auto

lemma delete_result:
  assumes "length us = length as" "length vs = length bs" "\<forall>a \<in> set as \<union> set bs. sized d depth a"
    "v \<notin> set (before as us)" "v \<notin> set (after vs bs)" "sized d depth k" "minValues d < length (bvalues k)"
    "btree_shape d depth k'" "walk_values k' = filter (\<lambda>x. x \<noteq> v) (walk_values k)"
    "length (bvalues k') \<le> length (bvalues k)" "length (bvalues k) \<le> Suc (length (bvalues k'))"
  shows "btree_shape d (Suc depth) (BNode (us @ vs) (as @ k' # bs))"
    "walk_values (BNode (us @ vs) (as @ k' # bs)) = filter (\<lambda>x. x \<noteq> v) (before as us @ walk_values k @ after vs bs)"
proof -
  have "sized d depth k'" using assms(6-8,10,11) by (auto simp: sized_def)
  then show "btree_shape d (Suc depth) (BNode (us @ vs) (as @ k' # bs))"
    unfolding shape_around [OF assms(1,2)] using assms(3) by auto
  have "filter (\<lambda>x. x \<noteq> v) (before as us) = before as us" "filter (\<lambda>x. x \<noteq> v) (after vs bs) = after vs bs"
    using assms(4,5) by (auto simp: filter_id_conv)
  then show "walk_values (BNode (us @ vs) (as @ k' # bs)) = filter (\<lambda>x. x \<noteq> v) (before as us @ walk_values k @ after vs bs)"
    unfolding walk_around [OF assms(1,2)] using assms(9) by simp
qed

lemma length_without: "distinct xs \<Longrightarrow> v \<in> set xs \<Longrightarrow> length (filter (\<lambda>x. x \<noteq> v) xs) = length xs - 1"
  by (induction xs) (auto simp: filter_absent Suc_pred [OF length_pos_if_in_set])

lemma distinct_ends:
  assumes "distinct xs" "xs \<noteq> []"
  shows "filter (\<lambda>x. x \<noteq> last xs) xs = butlast xs" "filter (\<lambda>x. x \<noteq> hd xs) xs = tl xs"
proof -
  obtain ys y where ys: "xs = ys @ [y]" using assms(2) by (cases xs rule: rev_cases) auto
  then have "filter (\<lambda>x. x \<noteq> y) ys = ys" using assms(1) by (auto simp: filter_id_conv)
  then show "filter (\<lambda>x. x \<noteq> last xs) xs = butlast xs" using ys by simp
  obtain z zs where zs: "xs = z # zs" using assms(2) by (cases xs) auto
  then have "filter (\<lambda>x. x \<noteq> z) zs = zs" using assms(1) by (auto simp: filter_id_conv)
  then show "filter (\<lambda>x. x \<noteq> hd xs) xs = tl xs" using zs by simp
qed

lemma delete_from_found:
  assumes "node_find compare (BNode (us @ v # vs) (as @ l # r # bs)) v = (i, True)" "length us = length as" "length as = i"
  shows "delete_from compare d (BNode (us @ v # vs) (as @ l # r # bs)) v =
     (if minValues d < length (bvalues l) then
        (case bt_max l of None \<Rightarrow> None | Some p \<Rightarrow> (case delete_from compare d l p of None \<Rightarrow> None
           | Some (b, l') \<Rightarrow> Some (b, BNode (us @ p # vs) (as @ l' # r # bs))))
      else if minValues d < length (bvalues r) then
        (case bt_min r of None \<Rightarrow> None | Some p \<Rightarrow> (case delete_from compare d r p of None \<Rightarrow> None
           | Some (b, r') \<Rightarrow> Some (b, BNode (us @ p # vs) (as @ l # r' # bs))))
      else (case delete_from compare d (BNode (bvalues l @ v # bvalues r) (bchildren l @ bchildren r)) v of None \<Rightarrow> None
           | Some (b, m') \<Rightarrow> Some (b, BNode (us @ vs) (as @ m' # bs))))"
  using assms by (subst delete_from.simps) (auto simp: isLeaf_def mergeChildren_def Let_def split: option.splits prod.splits)

lemma delete_from_absent:
  assumes "node_find compare n v = (i, False)" "n = BNode (us @ vs) (as @ k # bs)" "length as = i"
  shows "delete_from compare d n v =
     (case (if length (bvalues k) = minValues d then fill d n i else Some (n, i)) of None \<Rightarrow> None
      | Some (m, j) \<Rightarrow> (case at (bchildren m) j of None \<Rightarrow> None
         | Some t \<Rightarrow> (case delete_from compare d t v of None \<Rightarrow> None | Some (b, t') \<Rightarrow> Some (b, BNode (bvalues m) ((bchildren m)[j := t'])))))"
  using assms by (subst delete_from.simps) (auto simp: isLeaf_def split: option.splits prod.splits)

lemma delete_from_spec:
  "btree_shape d depth n \<Longrightarrow> 2 \<le> d \<Longrightarrow> ordered (walk_values n) \<Longrightarrow> depth = 0 \<or> bvalues n \<noteq> [] \<Longrightarrow>
   \<exists>n'. delete_from compare d n v = Some (v \<in> set (walk_values n), n') \<and> btree_shape d depth n' \<and>
     walk_values n' = filter (\<lambda>x. x \<noteq> v) (walk_values n) \<and> length (bvalues n') \<le> length (bvalues n) \<and> length (bvalues n) \<le> Suc (length (bvalues n'))"
proof (induction depth arbitrary: n v)
  case 0
  obtain i found where f: "node_find compare n v = (i, found)" by fastforce
  have "found_at v (bvalues n) (i, found)" using node_find_spec [OF ordered_values [OF 0(1,3)], of v] f by simp
  note leaf = leaf_find [OF ordered_values [OF 0(1,3)] this]
  show ?case
  proof (cases found)
    case True
    then have "filter (\<lambda>x. x \<noteq> v) (bvalues n) = delete_at i (bvalues n)" "i < length (bvalues n)"
      using leaf(2) node_find_spec [OF ordered_values [OF 0(1,3)], of v] f by (auto simp: found_at_def)
    then show ?thesis using 0 leaf(1) f True by (auto simp: delete_from.simps [of compare d n v] isLeaf_def delete_at_def)
  next
    case False
    then have "filter (\<lambda>x. x \<noteq> v) (bvalues n) = bvalues n" using leaf(1) by (auto simp: filter_id_conv)
    then show ?thesis using 0 leaf(1) f False by (auto simp: delete_from.simps [of compare d n v] isLeaf_def)
  qed
next
  case (Suc depth)
  have inner: "\<exists>k'. delete_from compare d k x = Some (x \<in> set (walk_values k), k') \<and> btree_shape d depth k' \<and>
     walk_values k' = filter (\<lambda>y. y \<noteq> x) (walk_values k) \<and> length (bvalues k') \<le> length (bvalues k) \<and> length (bvalues k) \<le> Suc (length (bvalues k'))"
    if "sized d depth k" "minValues d < length (bvalues k)" "ordered (walk_values k)" for k x
  proof (rule Suc.IH)
    show "depth = 0 \<or> bvalues k \<noteq> []" using that(2) by auto
  qed (use that Suc.prems(2) in \<open>auto simp: sized_def\<close>)
  obtain i found where f: "node_find compare n v = (i, found)" by fastforce
  show ?case
  proof (cases found)
    case True
    then obtain us vs as l r bs where n: "n = BNode (us @ v # vs) (as @ l # r # bs)" "length us = length as" "length vs = length bs" "length as = i"
      "walk_values n = before as us @ walk_values l @ v # walk_values r @ after vs bs" "\<forall>a \<in> set as \<union> set bs \<union> {l, r}. sized d depth a"
      using found_inside [OF Suc.prems(1,3)] f by metis
    have find: "node_find compare (BNode (us @ v # vs) (as @ l # r # bs)) v = (i, True)" using f True n(1) by simp
    note unfolded = delete_from_found [OF find n(2,4), of d, folded n(1)]
    have lr: "sized d depth l" "sized d depth r" "\<forall>a \<in> set as \<union> set bs. sized d depth a" using n(6) by auto
    have ord: "ordered (walk_values l)" "ordered (walk_values r)" using Suc.prems(3) n(5) by (auto simp: sorted_wrt_append)
    have dist: "distinct (before as us @ walk_values l @ v # walk_values r @ after vs bs)" using ordered_distinct [OF Suc.prems(3)] n(5) by simp
    then have rest: "filter (\<lambda>x. x \<noteq> v) (walk_values n) = before as us @ walk_values l @ walk_values r @ after vs bs"
      unfolding n(5) by (simp add: filter_absent)
    have mem: "v \<in> set (walk_values n)" and len: "length (bvalues n) = Suc (length us + length vs)" using n(5) by (simp, subst n(1), simp)
    consider (left) "minValues d < length (bvalues l)" | (right) "\<not> minValues d < length (bvalues l)" "minValues d < length (bvalues r)"
      | (merge) "\<not> minValues d < length (bvalues l)" "\<not> minValues d < length (bvalues r)" by blast
    then show ?thesis
    proof cases
      case left
      have "bvalues l \<noteq> []" using left by auto
      then have e: "walk_values l \<noteq> []" "bt_max l = Some (last (walk_values l))" using ends [of d depth l] lr(1) Suc.prems(2) by (auto simp: sized_def)
      obtain l' where l': "delete_from compare d l (last (walk_values l)) = Some (True, l')" "btree_shape d depth l'" "walk_values l' = butlast (walk_values l)"
        "length (bvalues l') \<le> length (bvalues l)" "length (bvalues l) \<le> Suc (length (bvalues l'))"
        using inner [OF lr(1) left ord(1), of "last (walk_values l)"] distinct_ends(1) [OF ordered_distinct [OF ord(1)] e(1)] e(1) by auto
      let ?m = "BNode (us @ last (walk_values l) # vs) (as @ l' # r # bs)"
      have lens: "length (last (walk_values l) # vs) = length (r # bs)" using n(3) by simp
      have "sized d depth l'" using l' lr(1) left by (auto simp: sized_def)
      then have "btree_shape d (Suc depth) ?m" unfolding shape_around [OF n(2) lens] using lr by auto
      moreover have "walk_values ?m = filter (\<lambda>x. x \<noteq> v) (walk_values n)"
        unfolding walk_around [OF n(2) lens] rest l'(3) using append_butlast_last_id [OF e(1)] by (simp del: append_butlast_last_id)
      moreover have "delete_from compare d n v = Some (v \<in> set (walk_values n), ?m)" using unfolded left e(2) l'(1) mem by simp
      ultimately show ?thesis using len by auto
    next
      case right
      have "bvalues r \<noteq> []" using right(2) by auto
      then have e: "walk_values r \<noteq> []" "bt_min r = Some (hd (walk_values r))" using ends [of d depth r] lr(2) Suc.prems(2) by (auto simp: sized_def)
      obtain r' where r': "delete_from compare d r (hd (walk_values r)) = Some (True, r')" "btree_shape d depth r'" "walk_values r' = tl (walk_values r)"
        "length (bvalues r') \<le> length (bvalues r)" "length (bvalues r) \<le> Suc (length (bvalues r'))"
        using inner [OF lr(2) right(2) ord(2), of "hd (walk_values r)"] distinct_ends(2) [OF ordered_distinct [OF ord(2)] e(1)] e(1) by auto
      let ?m = "BNode (us @ hd (walk_values r) # vs) (as @ l # r' # bs)"
      have lens: "length (hd (walk_values r) # vs) = length (r' # bs)" using n(3) by simp
      have "sized d depth r'" using r' lr(2) right(2) by (auto simp: sized_def)
      then have "btree_shape d (Suc depth) ?m" unfolding shape_around [OF n(2) lens] using lr by auto
      moreover have "walk_values ?m = filter (\<lambda>x. x \<noteq> v) (walk_values n)"
        unfolding walk_around [OF n(2) lens] rest using r'(3) e(1) by (simp del: walk_values.simps)
      moreover have "delete_from compare d n v = Some (v \<in> set (walk_values n), ?m)" using unfolded right e(2) r'(1) mem by simp
      ultimately show ?thesis using len by auto
    next
      case merge
      have min: "length (bvalues l) = minValues d" "length (bvalues r) = minValues d" using merge lr by (auto simp: sized_def)
      note m = merged_node [where u = v, OF Suc.prems(2) lr(1,2) min]
      let ?m = "BNode (bvalues l @ v # bvalues r) (bchildren l @ bchildren r)"
      have walk: "walk_values n = before as us @ walk_values ?m @ after vs bs" unfolding n(5) m(2) by simp
      have "ordered (walk_values ?m)" using Suc.prems(3) walk by (simp add: sorted_wrt_append)
      moreover have big: "minValues d < length (bvalues ?m)" using m(3) by simp
      ultimately obtain m' where m': "delete_from compare d ?m v = Some (True, m')" "btree_shape d depth m'" "walk_values m' = filter (\<lambda>y. y \<noteq> v) (walk_values ?m)"
        "length (bvalues m') \<le> length (bvalues ?m)" "length (bvalues ?m) \<le> Suc (length (bvalues m'))"
        using inner [OF m(1), of v] unfolding m(2) by auto
      have "v \<notin> set (before as us)" "v \<notin> set (after vs bs)" using dist by auto
      note r = delete_result [OF n(2,3) lr(3) this m(1) big m'(2-5)]
      have "delete_from compare d n v = Some (v \<in> set (walk_values n), BNode (us @ vs) (as @ m' # bs))" using unfolded merge m'(1) mem by simp
      then show ?thesis using r walk len by auto
    qed
  next
    case False
    then obtain us vs as k bs where n: "n = BNode (us @ vs) (as @ k # bs)" "length us = length as" "length vs = length bs" "length as = i"
      "walk_values n = before as us @ walk_values k @ after vs bs" "sized d depth k"
      "\<forall>x \<in> set (before as us). compare x v < 0" "\<forall>x \<in> set (after vs bs). compare v x < 0" "\<forall>a \<in> set as \<union> set bs. sized d depth a"
      using descend [OF Suc.prems(1,3)] f by metis
    have mem: "v \<in> set (walk_values n) \<longleftrightarrow> v \<in> set (walk_values k)" using n(5,7,8) less_self by auto
    have find: "node_find compare n v = (i, False)" using f False by simp
    note unfolded = delete_from_absent [OF find n(1,4), of d]
    have len: "length (bvalues n) = length us + length vs" by (subst n(1)) simp
    show ?thesis
    proof (cases "length (bvalues k) = minValues d")
      case True
      have "us @ vs \<noteq> []" using Suc.prems(4) n(1) by auto
      then obtain us' vs' as' k' bs' a b where r: "fill d n i = Some (BNode (us' @ vs') (as' @ k' # bs'), length as')"
        "length us' = length as'" "length vs' = length bs'" "\<forall>c \<in> set as' \<union> set bs'. sized d depth c" "sized d depth k'" "minValues d < length (bvalues k')"
        "before as us = before as' us' @ a" "after vs bs = b @ after vs' bs'" "walk_values k' = a @ walk_values k @ b"
        "length (us' @ vs') \<le> length (us @ vs)" "length (us @ vs) \<le> Suc (length (us' @ vs'))"
        using fill_spec [OF Suc.prems(2) n(2-4,9,6) True, folded n(1)] by metis
      have walk: "walk_values n = before as' us' @ walk_values k' @ after vs' bs'" unfolding n(5) r(7-9) by simp
      have out: "v \<notin> set (before as' us')" "v \<notin> set (after vs' bs')" "v \<notin> set a" "v \<notin> set b" using n(7,8) less_self unfolding r(7,8) set_append by blast+
      have "ordered (walk_values k')" using Suc.prems(3) walk by (simp add: sorted_wrt_append)
      then obtain k'' where k'': "delete_from compare d k' v = Some (v \<in> set (walk_values k'), k'')" "btree_shape d depth k''"
        "walk_values k'' = filter (\<lambda>y. y \<noteq> v) (walk_values k')" "length (bvalues k'') \<le> length (bvalues k')" "length (bvalues k') \<le> Suc (length (bvalues k''))"
        using inner [OF r(5,6)] by metis
      note res = delete_result [OF r(2-4) out(1,2) r(5,6) k''(2-5)]
      have "v \<in> set (walk_values k') \<longleftrightarrow> v \<in> set (walk_values n)" using out(3,4) mem unfolding r(9) by auto
      then have "delete_from compare d n v = Some (v \<in> set (walk_values n), BNode (us' @ vs') (as' @ k'' # bs'))"
        using unfolded True r(1) k''(1) by simp
      then show ?thesis using res walk r(10,11) len by auto
    next
      case False
      then have big: "minValues d < length (bvalues k)" using n(6) by (auto simp: sized_def)
      have "ordered (walk_values k)" using Suc.prems(3) n(5) by (simp add: sorted_wrt_append)
      then obtain k' where k': "delete_from compare d k v = Some (v \<in> set (walk_values k), k')" "btree_shape d depth k'"
        "walk_values k' = filter (\<lambda>y. y \<noteq> v) (walk_values k)" "length (bvalues k') \<le> length (bvalues k)" "length (bvalues k) \<le> Suc (length (bvalues k'))"
        using inner [OF n(6) big] by metis
      have out: "v \<notin> set (before as us)" "v \<notin> set (after vs bs)" using n(7,8) less_self by auto
      note res = delete_result [OF n(2,3,9) out n(6) big k'(2-5)]
      have "delete_from compare d n v = Some (v \<in> set (walk_values n), BNode (us @ vs) (as @ k' # bs))"
        using unfolded False k'(1) mem n(1,4) by simp
      then show ?thesis using res n(5) len by auto
    qed
  qed
qed

section \<open>The tree\<close>

definition tree_fits :: "'a BTree \<Rightarrow> bool" where
  "tree_fits t \<longleftrightarrow> 2 \<le> bt_degree t \<and> bt_compare t = compare \<and> bt_length t = int (length (bt_Values t)) \<and> ordered (bt_Values t) \<and>
     length (bvalues (bt_root t)) \<le> maxValues (deg t) \<and>
     (\<exists>depth. btree_shape (deg t) depth (bt_root t) \<and> (depth = 0 \<or> bvalues (bt_root t) \<noteq> []))"

lemma tree_fitsE:
  assumes "tree_fits t"
  obtains depth where "btree_shape (deg t) depth (bt_root t)" "depth = 0 \<or> bvalues (bt_root t) \<noteq> []" "2 \<le> deg t"
    "ordered (walk_values (bt_root t))" "length (bvalues (bt_root t)) \<le> maxValues (deg t)" "bt_compare t = compare"
proof -
  obtain depth where "btree_shape (deg t) depth (bt_root t)" "depth = 0 \<or> bvalues (bt_root t) \<noteq> []"
    using assms unfolding tree_fits_def by blast
  moreover have "2 \<le> deg t" "ordered (walk_values (bt_root t))" "length (bvalues (bt_root t)) \<le> maxValues (deg t)" "bt_compare t = compare"
    using assms by (simp_all add: tree_fits_def bt_Values_def le_nat_iff)
  ultimately show ?thesis using that by blast
qed

lemma NewBTree_fits: "tree_fits (NewBTree degree compare)"
proof -
  have "btree_shape d 0 (BNode [] [])" for d by simp
  then show ?thesis unfolding tree_fits_def by (intro conjI exI [of _ 0]) (auto simp: NewBTree_def bt_Values_def maxValues_def)
qed

lemma Find_fits: "tree_fits t \<Longrightarrow> bt_Find t v = (if v \<in> set (bt_Values t) then Some v else None)"
  by (erule tree_fitsE) (simp add: bt_Find_def bt_Values_def find_from_spec)

lemma Insert_fits:
  assumes "tree_fits t"
  shows "\<exists>dup t'. bt_Insert t v = Some (if dup then Some ErrDuplicateValue else None, t') \<and> tree_fits t' \<and> inserted v (bt_Values t) dup (bt_Values t')"
proof -
  let ?d = "deg t" and ?root = "bt_root t"
  have d: "2 \<le> ?d" using assms by (auto simp: tree_fits_def)
  obtain depth where r: "btree_shape ?d depth ?root" "length (bvalues ?root) \<le> maxValues ?d" "ordered (walk_values ?root)" "depth = 0 \<or> bvalues ?root \<noteq> []"
    by (rule tree_fitsE [OF assms]) (rule that)
  obtain root depth' where root: "(if length (bvalues ?root) = maxValues ?d then splitChild ?d (BNode [] [?root]) 0 else Some ?root) = Some root"
    "btree_shape ?d depth' root" "walk_values root = walk_values ?root" "length (bvalues root) < maxValues ?d" "depth' = 0 \<or> bvalues root \<noteq> []"
  proof (cases "length (bvalues ?root) = maxValues ?d")
    case True
    obtain mid kl kr where s: "splitChild ?d (BNode ([] @ []) ([] @ ?root # [])) 0 = Some (BNode ([] @ mid # []) ([] @ kl # kr # []))"
      "sized ?d depth kl" "sized ?d depth kr" "walk_values ?root = walk_values kl @ mid # walk_values kr"
      by (rule split_child [OF d r(1) True, of "[]" "[]" "[]" "[]" 0]) auto
    show ?thesis
    proof (rule that [of "BNode [mid] [kl, kr]" "Suc depth"])
      show "btree_shape ?d (Suc depth) (BNode [mid] [kl, kr])" using s(2,3) by (auto simp: sized_def)
      show "length (bvalues (BNode [mid] [kl, kr])) < maxValues ?d" using d by (simp add: maxValues_def)
    qed (use True s in auto)
  qed (use r that in auto)
  obtain dup n' where n': "insertNonFull compare ?d root v = Some (dup, n')" "btree_shape ?d depth' n'" "inserted v (walk_values root) dup (walk_values n')"
    "length (bvalues root) \<le> length (bvalues n')" "length (bvalues n') \<le> maxValues ?d"
    using insertNonFull_spec [OF root(2) d _ root(4)] r(3) root(3) by metis
  let ?t = "if dup then t\<lparr>bt_root := n'\<rparr> else t\<lparr>bt_root := n', bt_length := bt_length t + 1\<rparr>"
  have "bt_Insert t v = Some (if dup then Some ErrDuplicateValue else None, ?t)"
    using root(1) n'(1) assms by (simp add: bt_Insert_def tree_fits_def)
  moreover have "inserted v (bt_Values t) dup (bt_Values ?t)" using n'(3) root(3) by (cases dup) (simp_all add: bt_Values_def)
  moreover have "tree_fits ?t"
  proof -
    have "ordered (walk_values n')" "length (walk_values n') = length (walk_values ?root) + (if dup then 0 else 1)"
      using n'(3) root(3) r(3) by (auto simp: inserted_def split: if_splits)
    moreover have "depth' = 0 \<or> bvalues n' \<noteq> []" using root(5) n'(4) by auto
    ultimately show ?thesis using assms n'(2,5) unfolding tree_fits_def by (auto simp: bt_Values_def)
  qed
  ultimately show ?thesis by blast
qed

lemma Delete_values:
  assumes "tree_fits t"
  shows "\<exists>t'. bt_Delete t v = Some (v \<in> set (bt_Values t), t') \<and> bt_Values t' = filter (\<lambda>x. x \<noteq> v) (bt_Values t) \<and>
    (v \<in> set (bt_Values t) \<longrightarrow> tree_fits t')"
proof -
  let ?d = "deg t" and ?root = "bt_root t"
  obtain depth where r: "btree_shape ?d depth ?root" "length (bvalues ?root) \<le> maxValues ?d" "ordered (walk_values ?root)" "depth = 0 \<or> bvalues ?root \<noteq> []" "2 \<le> ?d"
    by (rule tree_fitsE [OF assms]) (rule that)
  obtain n' where n': "delete_from compare ?d ?root v = Some (v \<in> set (walk_values ?root), n')" "btree_shape ?d depth n'"
    "walk_values n' = filter (\<lambda>x. x \<noteq> v) (walk_values ?root)" "length (bvalues n') \<le> length (bvalues ?root)"
    using delete_from_spec [OF r(1,5,3,4)] by metis
  show ?thesis
  proof (cases "v \<in> set (walk_values ?root)")
    case True
    let ?n = "if length (bvalues n') = 0 \<and> \<not> isLeaf n' then bchildren n' ! 0 else n'"
    let ?t = "t\<lparr>bt_root := ?n, bt_length := bt_length t - 1\<rparr>"
    have "walk_values ?n = walk_values n' \<and> length (bvalues ?n) \<le> maxValues ?d \<and> (\<exists>depth. btree_shape ?d depth ?n \<and> (depth = 0 \<or> bvalues ?n \<noteq> []))"
    proof (cases "length (bvalues n') = 0 \<and> \<not> isLeaf n'")
      case collapse: True
      then obtain depth' where depth: "depth = Suc depth'" using shape_leaf [OF n'(2)] by (cases depth) auto
      then obtain k where k: "n' = BNode [] [k]" using n'(2) collapse by (cases n') (auto simp: length_Suc_conv)
      then have "sized ?d depth' k" using n'(2) depth by (auto simp: sized_def)
      then show ?thesis using k r(5) by (auto simp: isLeaf_def sized_def minValues_def)
    next
      case False
      then have "depth = 0 \<or> bvalues n' \<noteq> []" using shape_leaf [OF n'(2)] by auto
      then show ?thesis using False n'(2,4) r(2) by auto
    qed
    moreover have "length (filter (\<lambda>x. x \<noteq> v) (walk_values ?root)) = length (walk_values ?root) - 1"
      using length_without [OF ordered_distinct [OF r(3)] True] .
    moreover have "walk_values ?root \<noteq> []" using True by auto
    ultimately have "tree_fits ?t" using assms n'(3) r(3) unfolding tree_fits_def
      by (auto simp: bt_Values_def sorted_wrt_filter of_nat_diff Suc_leI)
    moreover have "bt_Delete t v = Some (True, ?t)" using n'(1) True assms by (simp add: bt_Delete_def tree_fits_def)
    moreover have "bt_Values ?t = filter (\<lambda>x. x \<noteq> v) (bt_Values t)"
      using n'(3) \<open>walk_values ?n = walk_values n' \<and> _\<close> by (simp add: bt_Values_def)
    ultimately show ?thesis using True by (auto simp: bt_Values_def)
  next
    case False
    then show ?thesis using n' assms by (auto simp: bt_Delete_def tree_fits_def bt_Values_def)
  qed
qed

end

section \<open>A sorted set\<close>

text \<open>A tree ordered by \<open>OrderedComparator\<close>, in the form every operation keeps.\<close>

definition tree_ok :: "'a::linorder BTree \<Rightarrow> bool" where
  "tree_ok t \<longleftrightarrow> ordered_cmp.tree_fits t"

lemma ordered_sorted: "ordered_cmp.ordered xs \<longleftrightarrow> sorted xs \<and> distinct xs"
proof (induction xs)
  case (Cons x xs)
  have "OrderedComparator x y < 0 \<longleftrightarrow> x < y" for y by (simp add: OrderedComparator_def)
  then show ?case using Cons by (auto simp: less_le)
qed simp

lemma tree_ok_values: "tree_ok t \<Longrightarrow> sorted (bt_Values t) \<and> distinct (bt_Values t) \<and> bt_Len t = int (length (bt_Values t))"
  by (simp add: tree_ok_def ordered_cmp.tree_fits_def ordered_sorted bt_Len_def)

lemma inserted_insort:
  assumes "ordered_cmp.inserted x xs dup ys" "sorted xs" "distinct xs"
  shows "dup \<longleftrightarrow> x \<in> set xs" "ys = (if x \<in> set xs then xs else insort x xs)"
proof -
  show dup: "dup \<longleftrightarrow> x \<in> set xs" using assms(1) by (simp add: ordered_cmp.inserted_def)
  have "ys = insort x xs" if "x \<notin> set xs"
    using assms that dup by (intro sorted_distinct_set_unique)
      (auto simp: ordered_cmp.inserted_def ordered_sorted set_insort_key distinct_insort sorted_insort)
  then show "ys = (if x \<in> set xs then xs else insort x xs)" using assms(1) dup by (auto simp: ordered_cmp.inserted_def)
qed

text \<open>C29: The B-tree is a sorted set. From any tree the operations keep, the new one included, \<open>Values\<close> is sorted without
  repetitions and counted by \<open>Len\<close>, \<open>Find\<close> answers membership, \<open>Insert\<close> puts a new value in its place and
  refuses a stored one without changing the values, and \<open>Delete\<close> removes a stored value; none of them
  panics or loops.\<close>

theorem btree_is_sorted_set:
  "tree_ok (NewBTree degree (OrderedComparator :: 'a::linorder comparator)) \<and>
   bt_Values (NewBTree degree (OrderedComparator :: 'a comparator)) = [] \<and>
   (\<forall>t (x :: 'a). tree_ok t \<longrightarrow>
      sorted (bt_Values t) \<and> distinct (bt_Values t) \<and> bt_Len t = int (length (bt_Values t)) \<and>
      bt_Find t x = (if x \<in> set (bt_Values t) then Some x else None) \<and>
      (\<exists>t'. bt_Insert t x = Some (if x \<in> set (bt_Values t) then Some ErrDuplicateValue else None, t') \<and> tree_ok t' \<and>
         bt_Values t' = (if x \<in> set (bt_Values t) then bt_Values t else insort x (bt_Values t))) \<and>
      (\<exists>t'. bt_Delete t x = Some (x \<in> set (bt_Values t), t') \<and> bt_Values t' = remove1 x (bt_Values t) \<and>
         (x \<in> set (bt_Values t) \<longrightarrow> tree_ok t')))"
proof (intro conjI allI impI)
  show "tree_ok (NewBTree degree (OrderedComparator :: 'a comparator))" by (simp add: tree_ok_def ordered_cmp.NewBTree_fits)
  show "bt_Values (NewBTree degree (OrderedComparator :: 'a comparator)) = []" by (simp add: NewBTree_def bt_Values_def)
  fix t :: "'a BTree" and x
  assume ok: "tree_ok t"
  note fits = ok [unfolded tree_ok_def]
  have vals: "sorted (bt_Values t)" "distinct (bt_Values t)" using tree_ok_values [OF ok] by auto
  show "sorted (bt_Values t)" "distinct (bt_Values t)" "bt_Len t = int (length (bt_Values t))" using tree_ok_values [OF ok] by auto
  show "bt_Find t x = (if x \<in> set (bt_Values t) then Some x else None)" by (rule ordered_cmp.Find_fits [OF fits])
  obtain dup t' where ins: "bt_Insert t x = Some (if dup then Some ErrDuplicateValue else None, t')" "ordered_cmp.tree_fits t'"
    "ordered_cmp.inserted x (bt_Values t) dup (bt_Values t')"
    using ordered_cmp.Insert_fits [OF fits] by blast
  show "\<exists>t'. bt_Insert t x = Some (if x \<in> set (bt_Values t) then Some ErrDuplicateValue else None, t') \<and> tree_ok t' \<and>
      bt_Values t' = (if x \<in> set (bt_Values t) then bt_Values t else insort x (bt_Values t))"
    using ins inserted_insort [OF ins(3) vals] by (auto simp: tree_ok_def)
  have "filter (\<lambda>y. y \<noteq> x) (bt_Values t) = remove1 x (bt_Values t)"
    using vals(2) by (simp add: distinct_remove1_removeAll removeAll_filter_not_eq eq_commute)
  then show "\<exists>t'. bt_Delete t x = Some (x \<in> set (bt_Values t), t') \<and> bt_Values t' = remove1 x (bt_Values t) \<and>
      (x \<in> set (bt_Values t) \<longrightarrow> tree_ok t')"
    using ordered_cmp.Delete_values [OF fits, of x] by (auto simp: tree_ok_def)
qed

theorem btree_is_sorted_set_witness:
  "\<exists>t'. bt_Insert (NewBTree 2 OrderedComparator) (7 :: nat) = Some (None, t') \<and> tree_ok t' \<and> bt_Values t' = [7]"
proof -
  note all = btree_is_sorted_set [where degree = 2 and 'a = nat]
  let ?t = "NewBTree 2 (OrderedComparator :: nat comparator)"
  have "tree_ok ?t" "bt_Values ?t = []" using all by blast+
  then show ?thesis using all [THEN conjunct2, THEN conjunct2, THEN spec, of ?t, THEN spec, of 7] by auto
qed

section \<open>Deleting what is not there\<close>

text \<open>A client of the tree: inserts (\<open>Inl\<close>) and deletes (\<open>Inr\<close>), one after the other; \<open>None\<close> is a panic.\<close>

definition run_tree :: "(nat + nat) list \<Rightarrow> nat BTree option" where
  "run_tree script = foldl (\<lambda>t action. Option.bind t (\<lambda>t. case action of
     Inl x \<Rightarrow> map_option snd (bt_Insert t x) | Inr x \<Rightarrow> map_option snd (bt_Delete t x))) (Some (NewBTree 2 OrderedComparator)) script"


end
