(* ===== verification/Index_Text.thy ===== *)
theory Index_Text
  imports Index_Postings Index_Relevance Trees_BTree_Correct Graph_Store "HOL-Library.List_Lexorder"
begin

text \<open>
  The full-text index of \<open>internal/index/btree.go\<close>: a B-tree of terms with a posting list each, the documents, the
  numbers of the documents and the relevance model. The tree holds pointers to posting lists and compares
  their terms; a list is allocated once for its term, so here the tree holds the terms and \<open>bi_lists\<close> is what
  the pointers reach. A probe is its term. Strings are compared as posts of runes, which is the order of their
  UTF-8 bytes. An operation that could panic in the tree has an outer \<open>option\<close>.
\<close>

record 'k BTreeIndex =
  bi_tree :: "runes BTree"
  bi_lists :: "(runes, 'k postingList) fmap"
  bi_documents :: "('k, runes) fmap"
  bi_dead :: nat
  bi_tokenizer :: "runes \<Rightarrow> runes list"
  bi_relevance :: "'k Relevance"
  bi_compare :: "'k comparator"
  bi_gamma :: real
  bi_neighbours :: "('k \<Rightarrow> 'k list) option"
  bi_ids :: "('k, nat) fmap"
  bi_keys :: "'k list"

definition NewBTreeIndex :: "unicode \<Rightarrow> 'k comparator \<Rightarrow> 'k BTreeIndex" where
  "NewBTreeIndex u compare = \<lparr>bi_tree = NewBTree 32 OrderedComparator, bi_lists = fmempty, bi_documents = fmempty, bi_dead = 0,
     bi_tokenizer = SimpleTokenizer u, bi_relevance = MatchCount, bi_compare = compare, bi_gamma = 0, bi_neighbours = None,
     bi_ids = fmempty, bi_keys = []\<rparr>"

definition SetTokenizer :: "(runes \<Rightarrow> runes list) option \<Rightarrow> 'k BTreeIndex \<Rightarrow> 'k BTreeIndex" where
  "SetTokenizer t idx = (case t of None \<Rightarrow> idx | Some f \<Rightarrow> idx\<lparr>bi_tokenizer := f\<rparr>)"

definition SetRelevance :: "'k Relevance option \<Rightarrow> 'k BTreeIndex \<Rightarrow> 'k BTreeIndex" where
  "SetRelevance r idx = (case r of None \<Rightarrow> idx | Some m \<Rightarrow> idx\<lparr>bi_relevance := m\<rparr>)"

definition SetWindow :: "real \<Rightarrow> ('k \<Rightarrow> 'k list) option \<Rightarrow> 'k BTreeIndex \<Rightarrow> 'k BTreeIndex" where
  "SetWindow gamma neighbours idx = idx\<lparr>bi_gamma := gamma, bi_neighbours := neighbours\<rparr>"

definition new_list :: "runes \<Rightarrow> 'k postingList" where
  "new_list t = \<lparr>pl_term = t, pl_chunks = [], pl_live = 0\<rparr>"

definition list_at :: "(runes, 'k postingList) fmap \<Rightarrow> runes \<Rightarrow> 'k postingList" where
  "list_at posts t = (case fmlookup posts t of Some l \<Rightarrow> l | None \<Rightarrow> new_list t)"

section \<open>Reading\<close>

definition text_Retrieve :: "'k BTreeIndex \<Rightarrow> 'k \<Rightarrow> index_error + runes" where
  "text_Retrieve idx key = (case fmlookup (bi_documents idx) key of Some v \<Rightarrow> Inr v | None \<Rightarrow> Inl ErrIndexNotFound)"

definition text_Count :: "'k BTreeIndex \<Rightarrow> nat" where
  "text_Count idx = fcard (fmdom (bi_documents idx))"

definition text_Entries :: "'k BTreeIndex \<Rightarrow> nat" where
  "text_Entries idx = text_Count idx + bi_dead idx"

fun information_step :: "'k BTreeIndex \<Rightarrow> 'k list \<Rightarrow> runes set \<Rightarrow> runes list \<Rightarrow> real \<times> real list \<Rightarrow> real \<times> real list" where
  "information_step idx keys seen [] acc = acc"
| "information_step idx keys seen (term # tokens) acc =
     (if term \<in> seen then information_step idx keys seen tokens acc
      else information_step idx keys (insert term seen) tokens
        (case bt_Find (bi_tree idx) term of
           None \<Rightarrow> acc
         | Some t \<Rightarrow>
             (let list = list_at (bi_lists idx) t
              in if pl_live list = 0 then acc
                 else (let bits = - log 2 (real (pl_live list) / real (text_Count idx))
                       in (fst acc + bits,
                           map2 (\<lambda>key held. if tf_in (bi_compare idx) list key > 0 then held + bits else held) keys (snd acc))))))"

definition text_Information :: "'k BTreeIndex \<Rightarrow> runes \<Rightarrow> 'k list \<Rightarrow> real \<times> real list" where
  "text_Information idx query keys =
     information_step idx keys {} (bi_tokenizer idx query) (0, replicate (length keys) 0)"

section \<open>Writing\<close>

text \<open>One token of a document: its list is found or made, then counts the document. The tree's error ends the loop.\<close>

definition index_token :: "'k comparator \<Rightarrow> 'k \<Rightarrow> nat \<Rightarrow> runes \<Rightarrow> runes BTree \<Rightarrow> (runes, 'k postingList) fmap \<Rightarrow>
    (btree_error option \<times> runes BTree \<times> (runes, 'k postingList) fmap) option" where
  "index_token compare key doc term tree posts =
     (case bt_Find tree term of
        Some t \<Rightarrow> Some (None, tree, fmupd t (count_posting compare key doc (list_at posts t)) posts)
      | None \<Rightarrow> (case bt_Insert tree term of
            None \<Rightarrow> None
          | Some (Some e, tree1) \<Rightarrow> Some (Some e, tree1, posts)
          | Some (None, tree1) \<Rightarrow> Some (None, tree1, fmupd term (count_posting compare key doc (new_list term)) posts)))"

fun index_tokens :: "'k comparator \<Rightarrow> 'k \<Rightarrow> nat \<Rightarrow> runes list \<Rightarrow> runes BTree \<Rightarrow> (runes, 'k postingList) fmap \<Rightarrow>
    (btree_error option \<times> runes BTree \<times> (runes, 'k postingList) fmap) option" where
  "index_tokens compare key doc [] tree posts = Some (None, tree, posts)"
| "index_tokens compare key doc (term # tokens) tree posts =
     (case index_token compare key doc term tree posts of
        None \<Rightarrow> None
      | Some (Some e, tree1, posts1) \<Rightarrow> Some (Some e, tree1, posts1)
      | Some (None, tree1, posts1) \<Rightarrow> index_tokens compare key doc tokens tree1 posts1)"

definition bury_term :: "'k comparator \<Rightarrow> 'k \<Rightarrow> runes BTree \<Rightarrow> (runes, 'k postingList) fmap \<Rightarrow> runes \<Rightarrow> (runes, 'k postingList) fmap" where
  "bury_term compare key tree posts term =
     (case bt_Find tree term of
        None \<Rightarrow> posts
      | Some t \<Rightarrow> fmupd t (bury_posting compare key (list_at posts t)) posts)"

definition removePostings :: "'k \<Rightarrow> runes \<Rightarrow> 'k BTreeIndex \<Rightarrow> 'k BTreeIndex" where
  "removePostings key v idx =
     idx\<lparr>bi_lists := foldl (bury_term (bi_compare idx) key (bi_tree idx)) (bi_lists idx) (bi_tokenizer idx v),
         bi_dead := bi_dead idx + 1, bi_relevance := rel_Removed (bi_relevance idx) key\<rparr>"

text \<open>\<open>Flush\<close>: the lists of the tree in order; a list no document holds leaves the tree.\<close>

fun flush_lists :: "('k \<Rightarrow> nat) \<Rightarrow> runes list \<Rightarrow> runes BTree \<Rightarrow> (runes, 'k postingList) fmap \<Rightarrow>
    (runes BTree \<times> (runes, 'k postingList) fmap) option" where
  "flush_lists number [] tree posts = Some (tree, posts)"
| "flush_lists number (t # ts) tree posts =
     (if pl_live (list_at posts t) = 0
      then (case bt_Delete tree t of None \<Rightarrow> None | Some (_, tree1) \<Rightarrow> flush_lists number ts tree1 (fmdrop t posts))
      else flush_lists number ts tree (fmupd t (compact_list number (list_at posts t)) posts))"

definition number_in :: "('k, nat) fmap \<Rightarrow> 'k \<Rightarrow> nat" where
  "number_in ids key = (case fmlookup ids key of Some i \<Rightarrow> i | None \<Rightarrow> 0)"

definition text_Flush :: "'k BTreeIndex \<Rightarrow> 'k BTreeIndex option" where
  "text_Flush idx =
     (let keys = filter (\<lambda>key. key |\<in>| fmdom (bi_documents idx)) (bi_keys idx); ids = positions keys
      in map_option (\<lambda>(tree, posts). idx\<lparr>bi_tree := tree, bi_lists := posts, bi_ids := ids, bi_keys := keys, bi_dead := 0\<rparr>)
           (flush_lists (number_in ids) (bt_Values (bi_tree idx)) (bi_tree idx) (bi_lists idx)))"

definition maybeFlush :: "'k BTreeIndex \<Rightarrow> 'k BTreeIndex option" where
  "maybeFlush idx = (if bi_dead idx \<le> text_Count idx then Some idx else text_Flush idx)"

text \<open>The number of a document, given on its first sight.\<close>

definition number_document :: "'k \<Rightarrow> 'k BTreeIndex \<Rightarrow> nat \<times> 'k BTreeIndex" where
  "number_document key idx =
     (case fmlookup (bi_ids idx) key of
        Some doc \<Rightarrow> (doc, idx)
      | None \<Rightarrow> (length (bi_keys idx), idx\<lparr>bi_ids := fmupd key (length (bi_keys idx)) (bi_ids idx), bi_keys := bi_keys idx @ [key]\<rparr>))"

definition text_index :: "'k \<Rightarrow> runes \<Rightarrow> 'k BTreeIndex \<Rightarrow> (index_error option \<times> 'k BTreeIndex) option" where
  "text_index key v idx =
     (let idx1 = (case text_Retrieve idx key of Inr old \<Rightarrow> removePostings key old idx | Inl _ \<Rightarrow> idx);
          (doc, idx2) = number_document key idx1; tokens = bi_tokenizer idx2 v
      in case index_tokens (bi_compare idx2) key doc tokens (bi_tree idx2) (bi_lists idx2) of
           None \<Rightarrow> None
         | Some (Some _, tree, posts) \<Rightarrow> Some (Some index_error.ErrDuplicateValue, idx2\<lparr>bi_tree := tree, bi_lists := posts\<rparr>)
         | Some (None, tree, posts) \<Rightarrow>
             map_option (Pair None) (maybeFlush (idx2\<lparr>bi_tree := tree, bi_lists := posts,
               bi_documents := fmupd key v (bi_documents idx2), bi_relevance := rel_Indexed (bi_relevance idx2) key tokens\<rparr>)))"

definition text_Insert :: "'k \<Rightarrow> runes \<Rightarrow> 'k BTreeIndex \<Rightarrow> (index_error option \<times> 'k BTreeIndex) option" where
  "text_Insert key v idx = text_index key v idx"

definition text_Update :: "'k \<Rightarrow> runes \<Rightarrow> 'k BTreeIndex \<Rightarrow> (index_error option \<times> 'k BTreeIndex) option" where
  "text_Update key v idx = (case text_Retrieve idx key of Inl e \<Rightarrow> Some (Some e, idx) | Inr _ \<Rightarrow> text_index key v idx)"

definition text_Delete :: "'k \<Rightarrow> 'k BTreeIndex \<Rightarrow> (index_error option \<times> 'k BTreeIndex) option" where
  "text_Delete key idx =
     (case text_Retrieve idx key of
        Inl e \<Rightarrow> Some (Some e, idx)
      | Inr v \<Rightarrow> (let idx1 = removePostings key v idx
          in map_option (Pair None) (maybeFlush (idx1\<lparr>bi_documents := fmdrop key (bi_documents idx1)\<rparr>))))"

end
