(* ===== verification/Index_Text_Correct.thy ===== *)
theory Index_Text_Correct
  imports Index_Text Graph_Reachable
begin

text \<open>
  What the text index keeps: its posting lists count the terms of its documents, its numbers name its documents,
  its relevance model records them and its tombstones never outweigh them. Every operation is the operation of a map
  of documents.
\<close>

section \<open>The dictionary\<close>

definition dictionary_ok :: "'k comparator \<Rightarrow> runes BTree \<Rightarrow> (runes, 'k postingList) fmap \<Rightarrow> bool" where
  "dictionary_ok compare tree posts \<longleftrightarrow> tree_ok tree \<and> set (bt_Values tree) = fset (fmdom posts) \<and>
     (\<forall>t l. fmlookup posts t = Some l \<longrightarrow> list_ok compare l)"

definition times_in :: "(runes, 'k postingList) fmap \<Rightarrow> runes \<Rightarrow> 'k \<Rightarrow> nat" where
  "times_in posts t k = frequency (entries_of (list_at posts t)) k"

definition numbered :: "('k, nat) fmap \<Rightarrow> (runes, 'k postingList) fmap \<Rightarrow> bool" where
  "numbered ids posts \<longleftrightarrow> (\<forall>t l. fmlookup posts t = Some l \<longrightarrow> sightings l \<subseteq> {(k, i). fmlookup ids k = Some i})"

lemma tree_find: "tree_ok (t :: 'a :: linorder BTree) \<Longrightarrow> bt_Find t v = (if v \<in> set (bt_Values t) then Some v else None)"
  unfolding tree_ok_def by (rule ordered_cmp.Find_fits)

lemma tree_insert:
  assumes ok: "tree_ok (t :: 'a :: linorder BTree)" and new: "v \<notin> set (bt_Values t)"
  obtains t' where "bt_Insert t v = Some (None, t')" "tree_ok t'" "set (bt_Values t') = insert v (set (bt_Values t))"
proof -
  obtain dup t' where ins: "bt_Insert t v = Some (if dup then Some btree_error.ErrDuplicateValue else None, t')" "ordered_cmp.tree_fits t'"
    "ordered_cmp.inserted v (bt_Values t) dup (bt_Values t')"
    using ordered_cmp.Insert_fits [OF ok [unfolded tree_ok_def]] by blast
  have vals: "sorted (bt_Values t)" "distinct (bt_Values t)" using tree_ok_values [OF ok] by auto
  have "\<not> dup" "bt_Values t' = insort v (bt_Values t)" using inserted_insort [OF ins(3) vals] new by auto
  then show ?thesis using that [of t'] ins(1,2) by (simp add: tree_ok_def set_insort_key)
qed

lemma tree_delete:
  assumes ok: "tree_ok (t :: 'a :: linorder BTree)" and old: "v \<in> set (bt_Values t)"
  obtains t' where "bt_Delete t v = Some (True, t')" "tree_ok t'" "set (bt_Values t') = set (bt_Values t) - {v}"
proof -
  obtain t' where "bt_Delete t v = Some (v \<in> set (bt_Values t), t')" "bt_Values t' = filter (\<lambda>x. x \<noteq> v) (bt_Values t)"
    "v \<in> set (bt_Values t) \<longrightarrow> ordered_cmp.tree_fits t'"
    using ordered_cmp.Delete_values [OF ok [unfolded tree_ok_def], of v] by blast
  then show ?thesis using that [of t'] old by (auto simp: tree_ok_def)
qed

lemma list_at_upd [simp]: "list_at (fmupd t l posts) t' = (if t' = t then l else list_at posts t')"
  by (simp add: list_at_def)

lemma list_at_drop [simp]: "list_at (fmdrop t posts) t' = (if t' = t then new_list t else list_at posts t')"
  by (simp add: list_at_def)

lemma new_list_entries [simp]: "entries_of (new_list t) = []" "sightings (new_list t) = {}"
  by (simp_all add: new_list_def entries_of_def sightings_def)

lemma new_list_ok: "list_ok compare (new_list t)"
  by (simp add: list_ok_def chunked_def) (simp add: new_list_def)

lemma dictionary_list: "dictionary_ok compare tree posts \<Longrightarrow> list_ok compare (list_at posts t)"
  by (auto simp: dictionary_ok_def list_at_def new_list_ok split: option.split)

lemma numbered_list: "numbered ids posts \<Longrightarrow> sightings (list_at posts t) \<subseteq> {(k, i). fmlookup ids k = Some i}"
  by (auto simp: numbered_def list_at_def split: option.split)

lemma times_in_absent: "t \<notin> fset (fmdom posts) \<Longrightarrow> times_in posts t k = 0"
  by (simp add: times_in_def list_at_def fmlookup_dom_iff)

context total_comparator
begin

lemma index_token_ok:
  assumes ok: "dictionary_ok compare tree posts"
  shows "\<exists>tree' posts'. index_token compare key doc w tree posts = Some (None, tree', posts') \<and> dictionary_ok compare tree' posts' \<and>
    (\<forall>t k. times_in posts' t k = times_in posts t k + (if t = w \<and> k = key then 1 else 0)) \<and>
    (numbered ids posts \<longrightarrow> fmlookup ids key = Some doc \<longrightarrow> numbered ids posts')"
proof -
  let ?l = "count_posting compare key doc (list_at posts w)"
  let ?posts = "fmupd w ?l posts"
  have tree: "tree_ok tree" "set (bt_Values tree) = fset (fmdom posts)" using ok by (simp_all add: dictionary_ok_def)
  note l = count_posting_ok [OF dictionary_list [OF ok], of key doc w]
  have "\<exists>tree'. index_token compare key doc w tree posts = Some (None, tree', ?posts) \<and> tree_ok tree' \<and>
      set (bt_Values tree') = insert w (set (bt_Values tree))"
  proof (cases "w \<in> set (bt_Values tree)")
    case True
    then show ?thesis using tree by (auto simp: index_token_def tree_find insert_absorb)
  next
    case False
    obtain tree' where "bt_Insert tree w = Some (None, tree')" "tree_ok tree'" "set (bt_Values tree') = insert w (set (bt_Values tree))"
      using tree_insert [OF tree(1) False] .
    moreover have "list_at posts w = new_list w" using False tree(2) by (simp add: list_at_def fmlookup_dom_iff)
    ultimately show ?thesis using False tree(1) by (simp add: index_token_def tree_find)
  qed
  then obtain tree' where t: "index_token compare key doc w tree posts = Some (None, tree', ?posts)" "tree_ok tree'"
    "set (bt_Values tree') = insert w (set (bt_Values tree))" by blast
  have "dictionary_ok compare tree' ?posts" using ok t(2,3) l(1) by (auto simp: dictionary_ok_def split: if_splits)
  moreover have "\<forall>t k. times_in ?posts t k = times_in posts t k + (if t = w \<and> k = key then 1 else 0)"
    using l(2) by (simp add: times_in_def)
  moreover have "numbered ids ?posts" if n: "numbered ids posts" "fmlookup ids key = Some doc"
    using l(3) numbered_list [OF n(1), of w] n by (auto simp: numbered_def split: if_splits)
  ultimately show ?thesis using t(1) by blast
qed

lemma index_tokens_ok:
  assumes "dictionary_ok compare tree posts"
  shows "\<exists>tree' posts'. index_tokens compare key doc ws tree posts = Some (None, tree', posts') \<and> dictionary_ok compare tree' posts' \<and>
    (\<forall>t k. times_in posts' t k = times_in posts t k + (if k = key then count_list ws t else 0)) \<and>
    (numbered ids posts \<longrightarrow> fmlookup ids key = Some doc \<longrightarrow> numbered ids posts')"
  using assms
proof (induction ws arbitrary: tree posts)
  case (Cons w ws)
  obtain tree1 posts1 where one: "index_token compare key doc w tree posts = Some (None, tree1, posts1)" "dictionary_ok compare tree1 posts1"
    "\<forall>t k. times_in posts1 t k = times_in posts t k + (if t = w \<and> k = key then 1 else 0)"
    "numbered ids posts \<longrightarrow> fmlookup ids key = Some doc \<longrightarrow> numbered ids posts1"
    using index_token_ok [OF Cons.prems, of key doc w ids] by blast
  obtain tree2 posts2 where two: "index_tokens compare key doc ws tree1 posts1 = Some (None, tree2, posts2)" "dictionary_ok compare tree2 posts2"
    "\<forall>t k. times_in posts2 t k = times_in posts1 t k + (if k = key then count_list ws t else 0)"
    "numbered ids posts1 \<longrightarrow> fmlookup ids key = Some doc \<longrightarrow> numbered ids posts2"
    using Cons.IH [OF one(2)] by blast
  have "\<forall>t k. times_in posts2 t k = times_in posts t k + (if k = key then count_list (w # ws) t else 0)"
    using one(3) two(3) by auto
  then show ?case using one(1,4) two(1,2,4) by auto
qed simp

lemma bury_term_ok:
  fixes key :: 'a and w :: runes
  assumes ok: "dictionary_ok compare tree posts"
  defines "posts' \<equiv> bury_term compare key tree posts w"
  shows "dictionary_ok compare tree posts'" "times_in posts' t k = (if t = w \<and> k = key then 0 else times_in posts t k)"
    "numbered ids posts \<Longrightarrow> numbered ids posts'"
proof -
  have tree: "tree_ok tree" "set (bt_Values tree) = fset (fmdom posts)" using ok by (simp_all add: dictionary_ok_def)
  note l = bury_posting_ok [OF dictionary_list [OF ok], of key w]
  have p: "posts' = (if w \<in> fset (fmdom posts) then fmupd w (bury_posting compare key (list_at posts w)) posts else posts)"
    using tree by (simp add: posts'_def bury_term_def tree_find)
  show "dictionary_ok compare tree posts'" unfolding p using ok l(1) by (auto simp: dictionary_ok_def)
  show "times_in posts' t k = (if t = w \<and> k = key then 0 else times_in posts t k)"
    unfolding p using l(2) times_in_absent [of w posts] by (auto simp: times_in_def)
  show "numbered ids posts \<Longrightarrow> numbered ids posts'"
    unfolding p using l(3) numbered_list [of ids posts w] by (auto simp: numbered_def split: if_splits)
qed

lemma bury_terms_ok:
  assumes "dictionary_ok compare tree posts"
  shows "dictionary_ok compare tree (foldl (bury_term compare key tree) posts ws) \<and>
    (\<forall>t k. times_in (foldl (bury_term compare key tree) posts ws) t k = (if t \<in> set ws \<and> k = key then 0 else times_in posts t k)) \<and>
    (numbered ids posts \<longrightarrow> numbered ids (foldl (bury_term compare key tree) posts ws))"
  using assms
proof (induction ws arbitrary: posts)
  case (Cons w ws)
  note one = bury_term_ok [OF Cons.prems, where key = key and w = w]
  show ?case using Cons.IH [OF one(1)] one(2,3) by auto
qed simp

lemma flush_lists_ok:
  assumes "dictionary_ok compare tree posts" "distinct ws" "set ws \<subseteq> set (bt_Values tree)"
  shows "\<exists>tree' posts'. flush_lists number ws tree posts = Some (tree', posts') \<and> dictionary_ok compare tree' posts' \<and>
    times_in posts' = times_in posts \<and>
    (\<forall>t l. fmlookup posts' t = Some l \<longrightarrow>
       (if t \<in> set ws then sightings l = {(k, number k) |k. times_in posts t k \<noteq> 0} \<and> pl_live l \<noteq> 0 else fmlookup posts t = Some l))"
  using assms
proof (induction ws arbitrary: tree posts)
  case (Cons w ws)
  have tree: "tree_ok tree" "set (bt_Values tree) = fset (fmdom posts)" using Cons.prems(1) by (simp_all add: dictionary_ok_def)
  have w: "w \<in> set (bt_Values tree)" "w \<notin> set ws" "distinct ws" "set ws \<subseteq> set (bt_Values tree)" using Cons.prems(2,3) by auto
  note lok = dictionary_list [OF Cons.prems(1), of w]
  note l = compact_list_ok [OF lok, of number]
  show ?case
  proof (cases "pl_live (list_at posts w) = 0")
    case True
    obtain tree1 where t1: "bt_Delete tree w = Some (True, tree1)" "tree_ok tree1" "set (bt_Values tree1) = set (bt_Values tree) - {w}"
      using tree_delete [OF tree(1) w(1)] .
    let ?posts = "fmdrop w posts"
    have d: "dictionary_ok compare tree1 ?posts" using Cons.prems(1) t1(2,3) by (auto simp: dictionary_ok_def)
    have "{k. frequency (entries_of (list_at posts w)) k \<noteq> 0} = {}"
      using True live_is_card [OF lok] live_keys [of "entries_of (list_at posts w)"] lok by (simp add: list_ok_def)
    then have same: "times_in ?posts = times_in posts" by (auto simp: times_in_def fun_eq_iff)
    obtain tree' posts' where r: "flush_lists number ws tree1 ?posts = Some (tree', posts')" "dictionary_ok compare tree' posts'"
      "times_in posts' = times_in ?posts"
      "\<forall>t l. fmlookup posts' t = Some l \<longrightarrow> (if t \<in> set ws then sightings l = {(k, number k) |k. times_in ?posts t k \<noteq> 0} \<and> pl_live l \<noteq> 0
         else fmlookup ?posts t = Some l)"
      using Cons.IH [OF d w(3)] w t1(3) by blast
    have "\<forall>t l. fmlookup posts' t = Some l \<longrightarrow> (if t \<in> set (w # ws) then sightings l = {(k, number k) |k. times_in posts t k \<noteq> 0} \<and> pl_live l \<noteq> 0
         else fmlookup posts t = Some l)"
      using r(4) w(2) unfolding same by (auto split: if_splits)
    then show ?thesis using r(1,2,3) same True t1(1) by auto
  next
    case False
    let ?l = "compact_list number (list_at posts w)" and ?posts = "fmupd w (compact_list number (list_at posts w)) posts"
    have d: "dictionary_ok compare tree ?posts" using Cons.prems(1) l(1) w(1) tree(2) by (auto simp: dictionary_ok_def)
    have same: "times_in ?posts = times_in posts" using l(2) by (auto simp: times_in_def fun_eq_iff)
    obtain tree' posts' where r: "flush_lists number ws tree ?posts = Some (tree', posts')" "dictionary_ok compare tree' posts'"
      "times_in posts' = times_in ?posts"
      "\<forall>t l. fmlookup posts' t = Some l \<longrightarrow> (if t \<in> set ws then sightings l = {(k, number k) |k. times_in ?posts t k \<noteq> 0} \<and> pl_live l \<noteq> 0
         else fmlookup ?posts t = Some l)"
      using Cons.IH [OF d w(3,4)] by blast
    have "sightings ?l = {(k, number k) |k. times_in posts w k \<noteq> 0}" "pl_live ?l \<noteq> 0"
      using l(3) False by (simp_all add: times_in_def compact_list_def)
    note whole = this
    have "\<forall>t l. fmlookup posts' t = Some l \<longrightarrow> (if t \<in> set (w # ws) then sightings l = {(k, number k) |k. times_in posts t k \<noteq> 0} \<and> pl_live l \<noteq> 0
         else fmlookup posts t = Some l)"
    proof (intro allI impI)
      fix t l
      assume look: "fmlookup posts' t = Some l"
      note r4 = r(4) [rule_format, OF look, unfolded same]
      show "if t \<in> set (w # ws) then sightings l = {(k, number k) |k. times_in posts t k \<noteq> 0} \<and> pl_live l \<noteq> 0 else fmlookup posts t = Some l"
      proof (cases "t = w")
        case True
        then have "l = ?l" using r4 w(2) by simp
        then show ?thesis using whole True by simp
      next
        case False
        then show ?thesis using r4 by (cases "t \<in> set ws") simp_all
      qed
    qed
    then show ?thesis using r(1,2,3) same False by auto
  qed
qed simp

end

section \<open>The index\<close>

text \<open>How often a map of documents holds a term under a key.\<close>

definition held :: "(runes \<Rightarrow> runes list) \<Rightarrow> ('k, runes) fmap \<Rightarrow> runes \<Rightarrow> 'k \<Rightarrow> nat" where
  "held tokenize docs t k = (case fmlookup docs k of None \<Rightarrow> 0 | Some v \<Rightarrow> count_list (tokenize v) t)"

lemma held_simps [simp]:
  "held tokenize fmempty t k = 0"
  "held tokenize (fmdrop key docs) t k = (if k = key then 0 else held tokenize docs t k)"
  "held tokenize (fmupd key v docs) t k = (if k = key then count_list (tokenize v) t else held tokenize docs t k)"
  by (simp_all add: held_def)

text \<open>The index serves a map of documents.\<close>

definition serves :: "'k BTreeIndex \<Rightarrow> ('k, runes) fmap \<Rightarrow> bool" where
  "serves idx docs \<longleftrightarrow> dictionary_ok (bi_compare idx) (bi_tree idx) (bi_lists idx) \<and>
     (\<forall>t k. times_in (bi_lists idx) t k = held (bi_tokenizer idx) docs t k) \<and>
     numbered (bi_ids idx) (bi_lists idx) \<and>
     distinct (bi_keys idx) \<and> (\<forall>k i. fmlookup (bi_ids idx) k = Some i \<longleftrightarrow> i < length (bi_keys idx) \<and> bi_keys idx ! i = k) \<and>
     fset (fmdom docs) \<subseteq> set (bi_keys idx) \<and>
     records (bi_relevance idx) (fmmap (bi_tokenizer idx) docs)"

definition text_ok :: "'k BTreeIndex \<Rightarrow> bool" where
  "text_ok idx \<longleftrightarrow> serves idx (bi_documents idx) \<and> bi_dead idx \<le> text_Count idx"

lemma serves_times:
  "serves idx docs \<Longrightarrow> times_in (bi_lists idx) t k = held (bi_tokenizer idx) docs t k"
  by (simp add: serves_def)

lemma serves_cong:
  "serves idx docs \<Longrightarrow> bi_tree idx' = bi_tree idx \<Longrightarrow> bi_lists idx' = bi_lists idx \<Longrightarrow> bi_tokenizer idx' = bi_tokenizer idx \<Longrightarrow>
   bi_relevance idx' = bi_relevance idx \<Longrightarrow> bi_compare idx' = bi_compare idx \<Longrightarrow> bi_ids idx' = bi_ids idx \<Longrightarrow>
   bi_keys idx' = bi_keys idx \<Longrightarrow> serves idx' docs"
  by (simp add: serves_def)

lemma removePostings_fields:
  "bi_tree (removePostings key v idx) = bi_tree idx" "bi_compare (removePostings key v idx) = bi_compare idx"
  "bi_documents (removePostings key v idx) = bi_documents idx" "bi_tokenizer (removePostings key v idx) = bi_tokenizer idx"
  "bi_ids (removePostings key v idx) = bi_ids idx" "bi_keys (removePostings key v idx) = bi_keys idx"
  "bi_gamma (removePostings key v idx) = bi_gamma idx" "bi_neighbours (removePostings key v idx) = bi_neighbours idx"
  "bi_dead (removePostings key v idx) = Suc (bi_dead idx)" "bi_relevance (removePostings key v idx) = rel_Removed (bi_relevance idx) key"
  "bi_lists (removePostings key v idx) = foldl (bury_term (bi_compare idx) key (bi_tree idx)) (bi_lists idx) (bi_tokenizer idx v)"
  by (simp_all add: removePostings_def)

context total_comparator
begin

lemma removePostings_serves:
  assumes s: "serves idx docs" "bi_compare idx = compare" and old: "fmlookup docs key = Some v"
  shows "serves (removePostings key v idx) (fmdrop key docs)"
proof -
  let ?t = "bi_tokenizer idx v"
  have d: "dictionary_ok compare (bi_tree idx) (bi_lists idx)" using s by (simp add: serves_def)
  note b = bury_terms_ok [OF d, where key = key and ws = ?t and ids = "bi_ids idx"]
  have n: "numbered (bi_ids idx) (bi_lists idx)" using s(1) by (simp add: serves_def)
  have times: "times_in (foldl (bury_term compare key (bi_tree idx)) (bi_lists idx) ?t) t k =
      held (bi_tokenizer idx) (fmdrop key docs) t k" for t k
  proof -
    have "t \<notin> set ?t \<Longrightarrow> times_in (bi_lists idx) t key = 0" using serves_times [OF s(1), of t key] old by (simp add: held_def)
    then show ?thesis using b serves_times [OF s(1), of t k] by auto
  qed
  have r: "records (rel_Removed (bi_relevance idx) key) (fmdrop key (fmmap (bi_tokenizer idx) docs))"
    by (rule Removed_records [where tokens = ?t]) (use s(1) old in \<open>simp_all add: serves_def\<close>)
  have "fmmap (bi_tokenizer idx) (fmdrop key docs) = fmdrop key (fmmap (bi_tokenizer idx) docs)" by (rule fmap_ext) simp
  then have r: "records (rel_Removed (bi_relevance idx) key) (fmmap (bi_tokenizer idx) (fmdrop key docs))" using r by simp
  show ?thesis unfolding serves_def removePostings_fields s(2)
  proof (intro conjI allI)
    show "fset (fmdom (fmdrop key docs)) \<subseteq> set (bi_keys idx)" using s(1) by (auto simp: serves_def)
  qed (use s(1) b n times r in \<open>simp_all add: serves_def\<close>)
qed

lemma number_document_serves:
  assumes s: "serves idx docs" "fmlookup docs key = None"
  obtains doc idx' where "number_document key idx = (doc, idx')" "serves idx' docs" "fmlookup (bi_ids idx') key = Some doc"
    "key \<in> set (bi_keys idx')" "bi_documents idx' = bi_documents idx" "bi_tokenizer idx' = bi_tokenizer idx" "bi_compare idx' = bi_compare idx"
    "bi_relevance idx' = bi_relevance idx" "bi_dead idx' = bi_dead idx" "bi_tree idx' = bi_tree idx" "bi_lists idx' = bi_lists idx"
    "bi_gamma idx' = bi_gamma idx" "bi_neighbours idx' = bi_neighbours idx"
proof (cases "fmlookup (bi_ids idx) key")
  case None
  let ?ids = "fmupd key (length (bi_keys idx)) (bi_ids idx)" and ?keys = "bi_keys idx @ [key]"
  have ids: "\<forall>k i. fmlookup (bi_ids idx) k = Some i \<longleftrightarrow> i < length (bi_keys idx) \<and> bi_keys idx ! i = k" using s(1) by (simp add: serves_def)
  then have new: "key \<notin> set (bi_keys idx)" using None by (metis in_set_conv_nth option.distinct(1))
  have ids': "fmlookup ?ids k = Some i \<longleftrightarrow> i < length ?keys \<and> ?keys ! i = k" for k i
    using ids new by (auto simp: nth_append less_Suc_eq)
  have "numbered ?ids (bi_lists idx)"
    using s(1) None by (auto simp: serves_def numbered_def) (metis (mono_tags, lifting) case_prodD mem_Collect_eq option.distinct(1) subsetD)+
  then have "serves (idx\<lparr>bi_ids := ?ids, bi_keys := ?keys\<rparr>) docs" using s(1) new ids' by (auto simp: serves_def)
  then show ?thesis using that None by (simp add: number_document_def)
next
  case (Some doc)
  then have "key \<in> set (bi_keys idx)" using s(1) by (auto simp: serves_def)
  then show ?thesis using that [of doc idx] Some s(1) by (simp add: number_document_def)
qed

lemma Flush_ok:
  assumes s: "serves idx (bi_documents idx)" "bi_compare idx = compare"
  obtains idx' where "text_Flush idx = Some idx'" "serves idx' (bi_documents idx)" "bi_documents idx' = bi_documents idx"
    "bi_dead idx' = 0" "bi_compare idx' = compare" "bi_tokenizer idx' = bi_tokenizer idx" "bi_gamma idx' = bi_gamma idx"
    "bi_neighbours idx' = bi_neighbours idx" "bi_relevance idx' = bi_relevance idx" "times_in (bi_lists idx') = times_in (bi_lists idx)"
    "\<forall>t l. fmlookup (bi_lists idx') t = Some l \<longrightarrow> pl_live l \<noteq> 0"
proof -
  let ?keys = "filter (\<lambda>key. key |\<in>| fmdom (bi_documents idx)) (bi_keys idx)"
  let ?ids = "positions ?keys" and ?ts = "bt_Values (bi_tree idx)"
  have d: "dictionary_ok compare (bi_tree idx) (bi_lists idx)" using s by (simp add: serves_def)
  then have ts: "distinct ?ts" "set ?ts = fset (fmdom (bi_lists idx))" using tree_ok_values [of "bi_tree idx"] by (simp_all add: dictionary_ok_def)
  obtain tree' posts' where f: "flush_lists (number_in ?ids) ?ts (bi_tree idx) (bi_lists idx) = Some (tree', posts')" "dictionary_ok compare tree' posts'"
    "times_in posts' = times_in (bi_lists idx)"
    "\<forall>t l. fmlookup posts' t = Some l \<longrightarrow> (if t \<in> set ?ts then sightings l = {(k, number_in ?ids k) |k. times_in (bi_lists idx) t k \<noteq> 0} \<and> pl_live l \<noteq> 0
       else fmlookup (bi_lists idx) t = Some l)"
    using flush_lists_ok [OF d ts(1) subset_refl] by blast
  have inside: "t \<in> set ?ts" if "fmlookup posts' t = Some l" for t l
  proof (rule ccontr)
    assume out: "t \<notin> set ?ts"
    then have "fmlookup (bi_lists idx) t = Some l" using f(4) [rule_format, OF that] by simp
    then show False using out ts(2) by (simp add: fmlookup_dom_iff)
  qed
  have live: "sightings l = {(k, number_in ?ids k) |k. times_in (bi_lists idx) t k \<noteq> 0} \<and> pl_live l \<noteq> 0" if "fmlookup posts' t = Some l" for t l
    using f(4) [rule_format, OF that] inside [OF that] by simp
  have keys: "distinct ?keys" "set ?keys = fset (fmdom (bi_documents idx))" using s(1) by (auto simp: serves_def)
  note ids = positions_lookup [OF keys(1)]
  have named: "fmlookup ?ids k = Some (number_in ?ids k)" if "times_in (bi_lists idx) t k \<noteq> 0" for t k
  proof -
    have "k |\<in>| fmdom (bi_documents idx)"
      using that serves_times [OF s(1), of t k] by (auto simp: held_def split: option.splits intro: fmdomI)
    then have "k \<in> set ?keys" using keys(2) by simp
    then obtain i where "i < length ?keys" "?keys ! i = k" unfolding in_set_conv_nth by blast
    then have "fmlookup ?ids k = Some i" using ids by blast
    then show ?thesis by (simp add: number_in_def)
  qed
  have numbered: "numbered ?ids posts'" using live named by (fastforce simp: numbered_def)
  let ?idx' = "idx\<lparr>bi_tree := tree', bi_lists := posts', bi_ids := ?ids, bi_keys := ?keys, bi_dead := 0\<rparr>"
  have "serves ?idx' (bi_documents idx)"
    using s f(2,3) numbered keys ids by (simp add: serves_def del: set_filter)
  then show ?thesis using that [of ?idx'] f(1,3) s(2) live by (simp add: text_Flush_def Let_def)
qed

lemma maybeFlush_ok:
  assumes s: "serves idx (bi_documents idx)" "bi_compare idx = compare"
  obtains idx' where "maybeFlush idx = Some idx'" "text_ok idx'" "bi_documents idx' = bi_documents idx"
    "bi_compare idx' = compare" "bi_tokenizer idx' = bi_tokenizer idx" "bi_gamma idx' = bi_gamma idx" "bi_neighbours idx' = bi_neighbours idx"
proof (cases "bi_dead idx \<le> text_Count idx")
  case True
  then show ?thesis using that [of idx] s by (simp add: maybeFlush_def text_ok_def)
next
  case False
  obtain idx' where "text_Flush idx = Some idx'" "serves idx' (bi_documents idx)" "bi_documents idx' = bi_documents idx"
    "bi_dead idx' = 0" "bi_compare idx' = compare" "bi_tokenizer idx' = bi_tokenizer idx" "bi_gamma idx' = bi_gamma idx"
    "bi_neighbours idx' = bi_neighbours idx" using Flush_ok [OF s] .
  then show ?thesis using that [of idx'] False by (simp add: maybeFlush_def text_ok_def)
qed

lemma index_ok:
  assumes ok: "text_ok idx" and cmp: "bi_compare idx = compare"
  obtains idx' where "text_index key v idx = Some (None, idx')" "text_ok idx'" "bi_documents idx' = fmupd key v (bi_documents idx)"
    "bi_compare idx' = compare" "bi_tokenizer idx' = bi_tokenizer idx" "bi_gamma idx' = bi_gamma idx" "bi_neighbours idx' = bi_neighbours idx"
proof -
  let ?docs = "fmdrop key (bi_documents idx)"
  define idx1 where "idx1 = (case text_Retrieve idx key of Inr old \<Rightarrow> removePostings key old idx | Inl _ \<Rightarrow> idx)"
  have s: "serves idx (bi_documents idx)" using ok by (simp add: text_ok_def)
  have one: "serves idx1 ?docs \<and> bi_documents idx1 = bi_documents idx \<and> bi_compare idx1 = compare \<and>
      bi_tokenizer idx1 = bi_tokenizer idx \<and> bi_gamma idx1 = bi_gamma idx \<and> bi_neighbours idx1 = bi_neighbours idx"
  proof (cases "fmlookup (bi_documents idx) key")
    case None
    then have "?docs = bi_documents idx" by (intro fmap_ext) auto
    then show ?thesis using None s cmp by (simp add: idx1_def text_Retrieve_def)
  next
    case (Some old)
    then show ?thesis using removePostings_serves [OF s cmp Some] cmp by (simp add: idx1_def text_Retrieve_def removePostings_fields)
  qed
  obtain doc idx2 where two: "number_document key idx1 = (doc, idx2)" "serves idx2 ?docs" "fmlookup (bi_ids idx2) key = Some doc"
    "key \<in> set (bi_keys idx2)" "bi_documents idx2 = bi_documents idx1" "bi_tokenizer idx2 = bi_tokenizer idx1" "bi_compare idx2 = bi_compare idx1"
    "bi_relevance idx2 = bi_relevance idx1" "bi_dead idx2 = bi_dead idx1" "bi_tree idx2 = bi_tree idx1" "bi_lists idx2 = bi_lists idx1"
    "bi_gamma idx2 = bi_gamma idx1" "bi_neighbours idx2 = bi_neighbours idx1"
    by (rule number_document_serves [of idx1 ?docs key]) (use one in simp_all)
  have cmp2: "bi_compare idx2 = compare" using two(7) one by simp
  let ?ws = "bi_tokenizer idx2 v"
  have d: "dictionary_ok compare (bi_tree idx2) (bi_lists idx2)" using two(2) cmp2 by (simp add: serves_def)
  obtain tree' posts' where three: "index_tokens compare key doc ?ws (bi_tree idx2) (bi_lists idx2) = Some (None, tree', posts')"
    "dictionary_ok compare tree' posts'"
    "\<forall>t k. times_in posts' t k = times_in (bi_lists idx2) t k + (if k = key then count_list ?ws t else 0)"
    "numbered (bi_ids idx2) (bi_lists idx2) \<longrightarrow> fmlookup (bi_ids idx2) key = Some doc \<longrightarrow> numbered (bi_ids idx2) posts'"
    using index_tokens_ok [OF d, of key doc ?ws "bi_ids idx2"] by blast
  let ?idx3 = "idx2\<lparr>bi_tree := tree', bi_lists := posts', bi_documents := fmupd key v (bi_documents idx2),
     bi_relevance := rel_Indexed (bi_relevance idx2) key ?ws\<rparr>"
  have docs3: "bi_documents ?idx3 = fmupd key v (bi_documents idx)" using two(5) one by simp
  have restore: "fmupd key v ?docs = fmupd key v (bi_documents idx)" by (rule fmap_ext) simp
  have r: "records (rel_Indexed (bi_relevance idx2) key ?ws) (fmupd key ?ws (fmmap (bi_tokenizer idx2) ?docs))"
    by (rule Indexed_records) (use two(2) in \<open>simp_all add: serves_def\<close>)
  have "fmupd key ?ws (fmmap (bi_tokenizer idx2) ?docs) = fmmap (bi_tokenizer idx2) (fmupd key v ?docs)" by (rule fmap_ext) simp
  then have r: "records (rel_Indexed (bi_relevance idx2) key ?ws) (fmmap (bi_tokenizer idx2) (fmupd key v ?docs))" using r by simp
  have times: "times_in posts' t k = held (bi_tokenizer idx2) (fmupd key v ?docs) t k" for t k
    using three(3) serves_times [OF two(2), of t k] by auto
  have "serves ?idx3 (fmupd key v ?docs)"
    using two(2,3,4) three(2,4) r times cmp2 by (auto simp: serves_def simp del: held_simps)
  then have s3: "serves ?idx3 (bi_documents ?idx3)" unfolding docs3 restore .
  obtain idx' where m: "maybeFlush ?idx3 = Some idx'" "text_ok idx'" "bi_documents idx' = bi_documents ?idx3" "bi_compare idx' = compare"
    "bi_tokenizer idx' = bi_tokenizer ?idx3" "bi_gamma idx' = bi_gamma ?idx3" "bi_neighbours idx' = bi_neighbours ?idx3"
    using maybeFlush_ok [OF s3] cmp2 by auto
  have run: "text_index key v idx = Some (None, idx')"
    using two(1) three(1) m(1) cmp2 by (simp add: text_index_def idx1_def [symmetric] Let_def)
  show ?thesis by (rule that [OF run m(2) _ m(4)]) (use m(3,5,6,7) docs3 two one in simp_all)
qed

lemma Delete_ok:
  assumes ok: "text_ok idx" and cmp: "bi_compare idx = compare" and old: "fmlookup (bi_documents idx) key = Some v"
  obtains idx' where "text_Delete key idx = Some (None, idx')" "text_ok idx'" "bi_documents idx' = fmdrop key (bi_documents idx)"
    "bi_compare idx' = compare" "bi_tokenizer idx' = bi_tokenizer idx" "bi_gamma idx' = bi_gamma idx" "bi_neighbours idx' = bi_neighbours idx"
proof -
  let ?idx1 = "removePostings key v idx"
  let ?idx2 = "?idx1\<lparr>bi_documents := fmdrop key (bi_documents ?idx1)\<rparr>"
  have "serves ?idx1 (fmdrop key (bi_documents idx))" by (rule removePostings_serves [OF _ cmp old]) (use ok in \<open>simp add: text_ok_def\<close>)
  then have s1: "serves ?idx1 (bi_documents ?idx2)" by (simp add: removePostings_fields)
  have s2: "serves ?idx2 (bi_documents ?idx2)" by (rule serves_cong [OF s1]) simp_all
  have c2: "bi_compare ?idx2 = compare" using cmp by (simp add: removePostings_fields)
  obtain idx' where m: "maybeFlush ?idx2 = Some idx'" "text_ok idx'" "bi_documents idx' = bi_documents ?idx2" "bi_compare idx' = compare"
    "bi_tokenizer idx' = bi_tokenizer ?idx2" "bi_gamma idx' = bi_gamma ?idx2" "bi_neighbours idx' = bi_neighbours ?idx2"
    using maybeFlush_ok [OF s2 c2] .
  have "text_Delete key idx = Some (None, idx')" using m(1) old by (simp add: text_Delete_def text_Retrieve_def Let_def)
  then show ?thesis by (rule that [OF _ m(2) _ m(4)]) (use m(3,5,6,7) in \<open>simp_all add: removePostings_fields\<close>)
qed

end

section \<open>A map of documents\<close>

text \<open>What a client may ask, and the answer of a plain map.\<close>

datatype 'k text_op = TInsert 'k runes | TUpdate 'k runes | TDelete 'k | TFlush | TWindow real "('k \<Rightarrow> 'k list) option"

definition run_op :: "'k text_op \<Rightarrow> 'k BTreeIndex \<Rightarrow> (index_error option \<times> 'k BTreeIndex) option" where
  "run_op op idx = (case op of
     TInsert key v \<Rightarrow> text_Insert key v idx
   | TUpdate key v \<Rightarrow> text_Update key v idx
   | TDelete key \<Rightarrow> text_Delete key idx
   | TFlush \<Rightarrow> map_option (Pair None) (text_Flush idx)
   | TWindow gamma neighbours \<Rightarrow> Some (None, SetWindow gamma neighbours idx))"

definition map_op :: "'k text_op \<Rightarrow> ('k, runes) fmap \<Rightarrow> index_error option \<times> ('k, runes) fmap" where
  "map_op op docs = (case op of
     TInsert key v \<Rightarrow> (None, fmupd key v docs)
   | TUpdate key v \<Rightarrow> if key |\<in>| fmdom docs then (None, fmupd key v docs) else (Some ErrIndexNotFound, docs)
   | TDelete key \<Rightarrow> if key |\<in>| fmdom docs then (None, fmdrop key docs) else (Some ErrIndexNotFound, docs)
   | TFlush \<Rightarrow> (None, docs)
   | TWindow gamma neighbours \<Rightarrow> (None, docs))"

fun run_ops :: "'k text_op list \<Rightarrow> 'k BTreeIndex \<Rightarrow> (index_error option list \<times> 'k BTreeIndex) option" where
  "run_ops [] idx = Some ([], idx)"
| "run_ops (op # ops) idx = (case run_op op idx of
     None \<Rightarrow> None
   | Some (e, idx1) \<Rightarrow> map_option (\<lambda>(es, idx2). (e # es, idx2)) (run_ops ops idx1))"

fun map_ops :: "'k text_op list \<Rightarrow> ('k, runes) fmap \<Rightarrow> index_error option list \<times> ('k, runes) fmap" where
  "map_ops [] docs = ([], docs)"
| "map_ops (op # ops) docs = (let (e, docs1) = map_op op docs; (es, docs2) = map_ops ops docs1 in (e # es, docs2))"

definition fresh_index :: "unicode \<Rightarrow> (runes \<Rightarrow> runes list) \<Rightarrow> bool \<Rightarrow> ('k :: linorder) BTreeIndex" where
  "fresh_index u tokenize bm25 =
     SetRelevance (if bm25 then Some NewBM25 else None) (SetTokenizer (Some tokenize) (NewBTreeIndex u OrderedComparator))"

lemma fresh_index_ok:
  "text_ok (fresh_index u tokenize bm25)" "bi_compare (fresh_index u tokenize bm25) = OrderedComparator"
  "bi_tokenizer (fresh_index u tokenize bm25) = tokenize" "bi_documents (fresh_index u tokenize bm25) = fmempty"
  "is_BM25 (bi_relevance (fresh_index u tokenize bm25)) = bm25"
proof -
  have "tree_ok (NewBTree 32 (OrderedComparator :: runes comparator))" by (simp add: tree_ok_def ordered_cmp.NewBTree_fits)
  moreover have "bt_Values (NewBTree 32 (OrderedComparator :: runes comparator)) = []" by (simp add: NewBTree_def bt_Values_def)
  ultimately show "text_ok (fresh_index u tokenize bm25)"
    by (simp add: text_ok_def serves_def fresh_index_def SetRelevance_def SetTokenizer_def NewBTreeIndex_def dictionary_ok_def
        numbered_def times_in_def list_at_def records_empty)
qed (simp_all add: fresh_index_def SetRelevance_def SetTokenizer_def NewBTreeIndex_def NewBM25_def)

lemma run_op_refines:
  fixes idx :: "('k :: linorder) BTreeIndex"
  assumes ok: "text_ok idx" and cmp: "bi_compare idx = OrderedComparator"
  shows "\<exists>idx'. run_op op idx = Some (fst (map_op op (bi_documents idx)), idx') \<and> bi_documents idx' = snd (map_op op (bi_documents idx)) \<and>
    text_ok idx' \<and> bi_compare idx' = OrderedComparator \<and> bi_tokenizer idx' = bi_tokenizer idx"
proof -
  have s: "serves idx (bi_documents idx)" using ok by (simp add: text_ok_def)
  have ins: "\<exists>idx'. text_index key v idx = Some (None, idx') \<and> bi_documents idx' = fmupd key v (bi_documents idx) \<and>
    text_ok idx' \<and> bi_compare idx' = OrderedComparator \<and> bi_tokenizer idx' = bi_tokenizer idx" for key v
    by (rule ordered_cmp.index_ok [OF ok cmp, of key v]) blast
  have del: "\<exists>idx'. text_Delete key idx = Some (None, idx') \<and> bi_documents idx' = fmdrop key (bi_documents idx) \<and>
    text_ok idx' \<and> bi_compare idx' = OrderedComparator \<and> bi_tokenizer idx' = bi_tokenizer idx" if "fmlookup (bi_documents idx) key = Some v" for key v
    by (rule ordered_cmp.Delete_ok [OF ok cmp that]) blast
  have flush: "\<exists>idx'. text_Flush idx = Some idx' \<and> bi_documents idx' = bi_documents idx \<and>
    text_ok idx' \<and> bi_compare idx' = OrderedComparator \<and> bi_tokenizer idx' = bi_tokenizer idx"
    by (rule ordered_cmp.Flush_ok [OF s cmp]) (simp add: text_ok_def)
  show ?thesis
  proof (cases op)
    case (TInsert key v)
    then show ?thesis using ins [of key v] by (simp add: run_op_def map_op_def text_Insert_def)
  next
    case (TUpdate key v)
    then show ?thesis using ins [of key v] ok cmp
      by (auto simp: run_op_def map_op_def text_Update_def text_Retrieve_def fmlookup_dom_iff split: option.split)
  next
    case (TDelete key)
    then show ?thesis using del [of key] ok cmp
      by (cases "fmlookup (bi_documents idx) key") (auto simp: run_op_def map_op_def text_Delete_def text_Retrieve_def fmlookup_dom_iff)
  next
    case TFlush
    then show ?thesis using flush by (auto simp: run_op_def map_op_def)
  next
    case (TWindow gamma neighbours)
    have "serves (SetWindow gamma neighbours idx) (bi_documents idx)" by (rule serves_cong [OF s]) (simp_all add: SetWindow_def)
    then show ?thesis using TWindow ok cmp by (simp add: run_op_def map_op_def text_ok_def SetWindow_def text_Count_def)
  qed
qed

lemma run_ops_refine:
  fixes idx :: "('k :: linorder) BTreeIndex"
  assumes "text_ok idx" "bi_compare idx = OrderedComparator"
  shows "\<exists>idx'. run_ops ops idx = Some (fst (map_ops ops (bi_documents idx)), idx') \<and> bi_documents idx' = snd (map_ops ops (bi_documents idx)) \<and>
    text_ok idx' \<and> bi_compare idx' = OrderedComparator \<and> bi_tokenizer idx' = bi_tokenizer idx"
  using assms
proof (induction ops arbitrary: idx)
  case (Cons op ops)
  obtain idx1 where one: "run_op op idx = Some (fst (map_op op (bi_documents idx)), idx1)" "bi_documents idx1 = snd (map_op op (bi_documents idx))"
    "text_ok idx1" "bi_compare idx1 = OrderedComparator" "bi_tokenizer idx1 = bi_tokenizer idx"
    using run_op_refines [OF Cons.prems] by blast
  show ?case using Cons.IH [OF one(3,4)] one(1,2,5) by (auto simp: Let_def split: prod.splits)
qed simp

text \<open>C36: The text index is a map of documents. Whatever operations run on a fresh index, whatever its tokenizer and
  relevance model, the B-tree never panics, every operation returns the error a plain map would return,
  \<open>Retrieve\<close> and \<open>Count\<close> read that map, the entries are at most twice the documents, and a compaction changes no
  document and leaves an entry for each.\<close>

theorem text_index_is_map_of_documents:
  fixes ops :: "('k :: linorder) text_op list"
  shows "\<exists>idx. run_ops ops (fresh_index u tokenize bm25) = Some (fst (map_ops ops fmempty), idx) \<and>
    (\<forall>k. text_Retrieve idx k = (case fmlookup (snd (map_ops ops fmempty)) k of None \<Rightarrow> Inl ErrIndexNotFound | Some v \<Rightarrow> Inr v)) \<and>
    text_Count idx = fcard (fmdom (snd (map_ops ops fmempty))) \<and> text_Entries idx \<le> 2 * text_Count idx \<and>
    (\<exists>idx'. text_Flush idx = Some idx' \<and> bi_documents idx' = bi_documents idx \<and> text_Entries idx' = text_Count idx)"
proof -
  note fresh = fresh_index_ok [of u tokenize bm25]
  obtain idx where r: "run_ops ops (fresh_index u tokenize bm25) = Some (fst (map_ops ops fmempty), idx)"
    "bi_documents idx = snd (map_ops ops fmempty)" "text_ok idx" "bi_compare idx = OrderedComparator"
    using run_ops_refine [OF fresh(1,2)] unfolding fresh(4) by blast
  have s: "serves idx (bi_documents idx)" using r(3) by (simp add: text_ok_def)
  obtain idx' where f: "text_Flush idx = Some idx'" "bi_documents idx' = bi_documents idx" "bi_dead idx' = 0"
    using ordered_cmp.Flush_ok [OF s r(4)] .
  have "text_Entries idx' = text_Count idx" using f by (simp add: text_Entries_def text_Count_def)
  moreover have "text_Entries idx \<le> 2 * text_Count idx" using r(3) by (simp add: text_ok_def text_Entries_def)
  ultimately show ?thesis using r(1,2) f(1,2) by (auto simp: text_Retrieve_def text_Count_def)
qed

section \<open>Statistics\<close>

lemma kind_kept [simp]:
  "is_BM25 (rel_Indexed r key ws) = is_BM25 r" "is_BM25 (rel_Removed r key) = is_BM25 r"
  by (cases r; simp add: rel_Indexed_def rel_Removed_def)+

lemma Flush_kind: "text_Flush idx = Some idx' \<Longrightarrow> bi_relevance idx' = bi_relevance idx"
  by (auto simp: text_Flush_def Let_def)

lemma maybeFlush_kind: "maybeFlush idx = Some idx' \<Longrightarrow> bi_relevance idx' = bi_relevance idx"
  by (auto simp: maybeFlush_def Flush_kind split: if_splits)

lemma number_document_kind: "number_document key idx = (doc, idx') \<Longrightarrow> bi_relevance idx' = bi_relevance idx"
  by (auto simp: number_document_def split: option.splits)

lemma index_kind: "text_index key v idx = Some (e, idx') \<Longrightarrow> is_BM25 (bi_relevance idx') = is_BM25 (bi_relevance idx)"
  by (auto simp: text_index_def Let_def removePostings_fields dest!: maybeFlush_kind number_document_kind split: option.splits prod.splits sum.splits)

lemma run_op_kind: "run_op op idx = Some (e, idx') \<Longrightarrow> is_BM25 (bi_relevance idx') = is_BM25 (bi_relevance idx)"
  by (cases op) (auto simp: run_op_def text_Insert_def text_Update_def text_Delete_def SetWindow_def Let_def removePostings_fields
      dest: index_kind Flush_kind dest!: maybeFlush_kind split: sum.splits)

lemma run_ops_kind: "run_ops ops idx = Some (es, idx') \<Longrightarrow> is_BM25 (bi_relevance idx') = is_BM25 (bi_relevance idx)"
proof (induction ops arbitrary: idx es)
  case (Cons op ops)
  obtain e idx1 where one: "run_op op idx = Some (e, idx1)" using Cons.prems by (auto split: option.splits)
  then obtain es1 where "run_ops ops idx1 = Some (es1, idx')" using Cons.prems by auto
  then show ?case using Cons.IH run_op_kind [OF one] by simp
qed simp

lemma find_statistics:
  assumes s: "serves idx docs" and cmp: "bi_compare idx = (OrderedComparator :: ('k :: linorder) comparator)"
  shows "case bt_Find (bi_tree idx) t of
      None \<Rightarrow> (\<forall>k. held (bi_tokenizer idx) docs t k = 0)
    | Some t' \<Rightarrow> t' = t \<and> (\<forall>k. tf_in OrderedComparator (list_at (bi_lists idx) t) k = held (bi_tokenizer idx) docs t k) \<and>
        pl_live (list_at (bi_lists idx) t) = card {k. held (bi_tokenizer idx) docs t k \<noteq> 0}"
proof -
  have d: "dictionary_ok OrderedComparator (bi_tree idx) (bi_lists idx)" using s cmp by (simp add: serves_def)
  note l = dictionary_list [OF d, of t]
  have times: "frequency (entries_of (list_at (bi_lists idx) t)) k = held (bi_tokenizer idx) docs t k" for k
    using serves_times [OF s, of t k] by (simp add: times_in_def)
  have tree: "tree_ok (bi_tree idx)" "set (bt_Values (bi_tree idx)) = fset (fmdom (bi_lists idx))" using d by (simp_all add: dictionary_ok_def)
  have "held (bi_tokenizer idx) docs t k = 0" if "t \<notin> set (bt_Values (bi_tree idx))" for k
    using times_in_absent [of t "bi_lists idx" k] serves_times [OF s, of t k] that tree(2) by simp
  then show ?thesis using tree_find [OF tree(1), of t] ordered_cmp.tf_in_frequency [OF l] ordered_cmp.live_is_card [OF l] by (simp add: times)
qed

text \<open>C37: The statistics a search reads follow the documents. After any operations, looking a term up finds the
  posting list that counts, for every document, the occurrences of the term in its text, with the number of
  documents that hold the term as \<open>live\<close>; a term that is not found occurs in no document. The BM25 model has
  the length of every document and their sum.\<close>

theorem text_statistics_follow_documents:
  fixes idx :: "('k :: linorder) BTreeIndex"
  assumes "run_ops ops (fresh_index u tokenize bm25) = Some (es, idx)"
  shows "(case bt_Find (bi_tree idx) t of
      None \<Rightarrow> (\<forall>k. held tokenize (bi_documents idx) t k = 0)
    | Some t' \<Rightarrow> t' = t \<and> (\<forall>k. tf_in OrderedComparator (list_at (bi_lists idx) t) k = held tokenize (bi_documents idx) t k) \<and>
        pl_live (list_at (bi_lists idx) t) = card {k. held tokenize (bi_documents idx) t k \<noteq> 0}) \<and>
    bi_relevance idx = (if bm25 then BM25 (fmmap (\<lambda>v. length (tokenize v)) (bi_documents idx)) (token_sum (fmmap tokenize (bi_documents idx))) else MatchCount)"
proof -
  note fresh = fresh_index_ok [of u tokenize bm25]
  have r: "text_ok idx" "bi_compare idx = OrderedComparator" "bi_tokenizer idx = tokenize"
    using run_ops_refine [OF fresh(1,2), of ops] assms fresh(3) by auto
  have s: "serves idx (bi_documents idx)" using r(1) by (simp add: text_ok_def)
  have lookup: "case bt_Find (bi_tree idx) t of
      None \<Rightarrow> (\<forall>k. held tokenize (bi_documents idx) t k = 0)
    | Some t' \<Rightarrow> t' = t \<and> (\<forall>k. tf_in OrderedComparator (list_at (bi_lists idx) t) k = held tokenize (bi_documents idx) t k) \<and>
        pl_live (list_at (bi_lists idx) t) = card {k. held tokenize (bi_documents idx) t k \<noteq> 0}"
    using find_statistics [OF s r(2), of t] unfolding r(3) .
  have "is_BM25 (bi_relevance idx) = bm25" using run_ops_kind [OF assms] fresh(5) by simp
  moreover have "records (bi_relevance idx) (fmmap tokenize (bi_documents idx))" using s r(3) by (simp add: serves_def)
  moreover have "fmmap length (fmmap tokenize docs) = fmmap (\<lambda>v. length (tokenize v)) docs" for docs :: "('k, runes) fmap"
    by (rule fmap_ext) (simp add: option.map_comp comp_def)
  ultimately have "bi_relevance idx = (if bm25 then BM25 (fmmap (\<lambda>v. length (tokenize v)) (bi_documents idx)) (token_sum (fmmap tokenize (bi_documents idx))) else MatchCount)"
    by (cases "bi_relevance idx") (auto simp: records_def)
  with lookup show ?thesis by (rule conjI)
qed

theorem text_statistics_follow_documents_witness:
  "\<exists>idx. run_ops [TInsert (7 :: nat) [1, 2, 1]] (fresh_index \<lparr>wide_letter = (\<lambda>_. False), wide_digit = (\<lambda>_. False), wide_symbol = (\<lambda>_. False), wide_lower = (\<lambda>r. r)\<rparr> (map (\<lambda>r. [r])) True) = Some ([None], idx) \<and>
    bi_relevance idx = BM25 (fmmap (\<lambda>v. length (map (\<lambda>r. [r]) v)) (bi_documents idx)) (token_sum (fmmap (map (\<lambda>r. [r])) (bi_documents idx)))"
proof -
  let ?u = "\<lparr>wide_letter = (\<lambda>_. False), wide_digit = (\<lambda>_. False), wide_symbol = (\<lambda>_. False), wide_lower = (\<lambda>r. r)\<rparr> :: unicode"
  let ?f = "map (\<lambda>r. [r]) :: runes \<Rightarrow> runes list" and ?ops = "[TInsert (7 :: nat) [1, 2, 1]]"
  obtain idx where run: "run_ops ?ops (fresh_index ?u ?f True) = Some ([None], idx)"
    using run_ops_refine [OF fresh_index_ok(1,2), of ?ops ?u ?f True] by (auto simp: map_op_def)
  show ?thesis using run text_statistics_follow_documents [OF run, THEN conjunct2] by auto
qed

section \<open>Information\<close>

text \<open>The surprisal of a term among documents, and the terms of a query some document holds.\<close>

definition documents_with :: "(runes \<Rightarrow> runes list) \<Rightarrow> ('k, runes) fmap \<Rightarrow> runes \<Rightarrow> 'k set" where
  "documents_with tokenize docs t = {k. held tokenize docs t k \<noteq> 0}"

definition surprisal :: "(runes \<Rightarrow> runes list) \<Rightarrow> ('k, runes) fmap \<Rightarrow> runes \<Rightarrow> real" where
  "surprisal tokenize docs t = - log 2 (real (card (documents_with tokenize docs t)) / real (fcard (fmdom docs)))"

definition known_terms :: "(runes \<Rightarrow> runes list) \<Rightarrow> ('k, runes) fmap \<Rightarrow> runes list \<Rightarrow> runes list" where
  "known_terms tokenize docs ts = filter (\<lambda>t. card (documents_with tokenize docs t) \<noteq> 0) ts"

lemma documents_with_subset: "documents_with tokenize docs t \<subseteq> fset (fmdom docs)"
  by (auto simp: documents_with_def held_def split: option.splits intro: fmdomI)

lemma surprisal_nonneg: "0 \<le> surprisal tokenize docs t"
proof (cases "documents_with tokenize docs t = {}")
  case True
  then show ?thesis by (simp add: surprisal_def log_def)
next
  case False
  have fin: "finite (documents_with tokenize docs t)" using documents_with_subset finite_fset by (rule finite_subset)
  then have c: "0 < card (documents_with tokenize docs t)" using False by (simp add: card_gt_0_iff)
  have "card (documents_with tokenize docs t) \<le> fcard (fmdom docs)"
    unfolding fcard.rep_eq by (rule card_mono [OF finite_fset documents_with_subset])
  then have "real (card (documents_with tokenize docs t)) / real (fcard (fmdom docs)) \<le> 1" "0 < real (card (documents_with tokenize docs t)) / real (fcard (fmdom docs))"
    using c by simp_all
  then show ?thesis by (simp add: surprisal_def)
qed

lemma information_step_sums:
  assumes s: "serves idx (bi_documents idx)" and cmp: "bi_compare idx = (OrderedComparator :: ('k :: linorder) comparator)"
  defines "tokenize \<equiv> bi_tokenizer idx" and "docs \<equiv> bi_documents idx"
  shows "length hs = length keys \<Longrightarrow> information_step idx keys seen ws (m, hs) =
    (m + sum_list (map (surprisal tokenize docs) (known_terms tokenize docs (distinct_terms seen ws))),
     map2 (\<lambda>key h. h + sum_list (map (surprisal tokenize docs) (filter (\<lambda>t. key \<in> documents_with tokenize docs t)
       (known_terms tokenize docs (distinct_terms seen ws))))) keys hs)"
proof (induction ws arbitrary: seen m hs)
  case Nil
  then show ?case by (simp add: known_terms_def list_eq_iff_nth_eq)
next
  case (Cons w ws)
  note found = find_statistics [OF s cmp, of w, folded tokenize_def docs_def]
  show ?case
  proof (cases "w \<in> seen")
    case True
    then show ?thesis using Cons by simp
  next
    case new: False
    show ?thesis
    proof (cases "card (documents_with tokenize docs w) = 0")
      case True
      then have "information_step idx keys seen (w # ws) (m, hs) = information_step idx keys (insert w seen) ws (m, hs)"
        using new found by (auto simp: Let_def documents_with_def split: option.splits)
      then show ?thesis using Cons True new by (simp add: known_terms_def)
    next
      case False
      let ?b = "surprisal tokenize docs w"
      let ?hs = "map2 (\<lambda>key h. if key \<in> documents_with tokenize docs w then h + ?b else h) keys hs"
      have some: "bt_Find (bi_tree idx) w = Some w" using found False by (auto simp: documents_with_def split: option.splits)
      then have live: "pl_live (list_at (bi_lists idx) w) = card (documents_with tokenize docs w)"
        and tf: "\<And>k. tf_in OrderedComparator (list_at (bi_lists idx) w) k > 0 \<longleftrightarrow> k \<in> documents_with tokenize docs w"
        using found by (simp_all add: documents_with_def)
      have step: "information_step idx keys seen (w # ws) (m, hs) = information_step idx keys (insert w seen) ws (m + ?b, ?hs)"
        using new some False by (simp add: Let_def live cmp tf surprisal_def text_Count_def docs_def cong: if_cong del: not_gr_zero)
      have len: "length ?hs = length keys" using Cons.prems by simp
      show ?thesis unfolding step Cons.IH [OF len]
        using new False Cons.prems by (auto simp: known_terms_def list_eq_iff_nth_eq)
    qed
  qed
qed

text \<open>C38: The information of a query is the sum, over its distinct terms that some document holds, of the surprisal
  -log2 (df / N) of the term among the documents; a key holds the part of the terms its document holds. So no
  key holds more than the query carries, and a key that is not indexed holds nothing.\<close>

theorem information_is_surprisal:
  fixes idx :: "('k :: linorder) BTreeIndex"
  assumes "run_ops ops (fresh_index u tokenize bm25) = Some (es, idx)"
  shows "text_Information idx query keys =
    (sum_list (map (surprisal tokenize (bi_documents idx)) (known_terms tokenize (bi_documents idx) (distinct_terms {} (tokenize query)))),
     map (\<lambda>key. sum_list (map (surprisal tokenize (bi_documents idx)) (filter (\<lambda>t. key \<in> documents_with tokenize (bi_documents idx) t)
       (known_terms tokenize (bi_documents idx) (distinct_terms {} (tokenize query)))))) keys) \<and>
    list_all (\<lambda>held. held \<le> fst (text_Information idx query keys)) (snd (text_Information idx query keys)) \<and>
    (key |\<notin>| fmdom (bi_documents idx) \<longrightarrow> snd (text_Information idx query [key]) = [0])"
proof -
  note fresh = fresh_index_ok [of u tokenize bm25]
  have r: "text_ok idx" "bi_compare idx = OrderedComparator" "bi_tokenizer idx = tokenize"
    using run_ops_refine [OF fresh(1,2), of ops] assms fresh(3) by auto
  have s: "serves idx (bi_documents idx)" using r(1) by (simp add: text_ok_def)
  let ?docs = "bi_documents idx" and ?ts = "known_terms tokenize (bi_documents idx) (distinct_terms {} (tokenize query))"
  let ?bits = "surprisal tokenize ?docs"
  have sums: "text_Information idx query keys =
    (sum_list (map ?bits ?ts), map (\<lambda>key. sum_list (map ?bits (filter (\<lambda>t. key \<in> documents_with tokenize ?docs t) ?ts))) keys)" for keys
    unfolding text_Information_def r(3)
    by (subst information_step_sums [OF s r(2), unfolded r(3)]) (simp_all add: list_eq_iff_nth_eq)
  have part: "sum_list (map ?bits (filter P ts)) \<le> sum_list (map ?bits ts)" for P ts
    by (induction ts) (auto simp: surprisal_nonneg add_increasing)
  have absent: "filter (\<lambda>t. key \<in> documents_with tokenize ?docs t) ?ts = []" if "key |\<notin>| fmdom ?docs"
    using that documents_with_subset [of tokenize ?docs] by (auto simp: filter_empty_conv)
  show ?thesis using absent part by (simp add: sums list_all_iff)
qed

theorem information_is_surprisal_witness:
  "\<exists>idx. run_ops [TInsert (7 :: nat) [1, 2, 1]] (fresh_index \<lparr>wide_letter = (\<lambda>_. False), wide_digit = (\<lambda>_. False),
      wide_symbol = (\<lambda>_. False), wide_lower = (\<lambda>r. r)\<rparr> (map (\<lambda>r. [r])) True) = Some ([None], idx) \<and> bi_documents idx = fmupd 7 [1, 2, 1] fmempty \<and>
    snd (text_Information idx [2] [8]) = [0]"
proof -
  let ?u = "\<lparr>wide_letter = (\<lambda>_. False), wide_digit = (\<lambda>_. False), wide_symbol = (\<lambda>_. False), wide_lower = (\<lambda>r. r)\<rparr> :: unicode"
  let ?f = "map (\<lambda>r. [r]) :: runes \<Rightarrow> runes list" and ?ops = "[TInsert (7 :: nat) [1, 2, 1]]"
  obtain idx where run: "run_ops ?ops (fresh_index ?u ?f True) = Some ([None], idx)" "bi_documents idx = fmupd 7 [1, 2, 1] fmempty"
    using run_ops_refine [OF fresh_index_ok(1,2), of ?ops ?u ?f True] by (auto simp: map_op_def fresh_index_ok(4))
  show ?thesis using run information_is_surprisal [OF run(1), of "[2]" "[8]" 8] by auto
qed

end
