(* ===== verification/Index_Search.thy ===== *)
theory Index_Search
  imports Index_Text_Correct Containers_TopK
begin

text \<open>
  \<open>Search\<close> of the text index (\<open>internal/index/btree.go\<close>): one pass over the posting lists of the query's terms, shared by
  a reading per keep. A document gets a slot when the pass first meets it. The slices of the pass are lists and
  its pointers indexes, so a method takes the number of a reading. Presizing is not modelled.
\<close>

record 'k passSlot =
  ps_key :: 'k
  ps_own :: real
  ps_from :: nat
  ps_to :: nat
  ps_resolved :: bool
  ps_measured :: bool

record readingDoc =
  rd_verdict :: int
  rd_measured :: bool
  rd_seen :: nat
  rd_tf :: real
  rd_length :: real
  rd_score :: real
  rd_matched :: real

record 'k reading =
  re_keep :: "('k \<Rightarrow> bool) option"
  re_docs :: "readingDoc list"
  re_touched :: "nat list"

record 'k pass =
  pa_index :: "'k BTreeIndex"
  pa_at :: "nat list"
  pa_unnumbered :: "('k, nat) fmap"
  pa_slots :: "'k passSlot list"
  pa_lent :: "nat list"
  pa_term :: nat
  pa_readings :: "'k reading list"

definition zero_slot :: "'k \<Rightarrow> 'k passSlot" where
  "zero_slot key = \<lparr>ps_key = key, ps_own = 0, ps_from = 0, ps_to = 0, ps_resolved = False, ps_measured = False\<rparr>"

definition zero_doc :: readingDoc where
  "zero_doc = \<lparr>rd_verdict = 0, rd_measured = False, rd_seen = 0, rd_tf = 0, rd_length = 0, rd_score = 0, rd_matched = 0\<rparr>"

definition newPass :: "'k BTreeIndex \<Rightarrow> ('k \<Rightarrow> bool) option list \<Rightarrow> 'k pass" where
  "newPass idx keeps = \<lparr>pa_index = idx, pa_at = replicate (length (bi_keys idx)) 0, pa_unnumbered = fmempty, pa_slots = [], pa_lent = [],
     pa_term = 0, pa_readings = map (\<lambda>keep. \<lparr>re_keep = keep, re_docs = [], re_touched = []\<rparr>) keeps\<rparr>"

section \<open>Slots\<close>

definition open_slot :: "'k \<Rightarrow> 'k pass \<Rightarrow> nat \<times> 'k pass" where
  "open_slot key p = (length (pa_slots p),
     p\<lparr>pa_slots := pa_slots p @ [zero_slot key],
       pa_readings := map (\<lambda>r. r\<lparr>re_docs := re_docs r @ [zero_doc]\<rparr>) (pa_readings p)\<rparr>)"

definition pass_slot :: "nat \<Rightarrow> 'k \<Rightarrow> 'k pass \<Rightarrow> nat \<times> 'k pass" where
  "pass_slot doc key p =
     (if pa_at p ! doc > 0 then (pa_at p ! doc - 1, p)
      else (let (s, p1) = open_slot key p in (s, p1\<lparr>pa_at := (pa_at p1)[doc := s + 1]\<rparr>)))"

definition neighbourSlot :: "'k \<Rightarrow> 'k pass \<Rightarrow> nat \<times> 'k pass" where
  "neighbourSlot key p =
     (case fmlookup (bi_ids (pa_index p)) key of
        Some doc \<Rightarrow> pass_slot doc key p
      | None \<Rightarrow> (case fmlookup (pa_unnumbered p) key of
            Some s \<Rightarrow> (s, p)
          | None \<Rightarrow> (let (s, p1) = open_slot key p in (s, p1\<lparr>pa_unnumbered := fmupd key s (pa_unnumbered p1)\<rparr>))))"

definition doc_at :: "nat \<Rightarrow> nat \<Rightarrow> 'k pass \<Rightarrow> readingDoc" where
  "doc_at i s p = re_docs (pa_readings p ! i) ! s"

definition change_doc :: "nat \<Rightarrow> nat \<Rightarrow> (readingDoc \<Rightarrow> readingDoc) \<Rightarrow> 'k pass \<Rightarrow> 'k pass" where
  "change_doc i s f p = p\<lparr>pa_readings := (pa_readings p)[i := (pa_readings p ! i)\<lparr>re_docs := (re_docs (pa_readings p ! i))[s := f (doc_at i s p)]\<rparr>]\<rparr>"

definition change_slot :: "nat \<Rightarrow> ('k passSlot \<Rightarrow> 'k passSlot) \<Rightarrow> 'k pass \<Rightarrow> 'k pass" where
  "change_slot s f p = p\<lparr>pa_slots := (pa_slots p)[s := f (pa_slots p ! s)]\<rparr>"

definition accepts :: "nat \<Rightarrow> nat \<Rightarrow> 'k pass \<Rightarrow> bool \<times> 'k pass" where
  "accepts i s p =
     (if rd_verdict (doc_at i s p) = 0
      then (let ok = (case re_keep (pa_readings p ! i) of None \<Rightarrow> True | Some keep \<Rightarrow> keep (ps_key (pa_slots p ! s)))
            in (ok, change_doc i s (\<lambda>d. d\<lparr>rd_verdict := if ok then 1 else -1\<rparr>) p))
      else (rd_verdict (doc_at i s p) > 0, p))"

section \<open>The window\<close>

definition neighbours_of :: "'k BTreeIndex \<Rightarrow> 'k \<Rightarrow> 'k list" where
  "neighbours_of idx key = (case bi_neighbours idx of None \<Rightarrow> [] | Some f \<Rightarrow> f key)"

definition adjacent :: "nat \<Rightarrow> 'k pass \<Rightarrow> nat list \<times> 'k pass" where
  "adjacent s p =
     (let p2 = (if ps_resolved (pa_slots p ! s) then p
                else (let first = length (pa_lent p);
                          p1 = foldl (\<lambda>p n. let (t, p') = neighbourSlot n p in p'\<lparr>pa_lent := pa_lent p' @ [t]\<rparr>) p
                                 (neighbours_of (pa_index p) (ps_key (pa_slots p ! s)))
                      in change_slot s (\<lambda>x. x\<lparr>ps_from := first, ps_to := length (pa_lent p1), ps_resolved := True\<rparr>) p1));
          x = pa_slots p2 ! s
      in (take (ps_to x - ps_from x) (drop (ps_from x) (pa_lent p2)), p2))"

definition own :: "nat \<Rightarrow> 'k pass \<Rightarrow> real \<times> 'k pass" where
  "own s p =
     (let p1 = (if ps_measured (pa_slots p ! s) then p
                else change_slot s (\<lambda>x. x\<lparr>ps_own := rel_Length (bi_relevance (pa_index p)) (ps_key x), ps_measured := True\<rparr>) p)
      in (ps_own (pa_slots p1 ! s), p1))"

definition add_neighbour :: "nat \<Rightarrow> real \<times> 'k pass \<Rightarrow> nat \<Rightarrow> real \<times> 'k pass" where
  "add_neighbour i = (\<lambda>(l, p) n.
     case accepts i n p of (ok, p1) \<Rightarrow>
       if ok then (case own n p1 of (x, p2) \<Rightarrow> (l + bi_gamma (pa_index p) * x, p2)) else (l, p1))"

definition window_length :: "nat \<Rightarrow> nat \<Rightarrow> 'k pass \<Rightarrow> real \<times> 'k pass" where
  "window_length i s p =
     (let p4 = (if rd_measured (doc_at i s p) then p
                else (case own s p of (l, p1) \<Rightarrow> case adjacent s p1 of (ns, p2) \<Rightarrow>
                      case foldl (add_neighbour i) (l, p2) ns of (l', p3) \<Rightarrow>
                        change_doc i s (\<lambda>d. d\<lparr>rd_length := l', rd_measured := True\<rparr>) p3))
      in (rd_length (doc_at i s p4), p4))"

definition lendTo :: "nat \<Rightarrow> nat \<Rightarrow> real \<Rightarrow> 'k pass \<Rightarrow> 'k pass" where
  "lendTo i s tf p =
     (let p1 = (if rd_seen (doc_at i s p) \<noteq> pa_term p
                then (let p' = change_doc i s (\<lambda>d. d\<lparr>rd_seen := pa_term p, rd_tf := 0\<rparr>) p
                      in p'\<lparr>pa_readings := (pa_readings p')[i := (pa_readings p' ! i)\<lparr>re_touched := re_touched (pa_readings p' ! i) @ [s]\<rparr>]\<rparr>)
                else p)
      in change_doc i s (\<lambda>d. d\<lparr>rd_tf := rd_tf d + tf\<rparr>) p1)"

section \<open>Accumulating\<close>

definition plain_reading :: "real \<Rightarrow> real \<Rightarrow> nat \<Rightarrow> 'k pass \<Rightarrow> nat \<Rightarrow> 'k pass" where
  "plain_reading weight gain s p i =
     (case accepts i s p of (ok, p1) \<Rightarrow>
        if ok then change_doc i s (\<lambda>d. d\<lparr>rd_seen := pa_term p1, rd_score := rd_score d + gain, rd_matched := rd_matched d + weight\<rparr>) p1 else p1)"

definition plain_posting :: "real \<Rightarrow> real \<Rightarrow> 'k pass \<Rightarrow> 'k posting \<Rightarrow> 'k pass" where
  "plain_posting weight prepared p po =
     (if po_tf po = 0 then p
      else (case pass_slot (po_doc po) (po_key po) p of (s, p1) \<Rightarrow>
        foldl (plain_reading weight (rel_Increment (bi_relevance (pa_index p)) weight (po_key po) (po_tf po) prepared) s) p1
          [0..<length (pa_readings p1)]))"

definition lend_one :: "nat \<Rightarrow> real \<Rightarrow> 'k pass \<Rightarrow> nat \<Rightarrow> 'k pass" where
  "lend_one i tf p n = (case accepts i n p of (ok, p1) \<Rightarrow> if ok then lendTo i n (bi_gamma (pa_index p) * tf) p1 else p1)"

definition window_reading :: "real \<Rightarrow> nat \<Rightarrow> 'k pass \<Rightarrow> nat \<Rightarrow> 'k pass" where
  "window_reading tf s p i =
     (case accepts i s p of (ok, p1) \<Rightarrow>
        if ok then (case adjacent s (lendTo i s tf p1) of (ns, p2) \<Rightarrow> foldl (lend_one i tf) p2 ns) else p1)"

definition window_posting :: "'k pass \<Rightarrow> 'k posting \<Rightarrow> 'k pass" where
  "window_posting p po =
     (if po_tf po = 0 then p
      else (case pass_slot (po_doc po) (po_key po) p of (s, p1) \<Rightarrow>
        foldl (window_reading (real (po_tf po)) s) p1 [0..<length (pa_readings p1)]))"

definition window_gain :: "real \<Rightarrow> real \<Rightarrow> nat \<Rightarrow> 'k pass \<Rightarrow> nat \<Rightarrow> 'k pass" where
  "window_gain weight prepared i p s =
     (case window_length i s p of (len, p1) \<Rightarrow>
        change_doc i s (\<lambda>d. d\<lparr>rd_score := rd_score d + rel_Gain (bi_relevance (pa_index p)) weight (rd_tf d) len prepared,
          rd_matched := rd_matched d + weight\<rparr>) p1)"

definition windowed :: "'k BTreeIndex \<Rightarrow> bool" where
  "windowed idx \<longleftrightarrow> \<not> (bi_gamma idx \<le> 0 \<or> bi_neighbours idx = None)"

definition accumulate :: "'k postingList \<Rightarrow> real \<Rightarrow> real \<Rightarrow> 'k pass \<Rightarrow> 'k pass" where
  "accumulate list weight prepared p =
     (let p = p\<lparr>pa_term := pa_term p + 1\<rparr>
      in if \<not> windowed (pa_index p) then foldl (foldl (plain_posting weight prepared)) p (pl_chunks list)
         else (let p1 = p\<lparr>pa_readings := map (\<lambda>r. r\<lparr>re_touched := []\<rparr>) (pa_readings p)\<rparr>;
                   p2 = foldl (foldl window_posting) p1 (pl_chunks list)
               in foldl (\<lambda>p i. foldl (window_gain weight prepared i) p (re_touched (pa_readings p ! i))) p2 [0..<length (pa_readings p2)]))"

section \<open>Ranking\<close>

text \<open>\<open>int(x)\<close> of a float truncates.\<close>

definition to_int :: "real \<Rightarrow> int" where
  "to_int x = (if x < 0 then \<lceil>x\<rceil> else \<lfloor>x\<rfloor>)"

definition rank :: "nat \<Rightarrow> int \<Rightarrow> real \<Rightarrow> 'k pass \<Rightarrow> 'k list \<times> real list" where
  "rank i k totalW p =
     (let mass = to_int (totalW * 1024) + 1;
          best = foldl (\<lambda>t s. let d = doc_at i s p in
                   if rd_seen d > 0 then Offer t (ps_key (pa_slots p ! s))
                     (rel_Finalize (bi_relevance (pa_index p)) (rd_score d) (to_int (rd_matched d * 1024)) mass)
                   else t) (NewTopK k (bi_compare (pa_index p))) [0..<length (re_docs (pa_readings p ! i))]
      in fst (Drain best))"

definition search_term :: "'k BTreeIndex \<Rightarrow> real \<Rightarrow> real \<times> 'k pass \<Rightarrow> runes \<Rightarrow> real \<times> 'k pass" where
  "search_term idx prepared = (\<lambda>(totalW, p) w.
     case bt_Find (bi_tree idx) w of
       None \<Rightarrow> (totalW, p)
     | Some t \<Rightarrow> (let list = list_at (bi_lists idx) t
         in if pl_live list = 0 then (totalW, p)
            else (let weight = rel_Weight (bi_relevance idx) (pl_live list) (text_Count idx)
                  in (totalW + weight, accumulate list weight prepared p))))"

definition text_Search :: "'k BTreeIndex \<Rightarrow> runes \<Rightarrow> int \<Rightarrow> ('k \<Rightarrow> bool) option list \<Rightarrow> index_error + 'k list list \<times> real list list" where
  "text_Search idx query k keeps =
     (if text_Count idx = 0 then Inl ErrEmptyIndex
      else (let keeps = (if keeps = [] then [None] else keeps);
                terms = rel_Terms (bi_relevance idx) (bi_tokenizer idx query);
                (totalW, p) = foldl (search_term idx (rel_Prepare (bi_relevance idx))) (0, newPass idx keeps) terms;
                ranked = map (\<lambda>i. rank i k totalW p) [0..<length (pa_readings p)]
            in Inr (map fst ranked, map snd ranked)))"

end
