(* ===== verification/Index_Search_Pass.thy ===== *)
theory Index_Search_Pass
  imports Index_Search
begin

text \<open>
  The pass of a text search: its slots are a table by key, a keep is asked once about a document, and a window
  resolves neighbours and lengths once, none of which changes what a term reads and writes of a document.
\<close>

section \<open>The pass as a table\<close>

definition slot_keys :: "'k pass \<Rightarrow> 'k list" where
  "slot_keys p = map ps_key (pa_slots p)"

definition named :: "'k BTreeIndex \<Rightarrow> bool" where
  "named idx \<longleftrightarrow> (\<forall>k i. fmlookup (bi_ids idx) k = Some i \<longleftrightarrow> i < length (bi_keys idx) \<and> bi_keys idx ! i = k)"

definition slots_ok :: "'k pass \<Rightarrow> bool" where
  "slots_ok p \<longleftrightarrow> distinct (slot_keys p) \<and> length (pa_at p) = length (bi_keys (pa_index p)) \<and>
     (\<forall>s < length (slot_keys p). case fmlookup (bi_ids (pa_index p)) (slot_keys p ! s) of
        Some d \<Rightarrow> pa_at p ! d = s + 1 | None \<Rightarrow> fmlookup (pa_unnumbered p) (slot_keys p ! s) = Some s) \<and>
     (\<forall>d < length (pa_at p). pa_at p ! d \<noteq> 0 \<longrightarrow> pa_at p ! d - 1 < length (slot_keys p) \<and> slot_keys p ! (pa_at p ! d - 1) = bi_keys (pa_index p) ! d) \<and>
     (\<forall>k s. fmlookup (pa_unnumbered p) k = Some s \<longrightarrow> s < length (slot_keys p) \<and> slot_keys p ! s = k) \<and>
     (\<forall>r \<in> set (pa_readings p). length (re_docs r) = length (slot_keys p))"

definition view :: "nat \<Rightarrow> 'k \<Rightarrow> 'k pass \<Rightarrow> readingDoc" where
  "view i key p = (case map_of (zip (slot_keys p) (re_docs (pa_readings p ! i))) key of None \<Rightarrow> zero_doc | Some d \<Rightarrow> d)"

definition keep_of :: "nat \<Rightarrow> 'k pass \<Rightarrow> 'k \<Rightarrow> bool" where
  "keep_of i p key = (case re_keep (pa_readings p ! i) of None \<Rightarrow> True | Some keep \<Rightarrow> keep key)"

lemma map_of_zip_append1:
  "length ks = length ds \<Longrightarrow> k \<notin> set ks \<Longrightarrow> map_of (zip (ks @ [k]) (ds @ [d])) = (map_of (zip ks ds)) (k \<mapsto> d)"
  by (induction ks ds rule: list_induct2) (auto simp: fun_eq_iff)

lemma map_of_zip_update:
  "length ks = length ds \<Longrightarrow> distinct ks \<Longrightarrow> s < length ks \<Longrightarrow> map_of (zip ks (ds[s := d])) = (map_of (zip ks ds)) (ks ! s \<mapsto> d)"
proof (induction ks ds arbitrary: s rule: list_induct2)
  case (Cons k ks d' ds)
  then show ?case by (cases s) (auto simp: fun_eq_iff)
qed simp

lemma docs_length: "slots_ok p \<Longrightarrow> i < length (pa_readings p) \<Longrightarrow> length (re_docs (pa_readings p ! i)) = length (slot_keys p)"
  by (auto simp: slots_ok_def)

lemma view_at:
  "slots_ok p \<Longrightarrow> i < length (pa_readings p) \<Longrightarrow> s < length (slot_keys p) \<Longrightarrow> view i (slot_keys p ! s) p = doc_at i s p"
  using docs_length [of p i] by (auto simp: view_def doc_at_def slots_ok_def map_of_zip_nth)

lemma view_absent: "slots_ok p \<Longrightarrow> i < length (pa_readings p) \<Longrightarrow> key \<notin> set (slot_keys p) \<Longrightarrow> view i key p = zero_doc"
proof -
  assume "slots_ok p" "i < length (pa_readings p)" and out: "key \<notin> set (slot_keys p)"
  then have "map_of (zip (slot_keys p) (re_docs (pa_readings p ! i))) key = None"
    using docs_length [of p i] by (auto simp: map_of_eq_None_iff dest: set_zip_leftD)
  then show ?thesis by (simp add: view_def)
qed

lemma slot_entry:
  assumes "slots_ok p" "s < length (slot_keys p)"
  shows "case fmlookup (bi_ids (pa_index p)) (slot_keys p ! s) of Some d \<Rightarrow> pa_at p ! d = s + 1 | None \<Rightarrow> fmlookup (pa_unnumbered p) (slot_keys p ! s) = Some s"
  using assms by (simp add: slots_ok_def)

lemma slot_new:
  assumes ok: "slots_ok p"
    and "case fmlookup (bi_ids (pa_index p)) key of Some d \<Rightarrow> pa_at p ! d = 0 | None \<Rightarrow> fmlookup (pa_unnumbered p) key = None"
  shows "key \<notin> set (slot_keys p)"
proof
  assume "key \<in> set (slot_keys p)"
  then obtain s where "s < length (slot_keys p)" "slot_keys p ! s = key" by (auto simp: in_set_conv_nth)
  then show False using slot_entry [OF ok, of s] assms(2) by (cases "fmlookup (bi_ids (pa_index p)) key") simp_all
qed

text \<open>What a step does not change.\<close>

definition same_frame :: "'k pass \<Rightarrow> 'k pass \<Rightarrow> bool" where
  "same_frame p p' \<longleftrightarrow> pa_index p' = pa_index p \<and> pa_term p' = pa_term p \<and> map re_keep (pa_readings p') = map re_keep (pa_readings p)"

lemma same_frame_refl [simp]: "same_frame p p"
  by (simp add: same_frame_def)

lemma same_frame_trans: "same_frame p q \<Longrightarrow> same_frame q r \<Longrightarrow> same_frame p r"
  by (simp add: same_frame_def)

lemma same_frame_fields:
  assumes "same_frame p p'"
  shows "pa_index p' = pa_index p" "pa_term p' = pa_term p" "length (pa_readings p') = length (pa_readings p)"
    "i < length (pa_readings p) \<Longrightarrow> keep_of i p' = keep_of i p"
proof -
  have m: "map re_keep (pa_readings p') = map re_keep (pa_readings p)" using assms by (simp add: same_frame_def)
  show len: "length (pa_readings p') = length (pa_readings p)" using map_eq_imp_length_eq [OF m] .
  show "keep_of i p' = keep_of i p" if "i < length (pa_readings p)"
  proof -
    have "re_keep (pa_readings p' ! i) = re_keep (pa_readings p ! i)" using m that len by (metis nth_map)
    then show ?thesis by (simp add: keep_of_def fun_eq_iff)
  qed
qed (use assms in \<open>simp_all add: same_frame_def\<close>)

lemma open_slot_ok:
  assumes ok: "slots_ok p" and new: "key \<notin> set (slot_keys p)" and run: "open_slot key p = (s, p')"
  shows "s = length (slot_keys p)" "slot_keys p' = slot_keys p @ [key]" "same_frame p p'" "pa_at p' = pa_at p" "pa_unnumbered p' = pa_unnumbered p"
    "\<forall>r \<in> set (pa_readings p'). length (re_docs r) = length (slot_keys p')"
    "i < length (pa_readings p) \<Longrightarrow> view i k p' = view i k p"
proof -
  show "s = length (slot_keys p)" "slot_keys p' = slot_keys p @ [key]" "same_frame p p'" "pa_at p' = pa_at p" "pa_unnumbered p' = pa_unnumbered p"
    using run by (auto simp: open_slot_def slot_keys_def zero_slot_def same_frame_def)
  show "\<forall>r \<in> set (pa_readings p'). length (re_docs r) = length (slot_keys p')"
    using run ok by (auto simp: open_slot_def slot_keys_def slots_ok_def)
  assume i: "i < length (pa_readings p)"
  have "slot_keys p' = slot_keys p @ [key]" "re_docs (pa_readings p' ! i) = re_docs (pa_readings p ! i) @ [zero_doc]"
    using run i by (auto simp: open_slot_def slot_keys_def zero_slot_def)
  then show "view i k p' = view i k p"
    using map_of_zip_append1 [OF docs_length [OF ok i, symmetric] new] view_absent [OF ok i new] by (simp add: view_def split: if_splits)
qed

lemma pass_slot_ok:
  assumes ok: "slots_ok p" and names: "named (pa_index p)" and doc: "fmlookup (bi_ids (pa_index p)) key = Some doc"
    and run: "pass_slot doc key p = (s, p')"
  shows "slots_ok p'" "s < length (slot_keys p')" "slot_keys p' ! s = key" "same_frame p p'" "i < length (pa_readings p) \<Longrightarrow> view i k p' = view i k p"
proof -
  let ?ids = "bi_ids (pa_index p)" and ?keys = "bi_keys (pa_index p)"
  have d: "doc < length ?keys" "?keys ! doc = key" using names doc by (simp_all add: named_def)
  have at: "length (pa_at p) = length ?keys" using ok by (simp add: slots_ok_def)
  have "slots_ok p' \<and> s < length (slot_keys p') \<and> slot_keys p' ! s = key \<and> same_frame p p' \<and>
    (\<forall>i < length (pa_readings p). \<forall>k. view i k p' = view i k p)"
  proof (cases "pa_at p ! doc > 0")
    case True
    then have "(pa_at p ! doc - 1, p) = (s, p')" using run unfolding pass_slot_def by (simp only: if_True)
    then have "s = pa_at p ! doc - 1" "p' = p" by blast+
    then show ?thesis using ok True d at by (auto simp: slots_ok_def)
  next
    case False
    have new: "key \<notin> set (slot_keys p)" by (rule slot_new [OF ok]) (use doc False in simp)
    obtain s1 p1 where o: "open_slot key p = (s1, p1)" by fastforce
    note op = open_slot_ok [OF ok new o]
    have r: "s = s1" "p' = p1\<lparr>pa_at := (pa_at p1)[doc := s1 + 1]\<rparr>" using run False o by (auto simp: pass_slot_def)
    have keys': "slot_keys p' = slot_keys p @ [key]" using op(2) r(2) by (simp add: slot_keys_def)
    have at': "pa_at p' = (pa_at p)[doc := length (slot_keys p) + 1]" using r(2) op(1,4) by simp
    have idx': "pa_index p' = pa_index p" "pa_unnumbered p' = pa_unnumbered p" "pa_readings p' = pa_readings p1" using r(2) op(3,5) by (simp_all add: same_frame_def)
    have frame: "same_frame p p'" using op(3) r(2) by (simp add: same_frame_def)
    have "slots_ok p'" unfolding slots_ok_def idx' keys' at'
    proof (intro conjI allI impI ballI)
      show "distinct (slot_keys p @ [key])" using ok new by (simp add: slots_ok_def)
      show "length ((pa_at p)[doc := length (slot_keys p) + 1]) = length ?keys" using at by simp
    next
      fix s assume s: "s < length (slot_keys p @ [key])"
      show "case fmlookup ?ids ((slot_keys p @ [key]) ! s) of Some d \<Rightarrow> (pa_at p)[doc := length (slot_keys p) + 1] ! d = s + 1
        | None \<Rightarrow> fmlookup (pa_unnumbered p) ((slot_keys p @ [key]) ! s) = Some s"
      proof (cases "s = length (slot_keys p)")
        case True
        then show ?thesis using doc d at by simp
      next
        case old: False
        then have s: "s < length (slot_keys p)" using s by simp
        then have k: "slot_keys p ! s \<noteq> key" using new nth_mem by blast
        have "d' \<noteq> doc" if "fmlookup ?ids (slot_keys p ! s) = Some d'" for d' using names that k d(2) by (auto simp: named_def)
        then have "fmlookup ?ids (slot_keys p ! s) = Some d' \<Longrightarrow> (pa_at p)[doc := length (slot_keys p) + 1] ! d' = pa_at p ! d'" for d' by simp
        moreover have "case fmlookup ?ids (slot_keys p ! s) of Some d \<Rightarrow> pa_at p ! d = s + 1 | None \<Rightarrow> fmlookup (pa_unnumbered p) (slot_keys p ! s) = Some s"
          using ok s by (simp add: slots_ok_def)
        ultimately show ?thesis using s by (cases "fmlookup ?ids (slot_keys p ! s)") (simp_all add: nth_append)
      qed
    next
      fix d' assume "d' < length ((pa_at p)[doc := length (slot_keys p) + 1])" and nz: "(pa_at p)[doc := length (slot_keys p) + 1] ! d' \<noteq> 0"
      then have d': "d' < length (pa_at p)" by simp
      have both: "(pa_at p)[doc := length (slot_keys p) + 1] ! d' - 1 < length (slot_keys p @ [key]) \<and>
        (slot_keys p @ [key]) ! ((pa_at p)[doc := length (slot_keys p) + 1] ! d' - 1) = ?keys ! d'"
      proof (cases "d' = doc")
        case True
        then show ?thesis using d at by simp
      next
        case False
        then show ?thesis using ok d' nz by (auto simp: slots_ok_def nth_append)
      qed
      show "(pa_at p)[doc := length (slot_keys p) + 1] ! d' - 1 < length (slot_keys p @ [key])" using both by (rule conjunct1)
      show "(slot_keys p @ [key]) ! ((pa_at p)[doc := length (slot_keys p) + 1] ! d' - 1) = ?keys ! d'" using both by (rule conjunct2)
    next
      fix k s assume "fmlookup (pa_unnumbered p) k = Some s"
      then have "s < length (slot_keys p)" "slot_keys p ! s = k" using ok by (auto simp: slots_ok_def)
      then show "s < length (slot_keys p @ [key])" "(slot_keys p @ [key]) ! s = k" by (simp_all add: nth_append)
    next
      fix r assume "r \<in> set (pa_readings p1)"
      then show "length (re_docs r) = length (slot_keys p @ [key])" using op(6) unfolding op(2) by blast
    qed
    moreover have "view i k p' = view i k p" if "i < length (pa_readings p)" for i k
      using op(7) [OF that, of k] r(2) by (simp add: view_def slot_keys_def)
    ultimately show ?thesis using frame keys' op(1) r(1) by simp
  qed
  then show "slots_ok p'" "s < length (slot_keys p')" "slot_keys p' ! s = key" "same_frame p p'" "i < length (pa_readings p) \<Longrightarrow> view i k p' = view i k p"
    by blast+
qed

text \<open>A step that at most opens slots.\<close>

definition grown :: "'k pass \<Rightarrow> 'k pass \<Rightarrow> bool" where
  "grown p p' \<longleftrightarrow> same_frame p p' \<and> pa_lent p' = pa_lent p \<and> map re_touched (pa_readings p') = map re_touched (pa_readings p) \<and>
     (\<exists>ks. pa_slots p' = pa_slots p @ map zero_slot ks) \<and> (\<forall>i < length (pa_readings p). \<forall>k. view i k p' = view i k p)"

lemma grown_refl [simp]: "grown p p"
  by (auto simp: grown_def intro: exI [of _ "[]"])

lemma open_slot_grown:
  assumes "slots_ok p" "key \<notin> set (slot_keys p)" "open_slot key p = (s, p')"
    and "pa_index p2 = pa_index p'" "pa_term p2 = pa_term p'" "pa_readings p2 = pa_readings p'" "pa_slots p2 = pa_slots p'" "pa_lent p2 = pa_lent p'"
  shows "grown p p2"
proof -
  have "same_frame p p2" using open_slot_ok(3) [OF assms(1-3)] assms(4-6) by (simp add: same_frame_def)
  moreover have "pa_lent p2 = pa_lent p" "map re_touched (pa_readings p2) = map re_touched (pa_readings p)" "pa_slots p2 = pa_slots p @ map zero_slot [key]"
    using assms(3,6-8) by (auto simp: open_slot_def)
  moreover have "view i k p2 = view i k p" if "i < length (pa_readings p)" for i k
    using open_slot_ok(7) [OF assms(1-3) that, of k] assms(6,7) by (simp add: view_def slot_keys_def)
  ultimately show ?thesis unfolding grown_def by blast
qed

lemma pass_slot_grown:
  assumes ok: "slots_ok p" and names: "named (pa_index p)" and doc: "fmlookup (bi_ids (pa_index p)) key = Some doc"
    and run: "pass_slot doc key p = (s, p')"
  shows "grown p p'"
proof (cases "pa_at p ! doc > 0")
  case True
  then have "(pa_at p ! doc - 1, p) = (s, p')" using run unfolding pass_slot_def by (simp only: if_True)
  then show ?thesis by simp
next
  case False
  have new: "key \<notin> set (slot_keys p)" by (rule slot_new [OF ok]) (use doc False in simp)
  obtain s1 p1 where o: "open_slot key p = (s1, p1)" by fastforce
  have "p' = p1\<lparr>pa_at := (pa_at p1)[doc := s1 + 1]\<rparr>" using run False o by (auto simp: pass_slot_def)
  then show ?thesis by (intro open_slot_grown [OF ok new o]) simp_all
qed

lemma neighbourSlot_ok:
  assumes ok: "slots_ok p" and names: "named (pa_index p)" and run: "neighbourSlot key p = (s, p')"
  shows "slots_ok p'" "s < length (slot_keys p')" "slot_keys p' ! s = key" "grown p p'"
proof -
  let ?ids = "bi_ids (pa_index p)" and ?keys = "bi_keys (pa_index p)"
  have "slots_ok p' \<and> s < length (slot_keys p') \<and> slot_keys p' ! s = key \<and> grown p p'"
  proof (cases "fmlookup ?ids key")
    case (Some doc)
    then have "pass_slot doc key p = (s, p')" using run by (simp add: neighbourSlot_def)
    then show ?thesis using pass_slot_ok [OF ok names Some] pass_slot_grown [OF ok names Some] by blast
  next
    case none: None
    show ?thesis
    proof (cases "fmlookup (pa_unnumbered p) key")
      case (Some t)
      then have "s = t" "p' = p" using run none by (auto simp: neighbourSlot_def)
      then show ?thesis using ok Some by (auto simp: slots_ok_def)
    next
      case None
      have new: "key \<notin> set (slot_keys p)" by (rule slot_new [OF ok]) (use none None in simp)
      obtain s1 p1 where o: "open_slot key p = (s1, p1)" by fastforce
      note op = open_slot_ok [OF ok new o]
      have r: "s = s1" "p' = p1\<lparr>pa_unnumbered := fmupd key s1 (pa_unnumbered p1)\<rparr>" using run none None o by (auto simp: neighbourSlot_def)
      have grow: "grown p p'" using r(2) by (intro open_slot_grown [OF ok new o]) simp_all
      have keys': "slot_keys p' = slot_keys p @ [key]" using op(2) r(2) by (simp add: slot_keys_def)
      have un': "pa_unnumbered p' = fmupd key (length (slot_keys p)) (pa_unnumbered p)" using r(2) op(1,5) by simp
      have idx': "pa_index p' = pa_index p" "pa_at p' = pa_at p" "pa_readings p' = pa_readings p1" using r(2) op(3,4) by (simp_all add: same_frame_def)
      have "slots_ok p'" unfolding slots_ok_def idx' keys' un'
      proof (intro conjI allI impI ballI)
        show "distinct (slot_keys p @ [key])" using ok new by (simp add: slots_ok_def)
        show "length (pa_at p) = length ?keys" using ok by (simp add: slots_ok_def)
      next
        fix s assume s: "s < length (slot_keys p @ [key])"
        show "case fmlookup ?ids ((slot_keys p @ [key]) ! s) of Some d \<Rightarrow> pa_at p ! d = s + 1
          | None \<Rightarrow> fmlookup (fmupd key (length (slot_keys p)) (pa_unnumbered p)) ((slot_keys p @ [key]) ! s) = Some s"
        proof (cases "s = length (slot_keys p)")
          case True
          then show ?thesis using none by simp
        next
          case old: False
          then have s: "s < length (slot_keys p)" using s by simp
          then have k: "slot_keys p ! s \<noteq> key" using new nth_mem by blast
          have "case fmlookup ?ids (slot_keys p ! s) of Some d \<Rightarrow> pa_at p ! d = s + 1 | None \<Rightarrow> fmlookup (pa_unnumbered p) (slot_keys p ! s) = Some s"
            using ok s by (simp add: slots_ok_def)
          then show ?thesis using s k by (cases "fmlookup ?ids (slot_keys p ! s)") (simp_all add: nth_append)
        qed
      next
        fix d assume "d < length (pa_at p)" "pa_at p ! d \<noteq> 0"
        then have d: "pa_at p ! d - 1 < length (slot_keys p)" "slot_keys p ! (pa_at p ! d - 1) = ?keys ! d" using ok unfolding slots_ok_def by blast+
        show "pa_at p ! d - 1 < length (slot_keys p @ [key])" using d(1) by simp
        show "(slot_keys p @ [key]) ! (pa_at p ! d - 1) = ?keys ! d" using d by (simp only: nth_append if_True)
      next
        fix k s assume l: "fmlookup (fmupd key (length (slot_keys p)) (pa_unnumbered p)) k = Some s"
        have both: "s < length (slot_keys p @ [key]) \<and> (slot_keys p @ [key]) ! s = k"
        proof (cases "k = key")
          case False
          then have "fmlookup (pa_unnumbered p) k = Some s" using l by simp
          then have "s < length (slot_keys p)" "slot_keys p ! s = k" using ok unfolding slots_ok_def by blast+
          then show ?thesis by (simp add: nth_append)
        qed (use l in simp)
        show "s < length (slot_keys p @ [key])" using both by (rule conjunct1)
        show "(slot_keys p @ [key]) ! s = k" using both by (rule conjunct2)
      next
        fix r assume "r \<in> set (pa_readings p1)"
        then show "length (re_docs r) = length (slot_keys p @ [key])" using op(6) unfolding op(2) by blast
      qed
      then show ?thesis using keys' op(1) r(1) grow by simp
    qed
  qed
  then show "slots_ok p'" "s < length (slot_keys p')" "slot_keys p' ! s = key" "grown p p'" by blast+
qed

section \<open>Changing a document or a slot\<close>

lemma slots_ok_cong:
  "slots_ok p \<Longrightarrow> pa_index p' = pa_index p \<Longrightarrow> pa_at p' = pa_at p \<Longrightarrow> pa_unnumbered p' = pa_unnumbered p \<Longrightarrow> slot_keys p' = slot_keys p \<Longrightarrow>
   map (\<lambda>r. length (re_docs r)) (pa_readings p') = map (\<lambda>r. length (re_docs r)) (pa_readings p) \<Longrightarrow> slots_ok p'"
proof -
  assume a: "slots_ok p" "pa_index p' = pa_index p" "pa_at p' = pa_at p" "pa_unnumbered p' = pa_unnumbered p" "slot_keys p' = slot_keys p"
    and m: "map (\<lambda>r. length (re_docs r)) (pa_readings p') = map (\<lambda>r. length (re_docs r)) (pa_readings p)"
  have "(\<lambda>r. length (re_docs r)) ` set (pa_readings p') = (\<lambda>r. length (re_docs r)) ` set (pa_readings p)"
    using arg_cong [OF m, of set] by simp
  then have "\<forall>r \<in> set (pa_readings p'). length (re_docs r) = length (slot_keys p)"
    using a(1) unfolding slots_ok_def by (metis (no_types, lifting) imageE imageI)
  then show "slots_ok p'" using a(1) unfolding slots_ok_def a(2-5) by (elim conjE, intro conjI) assumption+
qed

lemma keyed_update_same: "i < length xs \<Longrightarrow> f y = f (xs ! i) \<Longrightarrow> map f (xs[i := y]) = map f xs"
  by (metis list_update_id map_update)

lemma change_doc_fields [simp]:
  "pa_index (change_doc i s f p) = pa_index p" "pa_term (change_doc i s f p) = pa_term p" "pa_slots (change_doc i s f p) = pa_slots p"
  "slot_keys (change_doc i s f p) = slot_keys p" "pa_lent (change_doc i s f p) = pa_lent p" "length (pa_readings (change_doc i s f p)) = length (pa_readings p)"
  "pa_at (change_doc i s f p) = pa_at p" "pa_unnumbered (change_doc i s f p) = pa_unnumbered p"
  by (simp_all add: change_doc_def slot_keys_def)

lemma change_doc_ok:
  assumes ok: "slots_ok p" and i: "i < length (pa_readings p)" and s: "s < length (slot_keys p)"
  shows "slots_ok (change_doc i s f p)" "same_frame p (change_doc i s f p)"
    "map re_touched (pa_readings (change_doc i s f p)) = map re_touched (pa_readings p)"
    "view j k (change_doc i s f p) = (if j = i \<and> k = slot_keys p ! s then f (view i k p) else view j k p)"
proof -
  show "slots_ok (change_doc i s f p)"
    by (rule slots_ok_cong [OF ok]) (use i in \<open>simp_all add: keyed_update_same change_doc_def slot_keys_def\<close>)
  show "same_frame p (change_doc i s f p)" using i by (simp add: same_frame_def change_doc_def keyed_update_same)
  show "map re_touched (pa_readings (change_doc i s f p)) = map re_touched (pa_readings p)" using i by (simp add: change_doc_def keyed_update_same)
  have d: "distinct (slot_keys p)" using ok by (simp add: slots_ok_def)
  show "view j k (change_doc i s f p) = (if j = i \<and> k = slot_keys p ! s then f (view i k p) else view j k p)"
  proof (cases "j = i")
    case True
    have "re_docs (pa_readings (change_doc i s f p) ! i) = (re_docs (pa_readings p ! i))[s := f (doc_at i s p)]" using i by (simp add: change_doc_def)
    then have "view i k (change_doc i s f p) = (if k = slot_keys p ! s then f (doc_at i s p) else view i k p)"
      using map_of_zip_update [OF docs_length [OF ok i, symmetric] d s, of "f (doc_at i s p)"] by (simp add: view_def)
    then show ?thesis using True view_at [OF ok i s] by simp
  next
    case False
    then have "pa_readings (change_doc i s f p) ! j = pa_readings p ! j" by (simp add: change_doc_def)
    then show ?thesis using False by (simp add: view_def)
  qed
qed

lemma change_slot_fields [simp]:
  "pa_index (change_slot s f p) = pa_index p" "pa_term (change_slot s f p) = pa_term p" "pa_readings (change_slot s f p) = pa_readings p"
  "pa_lent (change_slot s f p) = pa_lent p" "pa_at (change_slot s f p) = pa_at p" "pa_unnumbered (change_slot s f p) = pa_unnumbered p"
  by (simp_all add: change_slot_def)

lemma change_slot_ok:
  assumes ok: "slots_ok p" and s: "s < length (slot_keys p)" and key: "\<And>x. ps_key (f x) = ps_key x"
  shows "slot_keys (change_slot s f p) = slot_keys p" "slots_ok (change_slot s f p)" "view j k (change_slot s f p) = view j k p"
proof -
  show keys: "slot_keys (change_slot s f p) = slot_keys p" using s key by (simp add: slot_keys_def change_slot_def keyed_update_same)
  show "slots_ok (change_slot s f p)" by (rule slots_ok_cong [OF ok]) (simp_all add: keys)
  show "view j k (change_slot s f p) = view j k p" by (simp add: view_def keys)
qed

section \<open>Quiet steps\<close>

text \<open>What a term's frequency and score read of a document.\<close>

definition core :: "readingDoc \<Rightarrow> nat \<times> real \<times> real \<times> real" where
  "core d = (rd_seen d, rd_tf d, rd_score d, rd_matched d)"

definition quiet :: "'k pass \<Rightarrow> 'k pass \<Rightarrow> bool" where
  "quiet p p' \<longleftrightarrow> same_frame p p' \<and> map re_touched (pa_readings p') = map re_touched (pa_readings p) \<and> (\<exists>ks. slot_keys p' = slot_keys p @ ks) \<and>
     (\<forall>i < length (pa_readings p). \<forall>k. core (view i k p') = core (view i k p))"

lemma quiet_refl [simp]: "quiet p p"
  by (simp add: quiet_def)

lemma quiet_trans: "quiet p q \<Longrightarrow> quiet q r \<Longrightarrow> quiet p r"
  unfolding quiet_def by (metis append.assoc same_frame_fields(3) same_frame_trans)

lemma grown_quiet: "grown p p' \<Longrightarrow> quiet p p'"
  by (auto simp: grown_def quiet_def slot_keys_def)

definition at_slot :: "'k pass \<Rightarrow> nat \<Rightarrow> 'k \<Rightarrow> bool" where
  "at_slot p s k \<longleftrightarrow> s < length (slot_keys p) \<and> slot_keys p ! s = k"

lemma quiet_at_slot: "quiet p p' \<Longrightarrow> at_slot p s k \<Longrightarrow> at_slot p' s k"
  by (auto simp: quiet_def at_slot_def nth_append)

definition window_len :: "'k BTreeIndex \<Rightarrow> ('k \<Rightarrow> bool) \<Rightarrow> 'k \<Rightarrow> real" where
  "window_len idx keep k = rel_Length (bi_relevance idx) k +
     sum_list (map (\<lambda>n. bi_gamma idx * rel_Length (bi_relevance idx) n) (filter keep (neighbours_of idx k)))"

definition slot_ok :: "'k pass \<Rightarrow> 'k passSlot \<Rightarrow> bool" where
  "slot_ok p x \<longleftrightarrow> (ps_measured x \<longrightarrow> ps_own x = rel_Length (bi_relevance (pa_index p)) (ps_key x)) \<and>
     (ps_resolved x \<longrightarrow> ps_from x \<le> ps_to x \<and> ps_to x \<le> length (pa_lent p) \<and>
        list_all2 (at_slot p) (take (ps_to x - ps_from x) (drop (ps_from x) (pa_lent p))) (neighbours_of (pa_index p) (ps_key x)))"

definition doc_ok :: "'k BTreeIndex \<Rightarrow> ('k \<Rightarrow> bool) \<Rightarrow> 'k \<Rightarrow> readingDoc \<Rightarrow> bool" where
  "doc_ok idx keep k d \<longleftrightarrow> (rd_verdict d = 0 \<or> (rd_verdict d > 0 \<longleftrightarrow> keep k)) \<and> (rd_measured d \<longrightarrow> rd_length d = window_len idx keep k)"

definition pass_ok :: "'k pass \<Rightarrow> bool" where
  "pass_ok p \<longleftrightarrow> slots_ok p \<and> named (pa_index p) \<and> (\<forall>x \<in> set (pa_slots p). slot_ok p x) \<and>
     (\<forall>i < length (pa_readings p). \<forall>k. doc_ok (pa_index p) (keep_of i p) k (view i k p))"

lemma slot_ok_grows:
  assumes "slot_ok p x" "pa_index p' = pa_index p" "pa_lent p' = pa_lent p @ ls" "\<And>s k. at_slot p s k \<Longrightarrow> at_slot p' s k"
  shows "slot_ok p' x"
  using assms(1) list_all2_mono [OF _ assms(4)] by (auto simp: slot_ok_def assms(2,3))

lemma zero_slot_ok: "slot_ok p (zero_slot k)"
  by (simp add: slot_ok_def zero_slot_def)

lemma grown_pass_ok:
  assumes ok: "pass_ok p" and grow: "grown p p'" and slots: "slots_ok p'"
  shows "pass_ok p'"
proof -
  have q: "quiet p p'" by (rule grown_quiet [OF grow])
  have f: "same_frame p p'" using grow by (simp add: grown_def)
  note fr = same_frame_fields [OF f]
  obtain ks where ks: "pa_slots p' = pa_slots p @ map zero_slot ks" "pa_lent p' = pa_lent p" using grow by (auto simp: grown_def)
  have "slot_ok p' x" if "x \<in> set (pa_slots p)" for x
    by (rule slot_ok_grows [where p = p and ls = "[]"]) (use ok that fr(1) ks(2) quiet_at_slot [OF q] in \<open>auto simp: pass_ok_def\<close>)
  then have "\<forall>x \<in> set (pa_slots p'). slot_ok p' x" using ks(1) by (auto simp: zero_slot_ok)
  moreover have "doc_ok (pa_index p') (keep_of i p') k (view i k p')" if "i < length (pa_readings p')" for i k
    using ok grow that fr by (simp add: pass_ok_def grown_def)
  ultimately show ?thesis using ok slots fr(1) by (simp add: pass_ok_def)
qed

lemma pass_slot_quiet:
  assumes ok: "pass_ok p" and doc: "fmlookup (bi_ids (pa_index p)) key = Some doc" and run: "pass_slot doc key p = (s, p')"
  shows "pass_ok p'" "quiet p p'" "at_slot p' s key"
proof -
  have a: "slots_ok p" "named (pa_index p)" using ok by (simp_all add: pass_ok_def)
  note b = pass_slot_ok [OF a doc run] pass_slot_grown [OF a doc run]
  show "pass_ok p'" by (rule grown_pass_ok [OF ok b(6) b(1)])
  show "quiet p p'" by (rule grown_quiet [OF b(6)])
  show "at_slot p' s key" using b by (simp add: at_slot_def)
qed

lemma neighbourSlot_quiet:
  assumes ok: "pass_ok p" and run: "neighbourSlot key p = (s, p')"
  shows "pass_ok p'" "quiet p p'" "at_slot p' s key" "grown p p'"
proof -
  have a: "slots_ok p" "named (pa_index p)" using ok by (simp_all add: pass_ok_def)
  note b = neighbourSlot_ok [OF a run]
  show "pass_ok p'" by (rule grown_pass_ok [OF ok b(4) b(1)])
  show "quiet p p'" by (rule grown_quiet [OF b(4)])
  show "at_slot p' s key" using b by (simp add: at_slot_def)
  show "grown p p'" by (rule b(4))
qed

lemma change_doc_pass_ok:
  assumes ok: "pass_ok p" and i: "i < length (pa_readings p)" and s: "at_slot p s key"
    and d: "doc_ok (pa_index p) (keep_of i p) key (f (view i key p))"
  shows "pass_ok (change_doc i s f p)"
proof -
  let ?p = "change_doc i s f p"
  have a: "slots_ok p" "s < length (slot_keys p)" using ok s by (simp_all add: pass_ok_def at_slot_def)
  note c = change_doc_ok [OF a(1) i a(2), where f = f]
  have "slot_ok ?p x" if "x \<in> set (pa_slots p)" for x
    by (rule slot_ok_grows [where p = p and ls = "[]"]) (use ok that in \<open>auto simp: pass_ok_def at_slot_def\<close>)
  moreover have "doc_ok (pa_index ?p) (keep_of j ?p) k (view j k ?p)" if "j < length (pa_readings p)" for j k
    using ok d s same_frame_fields(4) [OF c(2) that] that by (auto simp: c(4) pass_ok_def at_slot_def)
  ultimately show ?thesis using ok c(1) by (simp add: pass_ok_def)
qed

lemma change_doc_quiet:
  assumes ok: "pass_ok p" and i: "i < length (pa_readings p)" and s: "at_slot p s key" and same: "core (f (view i key p)) = core (view i key p)"
  shows "quiet p (change_doc i s f p)"
proof -
  have a: "slots_ok p" "s < length (slot_keys p)" using ok s by (simp_all add: pass_ok_def at_slot_def)
  note c = change_doc_ok [OF a(1) i a(2), where f = f]
  show ?thesis using c(2,3) same s by (auto simp: quiet_def c(4) at_slot_def)
qed

lemma doc_at_view: "pass_ok p \<Longrightarrow> i < length (pa_readings p) \<Longrightarrow> at_slot p s key \<Longrightarrow> doc_at i s p = view i key p"
  using view_at [of p i s] by (auto simp: pass_ok_def at_slot_def)

lemma ps_key_at: "at_slot p s key \<Longrightarrow> ps_key (pa_slots p ! s) = key"
  by (auto simp: at_slot_def slot_keys_def)

lemma accepts_quiet:
  assumes ok: "pass_ok p" and i: "i < length (pa_readings p)" and s: "at_slot p s key" and run: "accepts i s p = (b, p')"
  shows "pass_ok p'" "quiet p p'" "b = keep_of i p key"
proof -
  let ?d = "view i key p"
  have d: "doc_ok (pa_index p) (keep_of i p) key ?d" using ok i by (simp add: pass_ok_def)
  have at: "doc_at i s p = ?d" by (rule doc_at_view [OF ok i s])
  have keep: "(case re_keep (pa_readings p ! i) of None \<Rightarrow> True | Some keep \<Rightarrow> keep (ps_key (pa_slots p ! s))) = keep_of i p key"
    by (simp add: keep_of_def ps_key_at [OF s] split: option.split)
  have "pass_ok p' \<and> quiet p p' \<and> b = keep_of i p key"
  proof (cases "rd_verdict ?d = 0")
    case True
    let ?f = "\<lambda>d. d\<lparr>rd_verdict := if keep_of i p key then 1 else -1\<rparr>"
    have r: "b = keep_of i p key" "p' = change_doc i s ?f p" using run True by (auto simp: accepts_def at keep Let_def)
    have "pass_ok (change_doc i s ?f p)" by (rule change_doc_pass_ok [OF ok i s]) (use d in \<open>simp add: doc_ok_def\<close>)
    moreover have "quiet p (change_doc i s ?f p)" by (rule change_doc_quiet [OF ok i s]) (simp add: core_def)
    ultimately show ?thesis using r by simp
  next
    case False
    then have "b = (rd_verdict ?d > 0)" "p' = p" using run by (auto simp: accepts_def at)
    then show ?thesis using d False ok by (simp add: doc_ok_def)
  qed
  then show "pass_ok p'" "quiet p p'" "b = keep_of i p key" by blast+
qed

lemma change_slot_quiet:
  assumes ok: "pass_ok p" and s: "at_slot p s key" and key: "\<And>x. ps_key (f x) = ps_key x"
    and new: "slot_ok p (f (pa_slots p ! s))"
  shows "pass_ok (change_slot s f p)" "quiet p (change_slot s f p)"
proof -
  let ?p = "change_slot s f p"
  have a: "slots_ok p" "s < length (slot_keys p)" using ok s by (simp_all add: pass_ok_def at_slot_def)
  note c = change_slot_ok [OF a, of f, OF key]
  have slots: "pa_slots ?p = (pa_slots p)[s := f (pa_slots p ! s)]" by (simp add: change_slot_def)
  have "slot_ok ?p x" if "slot_ok p x" for x
    by (rule slot_ok_grows [where p = p and ls = "[]"]) (use that c(1) in \<open>simp_all add: at_slot_def\<close>)
  then have "\<forall>x \<in> set (pa_slots ?p). slot_ok ?p x" using ok new unfolding slots by (auto simp: pass_ok_def dest: set_update_subset_insert [THEN subsetD])
  then show "pass_ok ?p" using ok c by (simp add: pass_ok_def keep_of_def [abs_def])
  show "quiet p ?p" using c by (simp add: quiet_def same_frame_def)
qed

lemma own_quiet:
  assumes ok: "pass_ok p" and s: "at_slot p s key" and run: "own s p = (x, p')"
  shows "pass_ok p'" "quiet p p'" "x = rel_Length (bi_relevance (pa_index p)) key"
proof -
  let ?x = "pa_slots p ! s"
  have x: "slot_ok p ?x" "ps_key ?x = key" using ok s ps_key_at [OF s] by (auto simp: pass_ok_def at_slot_def slot_keys_def)
  have "pass_ok p' \<and> quiet p p' \<and> x = rel_Length (bi_relevance (pa_index p)) key"
  proof (cases "ps_measured ?x")
    case True
    then show ?thesis using run x ok by (auto simp: own_def slot_ok_def)
  next
    case False
    let ?f = "\<lambda>x. x\<lparr>ps_own := rel_Length (bi_relevance (pa_index p)) (ps_key x), ps_measured := True\<rparr>"
    have r: "p' = change_slot s ?f p" "x = ps_own (pa_slots (change_slot s ?f p) ! s)" using run False by (auto simp: own_def Let_def)
    have "s < length (pa_slots p)" using s by (simp add: at_slot_def slot_keys_def)
    then have "x = rel_Length (bi_relevance (pa_index p)) key" using r(2) x(2) by (simp add: change_slot_def)
    moreover have new: "slot_ok p (?f ?x)" using x(1) by (simp add: slot_ok_def)
    ultimately show ?thesis using change_slot_quiet [OF ok s, of ?f] r(1) by simp
  qed
  then show "pass_ok p'" "quiet p p'" "x = rel_Length (bi_relevance (pa_index p)) key" by blast+
qed

lemma lend_append_quiet:
  assumes ok: "pass_ok p"
  shows "pass_ok (p\<lparr>pa_lent := pa_lent p @ ls\<rparr>)" "quiet p (p\<lparr>pa_lent := pa_lent p @ ls\<rparr>)"
proof -
  let ?p = "p\<lparr>pa_lent := pa_lent p @ ls\<rparr>"
  have keys: "slot_keys ?p = slot_keys p" by (simp add: slot_keys_def)
  have v: "view i k ?p = view i k p" for i k by (simp add: view_def keys)
  have "slots_ok ?p" by (rule slots_ok_cong [of p]) (use ok in \<open>simp_all add: pass_ok_def keys\<close>)
  moreover have "slot_ok ?p x" if "slot_ok p x" for x
    by (rule slot_ok_grows [where p = p and ls = ls]) (use that in \<open>simp_all add: at_slot_def keys\<close>)
  ultimately show "pass_ok ?p" using ok by (simp add: pass_ok_def v keep_of_def [abs_def])
  show "quiet p ?p" by (simp add: quiet_def same_frame_def keys v)
qed

lemma resolve_quiet:
  assumes "pass_ok p"
  defines "step \<equiv> \<lambda>p n. let (t, p') = neighbourSlot n p in p'\<lparr>pa_lent := pa_lent p' @ [t]\<rparr>"
  shows "pass_ok (foldl step p ns) \<and> quiet p (foldl step p ns) \<and>
    (\<exists>ls. pa_lent (foldl step p ns) = pa_lent p @ ls \<and> list_all2 (at_slot (foldl step p ns)) ls ns)"
  using assms(1)
proof (induction ns rule: rev_induct)
  case (snoc n ns)
  let ?q = "foldl step p ns"
  obtain ls where IH: "pass_ok ?q" "quiet p ?q" "pa_lent ?q = pa_lent p @ ls" "list_all2 (at_slot ?q) ls ns" using snoc by blast
  obtain t q1 where t: "neighbourSlot n ?q = (t, q1)" by fastforce
  note nq = neighbourSlot_quiet [OF IH(1) t]
  let ?q2 = "q1\<lparr>pa_lent := pa_lent q1 @ [t]\<rparr>"
  have "step q n = (let (t, p') = neighbourSlot n q in p'\<lparr>pa_lent := pa_lent p' @ [t]\<rparr>)" for q by (simp add: step_def)
  then have step: "foldl step p (ns @ [n]) = ?q2" using t by simp
  note lq = lend_append_quiet [OF nq(1), of "[t]"]
  have "list_all2 (at_slot ?q2) ls ns" by (rule list_all2_mono [OF IH(4)]) (intro quiet_at_slot [OF lq(2)] quiet_at_slot [OF nq(2)])
  moreover have "at_slot ?q2 t n" by (rule quiet_at_slot [OF lq(2) nq(3)])
  moreover have "pa_lent ?q2 = pa_lent p @ ls @ [t]" using nq(4) IH(3) by (simp add: grown_def)
  ultimately have "\<exists>ls'. pa_lent ?q2 = pa_lent p @ ls' \<and> list_all2 (at_slot ?q2) ls' (ns @ [n])"
    by (intro exI [of _ "ls @ [t]"]) (simp add: list_all2_appendI)
  then show ?case unfolding step using lq quiet_trans [OF quiet_trans [OF IH(2) nq(2)] lq(2)] by blast
qed (simp add: exI [of _ "[]"])

lemma adjacent_quiet:
  assumes ok: "pass_ok p" and s: "at_slot p s key" and run: "adjacent s p = (ns, p')"
  shows "pass_ok p'" "quiet p p'" "list_all2 (at_slot p') ns (neighbours_of (pa_index p) key)"
proof -
  let ?x = "pa_slots p ! s" and ?ks = "neighbours_of (pa_index p) key"
  have x: "slot_ok p ?x" "ps_key ?x = key" using ok s ps_key_at [OF s] by (auto simp: pass_ok_def at_slot_def slot_keys_def)
  have "pass_ok p' \<and> quiet p p' \<and> list_all2 (at_slot p') ns ?ks"
  proof (cases "ps_resolved ?x")
    case True
    then have "p' = p" "ns = take (ps_to ?x - ps_from ?x) (drop (ps_from ?x) (pa_lent p))" using run by (auto simp: adjacent_def Let_def)
    then show ?thesis using x True ok by (simp add: slot_ok_def)
  next
    case False
    let ?step = "\<lambda>p n. let (t, p') = neighbourSlot n p in p'\<lparr>pa_lent := pa_lent p' @ [t]\<rparr>"
    let ?q = "foldl ?step p ?ks"
    obtain ls where q: "pass_ok ?q" "quiet p ?q" "pa_lent ?q = pa_lent p @ ls" "list_all2 (at_slot ?q) ls ?ks"
      using resolve_quiet [OF ok, of ?ks] by blast
    let ?f = "\<lambda>x. x\<lparr>ps_from := length (pa_lent p), ps_to := length (pa_lent ?q), ps_resolved := True\<rparr>"
    have sq: "at_slot ?q s key" by (rule quiet_at_slot [OF q(2) s])
    have idx: "pa_index ?q = pa_index p" using q(2) by (simp add: quiet_def same_frame_def)
    have xq: "slot_ok ?q (pa_slots ?q ! s)" "ps_key (pa_slots ?q ! s) = key" "s < length (pa_slots ?q)"
      using q(1) sq ps_key_at [OF sq] by (auto simp: pass_ok_def at_slot_def slot_keys_def)
    have new: "slot_ok ?q (?f (pa_slots ?q ! s))" using xq(1,2) q(3,4) idx by (simp add: slot_ok_def)
    have ps: "p' = change_slot s ?f ?q" "ns = take (ps_to (pa_slots p' ! s) - ps_from (pa_slots p' ! s)) (drop (ps_from (pa_slots p' ! s)) (pa_lent p'))"
      using run False x(2) by (auto simp: adjacent_def Let_def)
    have sl: "pa_slots p' ! s = ?f (pa_slots ?q ! s)" using xq(3) by (simp add: ps(1) change_slot_def)
    have "ns = ls" unfolding ps(2) sl using q(3) by (simp add: ps(1))
    moreover note c = change_slot_quiet [OF q(1) sq, of ?f, OF _ new]
    have c1: "pass_ok p'" "quiet ?q p'" using c ps(1) by simp_all
    moreover have "list_all2 (at_slot p') ls ?ks" by (rule list_all2_mono [OF q(4)]) (rule quiet_at_slot [OF c1(2)])
    ultimately show ?thesis using quiet_trans [OF q(2) c1(2)] by simp
  qed
  then show "pass_ok p'" "quiet p p'" "list_all2 (at_slot p') ns ?ks" by blast+
qed

lemma quiet_frame: "quiet p p' \<Longrightarrow> same_frame p p'"
  by (simp add: quiet_def)

lemma quiet_fields:
  assumes "quiet p p'"
  shows "pa_index p' = pa_index p" "pa_term p' = pa_term p" "length (pa_readings p') = length (pa_readings p)"
    "i < length (pa_readings p) \<Longrightarrow> keep_of i p' = keep_of i p" "i < length (pa_readings p) \<Longrightarrow> core (view i k p') = core (view i k p)"
  using same_frame_fields [OF quiet_frame [OF assms]] assms by (auto simp: quiet_def)

lemma add_neighbours_quiet:
  assumes "pass_ok p" "i < length (pa_readings p)" "list_all2 (at_slot p) ns ks" "foldl (add_neighbour i) (l, p) ns = (l', p')"
  shows "pass_ok p' \<and> quiet p p' \<and>
    l' = l + sum_list (map (\<lambda>n. bi_gamma (pa_index p) * rel_Length (bi_relevance (pa_index p)) n) (filter (keep_of i p) ks))"
  using assms
proof (induction ns arbitrary: l p ks)
  case (Cons n ns l p ks0)
  obtain k ks where ks: "ks0 = k # ks" "at_slot p n k" "list_all2 (at_slot p) ns ks" using Cons.prems(3) by (auto simp: list_all2_Cons1)
  obtain b p1 where a: "accepts i n p = (b, p1)" by fastforce
  note aq = accepts_quiet [OF Cons.prems(1,2) ks(2) a]
  obtain x p2 where o: "own n p1 = (x, p2)" by fastforce
  have at1: "at_slot p1 n k" by (rule quiet_at_slot [OF aq(2) ks(2)])
  note oq = own_quiet [OF aq(1) at1 o]
  let ?q = "if b then p2 else p1" and ?l = "if b then l + bi_gamma (pa_index p) * x else l"
  have step: "add_neighbour i (l, p) n = (?l, ?q)" using a o by (simp add: add_neighbour_def)
  have q: "pass_ok ?q" "quiet p ?q" using aq oq quiet_trans [OF aq(2) oq(2)] by simp_all
  note f = quiet_fields [OF q(2)]
  have "list_all2 (at_slot ?q) ns ks" by (rule list_all2_mono [OF ks(3)]) (rule quiet_at_slot [OF q(2)])
  then have IH: "pass_ok p' \<and> quiet ?q p' \<and>
    l' = ?l + sum_list (map (\<lambda>n. bi_gamma (pa_index ?q) * rel_Length (bi_relevance (pa_index ?q)) n) (filter (keep_of i ?q) ks))"
    using Cons.IH [of ?q ks ?l] q(1) Cons.prems(2,4) f(3) step by simp
  have "?l = l + (if keep_of i p k then bi_gamma (pa_index p) * rel_Length (bi_relevance (pa_index p)) k else 0)"
    using aq(3) oq(3) quiet_fields(1) [OF aq(2)] by simp
  moreover have "quiet p p'" by (rule quiet_trans [OF q(2)]) (use IH in blast)
  ultimately show ?case using IH f(1) f(4) [OF Cons.prems(2)] ks(1) by simp
qed simp

lemma window_length_quiet:
  assumes ok: "pass_ok p" and i: "i < length (pa_readings p)" and s: "at_slot p s key" and run: "window_length i s p = (l, p')"
  shows "pass_ok p'" "quiet p p'" "l = window_len (pa_index p) (keep_of i p) key"
proof -
  let ?d = "view i key p" and ?len = "window_len (pa_index p) (keep_of i p) key"
  have d: "doc_ok (pa_index p) (keep_of i p) key ?d" using ok i by (simp add: pass_ok_def)
  have at: "doc_at i s p = ?d" by (rule doc_at_view [OF ok i s])
  have "pass_ok p' \<and> quiet p p' \<and> l = ?len"
  proof (cases "rd_measured ?d")
    case True
    then have "p' = p" "l = rd_length ?d" using run by (auto simp: window_length_def at)
    then show ?thesis using d True ok by (simp add: doc_ok_def)
  next
    case False
    obtain x p1 where o: "own s p = (x, p1)" by fastforce
    note oq = own_quiet [OF ok s o]
    have s1: "at_slot p1 s key" by (rule quiet_at_slot [OF oq(2) s])
    obtain ns p2 where a: "adjacent s p1 = (ns, p2)" by fastforce
    note aq = adjacent_quiet [OF oq(1) s1 a]
    have q2: "quiet p p2" by (rule quiet_trans [OF oq(2) aq(2)])
    note f2 = quiet_fields [OF q2]
    have i2: "i < length (pa_readings p2)" using i f2(3) by simp
    obtain l' p3 where n: "foldl (add_neighbour i) (x, p2) ns = (l', p3)" by fastforce
    have nq: "pass_ok p3" "quiet p2 p3"
      "l' = x + sum_list (map (\<lambda>n. bi_gamma (pa_index p2) * rel_Length (bi_relevance (pa_index p2)) n) (filter (keep_of i p2) (neighbours_of (pa_index p1) key)))"
      using add_neighbours_quiet [OF aq(1) i2 aq(3) n] by blast+
    have l': "l' = ?len" using nq(3) oq(3) f2(1) f2(4) [OF i] quiet_fields(1) [OF oq(2)] by (simp add: window_len_def)
    have q3: "quiet p p3" by (rule quiet_trans [OF q2 nq(2)])
    note f3 = quiet_fields [OF q3]
    have i3: "i < length (pa_readings p3)" using i f3(3) by simp
    have s3: "at_slot p3 s key" by (rule quiet_at_slot [OF q3 s])
    let ?f = "\<lambda>d. d\<lparr>rd_length := l', rd_measured := True\<rparr>"
    have r: "p' = change_doc i s ?f p3" "l = rd_length (doc_at i s p')" using run False o a n by (auto simp: window_length_def at Let_def)
    have d3: "doc_ok (pa_index p3) (keep_of i p3) key (view i key p3)" using nq(1) i3 by (simp add: pass_ok_def)
    have ok': "pass_ok p'" unfolding r(1)
      by (rule change_doc_pass_ok [OF nq(1) i3 s3]) (use d3 l' f3(1) f3(4) [OF i] in \<open>simp add: doc_ok_def\<close>)
    have q': "quiet p3 p'" unfolding r(1) by (rule change_doc_quiet [OF nq(1) i3 s3]) (simp add: core_def)
    have "slots_ok p3" "s < length (slot_keys p3)" "slot_keys p3 ! s = key" using nq(1) s3 by (simp_all add: pass_ok_def at_slot_def)
    then have "view i key p' = ?f (view i key p3)" unfolding r(1) by (simp add: change_doc_ok(4) [OF _ i3])
    moreover have "doc_at i s p' = view i key p'"
      by (rule doc_at_view [OF ok']) (use i3 quiet_fields(3) [OF q'] quiet_at_slot [OF q' s3] in simp_all)
    ultimately show ?thesis using ok' quiet_trans [OF q3 q'] r(2) l' by simp
  qed
  then show "pass_ok p'" "quiet p p'" "l = ?len" by blast+
qed

end
