(* ===== verification/Index_Search_Terms.thy ===== *)
theory Index_Search_Terms
  imports Index_Search_Pass
begin

text \<open>
  One term of a text search: its posting list adds the term's gain and weight to every document of a reading that
  holds it, or under a window that holds or borrows it.
\<close>

section \<open>Readings are independent\<close>

text \<open>A step that leaves reading \<open>i\<close> as it is.\<close>

definition calm :: "nat \<Rightarrow> 'k pass \<Rightarrow> 'k pass \<Rightarrow> bool" where
  "calm i p p' \<longleftrightarrow> same_frame p p' \<and> (\<exists>ks. slot_keys p' = slot_keys p @ ks) \<and>
     re_touched (pa_readings p' ! i) = re_touched (pa_readings p ! i) \<and> (\<forall>k. core (view i k p') = core (view i k p))"

definition only :: "nat \<Rightarrow> 'k pass \<Rightarrow> 'k pass \<Rightarrow> bool" where
  "only i p p' \<longleftrightarrow> same_frame p p' \<and> (\<exists>ks. slot_keys p' = slot_keys p @ ks) \<and> (\<forall>j < length (pa_readings p). j \<noteq> i \<longrightarrow> calm j p p')"

lemma calm_trans: "calm i p q \<Longrightarrow> calm i q r \<Longrightarrow> calm i p r"
  unfolding calm_def by (metis append.assoc same_frame_trans)

lemma calm_refl [simp]: "calm i p p"
  by (simp add: calm_def)

lemma only_refl [simp]: "only i p p"
  by (simp add: only_def)

lemma only_trans: "only i p q \<Longrightarrow> only i q r \<Longrightarrow> only i p r"
  unfolding only_def by (metis append.assoc calm_trans same_frame_fields(3) same_frame_trans)

lemma quiet_calm: "quiet p p' \<Longrightarrow> i < length (pa_readings p) \<Longrightarrow> calm i p p'"
  unfolding quiet_def calm_def by (metis nth_map same_frame_fields(3))

lemma quiet_only: "quiet p p' \<Longrightarrow> only i p p'"
  using quiet_calm by (auto simp: only_def quiet_def)

lemma calm_fields:
  assumes "calm i p p'"
  shows "pa_index p' = pa_index p" "pa_term p' = pa_term p" "length (pa_readings p') = length (pa_readings p)"
    "i < length (pa_readings p) \<Longrightarrow> keep_of i p' = keep_of i p" "core (view i k p') = core (view i k p)"
  using assms same_frame_fields [of p p'] by (auto simp: calm_def)

lemma only_fields:
  assumes "only i p p'"
  shows "pa_index p' = pa_index p" "pa_term p' = pa_term p" "length (pa_readings p') = length (pa_readings p)"
    "j < length (pa_readings p) \<Longrightarrow> keep_of j p' = keep_of j p"
  using assms same_frame_fields [of p p'] by (auto simp: only_def)

lemma calm_at_slot: "calm i p p' \<Longrightarrow> at_slot p s k \<Longrightarrow> at_slot p' s k"
  by (auto simp: calm_def at_slot_def nth_append)

lemma only_at_slot: "only i p p' \<Longrightarrow> at_slot p s k \<Longrightarrow> at_slot p' s k"
  by (auto simp: only_def at_slot_def nth_append)

text \<open>A loop over the readings: what the step of reading \<open>i\<close> sees is what the loop began with.\<close>

lemma fold_readings:
  assumes step: "\<And>p i. pass_ok p \<Longrightarrow> I p \<Longrightarrow> i < length (pa_readings p) \<Longrightarrow> pass_ok (f p i) \<and> only i p (f p i) \<and> I (f p i)"
    and ok: "pass_ok p" and inv: "I p" and n: "n \<le> length (pa_readings p)"
  shows "pass_ok (foldl f p [0..<n]) \<and> same_frame p (foldl f p [0..<n]) \<and> I (foldl f p [0..<n]) \<and>
    (\<exists>ks. slot_keys (foldl f p [0..<n]) = slot_keys p @ ks) \<and>
    (\<forall>i < length (pa_readings p). if i < n then \<exists>q. pass_ok q \<and> I q \<and> calm i p q \<and> calm i (f q i) (foldl f p [0..<n]) else calm i p (foldl f p [0..<n]))"
  using n
proof (induction n)
  case (Suc n)
  let ?q = "foldl f p [0..<n]"
  have IH: "pass_ok ?q" "same_frame p ?q" "I ?q" "\<exists>ks. slot_keys ?q = slot_keys p @ ks"
    "\<forall>i < length (pa_readings p). if i < n then \<exists>q. pass_ok q \<and> I q \<and> calm i p q \<and> calm i (f q i) ?q else calm i p ?q"
    using Suc by simp_all
  have n: "n < length (pa_readings ?q)" using Suc.prems same_frame_fields(3) [OF IH(2)] by simp
  have f: "pass_ok (f ?q n)" "only n ?q (f ?q n)" "I (f ?q n)" using step [OF IH(1,3) n] by blast+
  have last: "foldl f p [0..<Suc n] = f ?q n" by simp
  have "same_frame p (f ?q n)" by (rule same_frame_trans [OF IH(2)]) (use f(2) in \<open>simp add: only_def\<close>)
  moreover have "\<exists>ks. slot_keys (f ?q n) = slot_keys p @ ks" using f(2) IH(4) by (auto simp: only_def)
  moreover have "if i < Suc n then \<exists>q. pass_ok q \<and> I q \<and> calm i p q \<and> calm i (f q i) (f ?q n) else calm i p (f ?q n)" if "i < length (pa_readings p)" for i
  proof -
    have other: "i \<noteq> n \<Longrightarrow> calm i ?q (f ?q n)" using f(2) that same_frame_fields(3) [OF IH(2)] by (simp add: only_def)
    consider "i < n" | "i = n" | "n < i" by linarith
    then show ?thesis
    proof cases
      case 1
      then have "\<exists>q. pass_ok q \<and> I q \<and> calm i p q \<and> calm i (f q i) ?q" using IH(5) [rule_format, OF that] by simp
      then obtain q where q: "pass_ok q" "I q" "calm i p q" "calm i (f q i) ?q" by blast
      have "calm i (f q i) (f ?q n)" using calm_trans [OF q(4) other] 1 by simp
      then show ?thesis using 1 q(1,2,3) by auto
    next
      case 2
      then have "calm n p ?q" using IH(5) [rule_format, OF that] by simp
      then have "pass_ok ?q \<and> I ?q \<and> calm i p ?q \<and> calm i (f ?q i) (f ?q n)" using 2 IH(1,3) by simp
      then show ?thesis using 2 by auto
    next
      case 3
      then have "calm i p ?q" using IH(5) [rule_format, OF that] by simp
      then have "calm i p (f ?q n)" using calm_trans other 3 by blast
      then show ?thesis using 3 by simp
    qed
  qed
  ultimately show ?case unfolding last using f(1,3) by blast
qed (use ok inv in simp)

text \<open>A step at a slot.\<close>

lemmas fold_readings_at = fold_readings [where I = "\<lambda>p. at_slot p s key" for s key]

section \<open>Without a window\<close>

definition bump :: "nat \<Rightarrow> real \<Rightarrow> real \<Rightarrow> nat \<times> real \<times> real \<times> real \<Rightarrow> nat \<times> real \<times> real \<times> real" where
  "bump t gain weight = (\<lambda>(sn, tf, sc, m). (t, tf, sc + gain, m + weight))"

lemma plain_reading_effect:
  assumes ok: "pass_ok p" and i: "i < length (pa_readings p)" and s: "at_slot p s key"
  shows "pass_ok (plain_reading weight gain s p i)" "only i p (plain_reading weight gain s p i)"
    "core (view i k (plain_reading weight gain s p i)) =
      (if k = key \<and> keep_of i p key then bump (pa_term p) gain weight (core (view i k p)) else core (view i k p))"
proof -
  obtain b p1 where a: "accepts i s p = (b, p1)" by fastforce
  note aq = accepts_quiet [OF ok i s a]
  note f = quiet_fields [OF aq(2)]
  let ?f = "\<lambda>d. d\<lparr>rd_seen := pa_term p1, rd_score := rd_score d + gain, rd_matched := rd_matched d + weight\<rparr>"
  let ?p = "plain_reading weight gain s p i"
  have i1: "i < length (pa_readings p1)" and s1: "at_slot p1 s key" using i f(3) quiet_at_slot [OF aq(2) s] by simp_all
  have r: "?p = (if keep_of i p key then change_doc i s ?f p1 else p1)" using a aq(3) by (simp add: plain_reading_def)
  have sl: "slots_ok p1" "s < length (slot_keys p1)" "slot_keys p1 ! s = key" using aq(1) s1 by (simp_all add: pass_ok_def at_slot_def)
  note c = change_doc_ok [OF sl(1) i1 sl(2), where f = ?f]
  have d: "doc_ok (pa_index p1) (keep_of i p1) key (view i key p1)" using aq(1) i1 by (simp add: pass_ok_def)
  have "pass_ok (change_doc i s ?f p1)" by (rule change_doc_pass_ok [OF aq(1) i1 s1]) (use d in \<open>simp add: doc_ok_def\<close>)
  then show "pass_ok ?p" unfolding r using aq(1) by simp
  have "re_touched (pa_readings (change_doc i s ?f p1) ! j) = re_touched (pa_readings p1 ! j)" if "j \<noteq> i" for j
    using that by (simp add: change_doc_def)
  then have "only i p1 (change_doc i s ?f p1)" using c(2) by (simp add: only_def calm_def c(4))
  then have "only i p (change_doc i s ?f p1)" by (rule only_trans [OF quiet_only [OF aq(2)]])
  then show "only i p ?p" unfolding r using quiet_only [OF aq(2)] by simp
  show "core (view i k ?p) = (if k = key \<and> keep_of i p key then bump (pa_term p) gain weight (core (view i k p)) else core (view i k p))"
  proof (cases "k = key \<and> keep_of i p key")
    case True
    then have "view i k ?p = ?f (view i k p1)" by (simp add: r c(4) sl(3))
    then have "core (view i k ?p) = bump (pa_term p) gain weight (core (view i k p1))" using f(2) by (simp add: core_def bump_def)
    then show ?thesis using True f(5) [OF i, of k] by simp
  next
    case False
    then have "view i k ?p = view i k p1" by (auto simp: r c(4) sl(3))
    then show ?thesis using False f(5) [OF i, of k] by auto
  qed
qed

lemma plain_posting_effect:
  fixes weight prepared :: real
  assumes ok: "pass_ok p" and doc: "fmlookup (bi_ids (pa_index p)) (po_key po) = Some (po_doc po)"
  defines "p' \<equiv> plain_posting weight prepared p po"
  shows "pass_ok p'" "same_frame p p'" "\<exists>ks. slot_keys p' = slot_keys p @ ks"
    "i < length (pa_readings p) \<Longrightarrow> core (view i k p') = (if k = po_key po \<and> po_tf po \<noteq> 0 \<and> keep_of i p k
       then bump (pa_term p) (rel_Increment (bi_relevance (pa_index p)) weight k (po_tf po) prepared) weight (core (view i k p)) else core (view i k p))"
proof -
  let ?key = "po_key po" and ?n = "length (pa_readings p)"
  let ?gain = "rel_Increment (bi_relevance (pa_index p)) weight (po_key po) (po_tf po) prepared"
  have "pass_ok p' \<and> same_frame p p' \<and> (\<exists>ks. slot_keys p' = slot_keys p @ ks) \<and> (\<forall>i < ?n. \<forall>k. core (view i k p') =
     (if k = ?key \<and> po_tf po \<noteq> 0 \<and> keep_of i p k then bump (pa_term p) ?gain weight (core (view i k p)) else core (view i k p)))"
  proof (cases "po_tf po = 0")
    case True
    then show ?thesis using ok by (simp add: p'_def plain_posting_def)
  next
    case False
    obtain s p1 where sl: "pass_slot (po_doc po) ?key p = (s, p1)" by fastforce
    note sq = pass_slot_quiet [OF ok doc sl]
    note f = quiet_fields [OF sq(2)]
    let ?f = "plain_reading weight ?gain s"
    have p': "p' = foldl ?f p1 [0..<?n]" using False sl f(3) by (simp add: p'_def plain_posting_def)
    have step: "pass_ok (?f p i) \<and> only i p (?f p i) \<and> at_slot (?f p i) s ?key" if "pass_ok p" "at_slot p s ?key" "i < length (pa_readings p)" for p i
      using plain_reading_effect [OF that(1,3,2)] only_at_slot [OF _ that(2)] by blast
    have n1: "?n \<le> length (pa_readings p1)" using f(3) by simp
    note fold = fold_readings_at [where f = ?f, OF step sq(1,3) n1, folded p']
    have "core (view i k p') = (if k = ?key \<and> po_tf po \<noteq> 0 \<and> keep_of i p k then bump (pa_term p) ?gain weight (core (view i k p)) else core (view i k p))"
      if i: "i < ?n" for i k
    proof -
      obtain q where q: "pass_ok q" "calm i p1 q" "calm i (?f q i) p'" using fold i f(3) by auto
      note fq = calm_fields [OF q(2)]
      have iq: "i < length (pa_readings q)" "at_slot q s ?key" using i f(3) fq(3) calm_at_slot [OF q(2) sq(3)] by simp_all
      show ?thesis using plain_reading_effect(3) [OF q(1) iq, where weight = weight and gain = ?gain and k = k] calm_fields(5) [OF q(3), of k] fq(5) [of k] f(5) [OF i, of k]
          fq(2) f(2) fq(4) f(4) [OF i] i f(3) False by auto
    qed
    moreover have "same_frame p p'" using same_frame_trans [OF quiet_frame [OF sq(2)]] fold by blast
    moreover obtain ks ks' where "slot_keys p' = slot_keys p1 @ ks" "slot_keys p1 = slot_keys p @ ks'" using fold sq(2) by (auto simp: quiet_def)
    ultimately show ?thesis using fold by auto
  qed
  then show "pass_ok p'" "same_frame p p'" "\<exists>ks. slot_keys p' = slot_keys p @ ks" "i < length (pa_readings p) \<Longrightarrow> core (view i k p') = (if k = po_key po \<and> po_tf po \<noteq> 0 \<and> keep_of i p k
       then bump (pa_term p) (rel_Increment (bi_relevance (pa_index p)) weight k (po_tf po) prepared) weight (core (view i k p)) else core (view i k p))"
    by auto
qed

lemma foldl_concat: "foldl (foldl f) p xss = foldl f p (concat xss)"
  by (induction xss arbitrary: p) auto

text \<open>What a whole posting list does to a reading: who is hit, and with what gain.\<close>

definition tallied :: "nat \<Rightarrow> ('k \<Rightarrow> bool) \<Rightarrow> ('k \<Rightarrow> real) \<Rightarrow> real \<Rightarrow> 'k pass \<Rightarrow> 'k pass \<Rightarrow> bool" where
  "tallied i hit gain weight p p' \<longleftrightarrow> (\<forall>k.
     (rd_seen (view i k p') > 0 \<longleftrightarrow> rd_seen (view i k p) > 0 \<or> hit k) \<and> rd_seen (view i k p') \<le> pa_term p' \<and>
     rd_score (view i k p') = rd_score (view i k p) + (if hit k then gain k else 0) \<and>
     rd_matched (view i k p') = rd_matched (view i k p) + (if hit k then weight else 0))"

definition clock_ok :: "'k pass \<Rightarrow> bool" where
  "clock_ok p \<longleftrightarrow> (\<forall>i < length (pa_readings p). \<forall>k. rd_seen (view i k p) \<le> pa_term p)"

lemma plain_postings_effect:
  fixes weight prepared :: real
  assumes "pass_ok p" "distinct (map po_key ps)" "\<forall>po \<in> set ps. fmlookup (bi_ids (pa_index p)) (po_key po) = Some (po_doc po)"
  shows "pass_ok (foldl (plain_posting weight prepared) p ps) \<and> same_frame p (foldl (plain_posting weight prepared) p ps) \<and>
    (\<forall>i < length (pa_readings p). \<forall>k. core (view i k (foldl (plain_posting weight prepared) p ps)) =
       (if frequency ps k \<noteq> 0 \<and> keep_of i p k
        then bump (pa_term p) (rel_Increment (bi_relevance (pa_index p)) weight k (frequency ps k) prepared) weight (core (view i k p)) else core (view i k p)))"
  using assms
proof (induction ps arbitrary: p)
  case (Cons po ps)
  let ?q = "plain_posting weight prepared p po" and ?r = "foldl (plain_posting weight prepared) p (po # ps)"
  have doc: "fmlookup (bi_ids (pa_index p)) (po_key po) = Some (po_doc po)" using Cons.prems(3) by simp
  note one = plain_posting_effect [OF Cons.prems(1) doc, where weight = weight and prepared = prepared]
  note f = same_frame_fields [OF one(2)]
  have rest: "pass_ok ?r \<and> same_frame ?q ?r \<and>
    (\<forall>i < length (pa_readings ?q). \<forall>k. core (view i k ?r) =
       (if frequency ps k \<noteq> 0 \<and> keep_of i ?q k
        then bump (pa_term ?q) (rel_Increment (bi_relevance (pa_index ?q)) weight k (frequency ps k) prepared) weight (core (view i k ?q)) else core (view i k ?q)))"
    using Cons.IH [OF one(1)] Cons.prems(2,3) f(1) by simp
  have away: "frequency ps (po_key po) = 0" using Cons.prems(2) by (intro frequency_absent) (auto simp: image_iff)
  have "core (view i k ?r) = (if frequency (po # ps) k \<noteq> 0 \<and> keep_of i p k
        then bump (pa_term p) (rel_Increment (bi_relevance (pa_index p)) weight k (frequency (po # ps) k) prepared) weight (core (view i k p)) else core (view i k p))"
    if i: "i < length (pa_readings p)" for i k
  proof -
    have r: "core (view i k ?r) = (if frequency ps k \<noteq> 0 \<and> keep_of i p k
        then bump (pa_term p) (rel_Increment (bi_relevance (pa_index p)) weight k (frequency ps k) prepared) weight (core (view i k ?q)) else core (view i k ?q))"
      using rest i f by simp
    show ?thesis
    proof (cases "k = po_key po")
      case True
      then show ?thesis unfolding r one(4) [OF i, of k] using away by auto
    next
      case False
      then show ?thesis unfolding r one(4) [OF i, of k] by simp
    qed
  qed
  then show ?case using rest same_frame_trans [OF one(2)] by blast
qed simp

lemma tick_ok:
  assumes "pass_ok p"
  shows "pass_ok (p\<lparr>pa_term := t\<rparr>)" "view i k (p\<lparr>pa_term := t\<rparr>) = view i k p" "keep_of i (p\<lparr>pa_term := t\<rparr>) = keep_of i p"
proof -
  let ?p = "p\<lparr>pa_term := t\<rparr>"
  have keys: "slot_keys ?p = slot_keys p" by (simp add: slot_keys_def)
  show v: "view i k ?p = view i k p" for i k by (simp add: view_def keys)
  show kp: "keep_of i ?p = keep_of i p" for i by (simp add: keep_of_def [abs_def])
  have "slots_ok ?p" by (rule slots_ok_cong [of p]) (use assms in \<open>simp_all add: pass_ok_def keys\<close>)
  moreover have "slot_ok ?p x" if "slot_ok p x" for x
    by (rule slot_ok_grows [where p = p and ls = "[]"]) (use that in \<open>simp_all add: at_slot_def keys\<close>)
  ultimately show "pass_ok ?p" using assms by (simp add: pass_ok_def v kp)
qed

text \<open>A posting list the index holds.\<close>

definition postings_ok :: "'k BTreeIndex \<Rightarrow> 'k postingList \<Rightarrow> bool" where
  "postings_ok idx list \<longleftrightarrow> distinct (map po_key (entries_of list)) \<and>
     (\<forall>po \<in> set (entries_of list). fmlookup (bi_ids idx) (po_key po) = Some (po_doc po))"

lemma plain_accumulate:
  fixes weight prepared :: real
  assumes ok: "pass_ok p" and clock: "clock_ok p" and list: "postings_ok (pa_index p) list" and plain: "\<not> windowed (pa_index p)"
  defines "p' \<equiv> accumulate list weight prepared p"
  shows "pass_ok p' \<and> pa_index p' = pa_index p \<and> map re_keep (pa_readings p') = map re_keep (pa_readings p) \<and>
    (\<forall>i < length (pa_readings p). tallied i (\<lambda>k. frequency (entries_of list) k \<noteq> 0 \<and> keep_of i p k)
       (\<lambda>k. rel_Increment (bi_relevance (pa_index p)) weight k (frequency (entries_of list) k) prepared) weight p p')"
proof -
  let ?p = "p\<lparr>pa_term := pa_term p + 1\<rparr>"
  note t = tick_ok [OF ok]
  have p': "p' = foldl (plain_posting weight prepared) ?p (entries_of list)"
    using plain by (simp add: p'_def accumulate_def Let_def foldl_concat entries_of_def)
  have e: "pass_ok p' \<and> same_frame ?p p' \<and>
    (\<forall>i < length (pa_readings p). \<forall>k. core (view i k p') =
       (if frequency (entries_of list) k \<noteq> 0 \<and> keep_of i p k
        then bump (pa_term p + 1) (rel_Increment (bi_relevance (pa_index p)) weight k (frequency (entries_of list) k) prepared) weight (core (view i k p)) else core (view i k p)))"
    using plain_postings_effect [OF t(1), of "entries_of list", where weight = weight and prepared = prepared] list
    by (simp add: p' postings_ok_def t(2,3))
  have "tallied i (\<lambda>k. frequency (entries_of list) k \<noteq> 0 \<and> keep_of i p k)
       (\<lambda>k. rel_Increment (bi_relevance (pa_index p)) weight k (frequency (entries_of list) k) prepared) weight p p'" if i: "i < length (pa_readings p)" for i
    unfolding tallied_def
  proof
    fix k
    have "rd_seen (view i k p) \<le> pa_term p" using clock i by (simp add: clock_ok_def)
    moreover have "pa_term p' = pa_term p + 1" using e by (simp add: same_frame_def)
    moreover have "core (view i k p') = (if frequency (entries_of list) k \<noteq> 0 \<and> keep_of i p k
        then bump (pa_term p + 1) (rel_Increment (bi_relevance (pa_index p)) weight k (frequency (entries_of list) k) prepared) weight (core (view i k p)) else core (view i k p))"
      using e i by blast
    ultimately show "(rd_seen (view i k p') > 0 \<longleftrightarrow> rd_seen (view i k p) > 0 \<or> (frequency (entries_of list) k \<noteq> 0 \<and> keep_of i p k)) \<and> rd_seen (view i k p') \<le> pa_term p' \<and>
     rd_score (view i k p') = rd_score (view i k p) + (if frequency (entries_of list) k \<noteq> 0 \<and> keep_of i p k
        then rel_Increment (bi_relevance (pa_index p)) weight k (frequency (entries_of list) k) prepared else 0) \<and>
     rd_matched (view i k p') = rd_matched (view i k p) + (if frequency (entries_of list) k \<noteq> 0 \<and> keep_of i p k then weight else 0)"
      by (auto simp: core_def bump_def split: if_splits)
  qed
  then show ?thesis using e by (simp add: same_frame_def)
qed

section \<open>Under a window\<close>

text \<open>What a reading has heard of the current term: whom it reached and with what frequency.\<close>

definition hit_by :: "nat \<Rightarrow> 'k pass \<Rightarrow> 'k \<Rightarrow> bool" where
  "hit_by i p k \<longleftrightarrow> rd_seen (view i k p) = pa_term p"

definition heard :: "nat \<Rightarrow> 'k pass \<Rightarrow> 'k \<Rightarrow> real" where
  "heard i p k = (if hit_by i p k then rd_tf (view i k p) else 0)"

definition touched_keys :: "nat \<Rightarrow> 'k pass \<Rightarrow> 'k list" where
  "touched_keys i p = map (\<lambda>s. slot_keys p ! s) (re_touched (pa_readings p ! i))"

definition touched_ok :: "nat \<Rightarrow> 'k pass \<Rightarrow> bool" where
  "touched_ok i p \<longleftrightarrow> (\<forall>s \<in> set (re_touched (pa_readings p ! i)). s < length (slot_keys p)) \<and>
     distinct (touched_keys i p) \<and> (\<forall>k. k \<in> set (touched_keys i p) \<longleftrightarrow> hit_by i p k)"

definition hears :: "nat \<Rightarrow> ('k \<Rightarrow> bool) \<Rightarrow> ('k \<Rightarrow> real) \<Rightarrow> 'k pass \<Rightarrow> 'k pass \<Rightarrow> bool" where
  "hears i reached borrowed p p' \<longleftrightarrow> (\<forall>k. (hit_by i p' k \<longleftrightarrow> hit_by i p k \<or> reached k) \<and> heard i p' k = heard i p k + borrowed k \<and>
     (rd_seen (view i k p') = rd_seen (view i k p) \<or> rd_seen (view i k p') = pa_term p') \<and>
     rd_score (view i k p') = rd_score (view i k p) \<and> rd_matched (view i k p') = rd_matched (view i k p)) \<and>
     (touched_ok i p \<longrightarrow> touched_ok i p')"

lemma hears_trans:
  assumes "hears i r b p q" "hears i r' b' q s" "pa_term s = pa_term q"
  shows "hears i (\<lambda>k. r k \<or> r' k) (\<lambda>k. b k + b' k) p s"
  unfolding hears_def
proof (intro conjI allI)
  fix k
  have a: "hit_by i q k \<longleftrightarrow> hit_by i p k \<or> r k" "heard i q k = heard i p k + b k" "rd_seen (view i k q) = rd_seen (view i k p) \<or> rd_seen (view i k q) = pa_term q"
    "rd_score (view i k q) = rd_score (view i k p)" "rd_matched (view i k q) = rd_matched (view i k p)" using assms(1) by (auto simp: hears_def)
  have c: "hit_by i s k \<longleftrightarrow> hit_by i q k \<or> r' k" "heard i s k = heard i q k + b' k" "rd_seen (view i k s) = rd_seen (view i k q) \<or> rd_seen (view i k s) = pa_term s"
    "rd_score (view i k s) = rd_score (view i k q)" "rd_matched (view i k s) = rd_matched (view i k q)" using assms(2) by (auto simp: hears_def)
  show "hit_by i s k \<longleftrightarrow> hit_by i p k \<or> r k \<or> r' k" using a(1) c(1) by blast
  show "heard i s k = heard i p k + (b k + b' k)" using a(2) c(2) by simp
  show "rd_seen (view i k s) = rd_seen (view i k p) \<or> rd_seen (view i k s) = pa_term s" using a(3) c(3) assms(3) by auto
  show "rd_score (view i k s) = rd_score (view i k p)" "rd_matched (view i k s) = rd_matched (view i k p)" using a(4,5) c(4,5) by simp_all
qed (use assms(1,2) in \<open>auto simp: hears_def\<close>)

lemma hears_cong: "hears i r b p q \<Longrightarrow> (\<And>k. r k = r' k) \<Longrightarrow> (\<And>k. b k = b' k) \<Longrightarrow> hears i r' b' p q"
  by (simp add: hears_def)

lemma calm_touched:
  assumes c: "calm i p p'" and t: "touched_ok i p"
  shows "touched_ok i p'" "touched_keys i p' = touched_keys i p"
proof -
  obtain ks where ks: "slot_keys p' = slot_keys p @ ks" using c by (auto simp: calm_def)
  have tt: "re_touched (pa_readings p' ! i) = re_touched (pa_readings p ! i)" using c by (simp add: calm_def)
  show keys: "touched_keys i p' = touched_keys i p" using t ks tt by (auto simp: touched_keys_def touched_ok_def nth_append)
  have "hit_by i p' k = hit_by i p k" for k using calm_fields(2,5) [OF c] by (simp add: hit_by_def core_def)
  then show "touched_ok i p'" using t ks tt keys by (auto simp: touched_ok_def)
qed

lemma calm_hears:
  assumes "calm i p p'"
  shows "hears i (\<lambda>_. False) (\<lambda>_. 0) p p'"
  using calm_fields(2,5) [OF assms] calm_touched(1) [OF assms] by (simp add: hears_def hit_by_def heard_def core_def)

lemma lendTo_effect:
  assumes ok: "pass_ok p" and i: "i < length (pa_readings p)" and s: "at_slot p s key"
  shows "pass_ok (lendTo i s tf p)" "only i p (lendTo i s tf p)" "hears i (\<lambda>k. k = key) (\<lambda>k. if k = key then tf else 0) p (lendTo i s tf p)"
proof -
  let ?d = "view i key p" and ?r = "pa_readings p ! i" and ?p' = "lendTo i s tf p"
  have sl: "slots_ok p" "s < length (slot_keys p)" "slot_keys p ! s = key" using ok s by (simp_all add: pass_ok_def at_slot_def)
  have at: "doc_at i s p = ?d" by (rule doc_at_view [OF ok i s])
  let ?new = "rd_seen ?d \<noteq> pa_term p"
  let ?f = "\<lambda>d. d\<lparr>rd_seen := pa_term p, rd_tf := (if ?new then 0 else rd_tf d) + tf\<rparr>"
  let ?c = "change_doc i s ?f p"
  let ?t = "\<lambda>p. p\<lparr>pa_readings := (pa_readings p)[i := (pa_readings p ! i)\<lparr>re_touched := re_touched (pa_readings p ! i) @ (if ?new then [s] else [])\<rparr>]\<rparr>"
  have p': "?p' = ?t ?c"
  proof (cases ?new)
    case True
    have sd: "s < length (re_docs ?r)" using docs_length [OF sl(1) i] sl(2) by simp
    have order: "r\<lparr>re_touched := a, re_docs := b\<rparr> = r\<lparr>re_docs := b, re_touched := a\<rparr>" for r :: "'a reading" and a b by simp
    show ?thesis using True i sd at by (simp add: lendTo_def Let_def change_doc_def doc_at_def order)
  next
    case False
    have same: "d\<lparr>rd_seen := t, rd_tf := x\<rparr> = d\<lparr>rd_tf := x\<rparr>" if "rd_seen d = t" for d t x using that by (cases d) simp
    have "rd_seen (doc_at i s p) = pa_term p" using False at by simp
    then show ?thesis using False i by (simp add: lendTo_def Let_def change_doc_def same)
  qed
  note c = change_doc_ok [OF sl(1) i sl(2), where f = ?f]
  have keys: "slot_keys ?p' = slot_keys p" by (simp add: p' slot_keys_def)
  have docs: "re_docs (pa_readings ?p' ! j) = re_docs (pa_readings ?c ! j)" for j unfolding p' using i by (cases "j = i") simp_all
  have v: "view j k ?p' = view j k ?c" for j k using docs [of j] by (simp add: view_def keys)
  have frame: "same_frame p ?p'" using c(2) i by (simp add: p' same_frame_def keyed_update_same)
  have d: "doc_ok (pa_index p) (keep_of i p) key ?d" using ok i by (simp add: pass_ok_def)
  have okc: "pass_ok ?c" by (rule change_doc_pass_ok [OF ok i s]) (use d in \<open>simp add: doc_ok_def\<close>)
  have "slots_ok ?p'"
    by (rule slots_ok_cong [of ?c]) (use okc i in \<open>simp_all add: pass_ok_def keys\<close>, simp_all add: p' keyed_update_same)
  moreover have "slot_ok ?p' x" if "slot_ok ?c x" for x
    by (rule slot_ok_grows [where p = ?c and ls = "[]"]) (use that keys in \<open>simp_all add: at_slot_def\<close>, simp_all add: p')
  moreover have "keep_of j ?p' = keep_of j ?c" if "j < length (pa_readings p)" for j
    using same_frame_fields(4) [OF frame that] same_frame_fields(4) [OF c(2) that] by simp
  ultimately show "pass_ok ?p'" using okc same_frame_fields(1,3) [OF frame] by (simp add: pass_ok_def v) (simp add: p')
  have tother: "re_touched (pa_readings ?p' ! j) = re_touched (pa_readings p ! j)" if "j \<noteq> i" for j using that by (simp add: p' change_doc_def)
  show "only i p ?p'" using frame keys tother by (simp add: only_def calm_def v c(4))
  have ti: "re_touched (pa_readings ?p' ! i) = re_touched ?r @ (if ?new then [s] else [])" using i by (simp add: p' change_doc_def)
  have tm: "pa_term ?p' = pa_term p" using frame by (simp add: same_frame_def)
  have vi: "view i k ?p' = (if k = key then ?f ?d else view i k p)" for k by (simp add: v c(4) sl(3))
  have hit: "hit_by i ?p' k \<longleftrightarrow> hit_by i p k \<or> k = key" for k by (simp add: hit_by_def vi tm)
  have "touched_ok i ?p'" if t: "touched_ok i p"
  proof -
    have tk: "touched_keys i ?p' = touched_keys i p @ (if ?new then [key] else [])" by (simp add: touched_keys_def ti keys sl(3))
    have "?new \<Longrightarrow> key \<notin> set (touched_keys i p)" "\<not> ?new \<Longrightarrow> key \<in> set (touched_keys i p)" using t by (auto simp: touched_ok_def hit_by_def)
    then show ?thesis using t sl(2) unfolding touched_ok_def keys tk hit by (auto simp: ti)
  qed
  moreover have "heard i ?p' k = heard i p k + (if k = key then tf else 0)" for k using hit [of k] by (auto simp: heard_def vi hit_by_def)
  ultimately show "hears i (\<lambda>k. k = key) (\<lambda>k. if k = key then tf else 0) p ?p'" using hit by (auto simp: hears_def vi tm)
qed

lemma lend_ones_effect:
  assumes "pass_ok p" "i < length (pa_readings p)" "list_all2 (at_slot p) ns ks"
  shows "pass_ok (foldl (lend_one i tf) p ns) \<and> only i p (foldl (lend_one i tf) p ns) \<and>
    hears i (\<lambda>k. keep_of i p k \<and> k \<in> set ks) (\<lambda>k. if keep_of i p k then real (count_list ks k) * (bi_gamma (pa_index p) * tf) else 0) p (foldl (lend_one i tf) p ns)"
  using assms
proof (induction ns arbitrary: p ks)
  case Nil
  then show ?case using calm_hears [OF calm_refl, of i p] by (auto intro: hears_cong)
next
  case (Cons n ns p ks0)
  obtain k ks where ks: "ks0 = k # ks" "at_slot p n k" "list_all2 (at_slot p) ns ks" using Cons.prems(3) by (auto simp: list_all2_Cons1)
  obtain b p1 where a: "accepts i n p = (b, p1)" by fastforce
  note aq = accepts_quiet [OF Cons.prems(1,2) ks(2) a]
  note f1 = quiet_fields [OF aq(2)]
  have i1: "i < length (pa_readings p1)" and n1: "at_slot p1 n k" using Cons.prems(2) f1(3) quiet_at_slot [OF aq(2) ks(2)] by simp_all
  let ?x = "bi_gamma (pa_index p) * tf"
  note le = lendTo_effect [OF aq(1) i1 n1, of ?x]
  let ?q = "lend_one i tf p n"
  have q: "?q = (if keep_of i p k then lendTo i n ?x p1 else p1)" using a aq(3) by (simp add: lend_one_def)
  have calm1: "calm i p p1" by (rule quiet_calm [OF aq(2) Cons.prems(2)])
  have tm: "pa_term (lendTo i n ?x p1) = pa_term p1" using only_fields(2) [OF le(2)] .
  have one: "pass_ok ?q \<and> only i p ?q \<and> hears i (\<lambda>k'. keep_of i p k \<and> k' = k) (\<lambda>k'. if keep_of i p k \<and> k' = k then ?x else 0) p ?q"
  proof (cases "keep_of i p k")
    case True
    have "hears i (\<lambda>k'. False \<or> k' = k) (\<lambda>k'. 0 + (if k' = k then ?x else 0)) p (lendTo i n ?x p1)"
      by (rule hears_trans [OF calm_hears [OF calm1] le(3) tm])
    then show ?thesis using True q le(1) only_trans [OF quiet_only [OF aq(2)] le(2)] by simp
  next
    case False
    then show ?thesis using q aq(1) quiet_only [OF aq(2)] calm_hears [OF calm1] by simp
  qed
  have okq: "pass_ok ?q" and oq: "only i p ?q" and iq: "i < length (pa_readings ?q)" using one Cons.prems(2) only_fields(3) [of i p ?q] by simp_all
  have nq: "list_all2 (at_slot ?q) ns ks" by (rule list_all2_mono [OF ks(3)]) (rule only_at_slot [OF oq])
  note fq = only_fields [OF oq]
  have rest: "pass_ok (foldl (lend_one i tf) ?q ns)" "only i ?q (foldl (lend_one i tf) ?q ns)"
    "hears i (\<lambda>k. keep_of i p k \<and> k \<in> set ks) (\<lambda>k. if keep_of i p k then real (count_list ks k) * ?x else 0) ?q (foldl (lend_one i tf) ?q ns)"
    using Cons.IH [OF okq iq nq] unfolding fq(1) fq(4) [OF Cons.prems(2)] by blast+
  have h: "hears i (\<lambda>k'. (keep_of i p k \<and> k' = k) \<or> (keep_of i p k' \<and> k' \<in> set ks))
      (\<lambda>k'. (if keep_of i p k \<and> k' = k then ?x else 0) + (if keep_of i p k' then real (count_list ks k') * ?x else 0)) p (foldl (lend_one i tf) ?q ns)"
    using one by (intro hears_trans [OF _ rest(3) only_fields(2) [OF rest(2)]]) simp
  have "hears i (\<lambda>k'. keep_of i p k' \<and> k' \<in> set ks0) (\<lambda>k'. if keep_of i p k' then real (count_list ks0 k') * ?x else 0) p (foldl (lend_one i tf) ?q ns)"
    by (rule hears_cong [OF h]) (auto simp: ks(1) algebra_simps)
  then show ?case using rest(1) only_trans [OF oq rest(2)] by simp
qed

text \<open>Whom a posting reaches in a reading that accepts its document, and what it lends.\<close>

definition reaches :: "'k BTreeIndex \<Rightarrow> ('k \<Rightarrow> bool) \<Rightarrow> 'k \<Rightarrow> 'k \<Rightarrow> bool" where
  "reaches idx keep d k \<longleftrightarrow> keep d \<and> (k = d \<or> keep k \<and> k \<in> set (neighbours_of idx d))"

definition lends :: "'k BTreeIndex \<Rightarrow> ('k \<Rightarrow> bool) \<Rightarrow> 'k \<Rightarrow> real \<Rightarrow> 'k \<Rightarrow> real" where
  "lends idx keep d tf k = (if keep d then (if k = d then tf else 0) +
     (if keep k then real (count_list (neighbours_of idx d) k) * (bi_gamma idx * tf) else 0) else 0)"

lemma window_reading_effect:
  assumes ok: "pass_ok p" and i: "i < length (pa_readings p)" and s: "at_slot p s key"
  shows "pass_ok (window_reading tf s p i)" "only i p (window_reading tf s p i)"
    "hears i (reaches (pa_index p) (keep_of i p) key) (lends (pa_index p) (keep_of i p) key tf) p (window_reading tf s p i)"
proof -
  let ?p' = "window_reading tf s p i"
  obtain b p1 where a: "accepts i s p = (b, p1)" by fastforce
  note aq = accepts_quiet [OF ok i s a]
  note f1 = quiet_fields [OF aq(2)]
  have i1: "i < length (pa_readings p1)" and s1: "at_slot p1 s key" using i f1(3) quiet_at_slot [OF aq(2) s] by simp_all
  have calm1: "calm i p p1" by (rule quiet_calm [OF aq(2) i])
  have "pass_ok ?p' \<and> only i p ?p' \<and> hears i (reaches (pa_index p) (keep_of i p) key) (lends (pa_index p) (keep_of i p) key tf) p ?p'"
  proof (cases "keep_of i p key")
    case False
    then have "?p' = p1" using a aq(3) by (simp add: window_reading_def)
    then show ?thesis using False aq(1) quiet_only [OF aq(2)] calm_hears [OF calm1] by (auto simp: reaches_def lends_def elim: hears_cong)
  next
    case True
    let ?p2 = "lendTo i s tf p1"
    note le = lendTo_effect [OF aq(1) i1 s1, of tf]
    note f2 = only_fields [OF le(2)]
    have s2: "at_slot ?p2 s key" by (rule only_at_slot [OF le(2) s1])
    obtain ns p3 where ad: "adjacent s ?p2 = (ns, p3)" by fastforce
    note dq = adjacent_quiet [OF le(1) s2 ad]
    note f3 = quiet_fields [OF dq(2)]
    have i2: "i < length (pa_readings ?p2)" and i3: "i < length (pa_readings p3)" using i1 f2(3) f3(3) by simp_all
    have p': "?p' = foldl (lend_one i tf) p3 ns" using a aq(3) True ad by (simp add: window_reading_def)
    have idx: "pa_index p3 = pa_index p" "pa_index ?p2 = pa_index p" using f1(1) f2(1) f3(1) by simp_all
    have kp: "keep_of i p3 = keep_of i p" using f1(4) [OF i] f2(4) [OF i1] f3(4) [OF i2] by simp
    note lo = lend_ones_effect [OF dq(1) i3 dq(3), of tf, folded p', unfolded idx kp]
    have c23: "calm i ?p2 p3" by (rule quiet_calm [OF dq(2) i2])
    have h1: "hears i (\<lambda>k. False \<or> k = key) (\<lambda>k. 0 + (if k = key then tf else 0)) p ?p2" by (rule hears_trans [OF calm_hears [OF calm1] le(3) f2(2)])
    have h2: "hears i (\<lambda>k. (False \<or> k = key) \<or> False) (\<lambda>k. (0 + (if k = key then tf else 0)) + 0) p p3" by (rule hears_trans [OF h1 calm_hears [OF c23] f3(2)])
    have t3: "pa_term ?p' = pa_term p3" using lo only_fields(2) by blast
    have h3: "hears i (\<lambda>k. ((False \<or> k = key) \<or> False) \<or> keep_of i p k \<and> k \<in> set (neighbours_of (pa_index p) key))
      (\<lambda>k. ((0 + (if k = key then tf else 0)) + 0) + (if keep_of i p k then real (count_list (neighbours_of (pa_index p) key) k) * (bi_gamma (pa_index p) * tf) else 0)) p ?p'"
      using lo by (intro hears_trans [OF h2 _ t3]) blast
    have "hears i (reaches (pa_index p) (keep_of i p) key) (lends (pa_index p) (keep_of i p) key tf) p ?p'"
      by (rule hears_cong [OF h3]) (use True in \<open>simp_all add: reaches_def lends_def\<close>)
    moreover have "only i p ?p'" using only_trans [OF only_trans [OF quiet_only [OF aq(2)] le(2)] only_trans [OF quiet_only [OF dq(2)]]] lo by blast
    ultimately show ?thesis using lo by blast
  qed
  then show "pass_ok ?p'" "only i p ?p'" "hears i (reaches (pa_index p) (keep_of i p) key) (lends (pa_index p) (keep_of i p) key tf) p ?p'" by blast+
qed

lemma window_posting_effect:
  assumes ok: "pass_ok p" and doc: "fmlookup (bi_ids (pa_index p)) (po_key po) = Some (po_doc po)"
  shows "pass_ok (window_posting p po) \<and> same_frame p (window_posting p po) \<and> (\<forall>i < length (pa_readings p).
    hears i (\<lambda>k. po_tf po \<noteq> 0 \<and> reaches (pa_index p) (keep_of i p) (po_key po) k)
      (lends (pa_index p) (keep_of i p) (po_key po) (real (po_tf po))) p (window_posting p po))"
proof (cases "po_tf po = 0")
  case True
  have z: "lends (pa_index p) keep d 0 = (\<lambda>_. 0)" for keep d by (simp add: lends_def fun_eq_iff)
  show ?thesis using True ok calm_hears [OF calm_refl, of _ p] by (simp add: window_posting_def z)
next
  case False
  let ?key = "po_key po" and ?n = "length (pa_readings p)" and ?p' = "window_posting p po"
  obtain s p1 where sl: "pass_slot (po_doc po) ?key p = (s, p1)" by fastforce
  note sq = pass_slot_quiet [OF ok doc sl]
  note f = quiet_fields [OF sq(2)]
  let ?f = "window_reading (real (po_tf po)) s"
  have p': "?p' = foldl ?f p1 [0..<?n]" using False sl f(3) by (simp add: window_posting_def)
  have step: "pass_ok (?f p i) \<and> only i p (?f p i) \<and> at_slot (?f p i) s ?key" if "pass_ok p" "at_slot p s ?key" "i < length (pa_readings p)" for p i
    using window_reading_effect [OF that(1,3,2)] only_at_slot [OF _ that(2)] by blast
  have n1: "?n \<le> length (pa_readings p1)" using f(3) by simp
  note fold = fold_readings_at [where f = ?f, OF step sq(1,3) n1, folded p']
  have "hears i (\<lambda>k. po_tf po \<noteq> 0 \<and> reaches (pa_index p) (keep_of i p) ?key k) (lends (pa_index p) (keep_of i p) ?key (real (po_tf po))) p ?p'" if i: "i < ?n" for i
  proof -
    obtain q where q: "pass_ok q" "at_slot q s ?key" "calm i p1 q" "calm i (?f q i) ?p'" using fold i f(3) by auto
    note fq = calm_fields [OF q(3)]
    have i1: "i < length (pa_readings p1)" and iq: "i < length (pa_readings q)" using i f(3) fq(3) by simp_all
    note w = window_reading_effect [OF q(1) iq q(2), of "real (po_tf po)"]
    have idx: "pa_index q = pa_index p" "keep_of i q = keep_of i p" using fq(1) f(1) fq(4) [OF i1] f(4) [OF i] by simp_all
    have c: "calm i p q" by (rule calm_trans [OF quiet_calm [OF sq(2) i] q(3)])
    note h1 = hears_trans [OF calm_hears [OF c] w(3) only_fields(2) [OF w(2)]]
    note h2 = hears_trans [OF h1 calm_hears [OF q(4)] calm_fields(2) [OF q(4)]]
    show ?thesis by (rule hears_cong [OF h2]) (use False idx in simp_all)
  qed
  then show ?thesis using fold same_frame_trans [OF quiet_frame [OF sq(2)]] by blast
qed

definition reached_by :: "'k BTreeIndex \<Rightarrow> ('k \<Rightarrow> bool) \<Rightarrow> 'k posting list \<Rightarrow> 'k \<Rightarrow> bool" where
  "reached_by idx keep ps k \<longleftrightarrow> (\<exists>po \<in> set ps. po_tf po \<noteq> 0 \<and> reaches idx keep (po_key po) k)"

definition lent_by :: "'k BTreeIndex \<Rightarrow> ('k \<Rightarrow> bool) \<Rightarrow> 'k posting list \<Rightarrow> 'k \<Rightarrow> real" where
  "lent_by idx keep ps k = sum_list (map (\<lambda>po. lends idx keep (po_key po) (real (po_tf po)) k) ps)"

lemma window_postings_effect:
  assumes "pass_ok p" "\<forall>po \<in> set ps. fmlookup (bi_ids (pa_index p)) (po_key po) = Some (po_doc po)"
  shows "pass_ok (foldl window_posting p ps) \<and> same_frame p (foldl window_posting p ps) \<and> (\<forall>i < length (pa_readings p).
    hears i (reached_by (pa_index p) (keep_of i p) ps) (lent_by (pa_index p) (keep_of i p) ps) p (foldl window_posting p ps))"
  using assms
proof (induction ps arbitrary: p)
  case Nil
  then show ?case using calm_hears [OF calm_refl, of _ p] by (simp add: reached_by_def [abs_def] lent_by_def [abs_def])
next
  case (Cons po ps)
  let ?q = "window_posting p po" and ?r = "foldl window_posting p (po # ps)"
  have doc: "fmlookup (bi_ids (pa_index p)) (po_key po) = Some (po_doc po)" using Cons.prems(2) by simp
  have one: "pass_ok ?q" "same_frame p ?q" "\<And>i. i < length (pa_readings p) \<Longrightarrow>
    hears i (\<lambda>k. po_tf po \<noteq> 0 \<and> reaches (pa_index p) (keep_of i p) (po_key po) k) (lends (pa_index p) (keep_of i p) (po_key po) (real (po_tf po))) p ?q"
    using window_posting_effect [OF Cons.prems(1) doc] by blast+
  note f = same_frame_fields [OF one(2)]
  have rest: "pass_ok ?r" "same_frame ?q ?r" "\<And>i. i < length (pa_readings p) \<Longrightarrow>
    hears i (reached_by (pa_index p) (keep_of i p) ps) (lent_by (pa_index p) (keep_of i p) ps) ?q ?r"
  proof -
    have IH: "pass_ok ?r \<and> same_frame ?q ?r \<and> (\<forall>i < length (pa_readings ?q). hears i (reached_by (pa_index ?q) (keep_of i ?q) ps) (lent_by (pa_index ?q) (keep_of i ?q) ps) ?q ?r)"
      using Cons.IH [OF one(1)] Cons.prems(2) f(1) by simp
    then show "pass_ok ?r" "same_frame ?q ?r" by blast+
    show "hears i (reached_by (pa_index p) (keep_of i p) ps) (lent_by (pa_index p) (keep_of i p) ps) ?q ?r" if i: "i < length (pa_readings p)" for i
      using IH i f(3) unfolding f(1) f(4) [OF i, symmetric] by simp
  qed
  have "hears i (reached_by (pa_index p) (keep_of i p) (po # ps)) (lent_by (pa_index p) (keep_of i p) (po # ps)) p ?r" if i: "i < length (pa_readings p)" for i
    by (rule hears_cong [OF hears_trans [OF one(3) [OF i] rest(3) [OF i] same_frame_fields(2) [OF rest(2)]]]) (simp_all add: reached_by_def lent_by_def)
  then show ?case using rest(1) same_frame_trans [OF one(2) rest(2)] by blast
qed

text \<open>The gain of a term, for every document the reading has touched.\<close>

definition gains :: "'k BTreeIndex \<Rightarrow> ('k \<Rightarrow> bool) \<Rightarrow> real \<Rightarrow> real \<Rightarrow> 'k \<Rightarrow> nat \<times> real \<times> real \<times> real \<Rightarrow> nat \<times> real \<times> real \<times> real" where
  "gains idx keep weight prepared k = (\<lambda>(sn, tf, sc, m). (sn, tf, sc + rel_Gain (bi_relevance idx) weight tf (window_len idx keep k) prepared, m + weight))"

lemma window_gain_effect:
  assumes ok: "pass_ok p" and i: "i < length (pa_readings p)" and s: "at_slot p s key"
  shows "pass_ok (window_gain weight prepared i p s)" "only i p (window_gain weight prepared i p s)"
    "re_touched (pa_readings (window_gain weight prepared i p s) ! i) = re_touched (pa_readings p ! i)"
    "core (view i k (window_gain weight prepared i p s)) =
      (if k = key then gains (pa_index p) (keep_of i p) weight prepared k (core (view i k p)) else core (view i k p))"
proof -
  let ?p' = "window_gain weight prepared i p s"
  obtain len p1 where w: "window_length i s p = (len, p1)" by fastforce
  note wq = window_length_quiet [OF ok i s w]
  note f = quiet_fields [OF wq(2)]
  have i1: "i < length (pa_readings p1)" and s1: "at_slot p1 s key" using i f(3) quiet_at_slot [OF wq(2) s] by simp_all
  let ?f = "\<lambda>d. d\<lparr>rd_score := rd_score d + rel_Gain (bi_relevance (pa_index p)) weight (rd_tf d) len prepared, rd_matched := rd_matched d + weight\<rparr>"
  have p': "?p' = change_doc i s ?f p1" using w by (simp add: window_gain_def)
  have sl: "slots_ok p1" "s < length (slot_keys p1)" "slot_keys p1 ! s = key" using wq(1) s1 by (simp_all add: pass_ok_def at_slot_def)
  note c = change_doc_ok [OF sl(1) i1 sl(2), where f = ?f]
  have d: "doc_ok (pa_index p1) (keep_of i p1) key (view i key p1)" using wq(1) i1 by (simp add: pass_ok_def)
  show "pass_ok ?p'" unfolding p' by (rule change_doc_pass_ok [OF wq(1) i1 s1]) (use d in \<open>simp add: doc_ok_def\<close>)
  have "re_touched (pa_readings ?p' ! j) = re_touched (pa_readings p1 ! j)" for j unfolding p' using i1 by (cases "j = i") (simp_all add: change_doc_def)
  note t = this
  have "only i p1 ?p'" using c(2) t by (simp add: p' only_def calm_def c(4))
  then show "only i p ?p'" by (rule only_trans [OF quiet_only [OF wq(2)]])
  show "re_touched (pa_readings ?p' ! i) = re_touched (pa_readings p ! i)" using t quiet_calm [OF wq(2) i] by (simp add: calm_def)
  show "core (view i k ?p') = (if k = key then gains (pa_index p) (keep_of i p) weight prepared k (core (view i k p)) else core (view i k p))"
  proof (cases "k = key")
    case True
    then have "view i k ?p' = ?f (view i k p1)" by (simp add: p' c(4) sl(3))
    then have "core (view i k ?p') = gains (pa_index p) (keep_of i p) weight prepared k (core (view i k p1))"
      using True by (simp add: core_def gains_def wq(3))
    then show ?thesis using True f(5) [OF i, of k] by simp
  next
    case False
    then show ?thesis using f(5) [OF i, of k] by (simp add: p' c(4) sl(3))
  qed
qed

lemma window_gains_effect:
  assumes "pass_ok p" "i < length (pa_readings p)" "list_all2 (at_slot p) ss ks" "distinct ks"
  shows "pass_ok (foldl (window_gain weight prepared i) p ss) \<and> only i p (foldl (window_gain weight prepared i) p ss) \<and>
    re_touched (pa_readings (foldl (window_gain weight prepared i) p ss) ! i) = re_touched (pa_readings p ! i) \<and>
    (\<forall>k. core (view i k (foldl (window_gain weight prepared i) p ss)) =
      (if k \<in> set ks then gains (pa_index p) (keep_of i p) weight prepared k (core (view i k p)) else core (view i k p)))"
  using assms
proof (induction ss arbitrary: p ks)
  case (Cons s ss p ks0)
  obtain k ks where ks: "ks0 = k # ks" "at_slot p s k" "list_all2 (at_slot p) ss ks" using Cons.prems(3) by (auto simp: list_all2_Cons1)
  let ?q = "window_gain weight prepared i p s"
  note one = window_gain_effect [OF Cons.prems(1,2) ks(2), where weight = weight and prepared = prepared]
  note f = only_fields [OF one(2)]
  have iq: "i < length (pa_readings ?q)" using Cons.prems(2) f(3) by simp
  have nq: "list_all2 (at_slot ?q) ss ks" by (rule list_all2_mono [OF ks(3)]) (rule only_at_slot [OF one(2)])
  have d: "distinct ks" "k \<notin> set ks" using Cons.prems(4) ks(1) by simp_all
  note IH = Cons.IH [OF one(1) iq nq d(1), unfolded f(1) f(4) [OF Cons.prems(2)]]
  have "core (view i k' (foldl (window_gain weight prepared i) ?q ss)) =
      (if k' \<in> set ks0 then gains (pa_index p) (keep_of i p) weight prepared k' (core (view i k' p)) else core (view i k' p))" for k'
    using IH one(4) [of k'] ks(1) d(2) by auto
  then show ?case using IH one(3) only_trans [OF one(2)] by simp
qed simp

lemma untouch_ok:
  assumes ok: "pass_ok p"
  defines "p' \<equiv> p\<lparr>pa_readings := map (\<lambda>r. r\<lparr>re_touched := []\<rparr>) (pa_readings p)\<rparr>"
  shows "pass_ok p'" "same_frame p p'" "i < length (pa_readings p) \<Longrightarrow> view i k p' = view i k p" "i < length (pa_readings p) \<Longrightarrow> re_touched (pa_readings p' ! i) = []"
proof -
  have keys: "slot_keys p' = slot_keys p" by (simp add: p'_def slot_keys_def)
  show v: "view i k p' = view i k p" if "i < length (pa_readings p)" for i k using that keys by (simp add: view_def) (simp add: p'_def)
  show fr: "same_frame p p'" by (simp add: p'_def same_frame_def)
  have "slots_ok p'" by (rule slots_ok_cong [of p]) (use ok keys in \<open>simp_all add: pass_ok_def\<close>, simp_all add: p'_def)
  moreover have "slot_ok p' x" if "slot_ok p x" for x
    by (rule slot_ok_grows [where p = p and ls = "[]"]) (use that keys in \<open>simp_all add: at_slot_def\<close>, simp_all add: p'_def)
  moreover have "pa_slots p' = pa_slots p" by (simp add: p'_def)
  ultimately show "pass_ok p'" using ok v same_frame_fields [OF fr] by (simp add: pass_ok_def)
  show "i < length (pa_readings p) \<Longrightarrow> re_touched (pa_readings p' ! i) = []" by (simp add: p'_def)
qed

text \<open>What the loop over the touched slots relies on.\<close>

definition touched_safe :: "'k pass \<Rightarrow> bool" where
  "touched_safe p \<longleftrightarrow> (\<forall>j < length (pa_readings p). (\<forall>s \<in> set (re_touched (pa_readings p ! j)). s < length (slot_keys p)) \<and> distinct (touched_keys j p))"

lemma touched_safe_step:
  assumes safe: "touched_safe p" and o: "only i p p'" and t: "re_touched (pa_readings p' ! i) = re_touched (pa_readings p ! i)"
  shows "touched_safe p'"
proof -
  obtain ks where ks: "slot_keys p' = slot_keys p @ ks" using o by (auto simp: only_def)
  have same: "re_touched (pa_readings p' ! j) = re_touched (pa_readings p ! j)" if "j < length (pa_readings p)" for j
    using o t that by (cases "j = i") (simp_all add: only_def calm_def)
  have "touched_keys j p' = touched_keys j p" if "j < length (pa_readings p)" for j
    using same [OF that] safe that ks by (auto simp: touched_keys_def touched_safe_def nth_append)
  then show ?thesis using safe same ks only_fields(3) [OF o] by (auto simp: touched_safe_def intro: trans_less_add1)
qed

lemma window_gains_step:
  fixes weight prepared :: real
  assumes ok: "pass_ok p" and safe: "touched_safe p" and i: "i < length (pa_readings p)"
  defines "p' \<equiv> foldl (window_gain weight prepared i) p (re_touched (pa_readings p ! i))"
  shows "pass_ok p'" "only i p p'" "touched_safe p'"
    "core (view i k p') = (if k \<in> set (touched_keys i p) then gains (pa_index p) (keep_of i p) weight prepared k (core (view i k p)) else core (view i k p))"
proof -
  have "list_all2 (at_slot p) (re_touched (pa_readings p ! i)) (touched_keys i p)" "distinct (touched_keys i p)"
    using safe i by (auto simp: touched_safe_def touched_keys_def at_slot_def list_all2_conv_all_nth)
  note w = window_gains_effect [OF ok i this, where weight = weight and prepared = prepared, folded p'_def]
  show "pass_ok p'" "only i p p'" "core (view i k p') = (if k \<in> set (touched_keys i p) then gains (pa_index p) (keep_of i p) weight prepared k (core (view i k p)) else core (view i k p))"
    using w by blast+
  show "touched_safe p'" using touched_safe_step [OF safe] w by blast
qed

lemma window_accumulate:
  fixes weight prepared :: real
  assumes ok: "pass_ok p" and clock: "clock_ok p" and list: "postings_ok (pa_index p) list" and windowed: "windowed (pa_index p)"
  defines "p' \<equiv> accumulate list weight prepared p"
  shows "pass_ok p' \<and> pa_index p' = pa_index p \<and> map re_keep (pa_readings p') = map re_keep (pa_readings p) \<and>
    (\<forall>i < length (pa_readings p). tallied i (reached_by (pa_index p) (keep_of i p) (entries_of list))
       (\<lambda>k. rel_Gain (bi_relevance (pa_index p)) weight (lent_by (pa_index p) (keep_of i p) (entries_of list) k)
          (window_len (pa_index p) (keep_of i p) k) prepared) weight p p')"
proof -
  let ?n = "length (pa_readings p)" and ?ps = "entries_of list"
  define t where "t = pa_term p + 1"
  define p0 where "p0 = p\<lparr>pa_term := t\<rparr>"
  define p1 where "p1 = p0\<lparr>pa_readings := map (\<lambda>r. r\<lparr>re_touched := []\<rparr>) (pa_readings p0)\<rparr>"
  let ?p2 = "foldl window_posting p1 ?ps"
  let ?f = "\<lambda>p i. foldl (window_gain weight prepared i) p (re_touched (pa_readings p ! i))"
  note t0 = tick_ok [OF ok, where t = t, folded p0_def]
  note u = untouch_ok [OF t0(1), folded p1_def]
  have f1: "pa_index p1 = pa_index p" "pa_term p1 = t" "length (pa_readings p1) = ?n" "length (pa_readings p0) = ?n" "map re_keep (pa_readings p1) = map re_keep (pa_readings p)"
    by (simp_all add: p1_def p0_def comp_def)
  have k1: "keep_of i p1 = keep_of i p" if "i < ?n" for i using same_frame_fields(4) [OF u(2)] that f1(4) t0(3) by simp
  have v1: "view i k p1 = view i k p" if "i < ?n" for i k using u(3) [of i k] that f1(4) t0(2) by simp
  have seen: "rd_seen (view i k p) < t" if "i < ?n" for i k using clock that by (simp add: clock_ok_def t_def less_Suc_eq_le)
  have nohit: "\<not> hit_by i p1 k" if "i < ?n" for i k using seen [OF that, of k] v1 [OF that, of k] f1(2) by (simp add: hit_by_def)
  have t1: "touched_ok i p1" if "i < ?n" for i using nohit [OF that] u(4) that f1(4) by (simp add: touched_ok_def touched_keys_def)
  have nums: "\<forall>po \<in> set ?ps. fmlookup (bi_ids (pa_index p1)) (po_key po) = Some (po_doc po)" using list f1(1) by (simp add: postings_ok_def)
  have w: "pass_ok ?p2" "same_frame p1 ?p2" "\<And>i. i < ?n \<Longrightarrow> hears i (reached_by (pa_index p) (keep_of i p) ?ps) (lent_by (pa_index p) (keep_of i p) ?ps) p1 ?p2"
    using window_postings_effect [OF u(1) nums] f1(1,3) k1 by auto
  note f2 = same_frame_fields [OF w(2)]
  have n2: "length (pa_readings ?p2) = ?n" using f2(3) f1(3) by simp
  have t2: "touched_ok i ?p2" if "i < ?n" for i using w(3) [OF that] t1 [OF that] by (simp add: hears_def)
  have safe: "touched_safe ?p2" using t2 n2 by (simp add: touched_safe_def touched_ok_def)
  have p': "p' = foldl ?f ?p2 [0..<?n]"
    using windowed n2 by (simp add: p'_def accumulate_def Let_def foldl_concat entries_of_def p1_def p0_def t_def)
  have step: "pass_ok (?f q i) \<and> only i q (?f q i) \<and> touched_safe (?f q i)" if "pass_ok q" "touched_safe q" "i < length (pa_readings q)" for q i
    using window_gains_step(1-3) [OF that] by blast
  have n2': "?n \<le> length (pa_readings ?p2)" using n2 by simp
  note fold = fold_readings [where f = ?f and I = touched_safe, OF step w(1) safe n2', folded p']
  have "tallied i (reached_by (pa_index p) (keep_of i p) ?ps) (\<lambda>k. rel_Gain (bi_relevance (pa_index p)) weight (lent_by (pa_index p) (keep_of i p) ?ps k)
          (window_len (pa_index p) (keep_of i p) k) prepared) weight p p'" if i: "i < ?n" for i
  proof -
    obtain q where q: "pass_ok q" "touched_safe q" "calm i ?p2 q" "calm i (?f q i) p'" using fold i n2 by auto
    have i2: "i < length (pa_readings ?p2)" and iq: "i < length (pa_readings q)" using i n2 calm_fields(3) [OF q(3)] by simp_all
    have idx: "pa_index q = pa_index p" "keep_of i q = keep_of i p"
      using calm_fields(1,4) [OF q(3)] f2(1) f2(4) f1(1,3) k1 i i2 by simp_all
    have tk: "touched_keys i q = touched_keys i ?p2" by (rule calm_touched(2) [OF q(3) t2 [OF i]])
    show ?thesis unfolding tallied_def
    proof
      fix k
      let ?r = "reached_by (pa_index p) (keep_of i p) ?ps k"
      note H = w(3) [OF i, unfolded hears_def, THEN conjunct1, rule_format, of k]
      have z: "heard i p1 k = 0" using nohit [OF i, of k] by (simp add: heard_def)
      have t2': "pa_term ?p2 = t" using f2(2) f1(2) by simp
      have hk: "hit_by i ?p2 k \<longleftrightarrow> ?r" "heard i ?p2 k = lent_by (pa_index p) (keep_of i p) ?ps k"
        "rd_seen (view i k ?p2) = rd_seen (view i k p) \<or> rd_seen (view i k ?p2) = t" "rd_score (view i k ?p2) = rd_score (view i k p)"
        "rd_matched (view i k ?p2) = rd_matched (view i k p)"
        using H nohit [OF i, of k] unfolding z v1 [OF i, of k] t2' by (auto simp del: split_paired_All)
      have "k \<in> set (touched_keys i q) \<longleftrightarrow> ?r" using t2 [OF i] tk hk(1) by (simp add: touched_ok_def)
      then have c: "core (view i k p') = (if ?r then gains (pa_index p) (keep_of i p) weight prepared k (core (view i k ?p2)) else core (view i k ?p2))"
        using window_gains_step(4) [OF q(1,2) iq, where weight = weight and prepared = prepared and k = k] calm_fields(5) [OF q(4), of k] calm_fields(5) [OF q(3), of k] idx by simp
      have tm: "pa_term p' = t" using fold f2(2) f1(2) by (simp add: same_frame_def)
      have hit: "?r \<longleftrightarrow> rd_seen (view i k ?p2) = t" using hk(1) f2(2) f1(2) by (simp add: hit_by_def)
      have tf: "?r \<Longrightarrow> rd_tf (view i k ?p2) = lent_by (pa_index p) (keep_of i p) ?ps k" using hk(1,2) by (simp add: heard_def)
      have "t > 0" by (simp add: t_def)
      then show "(rd_seen (view i k p') > 0 \<longleftrightarrow> rd_seen (view i k p) > 0 \<or> ?r) \<and> rd_seen (view i k p') \<le> pa_term p' \<and>
        rd_score (view i k p') = rd_score (view i k p) + (if ?r then rel_Gain (bi_relevance (pa_index p)) weight (lent_by (pa_index p) (keep_of i p) ?ps k)
          (window_len (pa_index p) (keep_of i p) k) prepared else 0) \<and>
        rd_matched (view i k p') = rd_matched (view i k p) + (if ?r then weight else 0)"
        using c hk(3,4,5) hit tf tm seen [OF i, of k] by (cases ?r) (auto simp: core_def gains_def)
    qed
  qed
  moreover have "same_frame p1 p'" using fold same_frame_trans [OF w(2)] by blast
  ultimately show ?thesis using fold f1(1,5) by (simp add: same_frame_def)
qed

end
