(* ===== verification/Index_Search_Correct.thy ===== *)
theory Index_Search_Correct
  imports Index_Search_Terms
begin

text \<open>
  The search of the text index is a scan of its documents: every document a keep accepts is scored from the
  text it holds, or under a window from its own and its neighbours' texts, and the best are returned.
\<close>

section \<open>The scan\<close>

abbreviation docs_of :: "'k BTreeIndex \<Rightarrow> ('k, runes) fmap" where
  "docs_of idx \<equiv> bi_documents idx"

definition times_held :: "'k BTreeIndex \<Rightarrow> runes \<Rightarrow> 'k \<Rightarrow> nat" where
  "times_held idx t k = held (bi_tokenizer idx) (bi_documents idx) t k"

definition scan_terms :: "'k BTreeIndex \<Rightarrow> runes list \<Rightarrow> runes list" where
  "scan_terms idx ws = known_terms (bi_tokenizer idx) (bi_documents idx) ws"

definition scan_weight :: "'k BTreeIndex \<Rightarrow> runes \<Rightarrow> real" where
  "scan_weight idx t = rel_Weight (bi_relevance idx) (card (documents_with (bi_tokenizer idx) (bi_documents idx) t)) (fcard (fmdom (bi_documents idx)))"

text \<open>Whether a term reaches a document, and what the document gains from it.\<close>

definition matches :: "'k BTreeIndex \<Rightarrow> ('k \<Rightarrow> bool) \<Rightarrow> runes \<Rightarrow> 'k \<Rightarrow> bool" where
  "matches idx keep t k =
     (if windowed idx then \<exists>d \<in> fset (fmdom (bi_documents idx)). times_held idx t d \<noteq> 0 \<and> reaches idx keep d k
      else times_held idx t k \<noteq> 0 \<and> keep k)"

definition term_gain :: "'k BTreeIndex \<Rightarrow> ('k \<Rightarrow> bool) \<Rightarrow> runes \<Rightarrow> 'k \<Rightarrow> real" where
  "term_gain idx keep t k =
     (if windowed idx
      then rel_Gain (bi_relevance idx) (scan_weight idx t) (\<Sum>d \<in> fset (fmdom (bi_documents idx)). lends idx keep d (real (times_held idx t d)) k)
             (window_len idx keep k) (rel_Prepare (bi_relevance idx))
      else rel_Increment (bi_relevance idx) (scan_weight idx t) k (times_held idx t k) (rel_Prepare (bi_relevance idx)))"

definition scan_score :: "'k BTreeIndex \<Rightarrow> ('k \<Rightarrow> bool) \<Rightarrow> runes list \<Rightarrow> 'k \<Rightarrow> real" where
  "scan_score idx keep ts k = sum_list (map (\<lambda>t. term_gain idx keep t k) (filter (\<lambda>t. matches idx keep t k) ts))"

definition scan_matched :: "'k BTreeIndex \<Rightarrow> ('k \<Rightarrow> bool) \<Rightarrow> runes list \<Rightarrow> 'k \<Rightarrow> real" where
  "scan_matched idx keep ts k = sum_list (map (scan_weight idx) (filter (\<lambda>t. matches idx keep t k) ts))"

definition nearby :: "'k BTreeIndex \<Rightarrow> 'k set" where
  "nearby idx = fset (fmdom (bi_documents idx)) \<union> (\<Union>d \<in> fset (fmdom (bi_documents idx)). set (neighbours_of idx d))"

definition scan :: "('k :: linorder) BTreeIndex \<Rightarrow> runes \<Rightarrow> ('k \<Rightarrow> bool) \<Rightarrow> ('k, real) topKEntry list" where
  "scan idx query keep =
     (let ts = scan_terms idx (rel_Terms (bi_relevance idx) (bi_tokenizer idx query))
      in map (\<lambda>k. \<lparr>te_key = k, te_score = rel_Finalize (bi_relevance idx) (scan_score idx keep ts k) (to_int (scan_matched idx keep ts k * 1024))
                     (to_int (sum_list (map (scan_weight idx) ts) * 1024) + 1)\<rparr>)
           (sorted_list_of_set {k \<in> nearby idx. \<exists>t \<in> set ts. matches idx keep t k}))"

definition accepting :: "('k \<Rightarrow> bool) option \<Rightarrow> 'k \<Rightarrow> bool" where
  "accepting keep k = (case keep of None \<Rightarrow> True | Some f \<Rightarrow> f k)"

section \<open>A posting list counts the documents\<close>

lemma sum_by_key:
  fixes F :: "'k \<Rightarrow> nat \<Rightarrow> real"
  assumes "distinct (map po_key ps)" "finite D" "\<And>d. d \<notin> D \<Longrightarrow> frequency ps d = 0" "\<And>d. F d 0 = 0"
  shows "sum_list (map (\<lambda>po. F (po_key po) (po_tf po)) ps) = (\<Sum>d \<in> D. F d (frequency ps d))"
  using assms(1,3)
proof (induction ps)
  case (Cons po ps)
  let ?k = "po_key po"
  have away: "frequency ps ?k = 0" using Cons.prems(1) by (intro frequency_absent) (auto simp: image_iff)
  have zero: "frequency ps d = 0" if "d \<notin> D" for d using Cons.prems(2) [OF that] by simp
  have IH: "sum_list (map (\<lambda>po. F (po_key po) (po_tf po)) ps) = (\<Sum>d \<in> D. F d (frequency ps d))"
    by (rule Cons.IH) (use Cons.prems(1) zero in simp_all)
  have "(\<Sum>d \<in> D. F d (frequency (po # ps) d)) = F ?k (po_tf po) + (\<Sum>d \<in> D. F d (frequency ps d))"
  proof (cases "?k \<in> D")
    case True
    have "(\<Sum>d \<in> D - {?k}. F d (frequency (po # ps) d)) = (\<Sum>d \<in> D - {?k}. F d (frequency ps d))" by (rule sum.cong) auto
    then show ?thesis using away assms(4) by (simp add: sum.remove [OF assms(2) True])
  next
    case False
    then have "po_tf po = 0" using Cons.prems(2) [of ?k] by simp
    moreover have "(\<Sum>d \<in> D. F d (frequency (po # ps) d)) = (\<Sum>d \<in> D. F d (frequency ps d))" by (rule sum.cong) (use False in auto)
    ultimately show ?thesis using assms(4) by simp
  qed
  then show ?case using IH by simp
qed (simp add: assms(4))

lemma serves_named: "serves idx docs \<Longrightarrow> named idx"
  by (simp add: serves_def named_def)

text \<open>The lists of an index that serves its documents.\<close>

definition serving :: "('k :: linorder) BTreeIndex \<Rightarrow> bool" where
  "serving idx \<longleftrightarrow> serves idx (bi_documents idx) \<and> bi_compare idx = OrderedComparator"

lemma serving_list: "serving idx \<Longrightarrow> list_ok OrderedComparator (list_at (bi_lists idx) t)"
  by (rule dictionary_list [where tree = "bi_tree idx"]) (auto simp: serving_def serves_def)

lemma list_frequency: "serving idx \<Longrightarrow> frequency (entries_of (list_at (bi_lists idx) t)) k = times_held idx t k"
  using serves_times [of idx "bi_documents idx" t k] by (simp add: times_in_def times_held_def serving_def)

lemma list_postings_ok:
  assumes s: "serving idx"
  shows "postings_ok idx (list_at (bi_lists idx) t)"
proof -
  have "distinct (map po_key (entries_of (list_at (bi_lists idx) t)))"
    by (rule ordered_cmp.keyed_distinct) (use serving_list [OF s, of t] in \<open>simp add: list_ok_def\<close>)
  moreover have "sightings (list_at (bi_lists idx) t) \<subseteq> {(k, i). fmlookup (bi_ids idx) k = Some i}"
    by (rule numbered_list) (use s in \<open>simp add: serves_def serving_def\<close>)
  ultimately show ?thesis by (auto simp: postings_ok_def sightings_def)
qed

lemma held_document: "times_held idx t d \<noteq> 0 \<Longrightarrow> d \<in> fset (fmdom (bi_documents idx))"
  by (auto simp: times_held_def held_def split: option.splits intro: fmdomI)

lemma list_reached:
  assumes s: "serving idx" and "windowed idx"
  shows "reached_by idx keep (entries_of (list_at (bi_lists idx) t)) k \<longleftrightarrow> matches idx keep t k"
proof -
  let ?ps = "entries_of (list_at (bi_lists idx) t)"
  have tf: "po_tf po = times_held idx t (po_key po)" if "po \<in> set ?ps" for po
  proof -
    have "frequency ?ps (po_key po) = po_tf po"
      by (rule ordered_cmp.frequency_member) (use serving_list [OF s, of t] that in \<open>simp_all add: list_ok_def\<close>)
    then show ?thesis by (simp add: list_frequency [OF s])
  qed
  have some: "\<exists>po \<in> set ?ps. po_key po = d" if "times_held idx t d \<noteq> 0" for d
    using frequency_absent [of ?ps d] that by (auto simp: list_frequency [OF s])
  have "(\<exists>po \<in> set ?ps. po_tf po \<noteq> 0 \<and> reaches idx keep (po_key po) k) \<longleftrightarrow> (\<exists>d. times_held idx t d \<noteq> 0 \<and> reaches idx keep d k)"
  proof
    assume "\<exists>po \<in> set ?ps. po_tf po \<noteq> 0 \<and> reaches idx keep (po_key po) k"
    then obtain po where "po \<in> set ?ps" "po_tf po \<noteq> 0" "reaches idx keep (po_key po) k" by blast
    then show "\<exists>d. times_held idx t d \<noteq> 0 \<and> reaches idx keep d k" by (intro exI [of _ "po_key po"]) (simp add: tf)
  next
    assume "\<exists>d. times_held idx t d \<noteq> 0 \<and> reaches idx keep d k"
    then obtain d where d: "times_held idx t d \<noteq> 0" "reaches idx keep d k" by blast
    obtain po where "po \<in> set ?ps" "po_key po = d" using some [OF d(1)] by blast
    then show "\<exists>po \<in> set ?ps. po_tf po \<noteq> 0 \<and> reaches idx keep (po_key po) k" using d by (intro bexI [of _ po]) (simp_all add: tf)
  qed
  also have "\<dots> \<longleftrightarrow> (\<exists>d \<in> fset (fmdom (bi_documents idx)). times_held idx t d \<noteq> 0 \<and> reaches idx keep d k)"
    using held_document [of idx t] by blast
  finally show ?thesis using assms(2) by (simp only: reached_by_def matches_def if_True)
qed

lemma list_lent:
  assumes s: "serving idx"
  shows "lent_by idx keep (entries_of (list_at (bi_lists idx) t)) k =
     (\<Sum>d \<in> fset (fmdom (bi_documents idx)). lends idx keep d (real (times_held idx t d)) k)"
  unfolding lent_by_def list_frequency [OF s, symmetric]
proof (rule sum_by_key)
  show "distinct (map po_key (entries_of (list_at (bi_lists idx) t)))" using list_postings_ok [OF s] by (simp add: postings_ok_def)
  show "finite (fset (fmdom (bi_documents idx)))" by (rule finite_fset)
  show "frequency (entries_of (list_at (bi_lists idx) t)) d = 0" if "d \<notin> fset (fmdom (bi_documents idx))" for d
    using held_document [of idx t d] that by (auto simp: list_frequency [OF s])
  show "lends idx keep d (real 0) k = 0" for d by (simp add: lends_def)
qed

section \<open>The pass over the terms\<close>

text \<open>A pass that has scored the terms \<open>ts\<close>.\<close>

definition scored :: "'k BTreeIndex \<Rightarrow> ('k \<Rightarrow> bool) option list \<Rightarrow> runes list \<Rightarrow> 'k pass \<Rightarrow> bool" where
  "scored idx keeps ts p \<longleftrightarrow> pass_ok p \<and> clock_ok p \<and> pa_index p = idx \<and> map re_keep (pa_readings p) = keeps \<and>
     (\<forall>i < length keeps. \<forall>k. (rd_seen (view i k p) > 0 \<longleftrightarrow> (\<exists>t \<in> set ts. matches idx (accepting (keeps ! i)) t k)) \<and>
        rd_score (view i k p) = scan_score idx (accepting (keeps ! i)) ts k \<and> rd_matched (view i k p) = scan_matched idx (accepting (keeps ! i)) ts k)"

lemma scored_keep:
  assumes "scored idx keeps ts p" "i < length keeps"
  shows "keep_of i p = accepting (keeps ! i)" "length (pa_readings p) = length keeps"
proof -
  have m: "map re_keep (pa_readings p) = keeps" using assms(1) by (simp add: scored_def)
  then show "length (pa_readings p) = length keeps" by (metis length_map)
  then have "re_keep (pa_readings p ! i) = keeps ! i" using m assms(2) by (metis nth_map)
  then show "keep_of i p = accepting (keeps ! i)" by (simp add: keep_of_def accepting_def fun_eq_iff)
qed

lemma newPass_scored:
  assumes "serving idx"
  shows "scored idx keeps [] (newPass idx keeps)"
proof -
  have "slot_keys (newPass idx keeps) = []" by (simp add: slot_keys_def newPass_def)
  note keys = this
  have v: "view i k (newPass idx keeps) = zero_doc" for i k by (simp add: view_def keys)
  have "slots_ok (newPass idx keeps)" by (simp add: slots_ok_def keys) (simp add: newPass_def)
  moreover have "named idx" using assms serves_named by (auto simp: serving_def)
  ultimately have "pass_ok (newPass idx keeps)" by (simp add: pass_ok_def v doc_ok_def zero_doc_def) (simp add: newPass_def)
  then show ?thesis
    by (simp add: scored_def clock_ok_def v scan_score_def scan_matched_def zero_doc_def) (simp add: newPass_def comp_def)
qed

lemma accumulate_scored:
  assumes s: "serving idx" and sc: "scored idx keeps ts p"
  shows "scored idx keeps (ts @ [t]) (accumulate (list_at (bi_lists idx) t) (scan_weight idx t) (rel_Prepare (bi_relevance idx)) p)"
proof -
  let ?list = "list_at (bi_lists idx) t" and ?w = "scan_weight idx t"
  let ?p' = "accumulate ?list ?w (rel_Prepare (bi_relevance idx)) p"
  have ok: "pass_ok p" "clock_ok p" "pa_index p = idx" "map re_keep (pa_readings p) = keeps" using sc by (simp_all add: scored_def)
  have list: "postings_ok (pa_index p) ?list" using list_postings_ok [OF s] ok(3) by simp
  have n: "length (pa_readings p) = length keeps" using ok(4) by (metis length_map)
  have acc: "pass_ok ?p' \<and> pa_index ?p' = idx \<and> map re_keep (pa_readings ?p') = keeps \<and>
    (\<forall>i < length keeps. tallied i (matches idx (keep_of i p) t) (term_gain idx (keep_of i p) t) ?w p ?p')"
  proof (cases "windowed idx")
    case True
    have r: "reached_by idx keep (entries_of ?list) = matches idx keep t" for keep using list_reached [OF s True] by (simp add: fun_eq_iff)
    have g: "(\<lambda>k. rel_Gain (bi_relevance idx) ?w (lent_by idx keep (entries_of ?list) k) (window_len idx keep k) (rel_Prepare (bi_relevance idx))) =
        term_gain idx keep t" for keep using True by (simp add: term_gain_def list_lent [OF s] fun_eq_iff)
    show ?thesis using window_accumulate [OF ok(1,2) list, of ?w "rel_Prepare (bi_relevance idx)"] True n unfolding ok(3,4) r g by simp
  next
    case False
    have r: "(\<lambda>k. frequency (entries_of ?list) k \<noteq> 0 \<and> keep k) = matches idx keep t" for keep
      using False by (simp add: matches_def list_frequency [OF s] fun_eq_iff)
    have g: "term_gain idx keep t =
        (\<lambda>k. rel_Increment (bi_relevance idx) ?w k (frequency (entries_of ?list) k) (rel_Prepare (bi_relevance idx)))" for keep using False by (simp add: term_gain_def list_frequency [OF s] fun_eq_iff)
    show ?thesis using plain_accumulate [OF ok(1,2) list, of ?w "rel_Prepare (bi_relevance idx)"] False n unfolding ok(3,4) r g by simp
  qed
  have n': "length (pa_readings ?p') = length keeps" using acc by (metis length_map)
  have "clock_ok ?p'" using acc n' by (simp add: clock_ok_def tallied_def)
  moreover have "(rd_seen (view i k ?p') > 0 \<longleftrightarrow> (\<exists>t \<in> set (ts @ [t]). matches idx (accepting (keeps ! i)) t k)) \<and>
        rd_score (view i k ?p') = scan_score idx (accepting (keeps ! i)) (ts @ [t]) k \<and> rd_matched (view i k ?p') = scan_matched idx (accepting (keeps ! i)) (ts @ [t]) k"
    if i: "i < length keeps" for i k
  proof -
    note kp = scored_keep(1) [OF sc i]
    have tl: "tallied i (matches idx (accepting (keeps ! i)) t) (term_gain idx (accepting (keeps ! i)) t) ?w p ?p'" using acc i kp by metis
    have old: "(rd_seen (view i k p) > 0 \<longleftrightarrow> (\<exists>t \<in> set ts. matches idx (accepting (keeps ! i)) t k))"
      "rd_score (view i k p) = scan_score idx (accepting (keeps ! i)) ts k" "rd_matched (view i k p) = scan_matched idx (accepting (keeps ! i)) ts k"
      using sc i by (simp_all add: scored_def)
    show ?thesis using tl [unfolded tallied_def, THEN spec, of k] old by (auto simp: scan_score_def scan_matched_def)
  qed
  ultimately show ?thesis using acc by (simp add: scored_def)
qed

lemma search_terms_scored:
  assumes s: "serving idx"
  shows "scored idx keeps ts p \<Longrightarrow> \<exists>p'. foldl (search_term idx (rel_Prepare (bi_relevance idx))) (m, p) ws =
    (m + sum_list (map (scan_weight idx) (scan_terms idx ws)), p') \<and> scored idx keeps (ts @ scan_terms idx ws) p'"
proof (induction ws arbitrary: m p ts)
  case Nil
  then show ?case by (simp add: scan_terms_def known_terms_def)
next
  case (Cons w ws)
  let ?step = "search_term idx (rel_Prepare (bi_relevance idx)) (m, p) w" and ?list = "list_at (bi_lists idx) w"
  have sv: "serves idx (bi_documents idx)" "bi_compare idx = OrderedComparator" using s by (simp_all add: serving_def)
  note found = find_statistics [OF sv, of w]
  show ?case
  proof (cases "card (documents_with (bi_tokenizer idx) (bi_documents idx) w) = 0")
    case True
    have "?step = (m, p)"
    proof (cases "bt_Find (bi_tree idx) w")
      case (Some t)
      then have "t = w" "pl_live ?list = 0" using found True by (simp_all add: documents_with_def)
      then show ?thesis using Some by (simp add: search_term_def)
    qed (simp add: search_term_def)
    moreover have "scan_terms idx (w # ws) = scan_terms idx ws" using True by (simp add: scan_terms_def known_terms_def)
    ultimately show ?thesis using Cons.IH [OF Cons.prems] by simp
  next
    case False
    have some: "bt_Find (bi_tree idx) w = Some w" using found False by (auto simp: documents_with_def split: option.splits)
    then have live: "pl_live ?list = card (documents_with (bi_tokenizer idx) (bi_documents idx) w)" using found by (simp add: documents_with_def)
    have step: "?step = (m + scan_weight idx w, accumulate ?list (scan_weight idx w) (rel_Prepare (bi_relevance idx)) p)"
      using some False by (simp add: search_term_def Let_def live scan_weight_def text_Count_def)
    have "scan_terms idx (w # ws) = w # scan_terms idx ws" using False by (simp add: scan_terms_def known_terms_def)
    then show ?thesis using Cons.IH [OF accumulate_scored [OF s Cons.prems], of "m + scan_weight idx w" w] step by (simp add: add.assoc)
  qed
qed

lemma offers_filter:
  "foldl (\<lambda>t s. if P s then Offer t (K s) (S s) else t) t0 ss =
   foldl (\<lambda>t e. Offer t (te_key e) (te_score e)) t0 (map (\<lambda>s. \<lparr>te_key = K s, te_score = S s\<rparr>) (filter P ss))"
  by (induction ss arbitrary: t0) simp_all

lemma matches_nearby: "matches idx keep t k \<Longrightarrow> k \<in> nearby idx"
  by (auto simp: matches_def nearby_def reaches_def split: if_splits dest: held_document intro: held_document)

lemma finite_nearby [simp]: "finite (nearby idx)"
  by (simp add: nearby_def)

lemma rank_scored:
  assumes s: "serving idx" and sc: "scored idx keeps ts p" and i: "i < length keeps"
  shows "rank i k m p = (map te_key (best OrderedComparator k (map (\<lambda>x. \<lparr>te_key = x, te_score = rel_Finalize (bi_relevance idx)
      (scan_score idx (accepting (keeps ! i)) ts x) (to_int (scan_matched idx (accepting (keeps ! i)) ts x * 1024)) (to_int (m * 1024) + 1)\<rparr>)
      (sorted_list_of_set {x \<in> nearby idx. \<exists>t \<in> set ts. matches idx (accepting (keeps ! i)) t x}))),
    map te_score (best OrderedComparator k (map (\<lambda>x. \<lparr>te_key = x, te_score = rel_Finalize (bi_relevance idx)
      (scan_score idx (accepting (keeps ! i)) ts x) (to_int (scan_matched idx (accepting (keeps ! i)) ts x * 1024)) (to_int (m * 1024) + 1)\<rparr>)
      (sorted_list_of_set {x \<in> nearby idx. \<exists>t \<in> set ts. matches idx (accepting (keeps ! i)) t x}))))"
proof -
  let ?keep = "accepting (keeps ! i)" and ?n = "length (re_docs (pa_readings p ! i))"
  let ?E = "\<lambda>x. \<lparr>te_key = x, te_score = rel_Finalize (bi_relevance idx) (scan_score idx ?keep ts x) (to_int (scan_matched idx ?keep ts x * 1024)) (to_int (m * 1024) + 1)\<rparr>"
  let ?C = "{x \<in> nearby idx. \<exists>t \<in> set ts. matches idx ?keep t x}"
  have "pass_ok p" using sc by (simp add: scored_def)
  then have ok: "pass_ok p" "slots_ok p" "pa_index p = idx" using sc by (simp_all add: scored_def pass_ok_def)
  have ip: "i < length (pa_readings p)" using scored_keep(2) [OF sc i] i by simp
  have n: "?n = length (slot_keys p)" by (rule docs_length [OF ok(2) ip])
  have cmp: "bi_compare idx = OrderedComparator" using s by (simp add: serving_def)
  have at: "doc_at i s p = view i (slot_keys p ! s) p" if "s < ?n" for s using view_at [OF ok(2) ip] that n by simp
  have key: "ps_key (pa_slots p ! s) = slot_keys p ! s" if "s < ?n" for s using that n by (simp add: slot_keys_def)
  have seen: "rd_seen (view i x p) > 0 \<longleftrightarrow> (\<exists>t \<in> set ts. matches idx ?keep t x)" for x using sc i by (simp add: scored_def)
  let ?P = "\<lambda>s. rd_seen (doc_at i s p) > 0"
  let ?ss = "filter ?P [0..<?n]"
  let ?es = "map (\<lambda>s. \<lparr>te_key = ps_key (pa_slots p ! s), te_score = rel_Finalize (bi_relevance idx) (rd_score (doc_at i s p))
     (to_int (rd_matched (doc_at i s p) * 1024)) (to_int (m * 1024) + 1)\<rparr>) ?ss"
  have es: "?es = map ?E (map (\<lambda>s. slot_keys p ! s) ?ss)"
    using at key sc i by (auto simp: scored_def)
  have "distinct (slot_keys p)" using ok(2) by (simp add: slots_ok_def)
  then have "inj_on (\<lambda>s. slot_keys p ! s) (set ?ss)" using n by (auto simp: inj_on_def nth_eq_iff_index_eq)
  then have d: "distinct (map (\<lambda>s. slot_keys p ! s) ?ss)" by (simp add: distinct_map)
  have "set (map (\<lambda>s. slot_keys p ! s) ?ss) = ?C"
  proof (rule set_eqI)
    fix x
    have "x \<in> ?C \<longleftrightarrow> rd_seen (view i x p) > 0" by (auto simp: seen simp del: neq0_conv intro: matches_nearby)
    also have "\<dots> \<longleftrightarrow> x \<in> set (map (\<lambda>s. slot_keys p ! s) ?ss)"
    proof
      assume pos: "rd_seen (view i x p) > 0"
      have "x \<in> set (slot_keys p)"
      proof (rule ccontr)
        assume "x \<notin> set (slot_keys p)"
        then show False using view_absent [OF ok(2) ip] pos by (simp add: zero_doc_def)
      qed
      then obtain s where "s < ?n" "slot_keys p ! s = x" using n by (auto simp: in_set_conv_nth)
      then show "x \<in> set (map (\<lambda>s. slot_keys p ! s) ?ss)" using at pos by force
    next
      assume "x \<in> set (map (\<lambda>s. slot_keys p ! s) ?ss)"
      then show "rd_seen (view i x p) > 0" using at by auto
    qed
    finally show "x \<in> set (map (\<lambda>s. slot_keys p ! s) ?ss) \<longleftrightarrow> x \<in> ?C" by blast
  qed
  then have "mset (map (\<lambda>s. slot_keys p ! s) ?ss) = mset (sorted_list_of_set ?C)"
    using d by (intro set_eq_iff_mset_eq_distinct [THEN iffD1]) simp_all
  then have mset: "mset ?es = mset (map ?E (sorted_list_of_set ?C))" unfolding es mset_map by simp
  have "rank i k m p = fst (Drain (foldl (\<lambda>t e. Offer t (te_key e) (te_score e)) (NewTopK k OrderedComparator) ?es))"
    by (simp add: rank_def Let_def ok(3) cmp offers_filter)
  then show ?thesis
    unfolding Drain_offers [OF ordered_cmp.total_comparator_axioms] best_mset [OF ordered_cmp.total_comparator_axioms mset] by simp
qed

section \<open>Properties\<close>

lemma run_serving:
  fixes idx :: "('k :: linorder) BTreeIndex"
  assumes "run_ops ops (fresh_index u tokenize bm25) = Some (es, idx)"
  shows "serving idx" "bi_tokenizer idx = tokenize"
  using run_ops_refine [OF fresh_index_ok(1,2), of ops u tokenize bm25] assms fresh_index_ok(3) by (auto simp: serving_def text_ok_def)

text \<open>C35: A text search is a scan of the documents. After any operations, every reading of a search holds the \<open>k\<close> best
  (all for \<open>k \<le> 0\<close>) of the documents its keep accepts and a term of the query reaches, by score and then key. A score
  is the sum of the gains of the query's known terms, weighed by how many documents hold them, and finalised
  with the weight matched and the weight of the whole query. Without a window a document gains from its own
  counts; under a window from its own and a share of those its neighbours lend, over its own and a share
  of its neighbours' lengths. Neither the slots, the order of the postings, tombstones nor the other readings
  show in the answer; an index without documents answers ErrEmptyIndex.\<close>

theorem text_search_is_scan:
  fixes idx :: "('k :: linorder) BTreeIndex"
  assumes "run_ops ops (fresh_index u tokenize bm25) = Some (es, idx)"
  shows "text_Search idx query k keeps =
    (if bi_documents idx = fmempty then Inl ErrEmptyIndex
     else Inr (map (\<lambda>keep. map te_key (best OrderedComparator k (scan idx query (accepting keep)))) (if keeps = [] then [None] else keeps),
               map (\<lambda>keep. map te_score (best OrderedComparator k (scan idx query (accepting keep)))) (if keeps = [] then [None] else keeps)))"
proof -
  note s = run_serving(1) [OF assms]
  let ?ts = "rel_Terms (bi_relevance idx) (bi_tokenizer idx query)" and ?keeps = "if keeps = [] then [None] else keeps"
  have empty: "text_Count idx = 0 \<longleftrightarrow> bi_documents idx = fmempty"
  proof
    assume "text_Count idx = 0"
    then have "fmdom (bi_documents idx) = {||}" by (simp add: text_Count_def)
    then show "bi_documents idx = fmempty" by (intro fmap_ext) (simp add: fmdom_notD)
  qed (simp add: text_Count_def)
  obtain p where p: "foldl (search_term idx (rel_Prepare (bi_relevance idx))) (0, newPass idx ?keeps) ?ts =
      (sum_list (map (scan_weight idx) (scan_terms idx ?ts)), p)" "scored idx ?keeps (scan_terms idx ?ts) p"
    using search_terms_scored [OF s newPass_scored [OF s], of 0 ?keeps ?ts] by auto
  have n: "length (pa_readings p) = length ?keeps" using p(2) by (metis length_map scored_def)
  let ?m = "sum_list (map (scan_weight idx) (scan_terms idx ?ts))"
  have "rank i k ?m p = (map te_key (best OrderedComparator k (scan idx query (accepting (?keeps ! i)))),
      map te_score (best OrderedComparator k (scan idx query (accepting (?keeps ! i)))))" if "i < length ?keeps" for i
    unfolding rank_scored [OF s p(2) that] scan_def Let_def ..
  then have ranks: "map (\<lambda>i. rank i k ?m p) [0..<length (pa_readings p)] =
      map (\<lambda>keep. (map te_key (best OrderedComparator k (scan idx query (accepting keep))), map te_score (best OrderedComparator k (scan idx query (accepting keep))))) ?keeps"
    unfolding n by (intro nth_equalityI) simp_all
  show ?thesis unfolding text_Search_def Let_def p(1) prod.case ranks empty unfolding map_map comp_def fst_conv snd_conv ..
qed

theorem text_search_is_scan_witness:
  "\<exists>idx. run_ops [TInsert (7 :: nat) [1, 2, 1], TInsert 8 [2], TWindow 0.5 (Some (\<lambda>k. if k = 7 then [8] else [7]))] (fresh_index \<lparr>wide_letter = (\<lambda>_. False),
      wide_digit = (\<lambda>_. False), wide_symbol = (\<lambda>_. False), wide_lower = (\<lambda>r. r)\<rparr> (map (\<lambda>r. [r])) True) = Some ([None, None, None], idx) \<and>
    text_Search idx [1] 2 [] = Inr ([map te_key (best OrderedComparator 2 (scan idx [1] (accepting None)))],
      [map te_score (best OrderedComparator 2 (scan idx [1] (accepting None)))])"
proof -
  let ?u = "\<lparr>wide_letter = (\<lambda>_. False), wide_digit = (\<lambda>_. False), wide_symbol = (\<lambda>_. False), wide_lower = (\<lambda>r. r)\<rparr> :: unicode"
  let ?f = "map (\<lambda>r. [r]) :: runes \<Rightarrow> runes list"
  let ?ops = "[TInsert (7 :: nat) [1, 2, 1], TInsert 8 [2], TWindow 0.5 (Some (\<lambda>k. if k = 7 then [8] else [7]))]"
  obtain idx where run: "run_ops ?ops (fresh_index ?u ?f True) = Some ([None, None, None], idx)" "bi_documents idx = fmupd 8 [2] (fmupd 7 [1, 2, 1] fmempty)"
    using run_ops_refine [OF fresh_index_ok(1,2), of ?ops ?u ?f True] by (auto simp: map_op_def fresh_index_ok(4))
  have "fmlookup (bi_documents idx) 7 \<noteq> None" unfolding run(2) by simp
  then have "bi_documents idx \<noteq> fmempty" by auto
  then show ?thesis using run(1) text_search_is_scan [OF run(1), of "[1]" 2 "[]"] by auto
qed

end
