(* ===== verification/Trees_RPTree.thy ===== *)
theory Trees_RPTree
  imports Containers_PriorityQueue "HOL-Library.Finite_Map" Complex_Main
begin

text \<open>
  The random-projection tree of \<open>internal/containers/trees/rptree.go\<close>. Coordinates are real numbers. What the tree
  takes from the standard library and does not fix itself is a field of \<open>rp_env\<close>: the generator (seeding, a normal
  draw, a bounded draw), the order \<open>sort.Slice\<close> gives to equal projections, and \<open>math.Float64bits\<close>, which makes a
  distance a priority. A stored node is a \<open>VectorNode\<close>, which always has a point: \<open>ErrMissingPoint\<close> does not arise.
  A node of the tree is a leaf or has both children, so the pointers of the code are a datatype. Slots of
  \<open>rows\<close> and coordinates are read in range when the draws are bounded and the dimensions agree, which
  \<open>Insert\<close> and \<open>Nearest\<close> check; the corners of a \<open>Range\<close> have the dimension of the tree.
\<close>

type_synonym vector = "real list"

record 'k VectorNode =
  vn_key :: 'k
  vn_value :: vector

record ('k, 'r) rp_env =
  env_source :: "64 word \<Rightarrow> 'r"
  env_normal :: "'r \<Rightarrow> real \<times> 'r"
  env_intn :: "nat \<Rightarrow> 'r \<Rightarrow> nat \<times> 'r"
  env_slice :: "(real \<times> 'k VectorNode) list \<Rightarrow> (real \<times> 'k VectorNode) list"
  env_bits :: "real \<Rightarrow> 64 word"

datatype tree_error = ErrDimensionMismatch | ErrDimMismatch

section \<open>Vectors\<close>

definition vector_Dim :: "vector \<Rightarrow> nat" where
  "vector_Dim v = length v"

definition vector_Empty :: "vector \<Rightarrow> bool" where
  "vector_Empty v = (length v = 0)"

definition vector_Distance :: "vector \<Rightarrow> vector \<Rightarrow> tree_error + real" where
  "vector_Distance v other =
     (if length v \<noteq> length other then Inl ErrDimMismatch
      else Inr (sqrt (foldl (\<lambda>sum (x, y). sum + (x - y) * (x - y)) 0 (zip v other))))"

section \<open>The projection\<close>

fun draw_normals :: "('k, 'r) rp_env \<Rightarrow> nat \<Rightarrow> 'r \<Rightarrow> real list \<times> 'r" where
  "draw_normals env 0 r = ([], r)"
| "draw_normals env (Suc n) r =
     (let (v, r1) = env_normal env r; (vs, r2) = draw_normals env n r1 in (v # vs, r2))"

definition unit_row :: "real list \<Rightarrow> real list" where
  "unit_row row =
     (let norm = sqrt (foldl (\<lambda>norm v. norm + v * v) 0 row); norm = (if norm = 0 then 1 else norm)
      in map (\<lambda>v. v / norm) row)"

fun newProjection :: "('k, 'r) rp_env \<Rightarrow> nat \<Rightarrow> nat \<Rightarrow> 'r \<Rightarrow> real list list \<times> 'r" where
  "newProjection env width 0 r = ([], r)"
| "newProjection env width (Suc n) r =
     (let (row, r1) = draw_normals env width r; (rows, r2) = newProjection env width n r1
      in (unit_row row # rows, r2))"

definition dot_row :: "real list \<Rightarrow> vector \<Rightarrow> real" where
  "dot_row row coordinates = foldl (\<lambda>sum (w, x). sum + w * x) 0 (zip row coordinates)"

definition Apply :: "real list list \<Rightarrow> vector \<Rightarrow> real list" where
  "Apply rows p = map (\<lambda>row. dot_row row p) rows"

definition ApplyRow :: "real list list \<Rightarrow> vector \<Rightarrow> nat \<Rightarrow> real" where
  "ApplyRow rows p row = dot_row (rows ! row) p"

section \<open>The tree\<close>

datatype 'k RPTreeNode =
    RPLeaf "'k VectorNode list"
  | RPSplit nat real "'k RPTreeNode" "'k RPTreeNode"

record ('k, 'r) RPTree =
  rp_proj :: "real list list"
  rp_root :: "'k RPTreeNode"
  rp_dim :: nat
  rp_projDim :: nat
  rp_length :: nat
  rp_leafSize :: nat
  rp_overfetch :: nat
  rp_rng :: 'r

definition floor_one :: "int \<Rightarrow> nat" where
  "floor_one n = (if n < 1 then 1 else nat n)"

definition NewRPTree :: "('k, 'r) rp_env \<Rightarrow> nat \<Rightarrow> int \<Rightarrow> 64 word \<Rightarrow> int \<Rightarrow> int \<Rightarrow> ('k, 'r) RPTree" where
  "NewRPTree env width projDim seed leafSize overfetch =
     (let (rows, r) = newProjection env width (floor_one projDim) (env_source env seed)
      in \<lparr>rp_proj = rows, rp_root = RPLeaf [], rp_dim = width, rp_projDim = floor_one projDim, rp_length = 0,
          rp_leafSize = floor_one leafSize, rp_overfetch = floor_one overfetch, rp_rng = r\<rparr>)"

definition goesLeft :: "real list list \<Rightarrow> nat \<Rightarrow> real \<Rightarrow> vector \<Rightarrow> bool" where
  "goesLeft rows splitRow splitVal p \<longleftrightarrow> ApplyRow rows p splitRow < splitVal"

definition rp_split :: "('k, 'r) rp_env \<Rightarrow> ('k, 'r) RPTree \<Rightarrow> 'k VectorNode list \<Rightarrow> 'k RPTreeNode \<times> 'r" where
  "rp_split env t data =
     (let (row, r) = env_intn env (rp_projDim t) (rp_rng t);
          sorted = env_slice env (map (\<lambda>node. (ApplyRow (rp_proj t) (vn_value node) row, node)) data);
          mid = length sorted div 2
      in (RPSplit row (fst (sorted ! mid)) (RPLeaf (map snd (take mid sorted))) (RPLeaf (map snd (drop mid sorted))), r))"

fun rp_insert :: "('k, 'r) rp_env \<Rightarrow> ('k, 'r) RPTree \<Rightarrow> 'k RPTreeNode \<Rightarrow> 'k VectorNode \<Rightarrow> 'k RPTreeNode \<times> 'r" where
  "rp_insert env t (RPSplit row val left right) node =
     (if goesLeft (rp_proj t) row val (vn_value node)
      then (let (left', r) = rp_insert env t left node in (RPSplit row val left' right, r))
      else (let (right', r) = rp_insert env t right node in (RPSplit row val left right', r)))"
| "rp_insert env t (RPLeaf data) node =
     (if length (data @ [node]) > rp_leafSize t then rp_split env t (data @ [node])
      else (RPLeaf (data @ [node]), rp_rng t))"

definition rp_Insert :: "('k, 'r) rp_env \<Rightarrow> ('k, 'r) RPTree \<Rightarrow> 'k VectorNode \<Rightarrow> tree_error option \<times> ('k, 'r) RPTree" where
  "rp_Insert env t node =
     (if vector_Dim (vn_value node) \<noteq> rp_dim t then (Some ErrDimensionMismatch, t)
      else (let (root, r) = rp_insert env t (rp_root t) node
            in (None, t\<lparr>rp_root := root, rp_rng := r, rp_length := rp_length t + 1\<rparr>)))"

section \<open>Nearest\<close>

text \<open>A deferred probe: the subtree the descent turned away from and its deviation.\<close>

type_synonym 'k probe = "'k RPTreeNode \<times> real"

fun rp_descend :: "real list \<Rightarrow> 'k RPTreeNode \<Rightarrow> 'k probe list \<Rightarrow> 'k VectorNode list \<times> 'k probe list" where
  "rp_descend proj (RPLeaf data) deferred = (data, deferred)"
| "rp_descend proj (RPSplit row val left right) deferred =
     (let deviation = proj ! row - val; deviation = (if deviation < 0 then - deviation else deviation)
      in if proj ! row \<ge> val then rp_descend proj right (deferred @ [(left, deviation)])
         else rp_descend proj left (deferred @ [(right, deviation)]))"

definition accepted :: "('k \<Rightarrow> bool) option \<Rightarrow> 'k \<Rightarrow> bool" where
  "accepted keep key = (case keep of None \<Rightarrow> True | Some f \<Rightarrow> f key)"

definition admit :: "('k \<Rightarrow> bool) option \<Rightarrow> 'k VectorNode list \<Rightarrow> 'k VectorNode list \<Rightarrow> 'k VectorNode list" where
  "admit keep candidates leaf = candidates @ filter (\<lambda>node. accepted keep (vn_key node)) leaf"

definition best_probe :: "'k probe list \<Rightarrow> nat" where
  "best_probe deferred =
     foldl (\<lambda>best i. if snd (deferred ! i) < snd (deferred ! best) then i else best) 0 [1..<length deferred]"

fun probe_nodes :: "'k RPTreeNode \<Rightarrow> nat" where
  "probe_nodes (RPLeaf data) = 1"
| "probe_nodes (RPSplit row val left right) = 1 + probe_nodes left + probe_nodes right"

lemma probe_nodes_pos [simp]: "0 < probe_nodes n"
  by (cases n) auto

lemma best_probe_less: "deferred \<noteq> [] \<Longrightarrow> best_probe deferred < length deferred"
proof -
  assume ne: "deferred \<noteq> []"
  have "foldl (\<lambda>best i. if snd (deferred ! i) < snd (deferred ! best) then i else best) b is < length deferred"
    if "b < length deferred" "\<forall>i \<in> set is. i < length deferred" for b "is"
    using that by (induction "is" arbitrary: b) auto
  from this [of 0 "[1..<length deferred]"] ne show ?thesis by (simp add: best_probe_def)
qed

lemma descend_measure:
  "sum_list (map (probe_nodes \<circ> fst) (snd (rp_descend proj n deferred))) <
     probe_nodes n + sum_list (map (probe_nodes \<circ> fst) deferred)"
proof (induction n arbitrary: deferred)
  case (RPSplit row val left right)
  let ?d = "proj ! row - val"
  let ?dev = "if ?d < 0 then - ?d else ?d"
  show ?case
    using RPSplit.IH(1) [of "deferred @ [(right, ?dev)]"] RPSplit.IH(2) [of "deferred @ [(left, ?dev)]"]
    by (cases "proj ! row \<ge> val") (simp_all add: Let_def)
qed simp

lemma sum_list_remove:
  "i < length xs \<Longrightarrow> sum_list (map f xs) = f (xs ! i) + (sum_list (map f (take i xs @ drop (Suc i) xs)) :: nat)"
  by (subst id_take_nth_drop, assumption) (simp add: algebra_simps)

function probe_loop :: "real list \<Rightarrow> ('k \<Rightarrow> bool) option \<Rightarrow> nat \<Rightarrow> 'k VectorNode list \<Rightarrow> 'k probe list \<Rightarrow> 'k VectorNode list" where
  "probe_loop proj keep budget candidates deferred =
     (if length candidates < budget \<and> deferred \<noteq> [] then
        (let best = best_probe deferred; next = fst (deferred ! best);
             (leaf, deferred') = rp_descend proj next (take best deferred @ drop (best + 1) deferred)
         in probe_loop proj keep budget (admit keep candidates leaf) deferred')
      else candidates)"
  by pat_completeness auto
termination
proof (relation "measure (\<lambda>(proj, keep, budget, candidates, deferred). sum_list (map (probe_nodes \<circ> fst) deferred))")
  fix proj :: "real list" and keep :: "('k \<Rightarrow> bool) option" and budget :: nat and candidates :: "'k VectorNode list"
    and deferred :: "'k probe list" and best nxt p leaf deferred'
  assume "length candidates < budget \<and> deferred \<noteq> []" "best = best_probe deferred" "nxt = fst (deferred ! best)"
    "p = rp_descend proj nxt (take best deferred @ drop (best + 1) deferred)" "(leaf, deferred') = p"
  then have "sum_list (map (probe_nodes \<circ> fst) deferred') < sum_list (map (probe_nodes \<circ> fst) deferred)"
    using descend_measure [of proj nxt "take best deferred @ drop (best + 1) deferred"]
      sum_list_remove [of best deferred "probe_nodes \<circ> fst"] best_probe_less [of deferred]
    by (metis Suc_eq_plus1 comp_apply snd_conv)
  then show "((proj, keep, budget, admit keep candidates leaf, deferred'), proj, keep, budget, candidates, deferred)
      \<in> measure (\<lambda>(proj, keep, budget, candidates, deferred). sum_list (map (probe_nodes \<circ> fst) deferred))"
    by simp
qed simp

declare probe_loop.simps [simp del]

text \<open>The pool: each key once, at its nearest copy, in the order the keys are first seen.\<close>

definition distancePriority :: "('k, 'r) rp_env \<Rightarrow> real \<Rightarrow> 64 word" where
  "distancePriority env d = env_bits env d"

fun pool :: "('k, 'r) rp_env \<Rightarrow> vector \<Rightarrow> 'k VectorNode list \<Rightarrow> ('k, 'k VectorNode) Item list \<Rightarrow> ('k, nat) fmap \<Rightarrow>
    tree_error + ('k, 'k VectorNode) Item list" where
  "pool env p [] its slots = Inr its"
| "pool env p (node # nodes) its slots =
     (case vector_Distance p (vn_value node) of
        Inl e \<Rightarrow> Inl e
      | Inr d \<Rightarrow>
          (let item = \<lparr>Key = vn_key node, Value = node, Priority = distancePriority env d\<rparr>
           in case fmlookup slots (Key item) of
                Some i \<Rightarrow> pool env p nodes (if Priority item < Priority (its ! i) then its[i := item] else its) slots
              | None \<Rightarrow> pool env p nodes (its @ [item]) (fmupd (Key item) (length its) slots)))"

definition pool_step :: "nat \<Rightarrow> ('k, 't) PriorityQueue \<Rightarrow> ('k, 't) Item \<Rightarrow> ('k, 't) PriorityQueue" where
  "pool_step k pq item =
     (if pq_Len pq < k then Enqueue pq item
      else (case pq_Peek pq of
              None \<Rightarrow> pq
            | Some first \<Rightarrow>
                if Priority item < Priority first
                then Enqueue (case Dequeue pq of Inr (_, pq') \<Rightarrow> pq' | Inl _ \<Rightarrow> pq) item
                else pq))"

definition k_nearest :: "nat \<Rightarrow> ('k, 't) Item list \<Rightarrow> 't list" where
  "k_nearest k its =
     (case NewPriorityQueue (min k (length its)) [] of
        Inl _ \<Rightarrow> []
      | Inr pq0 \<Rightarrow> (let pq = foldl (pool_step k) pq0 its in rev (map Value (dequeue_all Dequeue (pq_Len pq) pq))))"

definition rp_Nearest :: "('k, 'r) rp_env \<Rightarrow> ('k, 'r) RPTree \<Rightarrow> vector \<Rightarrow> int \<Rightarrow> ('k \<Rightarrow> bool) option \<Rightarrow>
    tree_error + 'k VectorNode list" where
  "rp_Nearest env t p k keep =
     (if vector_Dim p \<noteq> rp_dim t then Inl ErrDimensionMismatch
      else if k \<le> 0 \<or> rp_length t = 0 then Inr []
      else
        (let proj = Apply (rp_proj t) p; budget = nat k * rp_overfetch t;
             (leaf, deferred) = rp_descend proj (rp_root t) [];
             candidates = probe_loop proj keep budget (admit keep [] leaf) deferred
         in if candidates = [] then Inr []
            else (case pool env p candidates [] fmempty of
                    Inl e \<Rightarrow> Inl e
                  | Inr its \<Rightarrow> Inr (k_nearest (nat k) its))))"

section \<open>Range\<close>

definition withinBox :: "vector \<Rightarrow> vector \<Rightarrow> vector \<Rightarrow> bool" where
  "withinBox p lo hi = list_all (\<lambda>(v, l, u). \<not> (v < l \<or> v > u)) (zip p (zip lo hi))"

fun range_walk :: "vector \<Rightarrow> vector \<Rightarrow> 'k RPTreeNode \<Rightarrow> 'k VectorNode list" where
  "range_walk lo hi (RPLeaf data) = filter (\<lambda>node. withinBox (vn_value node) lo hi) data"
| "range_walk lo hi (RPSplit row val left right) = range_walk lo hi left @ range_walk lo hi right"

definition rp_Range :: "('k, 'r) RPTree \<Rightarrow> vector \<Rightarrow> vector \<Rightarrow> 'k VectorNode list" where
  "rp_Range t lo hi = range_walk lo hi (rp_root t)"

end
