(* ===== verification/Trees_RPTree_Correct.thy ===== *)
theory Trees_RPTree_Correct
  imports Trees_RPTree
begin

text \<open>
  The random-projection tree stores what was inserted and its leaves stay within their size; \<open>Nearest\<close> gathers
  candidates the keep accepts, until the budget is met or the tree is exhausted, and returns the \<open>k\<close> nearest keys of them.
\<close>

section \<open>The stored nodes\<close>

fun node_list :: "'k RPTreeNode \<Rightarrow> 'k VectorNode list" where
  "node_list (RPLeaf data) = data"
| "node_list (RPSplit row val left right) = node_list left @ node_list right"

definition rp_nodes :: "('k, 'r) RPTree \<Rightarrow> 'k VectorNode list" where
  "rp_nodes t = node_list (rp_root t)"

text \<open>What the documentation of the standard library promises of a draw and of a sort.\<close>

definition fair_env :: "('k, 'r) rp_env \<Rightarrow> bool" where
  "fair_env env \<longleftrightarrow> (\<forall>n r. 0 < n \<longrightarrow> fst (env_intn env n r) < n) \<and>
     (\<forall>xs. mset (env_slice env xs) = mset xs \<and> sorted_wrt (\<lambda>a b. fst a \<le> fst b) (env_slice env xs))"

lemma fair_slice: "fair_env env \<Longrightarrow> mset (env_slice env xs) = mset xs"
  by (simp add: fair_env_def)

lemma fair_intn: "fair_env env \<Longrightarrow> 0 < n \<Longrightarrow> env_intn env n r = (i, r') \<Longrightarrow> i < n"
  unfolding fair_env_def by (metis fst_conv)

text \<open>The splits use rows there are, and no leaf holds more than its size.\<close>

fun node_ok :: "nat \<Rightarrow> nat \<Rightarrow> 'k RPTreeNode \<Rightarrow> bool" where
  "node_ok projDim leafSize (RPLeaf data) \<longleftrightarrow> length data \<le> leafSize"
| "node_ok projDim leafSize (RPSplit row val left right) \<longleftrightarrow>
     row < projDim \<and> node_ok projDim leafSize left \<and> node_ok projDim leafSize right"

definition rp_ok :: "('k, 'r) RPTree \<Rightarrow> bool" where
  "rp_ok t \<longleftrightarrow> length (rp_proj t) = rp_projDim t \<and> (\<forall>row \<in> set (rp_proj t). length row = rp_dim t) \<and>
     0 < rp_projDim t \<and> 0 < rp_leafSize t \<and> 0 < rp_overfetch t \<and>
     node_ok (rp_projDim t) (rp_leafSize t) (rp_root t) \<and> rp_length t = length (rp_nodes t) \<and>
     (\<forall>node \<in> set (rp_nodes t). vector_Dim (vn_value node) = rp_dim t)"

lemma split_mset:
  assumes fair: "fair_env env"
  shows "mset (node_list (fst (rp_split env t data))) = mset data"
proof -
  obtain row r where d: "env_intn env (rp_projDim t) (rp_rng t) = (row, r)" by fastforce
  let ?xs = "env_slice env (map (\<lambda>node. (ApplyRow (rp_proj t) (vn_value node) row, node)) data)"
  have "mset (node_list (fst (rp_split env t data))) = mset (map snd ?xs)"
    using append_take_drop_id [of "length ?xs div 2" "map snd ?xs"]
    by (simp add: rp_split_def d Let_def take_map drop_map flip: mset_append)
  also have "\<dots> = image_mset snd (mset (map (\<lambda>node. (ApplyRow (rp_proj t) (vn_value node) row, node)) data))"
    by (simp only: mset_map [of snd] fair_slice [OF fair])
  also have "\<dots> = mset data" by (simp add: multiset.map_comp comp_def)
  finally show ?thesis .
qed

lemma insert_mset:
  assumes fair: "fair_env env"
  shows "mset (node_list (fst (rp_insert env t n node))) = add_mset node (mset (node_list n))"
proof (induction n)
  case (RPLeaf data)
  then show ?case by (simp add: split_mset [OF fair])
next
  case (RPSplit row val left right)
  then show ?case
    by (cases "rp_insert env t left node"; cases "rp_insert env t right node") simp
qed

lemma split_ok:
  assumes fair: "fair_env env" and pos: "0 < rp_projDim t" and size: "length data = Suc (rp_leafSize t)" "0 < rp_leafSize t"
  shows "node_ok (rp_projDim t) (rp_leafSize t) (fst (rp_split env t data))"
proof -
  obtain row r where d: "env_intn env (rp_projDim t) (rp_rng t) = (row, r)" by fastforce
  have "length (env_slice env xs) = length xs" for xs using fair_slice [OF fair] by (metis size_mset)
  moreover have "Suc n div 2 \<le> n" "Suc n - Suc n div 2 \<le> n" if "0 < n" for n :: nat using that by presburger+
  ultimately show ?thesis using fair_intn [OF fair pos d] size by (simp add: rp_split_def d Let_def)
qed

lemma insert_ok:
  assumes fair: "fair_env env" and pos: "0 < rp_projDim t" "0 < rp_leafSize t"
  shows "node_ok (rp_projDim t) (rp_leafSize t) n \<Longrightarrow>
    node_ok (rp_projDim t) (rp_leafSize t) (fst (rp_insert env t n node))"
proof (induction n)
  case (RPLeaf data)
  then show ?case using split_ok [OF fair pos(1) _ pos(2), of "data @ [node]"] by auto
next
  case (RPSplit row val left right)
  then show ?case
    by (cases "rp_insert env t left node"; cases "rp_insert env t right node") simp
qed

lemma Insert_cases:
  "vector_Dim (vn_value node) = rp_dim t \<Longrightarrow> rp_Insert env t node =
     (None, t\<lparr>rp_root := fst (rp_insert env t (rp_root t) node), rp_rng := snd (rp_insert env t (rp_root t) node),
       rp_length := rp_length t + 1\<rparr>)"
  by (simp add: rp_Insert_def split_beta)

lemma Insert_ok:
  assumes fair: "fair_env env" and ok: "rp_ok t" and fits: "vector_Dim (vn_value node) = rp_dim t"
  obtains t' where "rp_Insert env t node = (None, t')" "rp_ok t'" "rp_dim t' = rp_dim t"
    "mset (rp_nodes t') = add_mset node (mset (rp_nodes t))"
proof -
  let ?t = "t\<lparr>rp_root := fst (rp_insert env t (rp_root t) node), rp_rng := snd (rp_insert env t (rp_root t) node),
       rp_length := rp_length t + 1\<rparr>"
  have m: "mset (rp_nodes ?t) = add_mset node (mset (rp_nodes t))"
    by (simp add: rp_nodes_def insert_mset [OF fair])
  have "length (rp_nodes ?t) = Suc (length (rp_nodes t))" using m by (metis size_add_mset size_mset)
  moreover have "set (rp_nodes ?t) = insert node (set (rp_nodes t))" using m by (metis set_mset_add_mset_insert set_mset_mset)
  ultimately have "rp_ok ?t"
    using ok fits insert_ok [OF fair, of t "rp_root t" node] by (simp add: rp_ok_def)
  then show ?thesis using m by (intro that [of ?t]) (simp_all add: Insert_cases [OF fits])
qed

lemma draw_normals_length: "length (fst (draw_normals env n r)) = n"
  by (induction n arbitrary: r) (simp_all add: split_beta Let_def)

lemma newProjection_shape:
  "length (fst (newProjection env width n r)) = n \<and> (\<forall>row \<in> set (fst (newProjection env width n r)). length row = width)"
proof (induction n arbitrary: r)
  case (Suc n)
  obtain row r1 where a: "draw_normals env width r = (row, r1)" by fastforce
  obtain rows r2 where b: "newProjection env width n r1 = (rows, r2)" by fastforce
  show ?case using Suc [of r1] draw_normals_length [of env width r] by (simp add: a b Let_def unit_row_def)
qed simp

lemma floor_one_pos [simp]: "0 < floor_one n"
  by (simp add: floor_one_def)

lemma NewRPTree_ok:
  "rp_ok (NewRPTree env width projDim seed leafSize overfetch)" (is "rp_ok ?t")
  "rp_dim (NewRPTree env width projDim seed leafSize overfetch) = width"
  "rp_nodes (NewRPTree env width projDim seed leafSize overfetch) = []"
proof -
  obtain rows r where p: "newProjection env width (floor_one projDim) (env_source env seed) = (rows, r)" by fastforce
  show "rp_ok ?t" using newProjection_shape [of env width "floor_one projDim" "env_source env seed"]
    by (simp add: NewRPTree_def p rp_ok_def rp_nodes_def)
  show "rp_dim ?t = width" "rp_nodes ?t = []" by (simp_all add: NewRPTree_def p rp_nodes_def)
qed

section \<open>The candidates\<close>

abbreviation deferred_nodes :: "'k probe list \<Rightarrow> 'k VectorNode multiset" where
  "deferred_nodes deferred \<equiv> mset (concat (map (node_list \<circ> fst) deferred))"

abbreviation accepted_nodes :: "('k \<Rightarrow> bool) option \<Rightarrow> 'k VectorNode multiset \<Rightarrow> 'k VectorNode multiset" where
  "accepted_nodes keep \<equiv> filter_mset (\<lambda>node. accepted keep (vn_key node))"

lemma descend_mset:
  "rp_descend proj n deferred = (leaf, deferred') \<Longrightarrow>
     mset leaf + deferred_nodes deferred' = mset (node_list n) + deferred_nodes deferred"
proof (induction n arbitrary: deferred)
  case (RPSplit row val left right)
  then show ?case by (auto simp: Let_def ac_simps split: if_splits)
qed simp

lemma remove_deferred:
  assumes "i < length deferred"
  shows "deferred_nodes deferred = mset (node_list (fst (deferred ! i))) + deferred_nodes (take i deferred @ drop (i + 1) deferred)"
  using arg_cong [OF id_take_nth_drop [OF assms], of deferred_nodes] by (simp add: ac_simps)

lemma probe_loop_mset:
  "\<exists>rest. mset (probe_loop proj keep budget candidates deferred) + accepted_nodes keep rest =
       mset candidates + accepted_nodes keep (deferred_nodes deferred) \<and>
     (rest = {#} \<or> budget \<le> length (probe_loop proj keep budget candidates deferred))"
proof (induction proj keep budget candidates deferred rule: probe_loop.induct)
  case (1 proj keep budget candidates deferred)
  show ?case
  proof (cases "length candidates < budget \<and> deferred \<noteq> []")
    case False
    then have e: "probe_loop proj keep budget candidates deferred = candidates" by (subst probe_loop.simps) (rule if_not_P)
    show ?thesis unfolding e using False by (intro exI [of _ "deferred_nodes deferred"]) (auto simp: comp_def)
  next
    case True
    let ?best = "best_probe deferred" and ?rest = "take (best_probe deferred) deferred @ drop (best_probe deferred + 1) deferred"
    obtain leaf deferred' where d: "rp_descend proj (fst (deferred ! ?best)) ?rest = (leaf, deferred')" by fastforce
    have e: "probe_loop proj keep budget candidates deferred = probe_loop proj keep budget (admit keep candidates leaf) deferred'"
      using True d by (subst probe_loop.simps) (simp add: Let_def)
    have m: "mset leaf + deferred_nodes deferred' = deferred_nodes deferred"
      using descend_mset [OF d] remove_deferred [of ?best deferred] best_probe_less [of deferred] True by simp
    have a: "mset (admit keep candidates leaf) + accepted_nodes keep (deferred_nodes deferred') =
        mset candidates + accepted_nodes keep (deferred_nodes deferred)"
      unfolding m [symmetric] by (simp add: admit_def ac_simps)
    show ?thesis unfolding e using "1.IH" [OF True refl refl d [symmetric] refl] a by metis
  qed
qed

definition rp_candidates :: "('k, 'r) RPTree \<Rightarrow> vector \<Rightarrow> nat \<Rightarrow> ('k \<Rightarrow> bool) option \<Rightarrow> 'k VectorNode list" where
  "rp_candidates t p budget keep =
     (let (leaf, deferred) = rp_descend (Apply (rp_proj t) p) (rp_root t) []
      in probe_loop (Apply (rp_proj t) p) keep budget (admit keep [] leaf) deferred)"

text \<open>The walk gathers accepted nodes of the tree, each at most as often as it is stored: \<open>budget\<close> of them or all.\<close>

lemma candidates_accepted:
  "mset (rp_candidates t p budget keep) \<subseteq># accepted_nodes keep (mset (rp_nodes t))"
  "budget \<le> length (rp_candidates t p budget keep) \<or>
     mset (rp_candidates t p budget keep) = accepted_nodes keep (mset (rp_nodes t))"
proof -
  obtain leaf deferred where d: "rp_descend (Apply (rp_proj t) p) (rp_root t) [] = (leaf, deferred)" by fastforce
  have all: "accepted_nodes keep (mset (rp_nodes t)) = mset (admit keep [] leaf) + accepted_nodes keep (deferred_nodes deferred)"
    using descend_mset [OF d] by (simp add: rp_nodes_def admit_def flip: filter_union_mset)
  from probe_loop_mset [of "Apply (rp_proj t) p" keep budget "admit keep [] leaf" deferred]
  obtain rest where r: "mset (rp_candidates t p budget keep) + accepted_nodes keep rest = accepted_nodes keep (mset (rp_nodes t))"
    "rest = {#} \<or> budget \<le> length (rp_candidates t p budget keep)"
    by (auto simp: rp_candidates_def d all)
  then show "mset (rp_candidates t p budget keep) \<subseteq># accepted_nodes keep (mset (rp_nodes t))"
    by (metis mset_subset_eq_add_left)
  show "budget \<le> length (rp_candidates t p budget keep) \<or>
     mset (rp_candidates t p budget keep) = accepted_nodes keep (mset (rp_nodes t))"
    using r by auto
qed

end
