(* ===== verification/Trees_RPTree_Nearest.thy ===== *)
theory Trees_RPTree_Nearest
  imports Trees_RPTree_Correct
begin

text \<open>
  What \<open>Nearest\<close> does with its candidates: each key enters the pool once, at its nearest copy, and a queue held to
  \<open>k\<close> items by evicting the farthest keeps the \<open>k\<close> nearest of the pool. The second is a lemma of any queue with the
  contract \<open>peeked_queue\<close>, which the priority queue keeps.
\<close>

section \<open>A queue held to k items\<close>

locale peeked_queue = max_queue +
  fixes peek :: "'a \<Rightarrow> 'c option"
  assumes peek_next: "inv q \<Longrightarrow> len q = Suc n \<Longrightarrow> \<exists>x q'. peek q = Some x \<and> deq q = Inr (Some x, q')"
begin

lemma ran_iff: "inv q \<Longrightarrow> z \<in> ran (bag q) \<longleftrightarrow> bag q (key z) = Some z"
  using bag_key by (auto simp: ran_def)

lemma card_ran: "inv q \<Longrightarrow> finite (ran (bag q)) \<and> card (ran (bag q)) = len q"
  using drain [of q] by (metis List.finite_set distinct_card distinct_map)

lemma enq_fresh:
  assumes q: "inv q" and fresh: "bag q (key x) = None"
  shows "bag (enq q x) = (bag q)(key x \<mapsto> x)" "ran (bag (enq q x)) = insert x (ran (bag q))" "len (enq q x) = Suc (len q)"
proof -
  show b: "bag (enq q x) = (bag q)(key x \<mapsto> x)" using enq_bag [OF q, of x] fresh by simp
  show r: "ran (bag (enq q x)) = insert x (ran (bag q))" using fresh by (simp add: b)
  have "x \<notin> ran (bag q)" using fresh ran_iff [OF q, of x] by simp
  then show "len (enq q x) = Suc (len q)"
    using card_ran [OF q] card_ran [OF enq_inv [OF q], of x] by (simp add: r)
qed

lemma not_held: "inv q \<Longrightarrow> ran (bag q) \<subseteq> S \<Longrightarrow> key x \<notin> key ` S \<Longrightarrow> bag q (key x) = None"
  using bag_key [of q "key x"] by (metis image_eqI option.exhaust ranI subsetD)

lemma keeps_room:
  assumes q: "inv q" "ran (bag q) \<subseteq> S" "len q = min k (card S)" and S: "finite S" "key x \<notin> key ` S" and room: "len q < k"
  shows "inv (enq q x) \<and> ran (bag (enq q x)) = insert x S \<and> len (enq q x) = Suc (len q) \<and> card S < k"
proof -
  have all: "ran (bag q) = S" "card S < k"
    using card_subset_eq [OF S(1) q(2)] card_ran [OF q(1)] q(3) room by auto
  then show ?thesis
    using enq_inv [OF q(1)] enq_fresh [OF q(1) not_held [OF q(1,2) S(2)]] by simp
qed

lemma keeps_full:
  assumes q: "inv q" "ran (bag q) \<subseteq> S" "len q = Suc n" and S: "key x \<notin> key ` S"
    and rest: "\<forall>y \<in> S - ran (bag q). \<forall>z \<in> ran (bag q). prio z \<le> prio y"
  shows "\<exists>f q'. peek q = Some f \<and> deq q = Inr (Some f, q') \<and> (\<forall>z \<in> ran (bag q). prio z \<le> prio f) \<and>
    (prio x < prio f \<longrightarrow> inv (enq q' x) \<and> len (enq q' x) = len q \<and> ran (bag (enq q' x)) \<subseteq> insert x S \<and>
      (\<forall>y \<in> insert x S - ran (bag (enq q' x)). \<forall>z \<in> ran (bag (enq q' x)). prio z \<le> prio y))"
proof -
  obtain f q' where d: "deq q = Inr (Some f, q')" "inv q'" "len q' = n" "bag q (key f) = Some f"
    "bag q' = (bag q)(key f := None)" "\<forall>y \<in> ran (bag q). prio y \<le> prio f"
    using deq_max [OF q(1,3)] by blast
  have p: "peek q = Some f" using peek_next [OF q(1,3)] d(1) by auto
  have f: "f \<in> ran (bag q)" using d(4) by (auto simp: ran_def)
  have nx: "bag q (key x) = None" by (rule not_held [OF q(1,2) S])
  then have fresh: "bag q' (key x) = None" using d(5) by simp
  note bag = enq_fresh(1) [OF d(2) fresh]
  have mem: "z \<in> ran (bag (enq q' x)) \<longleftrightarrow> z = x \<or> (z \<in> ran (bag q) \<and> z \<noteq> f)" for z
    unfolding ran_iff [OF enq_inv [OF d(2)]] ran_iff [OF q(1)]
    using d(4,5) nx by (auto simp: bag)
  have "inv (enq q' x) \<and> len (enq q' x) = len q \<and> ran (bag (enq q' x)) \<subseteq> insert x S \<and>
      (\<forall>y \<in> insert x S - ran (bag (enq q' x)). \<forall>z \<in> ran (bag (enq q' x)). prio z \<le> prio y)" if less: "prio x < prio f"
  proof (intro conjI ballI)
    show "ran (bag (enq q' x)) \<subseteq> insert x S" using mem q(2) by auto
    fix y z assume y: "y \<in> insert x S - ran (bag (enq q' x))" and z: "z \<in> ran (bag (enq q' x))"
    have z': "prio z \<le> prio f" using z mem d(6) less by auto
    from y mem have "y = f \<or> y \<in> S - ran (bag q)" by auto
    then show "prio z \<le> prio y"
      using z' rest f less mem [of z] z order.trans by blast
  qed (use enq_inv [OF d(2)] enq_fresh(3) [OF d(2) fresh] d(3) q(3) in auto)
  then show ?thesis using p d(1,6) by blast
qed

end

lemma Peek_Dequeue: "pq_Len q = Suc n \<Longrightarrow> \<exists>x q'. pq_Peek q = Some x \<and> Dequeue q = Inr (Some x, q')"
  by (auto simp: pq_Peek_def Peek_def Dequeue_def Pop_def pq_Len_def heap_Len_def Let_def split: option.split)

interpretation peeked: peeked_queue wf_pq pq_bag Key Priority pq_Len Enqueue Dequeue pq_Peek
  by unfold_locales (rule Peek_Dequeue)

section \<open>The queue keeps the k nearest\<close>

definition k_kept :: "nat \<Rightarrow> ('k, 't) Item set \<Rightarrow> ('k, 't) PriorityQueue \<Rightarrow> bool" where
  "k_kept k S q \<longleftrightarrow> wf_pq q \<and> ran (pq_bag q) \<subseteq> S \<and> pq_Len q = min k (card S) \<and>
     (\<forall>y \<in> S - ran (pq_bag q). \<forall>z \<in> ran (pq_bag q). Priority z \<le> Priority y)"

lemma pool_step_keeps:
  assumes q: "k_kept k S q" and S: "finite S" "Key x \<notin> Key ` S" and k: "0 < k"
  shows "k_kept k (insert x S) (pool_step k q x)"
proof -
  have w: "wf_pq q" "ran (pq_bag q) \<subseteq> S" "pq_Len q = min k (card S)"
    and rest: "\<forall>y \<in> S - ran (pq_bag q). \<forall>z \<in> ran (pq_bag q). Priority z \<le> Priority y"
    using q by (auto simp: k_kept_def)
  have card: "card (insert x S) = Suc (card S)" using S by (subst card_insert_disjoint) auto
  show ?thesis
  proof (cases "pq_Len q < k")
    case True
    then show ?thesis using peeked.keeps_room [OF w S True] card by (simp add: k_kept_def pool_step_def w(3))
  next
    case False
    then obtain n where n: "pq_Len q = Suc n" using k by (cases "pq_Len q") auto
    have full: "min k (card (insert x S)) = pq_Len q" using False w(3) card by auto
    from peeked.keeps_full [OF w(1,2) n S(2) rest] obtain f q' where f: "pq_Peek q = Some f" "Dequeue q = Inr (Some f, q')"
      "\<forall>z \<in> ran (pq_bag q). Priority z \<le> Priority f"
      "Priority x < Priority f \<Longrightarrow> wf_pq (Enqueue q' x) \<and> pq_Len (Enqueue q' x) = pq_Len q \<and>
        ran (pq_bag (Enqueue q' x)) \<subseteq> insert x S \<and>
        (\<forall>y \<in> insert x S - ran (pq_bag (Enqueue q' x)). \<forall>z \<in> ran (pq_bag (Enqueue q' x)). Priority z \<le> Priority y)"
      by blast
    show ?thesis
    proof (cases "Priority x < Priority f")
      case True
      then show ?thesis using False f(1,2) f(4) [OF True] full by (simp add: pool_step_def k_kept_def)
    next
      case False
      then have e: "pool_step k q x = q" using \<open>\<not> pq_Len q < k\<close> f(1) by (simp add: pool_step_def)
      have "\<forall>y \<in> insert x S - ran (pq_bag q). \<forall>z \<in> ran (pq_bag q). Priority z \<le> Priority y"
        using rest f(3) False by (auto simp: not_less intro: order.trans)
      then show ?thesis using w full by (auto simp: e k_kept_def)
    qed
  qed
qed

lemma pool_steps_keep:
  "k_kept k S q \<Longrightarrow> finite S \<Longrightarrow> 0 < k \<Longrightarrow> distinct (map Key its) \<Longrightarrow> Key ` set its \<inter> Key ` S = {} \<Longrightarrow>
   k_kept k (set its \<union> S) (foldl (pool_step k) q its)"
proof (induction its arbitrary: q S)
  case (Cons x its)
  have "k_kept k (insert x S) (pool_step k q x)" using Cons.prems by (intro pool_step_keeps) auto
  then have "k_kept k (set its \<union> insert x S) (foldl (pool_step k) (pool_step k q x) its)"
    using Cons.prems by (intro Cons.IH) auto
  then show ?case by simp
qed simp

lemma k_kept_new: "k_kept k {} (\<lparr>pq_h = NewHeapCap c [], pq_capacity = c\<rparr> :: ('k, 't) PriorityQueue)" (is "k_kept k {} ?q")
proof -
  have q: "wf_pq ?q" "pq_Len ?q = 0" by (simp_all add: NewHeapCap_def wf_empty wf_pq_def pq_Len_def heap_Len_def)
  then show ?thesis using pq.len_zero [OF q] by (simp add: k_kept_def)
qed

text \<open>The items \<open>k_nearest\<close> returns the values of.\<close>

lemma k_nearest_items:
  assumes d: "distinct (map Key its)" and k: "0 < k" and ne: "its \<noteq> []"
  obtains out where "k_nearest k its = map Value out" "distinct (map Key out)" "set out \<subseteq> set its"
    "length out = min k (length its)" "sorted_wrt (\<lambda>x y. Priority x \<le> Priority y) out"
    "\<forall>y \<in> set its - set out. \<forall>z \<in> set out. Priority z \<le> Priority y"
proof -
  let ?c = "min k (length its)"
  let ?start = "\<lparr>pq_h = NewHeapCap ?c [], pq_capacity = ?c\<rparr> :: ('a, 'b) PriorityQueue"
  let ?q = "foldl (pool_step k) ?start its"
  let ?out = "rev (dequeue_all Dequeue (pq_Len ?q) ?q)"
  have "NewPriorityQueue ?c [] = Inr ?start" using k ne by (simp add: NewPriorityQueue_def)
  then have e: "k_nearest k its = map Value ?out" by (simp only: k_nearest_def Let_def sum.case rev_map)
  have kept: "k_kept k (set its) ?q" using pool_steps_keep [OF k_kept_new [of k ?c] _ k d] by simp
  have card: "card (set its) = length its" using d by (metis distinct_card distinct_map)
  have drain: "set (rev ?out) = ran (pq_bag ?q)" "sorted_wrt (\<lambda>x y. Priority y \<le> Priority x) (rev ?out)"
    "distinct (map Key (rev ?out))" "length (rev ?out) = pq_Len ?q"
    using pq.drain [of ?q] kept by (auto simp: k_kept_def)
  show ?thesis
    by (rule that [OF e]) (use drain kept card in \<open>auto simp: k_kept_def sorted_wrt_rev simp flip: rev_map\<close>)
qed

section \<open>Each key enters the pool once, at its nearest copy\<close>

definition point_distance :: "vector \<Rightarrow> vector \<Rightarrow> real" where
  "point_distance v w = sqrt (sum_list (map2 (\<lambda>x y. (x - y)\<^sup>2) v w))"

lemma foldl_plus_map: "foldl (\<lambda>a x. a + f x) (a :: real) xs = a + sum_list (map f xs)"
  by (induction xs arbitrary: a) auto

lemma vector_Distance_point: "length v = length w \<Longrightarrow> vector_Distance v w = Inr (point_distance v w)"
  using foldl_plus_map [of "\<lambda>(x, y). (x - y) * (x - y)" 0 "zip v w"]
  by (simp add: vector_Distance_def point_distance_def power2_eq_square case_prod_unfold)

definition node_prio :: "('k, 'r) rp_env \<Rightarrow> vector \<Rightarrow> 'k VectorNode \<Rightarrow> 64 word" where
  "node_prio env p node = distancePriority env (point_distance p (vn_value node))"

definition pooled :: "('k, 'r) rp_env \<Rightarrow> vector \<Rightarrow> 'k VectorNode set \<Rightarrow> ('k, 'k VectorNode) Item \<Rightarrow> bool" where
  "pooled env p C item \<longleftrightarrow> Value item \<in> C \<and> Key item = vn_key (Value item) \<and> Priority item = node_prio env p (Value item) \<and>
     (\<forall>c \<in> C. vn_key c = Key item \<longrightarrow> Priority item \<le> node_prio env p c)"

definition pool_ok :: "('k, 'r) rp_env \<Rightarrow> vector \<Rightarrow> 'k VectorNode set \<Rightarrow> ('k, 'k VectorNode) Item list \<Rightarrow> ('k, nat) fmap \<Rightarrow> bool" where
  "pool_ok env p C its slots \<longleftrightarrow> distinct (map Key its) \<and> Key ` set its = vn_key ` C \<and> (\<forall>item \<in> set its. pooled env p C item) \<and>
     (\<forall>k i. fmlookup slots k = Some i \<longleftrightarrow> i < length its \<and> Key (its ! i) = k)"

lemma pooled_insert:
  "pooled env p C item \<Longrightarrow> (vn_key c = Key item \<Longrightarrow> Priority item \<le> node_prio env p c) \<Longrightarrow> pooled env p (insert c C) item"
  by (auto simp: pooled_def)

lemma pool_new:
  assumes ok: "pool_ok env p C its slots" and new: "fmlookup slots (vn_key node) = None"
    and item: "item = \<lparr>Key = vn_key node, Value = node, Priority = node_prio env p node\<rparr>"
  shows "pool_ok env p (insert node C) (its @ [item]) (fmupd (vn_key node) (length its) slots)"
proof -
  have fresh: "vn_key node \<notin> Key ` set its" 
  proof
    assume "vn_key node \<in> Key ` set its"
    then obtain j where "j < length its" "Key (its ! j) = vn_key node" by (auto simp: in_set_conv_nth)
    with ok have "fmlookup slots (vn_key node) = Some j" by (simp add: pool_ok_def)
    with new show False by simp
  qed
  then have other: "\<forall>c \<in> C. vn_key c \<noteq> vn_key node" using ok by (metis imageI pool_ok_def)
  have a: "pooled env p (insert node C) item" using other by (auto simp: item pooled_def)
  have b: "\<forall>x \<in> set its. pooled env p (insert node C) x"
    using ok fresh by (auto simp: pool_ok_def intro!: pooled_insert)
  have keys: "distinct (map Key (its @ [item]))" "Key ` set (its @ [item]) = vn_key ` insert node C"
    using ok fresh by (simp_all add: pool_ok_def item)
  have "fmlookup (fmupd (vn_key node) (length its) slots) k = Some i \<longleftrightarrow> i < length (its @ [item]) \<and> Key ((its @ [item]) ! i) = k" for k i
  proof (cases "i < length its")
    case True
    then have "Key (its ! i) \<noteq> vn_key node" using fresh by (metis imageI nth_mem)
    then show ?thesis using True ok by (auto simp: pool_ok_def nth_append)
  next
    case False
    then have "fmlookup slots k \<noteq> Some i" using ok by (simp add: pool_ok_def)
    then show ?thesis using False by (auto simp: nth_append item less_Suc_eq)
  qed
  then show ?thesis using a b keys unfolding pool_ok_def by simp
qed

lemma pool_again:
  assumes ok: "pool_ok env p C its slots" and old: "fmlookup slots (vn_key node) = Some i"
    and item: "item = \<lparr>Key = vn_key node, Value = node, Priority = node_prio env p node\<rparr>"
  shows "pool_ok env p (insert node C) (if Priority item < Priority (its ! i) then its[i := item] else its) slots"
proof -
  have i: "i < length its" "Key (its ! i) = vn_key node" using ok old by (auto simp: pool_ok_def)
  have d: "distinct (map Key its)" using ok by (simp add: pool_ok_def)
  have at: "x = its ! i" if "x \<in> set its" "Key x = vn_key node" for x
    using that i d by (metis distinct_map inj_on_eq_iff nth_mem)
  have pooled_i: "pooled env p C (its ! i)" using ok i by (auto simp: pool_ok_def)
  have keys: "Key ` set its = vn_key ` insert node C"
    using ok i by (auto simp: pool_ok_def) (metis imageI nth_mem)
  show ?thesis
  proof (cases "Priority item < Priority (its ! i)")
    case True
    have m: "map Key (its[i := item]) = map Key its"
      using i by (simp add: map_update item) (metis length_map list_update_id nth_map)
    have "pooled env p (insert node C) item"
      using pooled_i True i by (auto simp: pooled_def item intro: order.trans less_imp_le)
    moreover have "pooled env p (insert node C) x" if "x \<in> set its" "x \<noteq> its ! i" for x
      using that ok at [of x] by (intro pooled_insert) (auto simp: pool_ok_def)
    moreover have "x = item \<or> x \<in> set its \<and> x \<noteq> its ! i" if x: "x \<in> set (its[i := item])" for x
    proof -
      obtain j where "j < length (its[i := item])" "its[i := item] ! j = x"
        using x unfolding in_set_conv_nth by blast
      then have j: "j < length its" "x = its[i := item] ! j" by simp_all
      show ?thesis
      proof (cases "j = i")
        case False
        then have "x = its ! j" using j by simp
        moreover have "its ! j \<noteq> its ! i" using d False i(1) j(1) by (metis distinct_map nth_eq_iff_index_eq)
        ultimately show ?thesis using j by simp
      qed (use j in simp)
    qed
    ultimately have "\<forall>x \<in> set (its[i := item]). pooled env p (insert node C) x" by blast
    moreover have "Key (its[i := item] ! j) = Key (its ! j)" if "j < length its" for j
      using m that by (metis length_list_update nth_map)
    moreover have "Key ` set (its[i := item]) = Key ` set its" using m by (metis set_map)
    ultimately show ?thesis using True ok m keys d by (auto simp: pool_ok_def)
  next
    case False
    have "pooled env p (insert node C) x" if "x \<in> set its" for x
      using that ok at [of x] False by (intro pooled_insert) (auto simp: pool_ok_def item not_less)
    then show ?thesis using False ok keys by (simp add: pool_ok_def)
  qed
qed

lemma pool_spec:
  "pool_ok env p C its slots \<Longrightarrow> \<forall>node \<in> set nodes. length (vn_value node) = length p \<Longrightarrow>
   \<exists>its'. pool env p nodes its slots = Inr its' \<and> (\<exists>slots'. pool_ok env p (set nodes \<union> C) its' slots')"
proof (induction nodes arbitrary: C its slots)
  case (Cons node nodes)
  have e: "vector_Distance p (vn_value node) = Inr (point_distance p (vn_value node))"
    using Cons.prems(2) by (simp add: vector_Distance_point)
  let ?item = "\<lparr>Key = vn_key node, Value = node, Priority = node_prio env p node\<rparr>"
  show ?case
  proof (cases "fmlookup slots (vn_key node)")
    case None
    from Cons.IH [OF pool_new [OF Cons.prems(1) None refl]] Cons.prems(2)
    show ?thesis by (simp add: e Let_def None flip: node_prio_def)
  next
    case (Some i)
    from Cons.IH [OF pool_again [OF Cons.prems(1) Some refl]] Cons.prems(2)
    show ?thesis by (simp add: e Let_def Some flip: node_prio_def)
  qed
qed auto

section \<open>Nearest\<close>

text \<open>\<open>out\<close> is the \<open>k\<close> nearest keys of \<open>C\<close>, each at its nearest copy, nearest first.\<close>

definition nearest_of :: "('k, 'r) rp_env \<Rightarrow> vector \<Rightarrow> nat \<Rightarrow> 'k VectorNode set \<Rightarrow> 'k VectorNode list \<Rightarrow> bool" where
  "nearest_of env p k C out \<longleftrightarrow> set out \<subseteq> C \<and> distinct (map vn_key out) \<and> length out = min k (card (vn_key ` C)) \<and>
     sorted_wrt (\<lambda>x y. node_prio env p x \<le> node_prio env p y) out \<and>
     (\<forall>c \<in> C. \<forall>z \<in> set out. vn_key c = vn_key z \<or> vn_key c \<notin> vn_key ` set out \<longrightarrow> node_prio env p z \<le> node_prio env p c)"

lemma nearest_of_items:
  assumes ok: "pool_ok env p C its slots" and k: "0 < k" and ne: "its \<noteq> []"
  shows "nearest_of env p k C (k_nearest k its)"
proof -
  have d: "distinct (map Key its)" and keys: "Key ` set its = vn_key ` C"
    and items: "\<And>x. x \<in> set its \<Longrightarrow> Value x \<in> C \<and> Key x = vn_key (Value x) \<and> Priority x = node_prio env p (Value x)"
    and near: "\<And>x c. x \<in> set its \<Longrightarrow> c \<in> C \<Longrightarrow> vn_key c = Key x \<Longrightarrow> Priority x \<le> node_prio env p c"
    using ok by (auto simp: pool_ok_def pooled_def)
  obtain out where out: "k_nearest k its = map Value out" "distinct (map Key out)" "set out \<subseteq> set its"
    "length out = min k (length its)" "sorted_wrt (\<lambda>x y. Priority x \<le> Priority y) out"
    "\<forall>y \<in> set its - set out. \<forall>z \<in> set out. Priority z \<le> Priority y"
    using k_nearest_items [OF d k ne] .
  have o: "Value x \<in> C" "vn_key (Value x) = Key x" "node_prio env p (Value x) = Priority x" if "x \<in> set out" for x
    using items that out(3) by (auto simp: subset_iff)
  have mk: "map vn_key (map Value out) = map Key out" using o(2) by simp
  have "length its = card (vn_key ` C)" using d keys by (metis distinct_card length_map list.set_map)
  moreover have "sorted_wrt (\<lambda>x y. node_prio env p x \<le> node_prio env p y) (map Value out)"
    using out(5) unfolding sorted_wrt_map by (rule sorted_wrt_mono_rel [rotated]) (simp add: o(3))
  moreover have "node_prio env p (Value z) \<le> node_prio env p c"
    if c: "c \<in> C" and z: "z \<in> set out" and or: "vn_key c = Key z \<or> vn_key c \<notin> Key ` set out" for c z
  proof (cases "vn_key c = Key z")
    case True
    then show ?thesis using near [of z c] out(3) c z o(3) [OF z] by auto
  next
    case False
    obtain y where y: "y \<in> set its" "Key y = vn_key c" using keys c by (metis (no_types, lifting) imageE imageI)
    have "y \<notin> set out" using y(2) or False by (metis imageI)
    then have "Priority z \<le> Priority y" using out(6) y(1) z by blast
    also have "Priority y \<le> node_prio env p c" using near [OF y(1) c] y(2) by simp
    finally show ?thesis using o(3) [OF z] by simp
  qed
  moreover have "vn_key ` set (map Value out) = Key ` set out" using mk by (metis list.set_map)
  ultimately show ?thesis
    using out(2,4) o mk unfolding nearest_of_def out(1) by (auto simp: o(2) simp del: map_map)
qed

lemma Nearest_spec:
  assumes ok: "rp_ok t" and fits: "vector_Dim p = rp_dim t" and k: "0 < k"
  shows "\<exists>out. rp_Nearest env t p k keep = Inr out \<and>
    nearest_of env p (nat k) (set (rp_candidates t p (nat k * rp_overfetch t) keep)) out"
proof -
  let ?cs = "rp_candidates t p (nat k * rp_overfetch t) keep"
  have sub: "set ?cs \<subseteq> set (rp_nodes t)"
    using set_mset_mono [OF candidates_accepted(1) [of t p "nat k * rp_overfetch t" keep]] by auto
  show ?thesis
  proof (cases "?cs = []")
    case True
    then have "rp_Nearest env t p k keep = Inr []"
      using fits by (auto simp: rp_Nearest_def rp_candidates_def Let_def split: prod.splits)
    then show ?thesis using True by (simp add: nearest_of_def)
  next
    case False
    then have "rp_length t \<noteq> 0" using sub ok by (auto simp: rp_ok_def)
    then have e: "rp_Nearest env t p k keep = (case pool env p ?cs [] fmempty of Inl e \<Rightarrow> Inl e | Inr its \<Rightarrow> Inr (k_nearest (nat k) its))"
      using fits k False by (auto simp: rp_Nearest_def rp_candidates_def Let_def split: prod.splits)
    have "pool_ok env p {} [] fmempty" by (simp add: pool_ok_def)
    moreover have "\<forall>node \<in> set ?cs. length (vn_value node) = length p"
      using sub ok fits by (auto simp: rp_ok_def vector_Dim_def)
    ultimately obtain its slots where its: "pool env p ?cs [] fmempty = Inr its" "pool_ok env p (set ?cs) its slots"
      using pool_spec [of env p "{}" "[]" fmempty ?cs] by auto
    then have "its \<noteq> []" using False by (auto simp: pool_ok_def)
    then show ?thesis using nearest_of_items [OF its(2), of "nat k"] k by (simp add: e its(1))
  qed
qed

end
