(* ===== verification/Index_Vectors.thy ===== *)
theory Index_Vectors
  imports Trees_RPTree_Nearest Containers_TopK Graph_Store Query_Core
begin

text \<open>
  The vector index of \<open>internal/index/rptree.go\<close>: the live vectors, a map, and a forest of random-projection trees that
  also hold the stale copies of replaced and deleted vectors until the next \<open>Flush\<close>. An error of the index or of a
  tree is a \<open>vector_error\<close>. The order in which Go ranges over a map is the argument \<open>order\<close>, any enumeration of the
  keys; Flush sorts it by key. The number of trees is not negative (\<open>make\<close> panics), and counts do not overflow.
\<close>

datatype vector_error = IndexErr index_error | TreeErr tree_error

record ('k, 'r) RPTreeIndex =
  vi_forest :: "('k, 'r) RPTree list"
  vi_vectors :: "('k, vector) fmap"
  vi_dim :: int
  vi_projDim :: int
  vi_numTrees :: nat
  vi_seed :: "64 word"
  vi_flushFactor :: int
  vi_leafSize :: int
  vi_overfetch :: int
  vi_compare :: "'k comparator"

type_synonym 'k range_order = "'k fset \<Rightarrow> 'k list"

definition default_if :: "int \<Rightarrow> int \<Rightarrow> int" where
  "default_if d n = (if n \<le> 0 then d else n)"

definition newForest :: "('k, 'r) rp_env \<Rightarrow> ('k, 'r) RPTreeIndex \<Rightarrow> ('k, 'r) RPTree list" where
  "newForest env idx =
     map (\<lambda>i. NewRPTree env (nat (vi_dim idx)) (vi_projDim idx) (vi_seed idx + of_nat i) (vi_leafSize idx) (vi_overfetch idx))
       [0..<vi_numTrees idx]"

definition NewRPTreeIndex :: "('k, 'r) rp_env \<Rightarrow> int \<Rightarrow> int \<Rightarrow> nat \<Rightarrow> 64 word \<Rightarrow> int \<Rightarrow> int \<Rightarrow> int \<Rightarrow> 'k comparator \<Rightarrow> ('k, 'r) RPTreeIndex" where
  "NewRPTreeIndex env width projDim numTrees seed flushFactor leafSize overfetch compare =
     (let idx = \<lparr>vi_forest = [], vi_vectors = fmempty, vi_dim = width, vi_projDim = projDim, vi_numTrees = numTrees, vi_seed = seed,
            vi_flushFactor = default_if 2 flushFactor, vi_leafSize = default_if 32 leafSize, vi_overfetch = default_if 32 overfetch,
            vi_compare = compare\<rparr>
      in if width > 0 then idx\<lparr>vi_forest := newForest env idx\<rparr> else idx)"

section \<open>Reading\<close>

definition vec_Retrieve :: "('k, 'r) RPTreeIndex \<Rightarrow> 'k \<Rightarrow> index_error + vector" where
  "vec_Retrieve idx key = (case fmlookup (vi_vectors idx) key of Some v \<Rightarrow> Inr v | None \<Rightarrow> Inl ErrIndexNotFound)"

definition vec_Count :: "('k, 'r) RPTreeIndex \<Rightarrow> nat" where
  "vec_Count idx = fcard (fmdom (vi_vectors idx))"

definition rp_Len :: "('k, 'r) RPTree \<Rightarrow> nat" where
  "rp_Len t = rp_length t"

definition vec_Entries :: "('k, 'r) RPTreeIndex \<Rightarrow> nat" where
  "vec_Entries idx = (if length (vi_forest idx) = 0 then 0 else rp_Len (vi_forest idx ! 0))"

section \<open>Writing\<close>

text \<open>Adding a node to the trees in turn, until one refuses it.\<close>

fun plant :: "('k, 'r) rp_env \<Rightarrow> 'k VectorNode \<Rightarrow> ('k, 'r) RPTree list \<Rightarrow> tree_error option \<times> ('k, 'r) RPTree list" where
  "plant env node [] = (None, [])"
| "plant env node (t # ts) =
     (case rp_Insert env t node of
        (Some e, t') \<Rightarrow> (Some e, t' # ts)
      | (None, t') \<Rightarrow> (let (e, ts') = plant env node ts in (e, t' # ts')))"

text \<open>The live set replayed into a forest, in the order given.\<close>

fun replay :: "('k, 'r) rp_env \<Rightarrow> ('k, vector) fmap \<Rightarrow> 'k list \<Rightarrow> ('k, 'r) RPTree list \<Rightarrow> tree_error option \<times> ('k, 'r) RPTree list" where
  "replay env vectors [] forest = (None, forest)"
| "replay env vectors (key # keys) forest =
     (case plant env \<lparr>vn_key = key, vn_value = the (fmlookup vectors key)\<rparr> forest of
        (Some e, forest') \<Rightarrow> (Some e, forest')
      | (None, forest') \<Rightarrow> replay env vectors keys forest')"

definition vec_Flush :: "('k, 'r) rp_env \<Rightarrow> 'k range_order \<Rightarrow> ('k, 'r) RPTreeIndex \<Rightarrow> vector_error option \<times> ('k, 'r) RPTreeIndex" where
  "vec_Flush env order idx =
     (let keys = sort_by (\<lambda>a b. \<not> vi_compare idx b a < 0) (order (fmdom (vi_vectors idx)))
      in case replay env (vi_vectors idx) keys (newForest env idx) of
           (Some e, forest) \<Rightarrow> (Some (TreeErr e), idx)
         | (None, forest) \<Rightarrow> (None, idx\<lparr>vi_forest := forest\<rparr>))"

definition vec_maybeFlush :: "('k, 'r) rp_env \<Rightarrow> 'k range_order \<Rightarrow> ('k, 'r) RPTreeIndex \<Rightarrow> vector_error option \<times> ('k, 'r) RPTreeIndex" where
  "vec_maybeFlush env order idx =
     (if length (vi_forest idx) = 0 then (None, idx)
      else if int (rp_Len (vi_forest idx ! 0)) \<le> vi_flushFactor idx * int (vec_Count idx) then (None, idx)
      else vec_Flush env order idx)"

definition establish :: "('k, 'r) rp_env \<Rightarrow> vector \<Rightarrow> ('k, 'r) RPTreeIndex \<Rightarrow> ('k, 'r) RPTreeIndex" where
  "establish env v idx =
     (if vi_dim idx = 0 then (let idx1 = idx\<lparr>vi_dim := int (vector_Dim v)\<rparr> in idx1\<lparr>vi_forest := newForest env idx1\<rparr>) else idx)"

definition vec_Insert :: "('k, 'r) rp_env \<Rightarrow> 'k range_order \<Rightarrow> ('k, 'r) RPTreeIndex \<Rightarrow> 'k \<Rightarrow> vector \<Rightarrow>
    vector_error option \<times> ('k, 'r) RPTreeIndex" where
  "vec_Insert env order idx key v =
     (if vector_Dim v = 0 then (Some (IndexErr ErrInvalidDimension), idx)
      else
        let idx1 = establish env v idx
        in if int (vector_Dim v) \<noteq> vi_dim idx1 then (Some (IndexErr ErrInvalidDimension), idx1)
           else if (case vec_Retrieve idx1 key of Inr existing \<Rightarrow> vector_Equal existing v | Inl _ \<Rightarrow> False) then (None, idx1)
           else
             let idx2 = idx1\<lparr>vi_vectors := fmupd key v (vi_vectors idx1)\<rparr>
             in case plant env \<lparr>vn_key = key, vn_value = v\<rparr> (vi_forest idx2) of
                  (Some e, forest) \<Rightarrow> (Some (TreeErr e), idx2\<lparr>vi_forest := forest\<rparr>)
                | (None, forest) \<Rightarrow> vec_maybeFlush env order (idx2\<lparr>vi_forest := forest\<rparr>))"

definition vec_Update :: "('k, 'r) rp_env \<Rightarrow> 'k range_order \<Rightarrow> ('k, 'r) RPTreeIndex \<Rightarrow> 'k \<Rightarrow> vector \<Rightarrow>
    vector_error option \<times> ('k, 'r) RPTreeIndex" where
  "vec_Update env order idx key v =
     (case vec_Retrieve idx key of Inl e \<Rightarrow> (Some (IndexErr e), idx) | Inr _ \<Rightarrow> vec_Insert env order idx key v)"

definition vec_Delete :: "('k, 'r) rp_env \<Rightarrow> 'k range_order \<Rightarrow> ('k, 'r) RPTreeIndex \<Rightarrow> 'k \<Rightarrow> vector_error option \<times> ('k, 'r) RPTreeIndex" where
  "vec_Delete env order idx key =
     (case vec_Retrieve idx key of
        Inl e \<Rightarrow> (Some (IndexErr e), idx)
      | Inr _ \<Rightarrow> vec_maybeFlush env order (idx\<lparr>vi_vectors := fmdrop key (vi_vectors idx)\<rparr>))"

section \<open>Search\<close>

text \<open>Every live vector the keep accepts, offered at its distance from the query.\<close>

fun read_every :: "('k, vector) fmap \<Rightarrow> vector \<Rightarrow> ('k \<Rightarrow> bool) option \<Rightarrow> 'k list \<Rightarrow> ('k, real) TopK \<Rightarrow> tree_error + ('k, real) TopK" where
  "read_every vectors query keep [] every = Inr every"
| "read_every vectors query keep (key # keys) every =
     (if keep \<noteq> None \<and> \<not> the keep key then read_every vectors query keep keys every
      else (case vector_Distance query (the (fmlookup vectors key)) of
              Inl e \<Rightarrow> Inl e
            | Inr d \<Rightarrow> read_every vectors query keep keys (Offer every key (- d))))"

text \<open>The nodes of one tree's answer: a key counts once, at its live vector, and not at all when it has none.\<close>

fun read_nodes :: "('k, vector) fmap \<Rightarrow> vector \<Rightarrow> 'k VectorNode list \<Rightarrow> 'k set \<times> ('k, real) TopK \<Rightarrow> tree_error + 'k set \<times> ('k, real) TopK" where
  "read_nodes vectors query [] acc = Inr acc"
| "read_nodes vectors query (node # nodes) (seen, nearest) =
     (if vn_key node \<in> seen then read_nodes vectors query nodes (seen, nearest)
      else (case fmlookup vectors (vn_key node) of
              None \<Rightarrow> read_nodes vectors query nodes (insert (vn_key node) seen, nearest)
            | Some current \<Rightarrow>
                (case vector_Distance query current of
                   Inl e \<Rightarrow> Inl e
                 | Inr d \<Rightarrow> read_nodes vectors query nodes (insert (vn_key node) seen, Offer nearest (vn_key node) (- d)))))"

fun read_forest :: "('k, 'r) rp_env \<Rightarrow> ('k, vector) fmap \<Rightarrow> vector \<Rightarrow> int \<Rightarrow> ('k \<Rightarrow> bool) option \<Rightarrow> ('k, 'r) RPTree list \<Rightarrow>
    'k set \<times> ('k, real) TopK \<Rightarrow> tree_error + 'k set \<times> ('k, real) TopK" where
  "read_forest env vectors query k keep [] acc = Inr acc"
| "read_forest env vectors query k keep (t # ts) acc =
     (case rp_Nearest env t query k keep of
        Inl e \<Rightarrow> Inl e
      | Inr nodes \<Rightarrow>
          (case read_nodes vectors query nodes acc of Inl e \<Rightarrow> Inl e | Inr acc' \<Rightarrow> read_forest env vectors query k keep ts acc'))"

definition drain_distances :: "('k, real) TopK \<Rightarrow> 'k list \<times> real list" where
  "drain_distances t = (let ((out, scores), _) = Drain t in (out, map uminus scores))"

definition vec_read :: "('k, 'r) rp_env \<Rightarrow> 'k range_order \<Rightarrow> ('k, 'r) RPTreeIndex \<Rightarrow> vector \<Rightarrow> int \<Rightarrow> ('k \<Rightarrow> bool) option \<Rightarrow>
    tree_error + 'k list \<times> real list" where
  "vec_read env order idx query k keep =
     (if k \<le> 0
      then (case read_every (vi_vectors idx) query keep (order (fmdom (vi_vectors idx))) (NewTopK 0 (vi_compare idx)) of
              Inl e \<Rightarrow> Inl e | Inr every \<Rightarrow> Inr (drain_distances every))
      else (case read_forest env (vi_vectors idx) query k keep (vi_forest idx) ({}, NewTopK k (vi_compare idx)) of
              Inl e \<Rightarrow> Inl e | Inr (seen, nearest) \<Rightarrow> Inr (drain_distances nearest)))"

fun read_keeps :: "(('k \<Rightarrow> bool) option \<Rightarrow> tree_error + 'k list \<times> real list) \<Rightarrow> ('k \<Rightarrow> bool) option list \<Rightarrow>
    vector_error + 'k list list \<times> real list list" where
  "read_keeps rd [] = Inr ([], [])"
| "read_keeps rd (keep # keeps) =
     (case rd keep of
        Inl e \<Rightarrow> Inl (TreeErr e)
      | Inr (keys, distances) \<Rightarrow>
          (case read_keeps rd keeps of Inl e \<Rightarrow> Inl e | Inr (kss, dss) \<Rightarrow> Inr (keys # kss, distances # dss)))"

definition vec_Search :: "('k, 'r) rp_env \<Rightarrow> 'k range_order \<Rightarrow> ('k, 'r) RPTreeIndex \<Rightarrow> vector \<Rightarrow> int \<Rightarrow> ('k \<Rightarrow> bool) option list \<Rightarrow>
    vector_error + 'k list list \<times> real list list" where
  "vec_Search env order idx query k keeps =
     (if vec_Count idx = 0 then Inl (IndexErr ErrEmptyIndex)
      else if int (vector_Dim query) \<noteq> vi_dim idx then Inl (IndexErr ErrInvalidDimension)
      else read_keeps (vec_read env order idx query k) (if keeps = [] then [None] else keeps))"

end
