(* ===== verification/Index_Vectors_Correct.thy ===== *)
theory Index_Vectors_Correct
  imports Index_Vectors
begin

text \<open>
  The vector index is a map of vectors of one dimension: its operations answer and change as those of the map do,
  whatever the random draws, every live vector is in every tree, and the trees stay within \<open>flushFactor\<close> entries per live vector.
\<close>

section \<open>The forest\<close>

definition fair_order :: "'k range_order \<Rightarrow> bool" where
  "fair_order order \<longleftrightarrow> (\<forall>S. distinct (order S) \<and> set (order S) = fset S)"

definition grown_by :: "'k VectorNode multiset \<Rightarrow> ('k, 'r) RPTree list \<Rightarrow> ('k, 'r) RPTree list \<Rightarrow> bool" where
  "grown_by N ts ts' \<longleftrightarrow>
     list_all2 (\<lambda>t t'. rp_ok t' \<and> rp_dim t' = rp_dim t \<and> mset (rp_nodes t') = N + mset (rp_nodes t)) ts ts'"

lemma plant_grows:
  assumes fair: "fair_env env"
  shows "\<forall>t \<in> set ts. rp_ok t \<and> rp_dim t = vector_Dim (vn_value node) \<Longrightarrow>
    \<exists>ts'. plant env node ts = (None, ts') \<and> grown_by {#node#} ts ts'"
proof (induction ts)
  case (Cons t ts)
  then obtain ts' where IH: "plant env node ts = (None, ts')" "grown_by {#node#} ts ts'" by auto
  obtain t' where t': "rp_Insert env t node = (None, t')" "rp_ok t'" "rp_dim t' = rp_dim t"
    "mset (rp_nodes t') = add_mset node (mset (rp_nodes t))"
    using Insert_ok [OF fair, of t node] Cons.prems by auto
  then show ?case using IH by (simp add: grown_by_def)
qed (simp add: grown_by_def)

lemma grown_trees:
  assumes "grown_by N ts ts'" "t' \<in> set ts'"
  shows "\<exists>t \<in> set ts. rp_ok t' \<and> rp_dim t' = rp_dim t \<and> mset (rp_nodes t') = N + mset (rp_nodes t)"
proof -
  obtain i where i: "i < length ts'" "t' = ts' ! i" using assms(2) by (auto simp: in_set_conv_nth)
  then have "ts ! i \<in> set ts" using assms(1) by (simp add: grown_by_def list_all2_conv_all_nth)
  then show ?thesis using assms(1) i by (intro bexI [of _ "ts ! i"]) (auto simp: grown_by_def list_all2_conv_all_nth)
qed

lemma grown_trans: "grown_by N ts ts' \<Longrightarrow> grown_by M ts' ts'' \<Longrightarrow> grown_by (M + N) ts ts''"
  unfolding grown_by_def by (erule list_all2_trans [rotated], assumption) (simp add: ac_simps)

abbreviation live_node :: "('k, vector) fmap \<Rightarrow> 'k \<Rightarrow> 'k VectorNode" where
  "live_node vectors key \<equiv> \<lparr>vn_key = key, vn_value = the (fmlookup vectors key)\<rparr>"

lemma replay_grows:
  assumes fair: "fair_env env"
  shows "\<forall>t \<in> set ts. rp_ok t \<and> rp_dim t = width \<Longrightarrow> \<forall>key \<in> set keys. vector_Dim (the (fmlookup vectors key)) = width \<Longrightarrow>
    \<exists>ts'. replay env vectors keys ts = (None, ts') \<and> (\<forall>t \<in> set ts'. rp_ok t \<and> rp_dim t = width) \<and>
      grown_by (mset (map (live_node vectors) keys)) ts ts'"
proof (induction keys arbitrary: ts)
  case Nil
  then show ?case by (simp add: grown_by_def list_all2_same)
next
  case (Cons key keys)
  obtain ts1 where p: "plant env (live_node vectors key) ts = (None, ts1)" "grown_by {#live_node vectors key#} ts ts1"
    using plant_grows [OF fair, of ts "live_node vectors key"] Cons.prems by auto
  have "\<forall>t \<in> set ts1. rp_ok t \<and> rp_dim t = width" using grown_trees [OF p(2)] Cons.prems(1) by metis
  from Cons.IH [OF this] Cons.prems(2) obtain ts2 where q: "replay env vectors keys ts1 = (None, ts2)"
    "\<forall>t \<in> set ts2. rp_ok t \<and> rp_dim t = width" "grown_by (mset (map (live_node vectors) keys)) ts1 ts2" by auto
  show ?case using p(1) q grown_trans [OF p(2) q(3)] by auto
qed

section \<open>The invariant\<close>

text \<open>The forest holds the live vectors; all trees hold the same nodes.\<close>

definition forest_ok :: "('k, 'r) RPTreeIndex \<Rightarrow> bool" where
  "forest_ok idx \<longleftrightarrow> 0 \<le> vi_dim idx \<and> 0 < vi_flushFactor idx \<and>
     (vi_dim idx = 0 \<longrightarrow> vi_vectors idx = fmempty) \<and>
     (vi_dim idx \<noteq> 0 \<longrightarrow> length (vi_forest idx) = vi_numTrees idx) \<and>
     (\<forall>k v. fmlookup (vi_vectors idx) k = Some v \<longrightarrow> int (length v) = vi_dim idx) \<and>
     (\<forall>t \<in> set (vi_forest idx). rp_ok t \<and> int (rp_dim t) = vi_dim idx \<and>
        mset (rp_nodes t) = mset (rp_nodes (vi_forest idx ! 0)) \<and>
        (\<forall>k v. fmlookup (vi_vectors idx) k = Some v \<longrightarrow> \<lparr>vn_key = k, vn_value = v\<rparr> \<in> set (rp_nodes t)))"

definition vi_ok :: "('k, 'r) RPTreeIndex \<Rightarrow> bool" where
  "vi_ok idx \<longleftrightarrow> forest_ok idx \<and> int (vec_Entries idx) \<le> vi_flushFactor idx * int (vec_Count idx)"

lemma forest_okI:
  assumes "0 \<le> vi_dim idx" "0 < vi_flushFactor idx" "vi_dim idx = 0 \<longrightarrow> vi_vectors idx = fmempty"
    and l: "vi_dim idx \<noteq> 0 \<longrightarrow> length (vi_forest idx) = vi_numTrees idx"
    and v: "\<And>k v. fmlookup (vi_vectors idx) k = Some v \<Longrightarrow> int (length v) = vi_dim idx"
    and t: "\<And>t. t \<in> set (vi_forest idx) \<Longrightarrow> rp_ok t \<and> int (rp_dim t) = vi_dim idx \<and> mset (rp_nodes t) = N"
    and h: "\<And>t k v. t \<in> set (vi_forest idx) \<Longrightarrow> fmlookup (vi_vectors idx) k = Some v \<Longrightarrow> \<lparr>vn_key = k, vn_value = v\<rparr> \<in> set (rp_nodes t)"
  shows "forest_ok idx"
proof -
  have "mset (rp_nodes (vi_forest idx ! 0)) = N" if "t \<in> set (vi_forest idx)" for t
    using that t [of "vi_forest idx ! 0"] by (cases "vi_forest idx") auto
  then show ?thesis using assms unfolding forest_ok_def by simp
qed

lemma newForest_trees:
  "t \<in> set (newForest env idx) \<Longrightarrow> rp_ok t \<and> rp_dim t = nat (vi_dim idx) \<and> rp_nodes t = []"
  by (auto simp: newForest_def NewRPTree_ok)

lemma length_newForest [simp]: "length (newForest env idx) = vi_numTrees idx"
  by (simp add: newForest_def)

lemma Entries_nodes: "forest_ok idx \<Longrightarrow> vi_forest idx \<noteq> [] \<Longrightarrow> vec_Entries idx = length (rp_nodes (vi_forest idx ! 0))"
  unfolding vec_Entries_def rp_Len_def using nth_mem [of 0 "vi_forest idx"] by (auto simp: forest_ok_def rp_ok_def)

lemma sort_by_set: "set (sort_by f xs) = set xs" "length (sort_by f xs) = length xs"
  by (metis mset_sort_by set_mset_mset) (metis mset_sort_by size_mset)

lemma vec_Flush_ok:
  assumes fair: "fair_env env" "fair_order order" and ok: "forest_ok idx"
  obtains forest where "vec_Flush env order idx = (None, idx\<lparr>vi_forest := forest\<rparr>)" "vi_ok (idx\<lparr>vi_forest := forest\<rparr>)"
    "\<forall>t \<in> set forest. length (rp_nodes t) = vec_Count idx"
proof -
  let ?V = "vi_vectors idx"
  let ?keys = "sort_by (\<lambda>a b. \<not> vi_compare idx b a < 0) (order (fmdom ?V))"
  have dom: "set ?keys = fset (fmdom ?V)" using fair(2) by (simp add: sort_by_set fair_order_def)
  have d: "distinct (order (fmdom ?V))" "set (order (fmdom ?V)) = fset (fmdom ?V)" using fair(2) by (auto simp: fair_order_def)
  have len: "length ?keys = vec_Count idx"
    using distinct_card [OF d(1)] by (simp add: sort_by_set d(2) vec_Count_def fcard.rep_eq)
  have live: "fmlookup ?V k = Some (the (fmlookup ?V k))" if "k \<in> set ?keys" for k
    using that unfolding dom by (auto simp: fmlookup_dom_iff)
  have dims: "\<forall>k \<in> set ?keys. vector_Dim (the (fmlookup ?V k)) = nat (vi_dim idx)"
    using ok live unfolding forest_ok_def vector_Dim_def by (metis nat_int)
  have "\<forall>t \<in> set (newForest env idx). rp_ok t \<and> rp_dim t = nat (vi_dim idx)" using newForest_trees by blast
  from replay_grows [OF fair(1) this dims]
  obtain forest where f: "replay env ?V ?keys (newForest env idx) = (None, forest)"
    "\<forall>t \<in> set forest. rp_ok t \<and> rp_dim t = nat (vi_dim idx)" "grown_by (mset (map (live_node ?V) ?keys)) (newForest env idx) forest"
    by blast
  have nodes: "mset (rp_nodes t) = mset (map (live_node ?V) ?keys)" if "t \<in> set forest" for t
    using grown_trees [OF f(3) that] newForest_trees by fastforce
  have size: "length (rp_nodes t) = vec_Count idx" if "t \<in> set forest" for t
    using mset_eq_length [OF nodes [OF that]] len by simp
  have held: "\<lparr>vn_key = k, vn_value = v\<rparr> \<in> set (rp_nodes t)" if "t \<in> set forest" "fmlookup ?V k = Some v" for t k v
  proof -
    have "k \<in> set ?keys" using that(2) unfolding dom by (simp add: fmdomI)
    then have "live_node ?V k \<in> set (rp_nodes t)" unfolding mset_eq_setD [OF nodes [OF that(1)]] by simp
    then show ?thesis using that(2) by simp
  qed
  have l: "length forest = vi_numTrees idx" using list_all2_lengthD [OF f(3) [unfolded grown_by_def]] by simp
  let ?i = "idx\<lparr>vi_forest := forest\<rparr>"
  have "forest_ok ?i"
  proof (rule forest_okI [of ?i "mset (map (live_node ?V) ?keys)"])
    show "rp_ok t \<and> int (rp_dim t) = vi_dim ?i \<and> mset (rp_nodes t) = mset (map (live_node ?V) ?keys)" if "t \<in> set (vi_forest ?i)" for t
      using f(2) nodes [of t] that ok by (simp add: forest_ok_def)
    show "\<lparr>vn_key = k, vn_value = v\<rparr> \<in> set (rp_nodes t)"
      if "t \<in> set (vi_forest ?i)" "fmlookup (vi_vectors ?i) k = Some v" for t k v using held that by simp
  qed (use ok l in \<open>auto simp: forest_ok_def\<close>)
  note ok' = this
  have "vec_Entries ?i = 0 \<or> vec_Entries ?i = vec_Count idx"
    using Entries_nodes [OF ok'] size by (cases forest) (auto simp: vec_Entries_def)
  moreover have "0 < vi_flushFactor idx" using ok by (simp add: forest_ok_def)
  ultimately have "int (vec_Entries ?i) \<le> vi_flushFactor idx * int (vec_Count idx)"
    by (auto simp: mult_le_cancel_right1)
  then have "vi_ok ?i" using ok' by (simp add: vi_ok_def vec_Count_def)
  moreover have "vec_Flush env order idx = (None, ?i)" by (simp add: vec_Flush_def f(1) Let_def)
  ultimately show ?thesis using size that by blast
qed

lemma vec_maybeFlush_ok:
  assumes fair: "fair_env env" "fair_order order" and ok: "forest_ok idx"
  obtains forest where "vec_maybeFlush env order idx = (None, idx\<lparr>vi_forest := forest\<rparr>)" "vi_ok (idx\<lparr>vi_forest := forest\<rparr>)"
proof (cases "vi_forest idx = [] \<or> int (rp_Len (vi_forest idx ! 0)) \<le> vi_flushFactor idx * int (vec_Count idx)")
  case True
  then have "vi_ok idx" using ok by (auto simp: vi_ok_def vec_Entries_def forest_ok_def)
  moreover have "vec_maybeFlush env order idx = (None, idx)" using True by (auto simp: vec_maybeFlush_def)
  ultimately show ?thesis using that [of "vi_forest idx"] by simp
next
  case False
  then have "vec_maybeFlush env order idx = vec_Flush env order idx" by (simp add: vec_maybeFlush_def)
  then show ?thesis using vec_Flush_ok [OF fair ok] that by metis
qed

section \<open>The map the index is\<close>

type_synonym 'k vector_map = "int \<times> ('k, vector) fmap"

definition map_Insert :: "'k \<Rightarrow> vector \<Rightarrow> 'k vector_map \<Rightarrow> index_error option \<times> 'k vector_map" where
  "map_Insert key v m =
     (if v = [] then (Some ErrInvalidDimension, m)
      else (let width = (if fst m = 0 then int (length v) else fst m)
            in if int (length v) \<noteq> width then (Some ErrInvalidDimension, (width, snd m))
               else (None, (width, fmupd key v (snd m)))))"

datatype 'k vector_op = VInsert 'k vector | VUpdate 'k vector | VDelete 'k | VFlush

fun vmap_op :: "'k vector_op \<Rightarrow> 'k vector_map \<Rightarrow> index_error option \<times> 'k vector_map" where
  "vmap_op (VInsert key v) m = map_Insert key v m"
| "vmap_op (VUpdate key v) m = (if fmlookup (snd m) key = None then (Some ErrIndexNotFound, m) else map_Insert key v m)"
| "vmap_op (VDelete key) m = (if fmlookup (snd m) key = None then (Some ErrIndexNotFound, m) else (None, (fst m, fmdrop key (snd m))))"
| "vmap_op VFlush m = (None, m)"

fun vec_op :: "('k, 'r) rp_env \<Rightarrow> 'k range_order \<Rightarrow> 'k vector_op \<Rightarrow> ('k, 'r) RPTreeIndex \<Rightarrow> vector_error option \<times> ('k, 'r) RPTreeIndex" where
  "vec_op env order (VInsert key v) idx = vec_Insert env order idx key v"
| "vec_op env order (VUpdate key v) idx = vec_Update env order idx key v"
| "vec_op env order (VDelete key) idx = vec_Delete env order idx key"
| "vec_op env order VFlush idx = vec_Flush env order idx"

fun vmap_ops :: "'k vector_op list \<Rightarrow> 'k vector_map \<Rightarrow> index_error option list \<times> 'k vector_map" where
  "vmap_ops [] m = ([], m)"
| "vmap_ops (x # xs) m = (let (e, m1) = vmap_op x m; (es, m2) = vmap_ops xs m1 in (e # es, m2))"

fun vec_ops :: "('k, 'r) rp_env \<Rightarrow> 'k range_order \<Rightarrow> 'k vector_op list \<Rightarrow> ('k, 'r) RPTreeIndex \<Rightarrow> vector_error option list \<times> ('k, 'r) RPTreeIndex" where
  "vec_ops env order [] idx = ([], idx)"
| "vec_ops env order (x # xs) idx =
     (let (e, idx1) = vec_op env order x idx; (es, idx2) = vec_ops env order xs idx1 in (e # es, idx2))"

definition vec_abs :: "('k, 'r) RPTreeIndex \<Rightarrow> 'k vector_map" where
  "vec_abs idx = (vi_dim idx, vi_vectors idx)"

text \<open>What no operation changes.\<close>

definition same_settings :: "('k, 'r) RPTreeIndex \<Rightarrow> ('k, 'r) RPTreeIndex \<Rightarrow> bool" where
  "same_settings a b \<longleftrightarrow> vi_projDim a = vi_projDim b \<and> vi_numTrees a = vi_numTrees b \<and> vi_seed a = vi_seed b \<and>
     vi_flushFactor a = vi_flushFactor b \<and> vi_leafSize a = vi_leafSize b \<and> vi_overfetch a = vi_overfetch b \<and> vi_compare a = vi_compare b"

lemma settings_refl [simp]: "same_settings a a"
  by (simp add: same_settings_def)

lemma settings_trans: "same_settings a b \<Longrightarrow> same_settings b c \<Longrightarrow> same_settings a c"
  by (simp add: same_settings_def)

definition implements :: "vector_error option \<times> ('k, 'r) RPTreeIndex \<Rightarrow> ('k, 'r) RPTreeIndex \<Rightarrow> index_error option \<times> 'k vector_map \<Rightarrow> bool" where
  "implements c idx a \<longleftrightarrow> fst c = map_option IndexErr (fst a) \<and> vec_abs (snd c) = snd a \<and> vi_ok (snd c) \<and> same_settings (snd c) idx"

lemma establish_ok: "vi_ok idx \<Longrightarrow> v \<noteq> [] \<Longrightarrow> vi_ok (establish env v idx) \<and> same_settings (establish env v idx) idx \<and>
    vi_vectors (establish env v idx) = vi_vectors idx \<and> vi_dim (establish env v idx) = (if vi_dim idx = 0 then int (length v) else vi_dim idx)"
proof (cases "vi_dim idx = 0")
  case True
  assume ok: "vi_ok idx" and v: "v \<noteq> []"
  let ?i = "idx\<lparr>vi_dim := int (vector_Dim v)\<rparr>" let ?f = "newForest env ?i"
  have e: "establish env v idx = ?i\<lparr>vi_forest := ?f\<rparr>" using True by (simp add: establish_def Let_def)
  have empty: "vi_vectors idx = fmempty" and ff: "0 < vi_flushFactor idx" using ok True by (auto simp: vi_ok_def forest_ok_def)
  have trees: "rp_ok t \<and> rp_dim t = vector_Dim v \<and> rp_nodes t = []" if "t \<in> set ?f" for t using newForest_trees [OF that] by simp
  have "forest_ok (?i\<lparr>vi_forest := ?f\<rparr>)"
    by (rule forest_okI [of _ "{#}"]) (use empty ff trees v in \<open>auto simp: vector_Dim_def\<close>)
  moreover have "vec_Entries (?i\<lparr>vi_forest := ?f\<rparr>) = 0"
    using trees [of "?f ! 0"] nth_mem [of 0 ?f] by (auto simp: vec_Entries_def rp_Len_def rp_ok_def)
  moreover have "same_settings (?i\<lparr>vi_forest := ?f\<rparr>) idx" by (simp add: same_settings_def)
  ultimately show ?thesis using ff True unfolding e vi_ok_def by (simp add: vector_Dim_def)
qed (simp add: establish_def)

lemma vec_Insert_implements:
  assumes fair: "fair_env env" "fair_order order" and ok: "vi_ok idx"
  shows "implements (vec_Insert env order idx key v) idx (map_Insert key v (vec_abs idx))"
proof (cases "v = []")
  case True
  then show ?thesis using ok by (simp add: vec_Insert_def map_Insert_def implements_def vector_Dim_def)
next
  case ne: False
  let ?i = "establish env v idx"
  note e = establish_ok [OF ok ne, of env]
  have ok1: "vi_ok ?i" and set1: "same_settings ?i idx" and d1: "vi_dim ?i = (if fst (vec_abs idx) = 0 then int (length v) else fst (vec_abs idx))"
    and m1: "vi_vectors ?i = snd (vec_abs idx)" using e by (auto simp: vec_abs_def)
  have spec: "map_Insert key v (vec_abs idx) = (if int (length v) \<noteq> vi_dim ?i then (Some ErrInvalidDimension, (vi_dim ?i, vi_vectors ?i))
      else (None, (vi_dim ?i, fmupd key v (vi_vectors ?i))))"
    unfolding d1 m1 using ne by (simp add: map_Insert_def Let_def)
  have nz: "vi_dim ?i \<noteq> 0" if "int (length v) = vi_dim ?i" using that ne by auto
  consider (bad) "int (length v) \<noteq> vi_dim ?i" | (same) "int (length v) = vi_dim ?i" "fmlookup (vi_vectors ?i) key = Some v"
    | (new) "int (length v) = vi_dim ?i" "fmlookup (vi_vectors ?i) key \<noteq> Some v" by blast
  then show ?thesis
  proof cases
    case bad
    then show ?thesis using ne ok1 set1 unfolding spec
      by (simp add: vec_Insert_def implements_def vector_Dim_def Let_def vec_abs_def)
  next
    case same
    then have "fmupd key v (vi_vectors ?i) = vi_vectors ?i" by (intro fmap_ext) auto
    then show ?thesis using ne ok1 set1 same unfolding spec
      by (simp add: vec_Insert_def implements_def vector_Dim_def Let_def vec_abs_def vec_Retrieve_def)
  next
    case new
    let ?node = "\<lparr>vn_key = key, vn_value = v\<rparr>" and ?j = "?i\<lparr>vi_vectors := fmupd key v (vi_vectors ?i)\<rparr>"
    have fo: "forest_ok ?i" using ok1 by (simp add: vi_ok_def)
    have "\<forall>t \<in> set (vi_forest ?i). rp_ok t \<and> rp_dim t = vector_Dim (vn_value ?node)"
      using fo new(1) by (auto simp: forest_ok_def vector_Dim_def)
    from plant_grows [OF fair(1) this] obtain ts where p: "plant env ?node (vi_forest ?i) = (None, ts)" "grown_by {#?node#} (vi_forest ?i) ts" by blast
    have trees: "rp_ok t \<and> int (rp_dim t) = vi_dim ?i \<and> mset (rp_nodes t) = add_mset ?node (mset (rp_nodes (vi_forest ?i ! 0))) \<and>
        (\<forall>k w. fmlookup (vi_vectors ?i) k = Some w \<longrightarrow> \<lparr>vn_key = k, vn_value = w\<rparr> \<in># mset (rp_nodes t))" if t: "t \<in> set ts" for t
    proof -
      obtain a where a: "a \<in> set (vi_forest ?i)" "rp_ok t" "rp_dim t = rp_dim a" "mset (rp_nodes t) = add_mset ?node (mset (rp_nodes a))"
        using grown_trees [OF p(2) t] by auto
      have "set (rp_nodes t) = insert ?node (set (rp_nodes a))" using mset_eq_setD [of "rp_nodes t" "?node # rp_nodes a"] a(4) by simp
      moreover have "int (rp_dim a) = vi_dim ?i" "mset (rp_nodes a) = mset (rp_nodes (vi_forest ?i ! 0))"
        "\<forall>k w. fmlookup (vi_vectors ?i) k = Some w \<longrightarrow> \<lparr>vn_key = k, vn_value = w\<rparr> \<in> set (rp_nodes a)"
        using fo a(1) by (simp_all add: forest_ok_def)
      ultimately show ?thesis using a(2-4) unfolding set_mset_mset by (metis insert_iff)
    qed
    have "forest_ok (?j\<lparr>vi_forest := ts\<rparr>)"
    proof (rule forest_okI [of _ "add_mset ?node (mset (rp_nodes (vi_forest ?i ! 0)))"])
      show "\<lparr>vn_key = k, vn_value = w\<rparr> \<in> set (rp_nodes t)"
        if "t \<in> set (vi_forest (?j\<lparr>vi_forest := ts\<rparr>))" "fmlookup (vi_vectors (?j\<lparr>vi_forest := ts\<rparr>)) k = Some w" for t k w
        using trees [of t] that by (auto split: if_splits simp flip: set_mset_mset)
    qed (use fo trees new(1) nz list_all2_lengthD [OF p(2) [unfolded grown_by_def]] in \<open>auto simp: forest_ok_def split: if_splits\<close>)
    from vec_maybeFlush_ok [OF fair this] obtain forest where
      f: "vec_maybeFlush env order (?j\<lparr>vi_forest := ts\<rparr>) = (None, ?j\<lparr>vi_forest := forest\<rparr>)" "vi_ok (?j\<lparr>vi_forest := forest\<rparr>)"
      by auto
    have "\<not> (case vec_Retrieve ?i key of Inr existing \<Rightarrow> vector_Equal existing v | Inl _ \<Rightarrow> False)"
      using new(2) by (auto simp: vec_Retrieve_def split: option.splits)
    then have "vec_Insert env order idx key v = (None, ?j\<lparr>vi_forest := forest\<rparr>)"
      using ne new(1) p(1) f(1) by (simp add: vec_Insert_def vector_Dim_def Let_def)
    moreover have "same_settings (?j\<lparr>vi_forest := forest\<rparr>) idx" using set1 by (simp add: same_settings_def)
    ultimately show ?thesis using f(2) new(1) unfolding spec by (simp add: implements_def vec_abs_def)
  qed
qed

lemma vec_Delete_implements:
  assumes fair: "fair_env env" "fair_order order" and ok: "vi_ok idx"
  shows "implements (vec_Delete env order idx key) idx (vmap_op (VDelete key) (vec_abs idx))"
proof (cases "fmlookup (vi_vectors idx) key")
  case None
  then show ?thesis using ok by (simp add: vec_Delete_def implements_def vec_abs_def vec_Retrieve_def)
next
  case (Some v)
  let ?j = "idx\<lparr>vi_vectors := fmdrop key (vi_vectors idx)\<rparr>"
  have "forest_ok ?j" using ok by (auto simp: vi_ok_def forest_ok_def split: if_splits)
  from vec_maybeFlush_ok [OF fair this] obtain forest where
    f: "vec_maybeFlush env order ?j = (None, ?j\<lparr>vi_forest := forest\<rparr>)" "vi_ok (?j\<lparr>vi_forest := forest\<rparr>)" .
  then show ?thesis using Some
    by (simp add: vec_Delete_def implements_def vec_abs_def vec_Retrieve_def same_settings_def)
qed

lemma vec_op_implements:
  assumes fair: "fair_env env" "fair_order order" and ok: "vi_ok idx"
  shows "implements (vec_op env order x idx) idx (vmap_op x (vec_abs idx))"
proof (cases x)
  case (VUpdate key v)
  then show ?thesis using vec_Insert_implements [OF fair ok, of key v] ok
    by (auto simp: vec_Update_def vec_Retrieve_def implements_def vec_abs_def split: option.split)
next
  case VFlush
  have "forest_ok idx" using ok by (simp add: vi_ok_def)
  from vec_Flush_ok [OF fair this] obtain forest where
    f: "vec_Flush env order idx = (None, idx\<lparr>vi_forest := forest\<rparr>)" "vi_ok (idx\<lparr>vi_forest := forest\<rparr>)" by metis
  then show ?thesis using VFlush by (simp add: implements_def vec_abs_def same_settings_def)
next
  case (VInsert key v)
  then show ?thesis using vec_Insert_implements [OF fair ok, of key v] by simp
next
  case (VDelete key)
  show ?thesis using vec_Delete_implements [OF fair ok, of key] unfolding VDelete by (simp only: vec_op.simps)
qed

lemma vec_ops_implement:
  assumes fair: "fair_env env" "fair_order order"
  shows "vi_ok idx \<Longrightarrow> vec_ops env order xs idx = (es, idx') \<Longrightarrow>
    (\<exists>es'. vmap_ops xs (vec_abs idx) = (es', vec_abs idx') \<and> es = map (map_option IndexErr) es') \<and> vi_ok idx' \<and> same_settings idx' idx"
proof (induction xs arbitrary: idx es)
  case (Cons x xs)
  obtain e idx1 where a: "vec_op env order x idx = (e, idx1)" by fastforce
  obtain es1 where b: "vec_ops env order xs idx1 = (es1, idx')" "es = e # es1"
    using Cons.prems(2) a by (auto simp: Let_def split: prod.splits)
  obtain e' where c: "vmap_op x (vec_abs idx) = (e', vec_abs idx1)" "e = map_option IndexErr e'" "vi_ok idx1" "same_settings idx1 idx"
    using vec_op_implements [OF fair Cons.prems(1), of x] a by (cases "vmap_op x (vec_abs idx)") (auto simp: implements_def)
  from Cons.IH [OF c(3) b(1)] show ?case using b(2) c settings_trans by fastforce
qed simp

lemma NewRPTreeIndex_ok:
  assumes "0 \<le> width"
  shows "vi_ok (NewRPTreeIndex env width projDim numTrees seed flushFactor leafSize overfetch compare)" (is "vi_ok ?idx")
    and "vec_abs (NewRPTreeIndex env width projDim numTrees seed flushFactor leafSize overfetch compare) = (width, fmempty)"
proof -
  have ff: "0 < vi_flushFactor ?idx" "vi_vectors ?idx = fmempty" "vi_dim ?idx = width" "vi_numTrees ?idx = numTrees"
    by (simp_all add: NewRPTreeIndex_def default_if_def Let_def)
  have trees: "rp_ok t \<and> int (rp_dim t) = width \<and> rp_nodes t = []" if "t \<in> set (vi_forest ?idx)" for t
    using that newForest_trees assms by (fastforce simp: NewRPTreeIndex_def Let_def split: if_splits)
  have "width \<noteq> 0 \<longrightarrow> length (vi_forest ?idx) = numTrees" using assms by (simp add: NewRPTreeIndex_def Let_def)
  then have "forest_ok ?idx" by (intro forest_okI [of _ "{#}"]) (use assms ff trees in auto)
  moreover have "vec_Entries ?idx = 0"
    using trees [of "vi_forest ?idx ! 0"] by (cases "vi_forest ?idx") (auto simp: vec_Entries_def rp_Len_def rp_ok_def)
  ultimately show "vi_ok ?idx" using ff(1) by (simp add: vi_ok_def)
  show "vec_abs ?idx = (width, fmempty)" using ff by (simp add: vec_abs_def)
qed

end
