(* ===== verification/Index_Vectors_Search.thy ===== *)
theory Index_Vectors_Search
  imports Index_Vectors_Correct
begin

text \<open>
  What a search of the vector index returns: with \<open>k \<le> 0\<close> every accepted live vector, with \<open>k > 0\<close> the best \<open>k\<close> of
  the keys its trees surface. The properties of the index close the theory.
\<close>

definition live_entry :: "('k, vector) fmap \<Rightarrow> vector \<Rightarrow> 'k \<Rightarrow> ('k, real) topKEntry" where
  "live_entry vectors query key = \<lparr>te_key = key, te_score = - point_distance query (the (fmlookup vectors key))\<rparr>"

abbreviation offer_all :: "('k, real) TopK \<Rightarrow> ('k, real) topKEntry list \<Rightarrow> ('k, real) TopK" where
  "offer_all \<equiv> foldl (\<lambda>t e. Offer t (te_key e) (te_score e))"

lemma live_entry_simps [simp]:
  "te_key (live_entry vectors query key) = key"
  "te_score (live_entry vectors query key) = - point_distance query (the (fmlookup vectors key))"
  by (simp_all add: live_entry_def)

section \<open>Every match\<close>

lemma read_every_offers:
  "\<forall>key \<in> set keys. length (the (fmlookup vectors key)) = length query \<Longrightarrow>
   read_every vectors query keep keys t = Inr (offer_all t (map (live_entry vectors query) (filter (accepted keep) keys)))"
  by (induction keys arbitrary: t) (auto simp: vector_Distance_point accepted_def split: option.splits)

lemma drain_offers:
  assumes "total_comparator cmp"
  shows "drain_distances (offer_all (NewTopK k cmp) es) = (map te_key (best cmp k es), map (\<lambda>e. - te_score e) (best cmp k es))"
  using Drain_offers [OF assms, of k es] by (simp add: drain_distances_def)

lemma live_length:
  assumes "forest_ok idx" "int (length query) = vi_dim idx" "fmlookup (vi_vectors idx) key = Some v"
  shows "length v = length query"
  using assms unfolding forest_ok_def by (metis of_nat_eq_iff)

lemma read_all:
  assumes ok: "forest_ok idx" and fits: "int (length query) = vi_dim idx" and order: "fair_order order"
    and cmp: "total_comparator (vi_compare idx)" and k: "k \<le> 0"
  shows "vec_read env order idx query k keep =
    (let es = best (vi_compare idx) 0 (map (live_entry (vi_vectors idx) query) (filter (accepted keep) (order (fmdom (vi_vectors idx)))))
     in Inr (map te_key es, map (\<lambda>e. - te_score e) es))"
proof -
  have "length (the (fmlookup (vi_vectors idx) key)) = length query" if "key \<in> set (order (fmdom (vi_vectors idx)))" for key
    using that order live_length [OF ok fits, of key] by (auto simp: fair_order_def fmlookup_dom_iff)
  then show ?thesis using k by (simp add: vec_read_def read_every_offers drain_offers [OF cmp] Let_def)
qed

lemma read_keeps_all:
  "\<forall>keep \<in> set keeps. rd keep = Inr (f keep, g keep) \<Longrightarrow> read_keeps rd keeps = Inr (map f keeps, map g keeps)"
  by (induction keeps) auto

section \<open>The best of the forest\<close>

text \<open>The keys offered so far: the seen ones that are live.\<close>

definition offered :: "('k, vector) fmap \<Rightarrow> vector \<Rightarrow> ('k, real) TopK \<Rightarrow> 'k list \<Rightarrow> 'k set \<times> ('k, real) TopK \<Rightarrow> bool" where
  "offered vectors query t0 L acc \<longleftrightarrow> distinct L \<and> set L = fst acc \<inter> fset (fmdom vectors) \<and>
     snd acc = offer_all t0 (map (live_entry vectors query) L)"

lemma read_nodes_offers:
  "offered vectors query t0 L (seen, t) \<Longrightarrow> \<forall>key v. fmlookup vectors key = Some v \<longrightarrow> length v = length query \<Longrightarrow>
   \<exists>L' t'. read_nodes vectors query nodes (seen, t) = Inr (seen \<union> vn_key ` set nodes, t') \<and>
     offered vectors query t0 L' (seen \<union> vn_key ` set nodes, t')"
proof (induction nodes arbitrary: L seen t)
  case (Cons node nodes)
  let ?key = "vn_key node"
  show ?case
  proof (cases "?key \<in> seen")
    case True
    then have "seen \<union> vn_key ` set (node # nodes) = seen \<union> vn_key ` set nodes" by auto
    then show ?thesis using Cons.IH [OF Cons.prems] True by auto
  next
    case new: False
    have all: "seen \<union> vn_key ` set (node # nodes) = insert ?key seen \<union> vn_key ` set nodes" by auto
    show ?thesis
    proof (cases "fmlookup vectors ?key")
      case None
      then have "offered vectors query t0 L (insert ?key seen, t)"
        using Cons.prems(1) by (auto simp: offered_def fmdom_notI)
      from Cons.IH [OF this Cons.prems(2)] show ?thesis unfolding all using None new by simp
    next
      case (Some v)
      let ?t = "Offer t ?key (- point_distance query v)"
      have "offered vectors query t0 (L @ [?key]) (insert ?key seen, ?t)"
        using Cons.prems(1) new Some by (auto simp: offered_def fmdomI)
      from Cons.IH [OF this Cons.prems(2)] show ?thesis
        unfolding all using Some new Cons.prems(2) by (simp add: vector_Distance_point)
    qed
  qed
qed auto

definition nearest_keys :: "('k, 'r) rp_env \<Rightarrow> vector \<Rightarrow> int \<Rightarrow> ('k \<Rightarrow> bool) option \<Rightarrow> ('k, 'r) RPTree \<Rightarrow> 'k set" where
  "nearest_keys env query k keep t = (case rp_Nearest env t query k keep of Inl _ \<Rightarrow> {} | Inr out \<Rightarrow> vn_key ` set out)"

lemma read_forest_offers:
  "offered vectors query t0 L (seen, t) \<Longrightarrow> \<forall>key v. fmlookup vectors key = Some v \<longrightarrow> length v = length query \<Longrightarrow>
   \<forall>tree \<in> set ts. rp_ok tree \<and> vector_Dim query = rp_dim tree \<Longrightarrow> 0 < k \<Longrightarrow>
   \<exists>L' t'. read_forest env vectors query k keep ts (seen, t) = Inr (seen \<union> (\<Union>tree \<in> set ts. nearest_keys env query k keep tree), t') \<and>
     offered vectors query t0 L' (seen \<union> (\<Union>tree \<in> set ts. nearest_keys env query k keep tree), t')"
proof (induction ts arbitrary: L seen t)
  case (Cons tree ts)
  obtain out where out: "rp_Nearest env tree query k keep = Inr out" using Nearest_spec [of tree query k env keep] Cons.prems by auto
  from read_nodes_offers [OF Cons.prems(1,2), of out] obtain L1 t1 where
    r: "read_nodes vectors query out (seen, t) = Inr (seen \<union> vn_key ` set out, t1)" "offered vectors query t0 L1 (seen \<union> vn_key ` set out, t1)"
    by blast
  have all: "seen \<union> (\<Union>tree \<in> set (tree # ts). nearest_keys env query k keep tree) =
      (seen \<union> vn_key ` set out) \<union> (\<Union>tree \<in> set ts. nearest_keys env query k keep tree)"
    by (auto simp: nearest_keys_def out)
  show ?case unfolding all using Cons.IH [OF r(2) Cons.prems(2) _ Cons.prems(4)] Cons.prems(3) by (simp add: out r(1))
qed auto

lemma read_best:
  assumes ok: "forest_ok idx" and fits: "int (length query) = vi_dim idx" and cmp: "total_comparator (vi_compare idx)" and k: "0 < k"
  obtains L where "distinct L" "set L = (\<Union>t \<in> set (vi_forest idx). nearest_keys env query k keep t) \<inter> fset (fmdom (vi_vectors idx))"
    "vec_read env order idx query k keep =
      (let es = best (vi_compare idx) k (map (live_entry (vi_vectors idx) query) L) in Inr (map te_key es, map (\<lambda>e. - te_score e) es))"
proof -
  have trees: "\<forall>t \<in> set (vi_forest idx). rp_ok t \<and> vector_Dim query = rp_dim t"
    using ok fits unfolding forest_ok_def vector_Dim_def by (metis of_nat_eq_iff)
  have "offered (vi_vectors idx) query (NewTopK k (vi_compare idx)) [] ({}, NewTopK k (vi_compare idx))" by (simp add: offered_def)
  moreover have "\<forall>key v. fmlookup (vi_vectors idx) key = Some v \<longrightarrow> length v = length query" using live_length [OF ok fits] by blast
  ultimately obtain L t where
    r: "read_forest env (vi_vectors idx) query k keep (vi_forest idx) ({}, NewTopK k (vi_compare idx)) =
        Inr (\<Union>t \<in> set (vi_forest idx). nearest_keys env query k keep t, t)"
      "offered (vi_vectors idx) query (NewTopK k (vi_compare idx)) L (\<Union>t \<in> set (vi_forest idx). nearest_keys env query k keep t, t)"
    using read_forest_offers [where env = env and keep = keep, OF _ _ trees k] by fastforce
  then have t: "t = offer_all (NewTopK k (vi_compare idx)) (map (live_entry (vi_vectors idx) query) L)" by (simp add: offered_def)
  show ?thesis
    by (rule that [of L]) (use r k in \<open>simp_all add: offered_def vec_read_def t drain_offers [OF cmp] Let_def\<close>)
qed

section \<open>What the best of the forest is\<close>

text \<open>A reading lists accepted live keys once, at their own distances, nearest first and equidistant ones by key.\<close>

definition reading_ok :: "('k, 'r) RPTreeIndex \<Rightarrow> vector \<Rightarrow> int \<Rightarrow> ('k \<Rightarrow> bool) option \<Rightarrow> 'k list \<Rightarrow> real list \<Rightarrow> bool" where
  "reading_ok idx query k keep keys ds \<longleftrightarrow> distinct keys \<and> int (length keys) \<le> k \<and>
     (\<forall>key \<in> set keys. key |\<in>| fmdom (vi_vectors idx) \<and> accepted keep key) \<and>
     ds = map (\<lambda>key. point_distance query (the (fmlookup (vi_vectors idx) key))) keys \<and>
     sorted_wrt (\<lambda>a b. fst a < fst b \<or> fst a = fst b \<and> vi_compare idx (snd a) (snd b) \<le> 0) (zip ds keys)"

lemma nearest_keys_accepted:
  assumes "rp_ok t" "vector_Dim query = rp_dim t" "0 < k" "key \<in> nearest_keys env query k keep t"
  shows "accepted keep key"
proof -
  let ?C = "rp_candidates t query (nat k * rp_overfetch t) keep"
  obtain out where out: "rp_Nearest env t query k keep = Inr out" "nearest_of env query (nat k) (set ?C) out"
    using Nearest_spec [OF assms(1-3)] by blast
  then obtain node where n: "key = vn_key node" "node \<in> set ?C" using assms(4) by (auto simp: nearest_keys_def nearest_of_def)
  then have "node \<in># accepted_nodes keep (mset (rp_nodes t))"
    using mset_subset_eqD [OF candidates_accepted(1)] by (metis set_mset_mset)
  then show ?thesis by (simp add: n(1))
qed

lemma best_part: "mset (best cmp k es) \<subseteq># mset es"
proof -
  have "mset (take n (sort_by (rank_le cmp) es)) + mset (drop n (sort_by (rank_le cmp) es)) = mset es" for n
    by (simp flip: mset_append)
  then have "mset (take n (sort_by (rank_le cmp) es)) \<subseteq># mset es" for n by (metis mset_subset_eq_add_left)
  then show ?thesis by (simp add: best_def)
qed

lemma distinct_part:
  assumes "distinct xs" "mset ys \<subseteq># mset xs"
  shows "distinct ys"
proof -
  obtain zs where "mset xs = mset (ys @ zs)"
    using assms(2) by (metis ex_mset mset_append subset_mset.add_diff_inverse)
  then have "distinct (ys @ zs)" using assms(1) mset_eq_imp_distinct_iff by blast
  then show ?thesis by simp
qed

lemma best_live:
  assumes cmp: "total_comparator (vi_compare idx)" and k: "0 < k" and L: "distinct L"
    and live: "\<forall>key \<in> set L. key |\<in>| fmdom (vi_vectors idx) \<and> accepted keep key"
    and es: "es = best (vi_compare idx) k (map (live_entry (vi_vectors idx) query) L)"
  shows "reading_ok idx query k keep (map te_key es) (map (\<lambda>e. - te_score e) es)"
proof -
  let ?d = "\<lambda>key. point_distance query (the (fmlookup (vi_vectors idx) key))"
  have sub: "mset es \<subseteq># mset (map (live_entry (vi_vectors idx) query) L)" unfolding es by (rule best_part)
  have e: "\<exists>key \<in> set L. e = live_entry (vi_vectors idx) query key" if "e \<in> set es" for e
    using mset_subset_eqD [OF sub] that by auto
  have "mset (map te_key es) \<subseteq># mset L"
    using image_mset_subseteq_mono [OF sub, of te_key] by (simp add: multiset.map_comp comp_def)
  then have d: "distinct (map te_key es)" using distinct_part [OF L] by blast
  have ds: "map (\<lambda>e. - te_score e) es = map ?d (map te_key es)" using e by (fastforce simp: live_entry_def)
  have len: "int (length es) \<le> k" unfolding es using k by (simp add: length_best)
  have "sorted_wrt (rank_le (vi_compare idx)) es" unfolding es by (rule sorted_best [OF cmp])
  then have "sorted_wrt (\<lambda>a b. - te_score a < - te_score b \<or> - te_score a = - te_score b \<and> vi_compare idx (te_key a) (te_key b) \<le> 0) es"
    by (rule sorted_wrt_mono_rel [rotated])
      (auto simp: drain_less_def not_less weak_comparator.flip [OF total_comparator.axioms(1) [OF cmp]] split: if_splits)
  then have "sorted_wrt (\<lambda>a b. fst a < fst b \<or> fst a = fst b \<and> vi_compare idx (snd a) (snd b) \<le> 0)
      (zip (map (\<lambda>e. - te_score e) es) (map te_key es))"
    by (simp add: zip_map_map zip_same_conv_map sorted_wrt_map comp_def)
  moreover have "\<forall>key \<in> set (map te_key es). key |\<in>| fmdom (vi_vectors idx) \<and> accepted keep key"
    using e live by fastforce
  ultimately show ?thesis using d ds len unfolding reading_ok_def length_map by (intro conjI)
qed

lemma read_ok:
  assumes ok: "forest_ok idx" and fits: "int (length query) = vi_dim idx" and cmp: "total_comparator (vi_compare idx)" and k: "0 < k"
  shows "\<exists>keys ds. vec_read env order idx query k keep = Inr (keys, ds) \<and> reading_ok idx query k keep keys ds"
proof -
  obtain L where L: "distinct L" "set L = (\<Union>t \<in> set (vi_forest idx). nearest_keys env query k keep t) \<inter> fset (fmdom (vi_vectors idx))"
    "vec_read env order idx query k keep =
      (let es = best (vi_compare idx) k (map (live_entry (vi_vectors idx) query) L) in Inr (map te_key es, map (\<lambda>e. - te_score e) es))"
    using read_best [OF ok fits cmp k] .
  have "rp_ok t \<and> vector_Dim query = rp_dim t" if "t \<in> set (vi_forest idx)" for t
    using ok fits that unfolding forest_ok_def vector_Dim_def by (metis of_nat_eq_iff)
  then have "accepted keep key" if "t \<in> set (vi_forest idx)" "key \<in> nearest_keys env query k keep t" for t key
    using that nearest_keys_accepted [OF _ _ k] by metis
  then have "\<forall>key \<in> set L. key |\<in>| fmdom (vi_vectors idx) \<and> accepted keep key"
    unfolding L(2) by auto
  from best_live [OF cmp k L(1) this refl, of query] L(3) show ?thesis by (simp add: Let_def)
qed

lemma read_keeps_ok:
  assumes "\<And>keep. \<exists>keys ds. rd keep = Inr (keys, ds) \<and> R keep keys ds"
  shows "\<exists>kss dss. read_keeps rd keeps = Inr (kss, dss) \<and> length kss = length keeps \<and> length dss = length keeps \<and>
    (\<forall>i < length keeps. R (keeps ! i) (kss ! i) (dss ! i))"
proof (induction keeps)
  case (Cons keep keeps)
  obtain keys ds where r: "rd keep = Inr (keys, ds)" "R keep keys ds" using assms by blast
  obtain kss dss where IH: "read_keeps rd keeps = Inr (kss, dss)" "length kss = length keeps" "length dss = length keeps"
    "\<forall>i < length keeps. R (keeps ! i) (kss ! i) (dss ! i)" using Cons.IH by blast
  have "\<forall>i < length (keep # keeps). R ((keep # keeps) ! i) ((keys # kss) ! i) ((ds # dss) ! i)"
    using r(2) IH(4) by (auto simp: less_Suc_eq_0_disj)
  then show ?case using r(1) IH by (intro exI [of _ "keys # kss"] exI [of _ "ds # dss"]) simp
qed simp

lemma count_empty: "vec_Count idx = 0 \<longleftrightarrow> vi_vectors idx = fmempty"
  by (simp add: vec_Count_def fcard_0_eq) (metis fmdom_empty fmrestrict_fset_dom fmrestrict_fset_null)

lemma run_settings:
  assumes "vec_ops env order xs (NewRPTreeIndex env width projDim numTrees seed flushFactor leafSize overfetch compare) = (es, idx)"
    "fair_env env" "fair_order order" "0 \<le> width"
  shows "vi_ok idx \<and> vi_compare idx = compare"
  using vec_ops_implement [OF assms(2,3) NewRPTreeIndex_ok(1) [OF assms(4)] assms(1)]
  by (auto simp: same_settings_def NewRPTreeIndex_def Let_def)

text \<open>A sample of what the standard library may do, at which the hypotheses on it hold.\<close>

definition sample_env :: "(nat, nat) rp_env" where
  "sample_env = \<lparr>env_source = (\<lambda>_. 0), env_normal = (\<lambda>r. (1, r + 1)), env_intn = (\<lambda>n r. (r mod n, r + 1)),
     env_slice = sort_key fst, env_bits = (\<lambda>d. if d < 1 then 0 else if d < 2 then 1 else 2)\<rparr>"

definition sample_order :: "nat range_order" where
  "sample_order S = sorted_list_of_fset S"

lemma sample_fair: "fair_env sample_env" "fair_order sample_order"
proof -
  have "sorted_wrt (\<lambda>a b. fst a \<le> fst b) (sort_key fst xs)" for xs :: "(real \<times> nat VectorNode) list"
    using sorted_sort_key [of fst xs] by (simp only: sorted_map)
  then show "fair_env sample_env" by (simp add: fair_env_def sample_env_def)
  show "fair_order sample_order" by (simp add: fair_order_def sample_order_def sorted_list_of_fset.rep_eq)
qed

section \<open>A stale copy takes a place\<close>

lemma leaf_candidates: "rp_root t = RPLeaf data \<Longrightarrow> rp_candidates t p budget keep = filter (\<lambda>node. accepted keep (vn_key node)) data"
  by (simp add: rp_candidates_def admit_def probe_loop.simps)

text \<open>The one nearest of two nodes is the nearer one.\<close>

lemma nearest_of_two:
  assumes near: "nearest_of env p 1 {a, b} out" and keys: "vn_key a \<noteq> vn_key b" and less: "node_prio env p a < node_prio env p b"
  shows "out = [a]"
proof -
  have "card (vn_key ` {a, b}) = 2" using keys by simp
  then have "length out = 1" using near by (simp add: nearest_of_def)
  then obtain z where z: "out = [z]" by (cases out) auto
  have "z \<noteq> b" using near keys less by (auto simp: nearest_of_def z)
  then show ?thesis using near by (auto simp: nearest_of_def z)
qed

text \<open>An index of one tree that is still a leaf.\<close>

abbreviation sample_start :: "(nat, nat) RPTreeIndex" where
  "sample_start \<equiv> NewRPTreeIndex sample_env 1 1 1 0 2 32 32 OrderedComparator"

abbreviation node_a :: "nat VectorNode" where "node_a \<equiv> \<lparr>vn_key = 1, vn_value = [1]\<rparr>"
abbreviation node_b :: "nat VectorNode" where "node_b \<equiv> \<lparr>vn_key = 2, vn_value = [2]\<rparr>"

definition sample_tree :: "nat VectorNode list \<Rightarrow> (nat, nat) RPTree" where
  "sample_tree data = (NewRPTree sample_env 1 1 0 32 32)\<lparr>rp_root := RPLeaf data, rp_length := length data\<rparr>"

definition sample_index :: "nat VectorNode list \<Rightarrow> (nat, vector) fmap \<Rightarrow> (nat, nat) RPTreeIndex" where
  "sample_index data vs = sample_start\<lparr>vi_forest := [sample_tree data], vi_vectors := vs\<rparr>"

lemma sample_tree_fields [simp]: "rp_root (sample_tree data) = RPLeaf data" "rp_length (sample_tree data) = length data"
  "rp_dim (sample_tree data) = 1" "rp_leafSize (sample_tree data) = 32" "rp_overfetch (sample_tree data) = 32"
  by (simp_all add: sample_tree_def NewRPTree_def floor_one_def split_beta Let_def)

lemma sample_index_fields [simp]: "vi_forest (sample_index data vs) = [sample_tree data]" "vi_vectors (sample_index data vs) = vs"
  "vi_dim (sample_index data vs) = 1" "vi_flushFactor (sample_index data vs) = 2" "vi_compare (sample_index data vs) = OrderedComparator"
  by (simp_all add: sample_index_def NewRPTreeIndex_def default_if_def)

lemma sample_insert:
  assumes "length data < 32" "fmlookup vs key = None" "length data < 2 * (fcard (fmdom vs) + 1)"
  shows "vec_Insert sample_env sample_order (sample_index data vs) key [x] =
    (None, sample_index (data @ [\<lparr>vn_key = key, vn_value = [x]\<rparr>]) (fmupd key [x] vs))"
proof -
  let ?node = "\<lparr>vn_key = key, vn_value = [x]\<rparr>"
  have card: "fcard (finsert key (fmdom vs)) = fcard (fmdom vs) + 1" using assms(2) by (simp add: fcard_finsert_disjoint fmdom_notI)
  have "(sample_tree data)\<lparr>rp_root := RPLeaf (data @ [?node]), rp_rng := rp_rng (sample_tree data), rp_length := Suc (length data)\<rparr> =
      sample_tree (data @ [?node])"
    by (cases "NewRPTree sample_env 1 1 0 32 32") (simp add: sample_tree_def)
  then have "plant sample_env ?node [sample_tree data] = (None, [sample_tree (data @ [?node])])"
    using assms(1) by (simp add: rp_Insert_def vector_Dim_def)
  then show ?thesis using assms card
    by (simp add: vec_Insert_def vector_Dim_def establish_def vec_Retrieve_def vec_maybeFlush_def vec_Count_def rp_Len_def)
      (simp add: sample_index_def)
qed

lemma sample_new: "sample_start = sample_index [] fmempty"
proof -
  have "(NewRPTree sample_env 1 1 0 32 32)\<lparr>rp_root := RPLeaf [], rp_length := 0\<rparr> = NewRPTree sample_env 1 1 0 32 32"
    by (simp add: NewRPTree_def split_beta Let_def)
  then show ?thesis by (simp add: sample_index_def sample_tree_def NewRPTreeIndex_def default_if_def newForest_def)
qed

lemma sample_two:
  "vec_ops sample_env sample_order [VInsert 1 [1], VInsert 2 [2]] sample_start =
     ([None, None], sample_index [node_a, node_b] (fmupd 2 [2] (fmupd 1 [1] fmempty)))"
  unfolding sample_new by (simp add: sample_insert fcard_finsert_disjoint)

text \<open>The nodes of a tree are ranked as they are stored, so the copy of a deleted vector can be the one \<open>Nearest\<close> returns;
  the index then drops it and lists nothing, though it holds a live vector that answers the query.\<close>

lemma stale_copy_hides_live:
  "\<exists>idx. vec_ops sample_env sample_order [VInsert 1 [1], VInsert 2 [2], VDelete 1] sample_start = ([None, None, None], idx) \<and>
     vi_dim idx = 1 \<and> vi_vectors idx = fmupd 2 [2] fmempty \<and> vec_Search sample_env sample_order idx [1] 1 [] = Inr ([[]], [[]])"
proof -
  let ?idx = "sample_index [node_a, node_b] (fmupd 2 [2] fmempty)" and ?tree = "sample_tree [node_a, node_b]"
  have "fmdrop 1 (fmupd 2 [2] (fmupd 1 [1] fmempty)) = fmupd (2 :: nat) [2 :: real] fmempty" by (intro fmap_ext) auto
  then have del: "vec_Delete sample_env sample_order (sample_index [node_a, node_b] (fmupd 2 [2] (fmupd 1 [1] fmempty))) 1 = (None, ?idx)"
    by (simp add: vec_Delete_def vec_Retrieve_def vec_maybeFlush_def vec_Count_def rp_Len_def fcard_finsert_disjoint)
      (simp add: sample_index_def)
  have run: "vec_ops sample_env sample_order [VInsert 1 [1], VInsert 2 [2], VDelete 1] sample_start = ([None, None, None], ?idx)"
    using sample_two del by (auto simp: Let_def split: prod.splits)
  have "forest_ok ?idx" using run_settings [OF run sample_fair] by (simp add: vi_ok_def)
  then have ok: "rp_ok ?tree" by (simp add: forest_ok_def)
  obtain out where out: "rp_Nearest sample_env ?tree [1] 1 None = Inr out" "nearest_of sample_env [1] 1 {node_a, node_b} out"
    using Nearest_spec [OF ok, of "[1]" 1 sample_env None] by (auto simp: vector_Dim_def leaf_candidates accepted_def)
  have "node_prio sample_env [1] node_a < node_prio sample_env [1] node_b"
    by (simp add: node_prio_def distancePriority_def sample_env_def point_distance_def)
  then have "out = [node_a]" using nearest_of_two [OF out(2)] by simp
  then have "vec_Search sample_env sample_order ?idx [1] 1 [] = Inr ([[]], [[]])"
    using out(1) by (simp add: vec_Search_def vec_Count_def vector_Dim_def vec_read_def drain_distances_def Drain_def NewTopK_def
      fcard_finsert_disjoint Let_def)
  then show ?thesis using run by (intro exI [of _ ?idx]) simp
qed

section \<open>Properties\<close>

text \<open>C31: Whatever the random draws and the order of ties, a run of inserts, updates, deletes and flushes answers as the
  map of vectors of one dimension does, with its errors; the trees hold every live vector and at most
  \<open>flushFactor\<close> entries per live vector.\<close>

theorem vector_index_is_map:
  assumes env: "fair_env env" "fair_order order" and width: "0 \<le> width"
    and run: "vec_ops env order xs (NewRPTreeIndex env width projDim numTrees seed flushFactor leafSize overfetch compare) = (es, idx)"
  shows "(\<exists>es'. vmap_ops xs (width, fmempty) = (es', vi_dim idx, vi_vectors idx) \<and> es = map (map_option IndexErr) es') \<and>
    int (vec_Entries idx) \<le> vi_flushFactor idx * int (vec_Count idx) \<and>
    (\<forall>t \<in> set (vi_forest idx). rp_ok t \<and>
       (\<forall>key v. fmlookup (vi_vectors idx) key = Some v \<longrightarrow> \<lparr>vn_key = key, vn_value = v\<rparr> \<in> set (rp_nodes t)))"
proof -
  have "vi_ok idx" using run_settings [OF run env width] by blast
  then have "forest_ok idx" "int (vec_Entries idx) \<le> vi_flushFactor idx * int (vec_Count idx)" by (simp_all add: vi_ok_def)
  then show ?thesis
    using vec_ops_implement [OF env NewRPTreeIndex_ok(1) [OF width] run] unfolding NewRPTreeIndex_ok(2) [OF width]
    by (auto simp: forest_ok_def vec_abs_def)
qed

theorem vector_index_is_map_witness:
  "\<exists>idx. vec_ops sample_env sample_order [VInsert 1 [3], VInsert 2 [1, 2], VUpdate 5 [1]]
       (NewRPTreeIndex sample_env 0 4 2 7 0 0 0 OrderedComparator) =
       ([None, Some (IndexErr ErrInvalidDimension), Some (IndexErr ErrIndexNotFound)], idx) \<and>
     vi_dim idx = 1 \<and> vi_vectors idx = fmupd 1 [3] fmempty"
proof -
  obtain es idx where run: "vec_ops sample_env sample_order [VInsert 1 [3], VInsert 2 [1, 2], VUpdate 5 [1]]
      (NewRPTreeIndex sample_env 0 4 2 7 0 0 0 OrderedComparator) = (es, idx)" by fastforce
  from vector_index_is_map [OF sample_fair order_refl run] run show ?thesis
    by (auto simp: map_Insert_def Let_def simp del: vec_ops.simps)
qed

text \<open>C32: A search of the vector index for every match (\<open>k \<le> 0\<close>, as the graph asks) is an exact scan: each reading lists the
  live vectors its keep accepts, nearest first, ties by key; an empty index and a query of another dimension are errors.\<close>

theorem vector_search_is_scan:
  assumes env: "fair_env env" "fair_order order" "fair_order order'" and width: "0 \<le> width" and cmp: "total_comparator compare"
    and run: "vec_ops env order xs (NewRPTreeIndex env width projDim numTrees seed flushFactor leafSize overfetch compare) = (es, idx)"
    and k: "k \<le> 0"
    and near: "near = (\<lambda>keep. best compare 0 (map (live_entry (vi_vectors idx) query)
      (filter (accepted keep) (order' (fmdom (vi_vectors idx))))))"
  shows "vec_Search env order' idx query k keeps =
    (if vi_vectors idx = fmempty then Inl (IndexErr ErrEmptyIndex)
     else if int (length query) \<noteq> vi_dim idx then Inl (IndexErr ErrInvalidDimension)
     else Inr (map (\<lambda>keep. map te_key (near keep)) (if keeps = [] then [None] else keeps),
               map (\<lambda>keep. map (\<lambda>e. - te_score e) (near keep)) (if keeps = [] then [None] else keeps)))"
proof -
  have ok: "forest_ok idx" "vi_compare idx = compare" using run_settings [OF run env(1,2) width] by (auto simp: vi_ok_def)
  have "read_keeps (vec_read env order' idx query k) ks =
      Inr (map (\<lambda>keep. map te_key (near keep)) ks, map (\<lambda>keep. map (\<lambda>e. - te_score e) (near keep)) ks)"
    if "int (length query) = vi_dim idx" for ks
    by (rule read_keeps_all) (use read_all [OF ok(1) that env(3) _ k] cmp ok(2) in \<open>simp add: near Let_def\<close>)
  then show ?thesis by (simp add: vec_Search_def count_empty vector_Dim_def)
qed

theorem vector_search_is_scan_witness:
  "\<exists>idx. vec_ops sample_env sample_order [VInsert 1 [1], VInsert 2 [2], VDelete 1]
       sample_start = ([None, None, None], idx) \<and>
     vec_Search sample_env sample_order idx [1] 0 [] = Inr ([[2]], [[1]])"
proof -
  obtain idx where run: "vec_ops sample_env sample_order [VInsert 1 [1], VInsert 2 [2], VDelete 1]
      sample_start = ([None, None, None], idx)"
    and idx: "vi_dim idx = 1" "vi_vectors idx = fmupd 2 [2] fmempty"
    using stale_copy_hides_live by blast
  have "sample_order {|2|} = [2]" by (simp add: sample_order_def sorted_list_of_fset.rep_eq)
  then show ?thesis
    using vector_search_is_scan [OF sample_fair sample_fair(2) _ ordered_cmp.total_comparator_axioms run order_refl refl, of "[1]" "[]"] run
    by (simp add: idx best_def accepted_def point_distance_def del: vec_ops.simps)
qed

end
