(* ===== verification/Index_Vectors_Exact.thy ===== *)
theory Index_Vectors_Exact
  imports Index_Vectors_Search
begin

text \<open>
  When a search for the k nearest is exact. With no stale copy in the trees and a budget that covers one, the walk of that tree gathers every accepted live
  vector, and the reading is a full one: no accepted vector left out is nearer than one listed. The property closes the theory.
\<close>

lemma best_before:
  assumes cmp: "total_comparator cmp" and a: "a \<in> set (best cmp k es)" and b: "b \<in> set es" "b \<notin> set (best cmp k es)"
  shows "rank_le cmp a b"
proof -
  let ?xs = "sort_by (rank_le cmp) es"
  have "k > 0" "best cmp k es = take (nat k) ?xs" using b by (auto simp: best_def sort_by_set split: if_splits)
  moreover have "sorted_wrt (rank_le cmp) ?xs" using sorted_best [OF cmp, of 0 es] by (simp add: best_def)
  then have "\<forall>x \<in> set (take n ?xs). \<forall>y \<in> set (drop n ?xs). rank_le cmp x y" for n
    by (metis append_take_drop_id sorted_wrt_append)
  moreover have "b \<in> set (take n ?xs) \<or> b \<in> set (drop n ?xs)" for n
    using b(1) by (metis Un_iff append_take_drop_id set_append sort_by_set(1))
  ultimately show ?thesis using a b(2) by metis
qed

definition complete :: "('k, 'r) RPTreeIndex \<Rightarrow> int \<Rightarrow> bool" where
  "complete idx k \<longleftrightarrow> vi_forest idx \<noteq> [] \<and> vec_Entries idx = vec_Count idx \<and>
     vec_Entries idx \<le> nat k * rp_overfetch (vi_forest idx ! 0)"

definition wanted :: "('k, 'r) RPTreeIndex \<Rightarrow> ('k \<Rightarrow> bool) option \<Rightarrow> 'k set" where
  "wanted idx keep = {key. key |\<in>| fmdom (vi_vectors idx) \<and> accepted keep key}"

lemma no_stale:
  assumes ok: "forest_ok idx" and c: "complete idx k"
  shows "set (rp_nodes (vi_forest idx ! 0)) = live_node (vi_vectors idx) ` fset (fmdom (vi_vectors idx))"
proof -
  let ?t = "vi_forest idx ! 0" and ?live = "live_node (vi_vectors idx) ` fset (fmdom (vi_vectors idx))"
  have t: "?t \<in> set (vi_forest idx)" using c by (simp add: complete_def)
  have len: "length (rp_nodes ?t) = card (fset (fmdom (vi_vectors idx)))"
    using Entries_nodes [OF ok] c by (simp add: complete_def vec_Count_def fcard.rep_eq)
  have "\<And>k v. fmlookup (vi_vectors idx) k = Some v \<Longrightarrow> \<lparr>vn_key = k, vn_value = v\<rparr> \<in> set (rp_nodes ?t)"
    using ok t by (simp add: forest_ok_def)
  then have sub: "?live \<subseteq> set (rp_nodes ?t)" by (auto simp: fmlookup_dom_iff)
  have "card ?live = card (fset (fmdom (vi_vectors idx)))" by (rule card_image) (auto simp: inj_on_def)
  then have "card (set (rp_nodes ?t)) \<le> card ?live" using len card_length [of "rp_nodes ?t"] by simp
  then show ?thesis using card_seteq [OF _ sub] by simp
qed

lemma all_candidates:
  assumes ok: "forest_ok idx" and c: "complete idx k" and t: "t = vi_forest idx ! 0"
  shows "set (rp_candidates t query (nat k * rp_overfetch t) keep) = live_node (vi_vectors idx) ` wanted idx keep"
proof -
  let ?cs = "rp_candidates t query (nat k * rp_overfetch t) keep" and ?A = "accepted_nodes keep (mset (rp_nodes t))"
  have "length (rp_nodes t) \<le> nat k * rp_overfetch t" using c Entries_nodes [OF ok] by (simp add: complete_def t)
  then have "size ?A \<le> nat k * rp_overfetch t" using size_filter_mset_lesseq [of _ "mset (rp_nodes t)"] by (metis le_trans size_mset)
  then have "mset ?cs = ?A"
    using candidates_accepted(1) [of t query "nat k * rp_overfetch t" keep] candidates_accepted(2) [of "nat k * rp_overfetch t" t query keep]
    by (metis le_trans mset_subset_size not_less size_mset subset_mset.le_neq_trans)
  then have "set ?cs = {node \<in> set (rp_nodes t). accepted keep (vn_key node)}" by (metis set_mset_filter set_mset_mset)
  then show ?thesis unfolding t no_stale [OF ok c] wanted_def by auto
qed

lemma read_complete:
  assumes ok: "forest_ok idx" and fits: "int (length query) = vi_dim idx" and cmp: "total_comparator (vi_compare idx)" and k: "0 < k"
    and c: "complete idx k" and bits: "\<And>d d'. 0 \<le> d \<Longrightarrow> d \<le> d' \<Longrightarrow> distancePriority env d \<le> distancePriority env d'"
    and read: "vec_read env order idx query k keep = Inr (keys, ds)"
  shows "length keys = min (nat k) (card (wanted idx keep))"
    and "\<forall>a \<in> wanted idx keep - set keys. \<forall>z \<in> set keys.
      distancePriority env (point_distance query (the (fmlookup (vi_vectors idx) z))) \<le>
      distancePriority env (point_distance query (the (fmlookup (vi_vectors idx) a)))"
proof -
  let ?W = "wanted idx keep" and ?t = "vi_forest idx ! 0"
  let ?d = "\<lambda>key. point_distance query (the (fmlookup (vi_vectors idx) key))"
  obtain L where L: "distinct L" "set L = (\<Union>t \<in> set (vi_forest idx). nearest_keys env query k keep t) \<inter> fset (fmdom (vi_vectors idx))"
    "vec_read env order idx query k keep =
      (let es = best (vi_compare idx) k (map (live_entry (vi_vectors idx) query) L) in Inr (map te_key es, map (\<lambda>e. - te_score e) es))"
    using read_best [OF ok fits cmp k] .
  define es where "es = best (vi_compare idx) k (map (live_entry (vi_vectors idx) query) L)"
  have keys: "keys = map te_key es" using read L(3) by (simp add: es_def Let_def)
  have finW: "finite ?W" by (rule finite_subset [of _ "fset (fmdom (vi_vectors idx))"]) (auto simp: wanted_def)
  have trees: "rp_ok t \<and> vector_Dim query = rp_dim t" if "t \<in> set (vi_forest idx)" for t
    using ok fits that unfolding forest_ok_def vector_Dim_def by (metis of_nat_eq_iff)
  have "accepted keep key" if "t \<in> set (vi_forest idx)" "key \<in> nearest_keys env query k keep t" for t key
    using that trees nearest_keys_accepted [OF _ _ k] by metis
  then have LW: "set L \<subseteq> ?W" unfolding L(2) wanted_def by auto
  have t: "?t \<in> set (vi_forest idx)" using c by (simp add: complete_def)
  obtain out where out: "rp_Nearest env ?t query k keep = Inr out" "nearest_of env query (nat k) (live_node (vi_vectors idx) ` ?W) out"
    using Nearest_spec [of ?t query k env keep] trees [OF t] k all_candidates [OF ok c refl] by metis
  let ?N = "vn_key ` set out"
  have kW: "vn_key ` (live_node (vi_vectors idx) ` ?W) = ?W" by (force simp: image_image)
  have N: "card ?N = min (nat k) (card ?W)" "?N \<subseteq> ?W"
  proof -
    have "distinct (map vn_key out)" "length out = min (nat k) (card ?W)" using out(2) kW by (simp_all add: nearest_of_def)
    then show "card ?N = min (nat k) (card ?W)" by (metis distinct_card length_map list.set_map)
    have "set out \<subseteq> live_node (vi_vectors idx) ` ?W" using out(2) by (simp add: nearest_of_def)
    then have "?N \<subseteq> vn_key ` (live_node (vi_vectors idx) ` ?W)" by (rule image_mono)
    then show "?N \<subseteq> ?W" unfolding kW .
  qed
  have near: "distancePriority env (?d z) \<le> distancePriority env (?d a)" if z: "z \<in> ?N" and a: "a \<in> ?W" "a \<notin> ?N" for z a
  proof -
    obtain node where node: "node \<in> set out" "z = vn_key node" using z by auto
    have "node \<in> live_node (vi_vectors idx) ` ?W" using out(2) node(1) by (auto simp: nearest_of_def)
    then have "vn_value node = the (fmlookup (vi_vectors idx) z)" using node(2) by auto
    moreover have "node_prio env query node \<le> node_prio env query (live_node (vi_vectors idx) a)"
      using out(2) node(1) a unfolding nearest_of_def by auto
    ultimately show ?thesis by (simp add: node_prio_def)
  qed
  have NL: "?N \<subseteq> set L" unfolding L(2) using N(2) t out(1) by (auto simp: nearest_keys_def wanted_def)
  have "min (nat k) (card ?W) \<le> length L" "length L \<le> card ?W"
    using card_mono [OF _ NL] card_mono [OF finW LW] N(1) distinct_card [OF L(1)] by auto
  then have len: "length es = min (nat k) (card ?W)" using k by (auto simp: es_def length_best)
  then show "length keys = min (nat k) (card ?W)" by (simp add: keys)
  have e: "e = live_entry (vi_vectors idx) query (te_key e) \<and> te_key e \<in> set L" if e: "e \<in> set es" for e
  proof -
    have "e \<in># mset (map (live_entry (vi_vectors idx) query) L)"
      by (rule mset_subset_eqD [OF best_part]) (use e in \<open>simp add: es_def\<close>)
    then show ?thesis by auto
  qed
  have d0: "0 \<le> ?d key" for key unfolding point_distance_def real_sqrt_ge_0_iff by (rule sum_list_nonneg) auto
  have rank: "?d z \<le> ?d a" if z: "z \<in> set keys" and a: "a \<in> set L" "a \<notin> set keys" for z a
  proof -
    obtain x where x: "x \<in> set es" "z = te_key x" using z by (auto simp: keys)
    have "live_entry (vi_vectors idx) query a \<notin> set es" using a(2) by (force simp: keys)
    then have "rank_le (vi_compare idx) x (live_entry (vi_vectors idx) query a)"
      using x(1) a(1) unfolding es_def by (intro best_before [OF cmp]) auto
    then have "- ?d a \<le> te_score x" by (auto simp: drain_less_def not_less split: if_splits)
    moreover have "te_score x = - ?d z" using e [OF x(1)] x(2) by (metis live_entry_simps(2))
    ultimately show ?thesis by linarith
  qed
  show "\<forall>a \<in> ?W - set keys. \<forall>z \<in> set keys. distancePriority env (?d z) \<le> distancePriority env (?d a)"
  proof (intro ballI)
    fix a z assume a: "a \<in> ?W - set keys" and z: "z \<in> set keys"
    show "distancePriority env (?d z) \<le> distancePriority env (?d a)"
    proof (cases "a \<in> set L")
      case True
      then show ?thesis using rank [OF z] a d0 bits by auto
    next
      case False
      then have aN: "a \<in> ?W" "a \<notin> ?N" using NL a by auto
      show ?thesis
      proof (cases "z \<in> ?N")
        case True
        then show ?thesis using near aN by blast
      next
        case False
        have "card (set keys) \<le> card ?N" using len N(1) card_length [of keys] by (simp add: keys)
        then have "\<not> ?N \<subseteq> set keys"
          using False z card_subset_eq [of "set keys" ?N] card_mono [of "set keys" ?N] by (metis List.finite_set le_antisym)
        then obtain n where n: "n \<in> ?N" "n \<notin> set keys" by blast
        have "distancePriority env (?d z) \<le> distancePriority env (?d n)"
          using rank [OF z _ n(2)] n(1) NL d0 bits by auto
        then show ?thesis using near [OF n(1) aN] by (rule order.trans)
      qed
    qed
  qed
qed

section \<open>The property\<close>

definition order_preserving :: "('k, 'r) rp_env \<Rightarrow> bool" where
  "order_preserving env \<longleftrightarrow> (\<forall>d d'. 0 \<le> d \<longrightarrow> d \<le> d' \<longrightarrow> distancePriority env d \<le> distancePriority env d')"

definition exact_reading :: "('k, 'r) rp_env \<Rightarrow> ('k, 'r) RPTreeIndex \<Rightarrow> vector \<Rightarrow> int \<Rightarrow> ('k \<Rightarrow> bool) option \<Rightarrow> 'k list \<Rightarrow> bool" where
  "exact_reading env idx query k keep keys \<longleftrightarrow> length keys = min (nat k) (card (wanted idx keep)) \<and>
     (\<forall>a \<in> wanted idx keep - set keys. \<forall>z \<in> set keys.
        distancePriority env (point_distance query (the (fmlookup (vi_vectors idx) z))) \<le>
        distancePriority env (point_distance query (the (fmlookup (vi_vectors idx) a))))"

lemma read_exact:
  assumes "forest_ok idx" "int (length query) = vi_dim idx" "total_comparator (vi_compare idx)" "0 < k"
  shows "\<exists>keys ds. vec_read env order idx query k keep = Inr (keys, ds) \<and> reading_ok idx query k keep keys ds \<and>
    (complete idx k \<and> order_preserving env \<longrightarrow> exact_reading env idx query k keep keys)"
proof -
  obtain keys ds where r: "vec_read env order idx query k keep = Inr (keys, ds)" "reading_ok idx query k keep keys ds"
    using read_ok [OF assms] by blast
  then show ?thesis using read_complete [OF assms _ _ r(1)] by (auto simp: exact_reading_def order_preserving_def)
qed



end
