(* ===== verification/Spec2Isabelle.thy ===== *)
theory Spec2Isabelle
  imports Containers_PriorityQueue Containers_TopK Config Query_Stream Query_Remember Hash Store_DB Scheduler_Progress Index_Search_Correct Index_Vectors_Exact
begin

text \<open>
  Fraise is a memory store for agents: facts are written under entities with a REMEMBER command, and read
  back by a RECALL command that ranks them for a phrase, a vector and a time window. This library models its
  core, from the text of a command to the ranked answer, and proves what makes each part correct.

  \<^bold>\<open>The program.\<close> A command enters \<open>pkg/engine\<close>, which keeps an LRU cache of plans (\<open>internal/cache\<close>). A plan is
  made by the lexer and the parser (\<open>internal/query/lexer\<close>, \<open>internal/query/parser\<close>), whose syntax tree becomes a
  query (\<open>internal/query\<close>): a recall or a remember, wrapped in a stream of queries that the optimiser
  (\<open>internal/query/optimisation\<close>) may deduplicate. The scheduler (\<open>pkg/scheduler\<close>) runs streams, writers alone in
  their graph and readers together. A query works on one graph (\<open>internal/graph\<close>), selected from \<open>pkg/db\<close>: nodes for
  entities and facts, relationships between them, search indexes for texts, vectors and times
  (\<open>internal/index\<close>), traversals and score folding (\<open>internal/graph/scoring\<close>). Containers, trees and comparators
  (\<open>internal/containers\<close>, \<open>internal/comparator\<close>) serve all of these. \<open>internal/config\<close> decides the settings.

  \<^bold>\<open>The theories.\<close> \<open>Fraise_Prelude\<close> holds the shared lemmas, \<open>Go_Strings\<close> the Go string functions the source calls.

  \<^item> Containers. \<open>Comparator\<close> (three-way comparators and the locale \<open>total_comparator\<close>), \<open>Sift\<close> and \<open>Containers_Heap\<close>
    (heap.go: an indexed binary heap; sifting restores the heap order and the position table; the heap is a
    priority map), \<open>Containers_PriorityQueue\<close> (priority\_queue.go: a drain is sorted), \<open>Containers_TopK\<close> (topk.go:
    offers and a drain return the k best of a stream), \<open>Containers_Time\<close> (time.go: instants and durations, exact or
    refused), \<open>Cache_LRU\<close> (cache and lru\_cache: refinement of a recency list), \<open>Trees_BTree\<close> and \<open>Trees_BTree_Correct\<close>
    (trees/btree.go: every operation as written, with panics as \<open>None\<close>; the tree refines a sorted set), \<open>Trees_RPTree\<close>,
    \<open>Trees_RPTree_Correct\<close> and \<open>Trees_RPTree_Nearest\<close> (trees/rptree.go: the random-projection tree keeps what it is given;
    the walk of \<open>Nearest\<close> gathers accepted nodes, and its bounded queue, a client of the locale \<open>max_queue\<close>, keeps the k nearest).
  \<^item> Indexes. \<open>Index_Postings\<close>, \<open>Index_Text\<close>, \<open>Index_Text_Correct\<close> (index/btree.go: the full-text index is a map of
    documents whose posting lists count their terms), \<open>Index_Relevance\<close> (bm25.go, match.go), \<open>Index_Search\<close>,
    \<open>Index_Search_Pass\<close>, \<open>Index_Search_Terms\<close>, \<open>Index_Search_Correct\<close> (its Search: slots, windows and shared passes come to a
    scan of the documents), \<open>Index_Vectors\<close>, \<open>Index_Vectors_Correct\<close>, \<open>Index_Vectors_Search\<close>, \<open>Index_Vectors_Exact\<close> (index/rptree.go: the
    vector index is a map of vectors; a search for every match is a scan, one for the k nearest lists live vectors only, and is
    exact when the budget covers a tree without stale copies).
  \<^item> Query language. \<open>Lexer_Tokens\<close> and \<open>Lexer_Scan\<close> (token.go, lexer.go: tokens cover the input, quoting round
    trips), \<open>Parser_AST\<close>, \<open>Parser_State\<close>, \<open>Parser_Grammar\<close>, \<open>Parser_Results\<close> (ast.go, parser.go: errors and resets as
    written; every command returned is well formed).
  \<^item> Execution. \<open>Query_Core\<close> (query.go, recall.go, vector.go), \<open>Query_Stream\<close> (stream.go, optimisation, engine.go's
    plan cache), \<open>Query_Commit\<close> and \<open>Query_Remember\<close> (remember.go and the writes it commits to the graph).
  \<^item> Graph. \<open>Graph_Node\<close> (node.go, entity.go, relationship.go), \<open>Graph_Store\<close> (the state and writes of in\_memory.go,
    and the interface \<open>index_ops\<close> to a search index), \<open>Graph_Invariants\<close> and \<open>Graph_Reachable\<close> (every reachable graph has
    matching halves, texts, anchors and adjacency caches), \<open>Graph_Traversal\<close> (bfs.go, as a step relation over every
    order in which Go ranges over a map), \<open>Graph_Excess\<close> (excess.go), \<open>Graph_Search\<close> and \<open>Graph_Ranking\<close> (Search and its
    stages: a plain ranking specification), \<open>Scoring\<close> (scoring/*.go over the reals), \<open>Index_NLP\<close> (tokenizer, stop words).
  \<^item> Service. \<open>Config\<close> (defaults, adjust, validate), \<open>Hash\<close> (xxhash.go, t1ha.go on 64-bit words: XXH64 separates short texts), \<open>Store_DB\<close> (db.go: lifecycle and selection of graphs),
    \<open>Store_Scheduler\<close>, \<open>Scheduler_Correct\<close>, \<open>Scheduler_Progress\<close> (scheduler.go: workers, lanes and locks as a step
    relation; exclusion, lane order, accounting, termination and progress).

  \<^bold>\<open>How code becomes definitions.\<close> A struct is a record, an interface of our own code a datatype or a record of
  operations, an error a constructor that carries what its message prints, a panic \<open>None\<close>. Methods with a pointer
  receiver return the new state. Loops are recursion with a termination proof. Where the order of a map range,
  a goroutine or a select is free, the model is a relation or takes the order as an argument, and the theorem
  holds for all of them. Each \<open>C\<close>-numbered text names a property; theorems with hypotheses are followed by a
  witness at concrete inputs.

  \<^bold>\<open>Bounds and fuel.\<close> No definition uses fuel: the lexer and the parser recurse on what is left of the input, the
  B-tree on its nodes, a traversal on what it has not visited. Bytes, int64 durations and instants, the
  counts a parser reads and the settings keep their width and their overflow checks. Indexes, capacities and
  lengths, which memory bounds, are natural numbers or integers.

  \<^bold>\<open>Parameters.\<close> The random generator, the order of equal items in \<open>sort.Slice\<close>, \<open>math.Float64bits\<close>, the Porter stemmer,
  Unicode tables, \<open>time.Parse\<close> and the renderings of times, the hash of a text, an embedding and, for the graph, the
  search indexes behind \<open>index_ops\<close> are arguments; what a theorem relies on is a named hypothesis, and its witness
  instantiates it with a concrete function.

  \<^bold>\<open>Not modelled.\<close> Floating-point rounding (scores are real numbers); JSON, HTTP, MCP and command-line glue
  (\<open>pkg/server\<close>, \<open>pkg/mcp\<close>, \<open>cmd\<close>), the logger, flag and TOML decoding, which are input and output; \<open>db.Stats\<close>, a read-only report.
\<close>

end
